(* ===== verification/Js_Prelude.thy ===== *)
theory Js_Prelude
  imports Main "HOL-Library.Word"
begin

text \<open>
  What the components share: the fact collections, the JavaScript values, the string
  functions of the language that the modelled files call, and objects as lists of own
  properties. Strings are lists of 8-bit code units (the code only inspects ASCII characters
  and the Latin-1 space); numbers are the integers the code computes with, and NaN.
\<close>

named_theorems js_simps \<open>evaluation rules of the components' operations\<close>
named_theorems js_inv \<open>invariant preservation facts\<close>

section \<open>Values\<close>

datatype jsval =
    VUndef | VNull | VBool bool | VNum int | VNaN | VStr string
  | VArr "jsval list"
  | VObj nat          \<comment> \<open>an object without a promise method\<close>
  | VFun nat          \<comment> \<open>a function\<close>
  | VPromise nat      \<comment> \<open>a promise (or Deferred) object, by the number of its Deferred\<close>

fun truthy :: "jsval \<Rightarrow> bool" where
  "truthy VUndef = False"
| "truthy VNull = False"
| "truthy (VBool b) = b"
| "truthy (VNum n) = (n \<noteq> 0)"
| "truthy VNaN = False"
| "truthy (VStr s) = (s \<noteq> [])"
| "truthy _ = True"

text \<open>\<open>x != null\<close>: neither undefined nor null.\<close>

fun not_nullish :: "jsval \<Rightarrow> bool" where
  "not_nullish VUndef = False"
| "not_nullish VNull = False"
| "not_nullish _ = True"

text \<open>The strict comparison with undefined and with a boolean constant.\<close>

abbreviation is_undef :: "jsval \<Rightarrow> bool" where "is_undef v \<equiv> v = VUndef"
abbreviation is_false :: "jsval \<Rightarrow> bool" where "is_false v \<equiv> v = VBool False"

section \<open>Strings\<close>

text \<open>
  The characters of \<open>\s\<close> among the code units below 256: tab, line feed, vertical tab, form
  feed, carriage return, space and the no-break space.
\<close>

definition is_ws :: "char \<Rightarrow> bool" where
  "is_ws c \<longleftrightarrow> c \<in> {CHR 0x09, CHR 0x0A, CHR 0x0B, CHR 0x0C, CHR 0x0D, CHR 0x20, CHR 0xA0}"

text \<open>\<open>s.match(/\S+/g) || []\<close>: the maximal runs of characters that are not white space.\<close>

fun ws_words_aux :: "string \<Rightarrow> string \<Rightarrow> string list" where
  "ws_words_aux cur [] = (if cur = [] then [] else [cur])"
| "ws_words_aux cur (c # cs) =
     (if is_ws c then (if cur = [] then ws_words_aux [] cs else cur # ws_words_aux [] cs)
      else ws_words_aux (cur @ [c]) cs)"

definition ws_words :: "string \<Rightarrow> string list" where
  "ws_words s = ws_words_aux [] s"

text \<open>\<open>s.split(c)\<close> for a separator of one character.\<close>

fun split_on :: "char \<Rightarrow> string \<Rightarrow> string list" where
  "split_on d [] = [[]]"
| "split_on d (c # cs) =
     (if c = d then [] # split_on d cs
      else (case split_on d cs of [] \<Rightarrow> [[c]] | w # ws \<Rightarrow> (c # w) # ws))"

text \<open>\<open>xs.join(sep)\<close>.\<close>

fun join_with :: "string \<Rightarrow> string list \<Rightarrow> string" where
  "join_with sep [] = []"
| "join_with sep [x] = x"
| "join_with sep (x # xs) = x @ sep @ join_with sep xs"

text \<open>\<open>s.indexOf(p) === 0\<close> and \<open>s.indexOf(p)\<close>.\<close>

fun starts_with :: "string \<Rightarrow> string \<Rightarrow> bool" where
  "starts_with [] s = True"
| "starts_with (p # ps) [] = False"
| "starts_with (p # ps) (c # cs) = (p = c \<and> starts_with ps cs)"

fun index_of_from :: "int \<Rightarrow> string \<Rightarrow> string \<Rightarrow> int" where
  "index_of_from i p [] = (if p = [] then i else -1)"
| "index_of_from i p (c # cs) =
     (if starts_with p (c # cs) then i else index_of_from (i + 1) p cs)"

definition index_of_str :: "string \<Rightarrow> string \<Rightarrow> int" where
  "index_of_str s p = index_of_from 0 p s"

text \<open>\<open>jQuery.trim\<close> drops the white space at both ends.\<close>

definition js_trim :: "string \<Rightarrow> string" where
  "js_trim s = rev (dropWhile is_ws (rev (dropWhile is_ws s)))"

definition lower_char :: "char \<Rightarrow> char" where
  "lower_char c = (if 65 \<le> (of_char c :: nat) \<and> (of_char c :: nat) \<le> 90
     then char_of ((of_char c :: nat) + 32) else c)"

definition upper_char :: "char \<Rightarrow> char" where
  "upper_char c = (if 97 \<le> (of_char c :: nat) \<and> (of_char c :: nat) \<le> 122
     then char_of ((of_char c :: nat) - 32) else c)"

definition to_lower :: "string \<Rightarrow> string" where
  "to_lower s = map lower_char s"

definition to_upper :: "string \<Rightarrow> string" where
  "to_upper s = map upper_char s"

text \<open>Decimal digits of a number, as string conversion writes them.\<close>

definition digit_char :: "nat \<Rightarrow> char" where
  "digit_char d = char_of (48 + d)"

fun nat_str :: "nat \<Rightarrow> string" where
  "nat_str n = (if n < 10 then [digit_char n] else nat_str (n div 10) @ [digit_char (n mod 10)])"

declare nat_str.simps [simp del]

definition int_str :: "int \<Rightarrow> string" where
  "int_str i = (if i < 0 then CHR ''-'' # nat_str (nat (- i)) else nat_str (nat i))"

text \<open>\<open>value + ""\<close>.\<close>

fun js_str :: "jsval \<Rightarrow> string" where
  "js_str VUndef = ''undefined''"
| "js_str VNull = ''null''"
| "js_str (VBool b) = (if b then ''true'' else ''false'')"
| "js_str (VNum n) = int_str n"
| "js_str VNaN = ''NaN''"
| "js_str (VStr s) = s"
| "js_str (VArr vs) = join_with '','' (map (\<lambda>v. if v = VUndef \<or> v = VNull then [] else js_str v) vs)"
| "js_str (VFun n) = ''function''"
| "js_str _ = ''[object Object]''"

section \<open>Lemmas on strings\<close>

lemma split_on_nonempty [simp]: "split_on d s \<noteq> []"
  by (induction s) (auto split: list.splits)

lemma join_split_on [simp]: "join_with [d] (split_on d s) = s"
proof (induction s)
  case Nil
  show ?case by simp
next
  case (Cons c cs)
  obtain w ws where sp: "split_on d cs = w # ws"
    by (cases "split_on d cs") simp_all
  with Cons.IH have ih: "join_with [d] (w # ws) = cs" by simp
  show ?case
  proof (cases "c = d")
    case True
    with sp ih show ?thesis by simp
  next
    case False
    with sp ih show ?thesis by (cases ws) auto
  qed
qed

lemma split_on_no_sep: "w \<in> set (split_on d s) \<Longrightarrow> d \<notin> set w"
proof (induction s arbitrary: w)
  case Nil
  then show ?case by simp
next
  case (Cons c cs)
  obtain v vs where sp: "split_on d cs = v # vs"
    by (cases "split_on d cs") simp_all
  with Cons.IH [of v] have "d \<notin> set v" by simp
  with Cons sp show ?case by (auto split: if_splits)
qed

lemma split_on_prefix: "d \<notin> set w \<Longrightarrow> split_on d (w @ d # s) = w # split_on d s"
  by (induction w) auto

lemma split_on_single: "d \<notin> set w \<Longrightarrow> split_on d w = [w]"
  by (induction w) auto

lemma split_join_with:
  "ws \<noteq> [] \<Longrightarrow> \<forall>w\<in>set ws. d \<notin> set w \<Longrightarrow> split_on d (join_with [d] ws) = ws"
proof (induction ws rule: induct_list012)
  case 1 then show ?case by simp
next
  case (2 x) then show ?case by (simp add: split_on_single)
next
  case (3 x y zs) then show ?case by (simp add: split_on_prefix)
qed

lemma starts_with_append [simp]: "starts_with p (p @ s)"
  by (induction p) simp_all

lemma starts_with_iff: "starts_with p s \<longleftrightarrow> (\<exists>t. s = p @ t)"
  by (induction p s rule: starts_with.induct) auto

text \<open>A word of a token list: no white space in it.\<close>

fun no_ws :: "string \<Rightarrow> bool" where
  "no_ws [] = True"
| "no_ws (c # cs) = (\<not> is_ws c \<and> no_ws cs)"

definition is_word :: "string \<Rightarrow> bool" where
  "is_word w \<longleftrightarrow> w \<noteq> [] \<and> no_ws w"

lemma no_ws_append [simp]: "no_ws (v @ w) \<longleftrightarrow> no_ws v \<and> no_ws w"
  by (induction v) auto

lemma ws_words_aux_words:
  "no_ws cur \<Longrightarrow> list_all is_word (ws_words_aux cur s)"
proof (induction s arbitrary: cur)
  case Nil
  then show ?case by (simp add: is_word_def)
next
  case (Cons c cs)
  then show ?case by (cases "is_ws c"; cases "cur = []") (simp_all add: is_word_def)
qed

lemma ws_words_all_words: "list_all is_word (ws_words s)"
  unfolding ws_words_def by (rule ws_words_aux_words) simp

lemma ws_words_wf: "w \<in> set (ws_words s) \<Longrightarrow> is_word w"
  using ws_words_all_words [of s] by (simp add: list_all_iff)

lemma ws_words_aux_append_word:
  "no_ws w \<Longrightarrow> ws_words_aux cur (w @ s) = ws_words_aux (cur @ w) s"
  by (induction w arbitrary: cur) simp_all

lemma is_ws_space [simp]: "is_ws (CHR '' '')"
  by (simp add: is_ws_def)

lemma ws_words_Nil [simp]: "ws_words [] = []"
  by (simp add: ws_words_def)

lemma ws_words_word: "is_word w \<Longrightarrow> ws_words w = [w]"
  using ws_words_aux_append_word [of w "[]" "[]"] by (simp add: ws_words_def is_word_def)

lemma ws_words_space_word:
  assumes "is_word w"
  shows "ws_words (w @ CHR '' '' # s) = w # ws_words s"
  using assms ws_words_aux_append_word [of w "[]" "CHR '' '' # s"]
  by (simp add: ws_words_def is_word_def)

lemma ws_words_join: "list_all is_word ws \<Longrightarrow> ws_words (join_with '' '' ws) = ws"
proof (induction ws rule: induct_list012)
  case 1 then show ?case by simp
next
  case (2 x) then show ?case by (simp add: ws_words_word)
next
  case (3 x y zs) then show ?case by (simp add: ws_words_space_word)
qed

lemma nat_str_nonempty [simp]: "nat_str n \<noteq> []"
  by (subst nat_str.simps) simp

lemma lower_idem [simp]: "to_lower (to_lower s) = to_lower s"
proof -
  have "lower_char (lower_char c) = lower_char c" for c by (auto simp: lower_char_def)
  then show ?thesis by (simp add: to_lower_def)
qed

section \<open>Objects as lists of own properties\<close>

text \<open>
  An object that the code uses as a dictionary is the list of its own properties in the order
  of their creation. A property may hold undefined, which \<open>in\<close> tells from an absent one.
\<close>

type_synonym 'v props = "(string \<times> 'v) list"

fun prop_set :: "string \<Rightarrow> 'v \<Rightarrow> 'v props \<Rightarrow> 'v props" where
  "prop_set k v [] = [(k, v)]"
| "prop_set k v ((k', v') # ps) = (if k = k' then (k, v) # ps else (k', v') # prop_set k v ps)"

definition prop_del :: "string \<Rightarrow> 'v props \<Rightarrow> 'v props" where
  "prop_del k ps = filter (\<lambda>p. fst p \<noteq> k) ps"

definition prop_has :: "string \<Rightarrow> 'v props \<Rightarrow> bool" where
  "prop_has k ps \<longleftrightarrow> map_of ps k \<noteq> None"

definition prop_get :: "jsval props \<Rightarrow> string \<Rightarrow> jsval" where
  "prop_get ps k = (case map_of ps k of None \<Rightarrow> VUndef | Some v \<Rightarrow> v)"

definition props_wf :: "'v props \<Rightarrow> bool" where
  "props_wf ps \<longleftrightarrow> distinct (map fst ps)"

lemma map_of_prop_set [simp]: "map_of (prop_set k v ps) = (map_of ps)(k \<mapsto> v)"
  by (induction k v ps rule: prop_set.induct) auto

lemma map_of_prop_del [simp]: "map_of (prop_del k ps) = (map_of ps)(k := None)"
  by (induction ps) (auto simp: prop_del_def)

lemma prop_get_set [simp]: "prop_get (prop_set k v ps) k' = (if k' = k then v else prop_get ps k')"
  by (simp add: prop_get_def)

lemma prop_get_del [simp]: "prop_get (prop_del k ps) k' = (if k' = k then VUndef else prop_get ps k')"
  by (simp add: prop_get_def)

lemma prop_has_set [simp]: "prop_has k' (prop_set k v ps) \<longleftrightarrow> k' = k \<or> prop_has k' ps"
  by (simp add: prop_has_def)

lemma prop_has_del [simp]: "prop_has k' (prop_del k ps) \<longleftrightarrow> k' \<noteq> k \<and> prop_has k' ps"
  by (simp add: prop_has_def)

lemma prop_get_Nil [simp]: "prop_get [] k = VUndef"
  by (simp add: prop_get_def)

lemma prop_has_Nil [simp]: "\<not> prop_has k []"
  by (simp add: prop_has_def)

lemma set_keys_prop_set: "fst ` set (prop_set k v ps) = insert k (fst ` set ps)"
  by (induction k v ps rule: prop_set.induct) auto

lemma props_wf_Nil [simp]: "props_wf []"
  by (simp add: props_wf_def)

lemma props_wf_set [js_inv]: "props_wf ps \<Longrightarrow> props_wf (prop_set k v ps)"
  by (induction k v ps rule: prop_set.induct) (auto simp: props_wf_def set_keys_prop_set)

lemma props_wf_del [js_inv]: "props_wf ps \<Longrightarrow> props_wf (prop_del k ps)"
  by (induction ps) (auto simp: props_wf_def prop_del_def)

lemma prop_set_nonempty [simp]: "prop_set k v ps \<noteq> []"
  by (induction k v ps rule: prop_set.induct) simp_all

end
