(* ===== verification/Core_Util.thy ===== *)
theory Core_Util
  imports Js_Prelude "HOL-Library.Multiset"
begin

text \<open>
  The core utilities of jquery.js: type tests, \<open>jQuery.extend\<close> over an object heap, the array
  helpers (each, map, grep, merge, makeArray, inArray), camelCase, trim, proxy, and the methods of
  a matched set that only rearrange it. Objects live in a heap; an array that is only passed
  around as a value is \<open>VArr\<close>.
\<close>

section \<open>Objects\<close>

text \<open>
  What the tests read of an object: its internal class, its nodeType if it has one, whether it is
  a window, whether it has a constructor whose prototype lacks an own isPrototypeOf, and its own
  enumerable properties.
\<close>

record jobj =
  jclass :: string
  node_type :: "int option"
  is_window :: bool
  foreign_ctor :: bool
  own :: "jsval props"

record heap =
  objs :: "nat \<Rightarrow> jobj"
  next_ref :: nat

definition new_object :: jobj where
  "new_object = \<lparr>jclass = ''Object'', node_type = None, is_window = False, foreign_ctor = False, own = []\<rparr>"

definition new_array :: jobj where
  "new_array = new_object\<lparr>jclass := ''Array''\<rparr>"

definition alloc :: "jobj \<Rightarrow> heap \<Rightarrow> nat \<times> heap" where
  "alloc obj h = (next_ref h, h\<lparr>objs := (objs h)(next_ref h := obj), next_ref := Suc (next_ref h)\<rparr>)"

definition put :: "nat \<Rightarrow> string \<Rightarrow> jsval \<Rightarrow> heap \<Rightarrow> heap" where
  "put a k v h = h\<lparr>objs := (objs h)(a := (objs h a)\<lparr>own := prop_set k v (own (objs h a))\<rparr>)\<rparr>"

section \<open>Type tests\<close>

text \<open>The table class2type, filled from the list of class names.\<close>

definition class2type :: "string \<Rightarrow> string option" where
  "class2type c =
     (if c \<in> set [''Boolean'', ''Number'', ''String'', ''Function'', ''Array'', ''Date'', ''RegExp'',
                  ''Object'', ''Error'']
      then Some (to_lower c) else None)"

fun js_type :: "heap \<Rightarrow> jsval \<Rightarrow> string" where
  "js_type h VUndef = ''undefined''"
| "js_type h VNull = ''null''"
| "js_type h (VBool b) = ''boolean''"
| "js_type h (VNum n) = ''number''"
| "js_type h VNaN = ''number''"
| "js_type h (VStr s) = ''string''"
| "js_type h (VArr xs) = ''array''"
| "js_type h (VFun f) = ''function''"
| "js_type h (VPromise p) = ''object''"
| "js_type h (VObj a) = (case class2type (jclass (objs h a)) of Some t \<Rightarrow> t | None \<Rightarrow> ''object'')"

definition isFunction :: "heap \<Rightarrow> jsval \<Rightarrow> bool" where
  "isFunction h v = (js_type h v = ''function'')"

definition isArray :: "heap \<Rightarrow> jsval \<Rightarrow> bool" where
  "isArray h v = (case v of VArr xs \<Rightarrow> True | VObj a \<Rightarrow> jclass (objs h a) = ''Array'' | _ \<Rightarrow> False)"

definition isWindow :: "heap \<Rightarrow> jsval \<Rightarrow> bool" where
  "isWindow h v = (case v of VObj a \<Rightarrow> is_window (objs h a) | _ \<Rightarrow> False)"

definition has_nodeType :: "heap \<Rightarrow> jsval \<Rightarrow> bool" where
  "has_nodeType h v = (case v of VObj a \<Rightarrow> (case node_type (objs h a) of None \<Rightarrow> False | Some t \<Rightarrow> t \<noteq> 0) | _ \<Rightarrow> False)"

definition isPlainObject :: "heap \<Rightarrow> jsval \<Rightarrow> bool" where
  "isPlainObject h v =
     (if js_type h v \<noteq> ''object'' \<or> has_nodeType h v \<or> isWindow h v then False
      else case v of VObj a \<Rightarrow> \<not> foreign_ctor (objs h a) | _ \<Rightarrow> True)"

text \<open>The names for-in walks: own properties, or the indices of a string or array.\<close>

definition for_in :: "heap \<Rightarrow> jsval \<Rightarrow> string list" where
  "for_in h v =
     (case v of VObj a \<Rightarrow> map fst (own (objs h a))
      | VStr s \<Rightarrow> map nat_str [0..<length s]
      | VArr xs \<Rightarrow> map nat_str [0..<length xs]
      | _ \<Rightarrow> [])"

definition isEmptyObject :: "heap \<Rightarrow> jsval \<Rightarrow> bool" where
  "isEmptyObject h v = (for_in h v = [])"

text \<open>Reading a property.\<close>

definition get_at :: "'a list \<Rightarrow> string \<Rightarrow> 'a option" where
  "get_at xs k = map_option (\<lambda>i. xs ! i) (find (\<lambda>i. nat_str i = k) [0..<length xs])"

definition get_prop :: "heap \<Rightarrow> jsval \<Rightarrow> string \<Rightarrow> jsval" where
  "get_prop h v k =
     (case v of VObj a \<Rightarrow> prop_get (own (objs h a)) k
      | VStr s \<Rightarrow> (case get_at s k of Some c \<Rightarrow> VStr [c] | None \<Rightarrow> VUndef)
      | VArr xs \<Rightarrow> (case get_at xs k of Some x \<Rightarrow> x | None \<Rightarrow> VUndef)
      | _ \<Rightarrow> VUndef)"

text \<open>isArraylike on objects; the operator \<open>in\<close> throws for primitives, the result None.\<close>

definition isArraylike :: "heap \<Rightarrow> jsval \<Rightarrow> bool option" where
  "isArraylike h v =
     (case v of
        VArr xs \<Rightarrow> Some True
      | VFun f \<Rightarrow> Some False
      | VPromise p \<Rightarrow> Some False
      | VObj a \<Rightarrow>
          (let ps = own (objs h a);
               len = (if prop_has ''length'' ps then prop_get ps ''length'' else VBool False) in
           Some
            (if js_type h v = ''function'' \<or> isWindow h v then False
             else if node_type (objs h a) = Some 1 \<and> truthy len then True
             else js_type h v = ''array'' \<or> len = VNum 0
               \<or> (case len of VNum n \<Rightarrow> 0 < n \<and> prop_has (nat_str (nat (n - 1))) ps | _ \<Rightarrow> False)))
      | _ \<Rightarrow> None)"

section \<open>extend\<close>

text \<open>
  One property of one source, with the deep case calling \<open>rec clone copy\<close>. A deep value that is a
  plain object or an array is merged into the target's own object or array of that name, or into
  a new one; undefined is not copied; a value that is the target itself is skipped.
\<close>

definition clone_of :: "heap \<Rightarrow> jsval \<Rightarrow> jsval \<Rightarrow> nat \<times> heap" where
  "clone_of h src copy =
     (case src of
        VObj a \<Rightarrow>
          (if \<not> isPlainObject h copy
           then (if isArray h src then (a, h) else alloc new_array h)
           else (if isPlainObject h src then (a, h) else alloc new_object h))
      | _ \<Rightarrow> alloc (if isPlainObject h copy then new_object else new_array) h)"

definition extend_prop :: "(nat \<Rightarrow> jsval \<Rightarrow> heap \<Rightarrow> heap option) \<Rightarrow> bool \<Rightarrow> nat \<Rightarrow> jsval \<Rightarrow> string
    \<Rightarrow> heap \<Rightarrow> heap option" where
  "extend_prop rec deep target options name h =
     (let src = get_prop h (VObj target) name; copy = get_prop h options name in
      if copy = VObj target then Some h
      else if deep \<and> truthy copy \<and> (isPlainObject h copy \<or> isArray h copy) then
        (case clone_of h src copy of
           (clone, h1) \<Rightarrow>
             (case rec clone copy h1 of
                None \<Rightarrow> None
              | Some h2 \<Rightarrow> Some (put target name (VObj clone) h2)))
      else if copy \<noteq> VUndef then Some (put target name copy h)
      else Some h)"

fun extend_props :: "(nat \<Rightarrow> jsval \<Rightarrow> heap \<Rightarrow> heap option) \<Rightarrow> bool \<Rightarrow> nat \<Rightarrow> jsval \<Rightarrow> string list
    \<Rightarrow> heap \<Rightarrow> heap option" where
  "extend_props rec deep target options [] h = Some h"
| "extend_props rec deep target options (name # names) h =
     (case extend_prop rec deep target options name h of
        None \<Rightarrow> None
      | Some h1 \<Rightarrow> extend_props rec deep target options names h1)"

text \<open>Merging one source, with fuel for the nesting depth; then all sources in order.\<close>

fun extend_obj :: "nat \<Rightarrow> bool \<Rightarrow> nat \<Rightarrow> jsval \<Rightarrow> heap \<Rightarrow> heap option" where
  "extend_obj 0 deep target options h = None"
| "extend_obj (Suc n) deep target options h =
     (if not_nullish options
      then extend_props (extend_obj n deep) deep target options (for_in h options) h
      else Some h)"

fun extend_all :: "nat \<Rightarrow> bool \<Rightarrow> nat \<Rightarrow> jsval list \<Rightarrow> heap \<Rightarrow> heap option" where
  "extend_all n deep target [] h = Some h"
| "extend_all n deep target (options # rest) h =
     (case extend_obj n deep target options h of
        None \<Rightarrow> None
      | Some h1 \<Rightarrow> extend_all n deep target rest h1)"

text \<open>
  The argument handling: an optional leading boolean, a target that is replaced by a new object
  when it is not an object, and, with a single argument, \<open>this\<close> as the target. A function
  or an inline array as the target is outside the model (neither is a heap object here).
\<close>

definition or_object :: "jsval list \<Rightarrow> nat \<Rightarrow> jsval option" where
  "or_object arguments i =
     (if i < length arguments \<and> truthy (arguments ! i) then Some (arguments ! i) else None)"

definition target_ref :: "jsval option \<Rightarrow> heap \<Rightarrow> nat \<times> heap" where
  "target_ref v h = (case v of Some (VObj a) \<Rightarrow> (a, h) | _ \<Rightarrow> alloc new_object h)"

definition jq_extend :: "nat \<Rightarrow> nat \<Rightarrow> jsval list \<Rightarrow> heap \<Rightarrow> (nat \<times> heap) option" where
  "jq_extend n this arguments h =
     (let target0 = or_object arguments 0;
          deep = (target0 = Some (VBool True));
          i = (if deep then 2 else 1);
          target1 = (if deep then or_object arguments 1 else target0) in
      case (if i = length arguments then (this, h) else target_ref target1 h) of
        (target, h1) \<Rightarrow>
          map_option (\<lambda>h2. (target, h2))
            (extend_all n deep target (drop (if i = length arguments then i - 1 else i) arguments) h1))"

section \<open>Arrays\<close>

text \<open>
  The array branch of each: the length is read once, the elements are read when their turn comes
  (the callback may change them), and false stops. The object branch walks the names.
\<close>

function each_array :: "('s \<Rightarrow> nat \<Rightarrow> 'a) \<Rightarrow> ('s \<Rightarrow> nat \<Rightarrow> 'a \<Rightarrow> 's \<times> jsval) \<Rightarrow> nat \<Rightarrow> nat \<Rightarrow> 's \<Rightarrow> 's" where
  "each_array elem callback i len s =
     (if i < len then
        (case callback s i (elem s i) of
           (s', value) \<Rightarrow> if is_false value then s' else each_array elem callback (Suc i) len s')
      else s)"
  by pat_completeness auto
termination by (relation "measure (\<lambda>(elem, callback, i, len, s). len - i)") auto

declare each_array.simps [simp del]

fun each_object :: "('s \<Rightarrow> string \<Rightarrow> 'a) \<Rightarrow> ('s \<Rightarrow> string \<Rightarrow> 'a \<Rightarrow> 's \<times> jsval) \<Rightarrow> string list \<Rightarrow> 's \<Rightarrow> 's" where
  "each_object elem callback [] s = s"
| "each_object elem callback (i # is) s =
     (case callback s i (elem s i) of
        (s', value) \<Rightarrow> if is_false value then s' else each_object elem callback is s')"

text \<open>merge writes the elements of second behind those of first; grep; map with its flattening.\<close>

fun merge_from :: "'a list \<Rightarrow> 'a list \<Rightarrow> 'a list" where
  "merge_from first [] = first"
| "merge_from first (x # second) = merge_from (first @ [x]) second"

function grep_from :: "nat \<Rightarrow> 'a list \<Rightarrow> ('a \<Rightarrow> nat \<Rightarrow> bool) \<Rightarrow> bool \<Rightarrow> 'a list \<Rightarrow> 'a list" where
  "grep_from i elems callback invert matches =
     (if i < length elems then
        (let callbackInverse = (\<not> callback (elems ! i) i); callbackExpect = (\<not> invert) in
         grep_from (Suc i) elems callback invert
           (if callbackInverse \<noteq> callbackExpect then matches @ [elems ! i] else matches))
      else matches)"
  by pat_completeness auto
termination by (relation "measure (\<lambda>(i, elems, callback, invert, matches). length elems - i)") auto

declare grep_from.simps [simp del]

definition grep :: "'a list \<Rightarrow> ('a \<Rightarrow> nat \<Rightarrow> bool) \<Rightarrow> bool \<Rightarrow> 'a list" where
  "grep elems callback invert = grep_from 0 elems callback invert []"

text \<open>concat.apply( [], ret ): arrays are spliced in, one level deep.\<close>

definition flatten1 :: "jsval list \<Rightarrow> jsval list" where
  "flatten1 ret = concat (map (\<lambda>v. case v of VArr xs \<Rightarrow> xs | _ \<Rightarrow> [v]) ret)"

function map_from :: "nat \<Rightarrow> 'a list \<Rightarrow> ('a \<Rightarrow> nat \<Rightarrow> jsval) \<Rightarrow> jsval list \<Rightarrow> jsval list" where
  "map_from i elems callback ret =
     (if i < length elems then
        (let value = callback (elems ! i) i in
         map_from (Suc i) elems callback (if not_nullish value then ret @ [value] else ret))
      else flatten1 ret)"
  by pat_completeness auto
termination by (relation "measure (\<lambda>(i, elems, callback, ret). length elems - i)") auto

declare map_from.simps [simp del]

definition jq_map :: "'a list \<Rightarrow> ('a \<Rightarrow> nat \<Rightarrow> jsval) \<Rightarrow> jsval list" where
  "jq_map elems callback = map_from 0 elems callback []"

fun index_of :: "int \<Rightarrow> 'a \<Rightarrow> 'a list \<Rightarrow> int" where
  "index_of i x [] = -1"
| "index_of i x (y # ys) = (if x = y then i else index_of (i + 1) x ys)"

text \<open>inArray: indexOf from a start index, which counts from the end when it is negative.\<close>

definition inArray :: "'a \<Rightarrow> 'a list option \<Rightarrow> int \<Rightarrow> int" where
  "inArray x arr i =
     (case arr of None \<Rightarrow> -1
      | Some xs \<Rightarrow>
          (let k = (if i < 0 then max 0 (int (length xs) + i) else i) in
           index_of k x (drop (nat k) xs)))"

text \<open>makeArray of a value: strings and non-array-likes are pushed, arrays are merged.\<close>

definition array_like_elems :: "heap \<Rightarrow> jsval \<Rightarrow> jsval list" where
  "array_like_elems h v =
     (case v of VArr xs \<Rightarrow> xs
      | VObj a \<Rightarrow>
          (case prop_get (own (objs h a)) ''length'' of
             VNum n \<Rightarrow> map (\<lambda>j. prop_get (own (objs h a)) (nat_str j)) [0..<nat n]
           | _ \<Rightarrow> [])
      | _ \<Rightarrow> [])"

definition makeArray :: "heap \<Rightarrow> jsval \<Rightarrow> jsval list \<Rightarrow> jsval list" where
  "makeArray h arr results =
     (if not_nullish arr then
        (case arr of
           VStr s \<Rightarrow> merge_from results [arr]
         | _ \<Rightarrow> (if isArraylike h arr = Some True then merge_from results (array_like_elems h arr)
                 else results @ [arr]))
      else results)"

section \<open>Strings\<close>

text \<open>camelCase: a leading -ms- loses its first dash, then every dash-letter is humped.\<close>

definition alnum :: "char \<Rightarrow> bool" where
  "alnum c = (let n = (of_char c :: nat) in (48 \<le> n \<and> n \<le> 57) \<or> (65 \<le> n \<and> n \<le> 90) \<or> (97 \<le> n \<and> n \<le> 122))"

fun replace_dashAlpha :: "string \<Rightarrow> string" where
  "replace_dashAlpha (c # d # cs) =
     (if c = CHR ''-'' \<and> alnum d then upper_char d # replace_dashAlpha cs
      else c # replace_dashAlpha (d # cs))"
| "replace_dashAlpha cs = cs"

definition replace_msPrefix :: "string \<Rightarrow> string" where
  "replace_msPrefix s = (if starts_with ''-ms-'' s then ''ms-'' @ drop 4 s else s)"

definition camelCase :: "string \<Rightarrow> string" where
  "camelCase s = replace_dashAlpha (replace_msPrefix s)"

definition nodeName_is :: "string option \<Rightarrow> string \<Rightarrow> bool" where
  "nodeName_is elem_nodeName name =
     (case elem_nodeName of None \<Rightarrow> False | Some n \<Rightarrow> n \<noteq> [] \<and> to_lower n = to_lower name)"

text \<open>trim of a value: null and undefined give the empty string.\<close>

definition trim :: "string option \<Rightarrow> string" where
  "trim text = (case text of None \<Rightarrow> [] | Some s \<Rightarrow> js_trim s)"

section \<open>proxy\<close>

text \<open>
  Functions carry a guid, 0 when they have none yet. proxy gives the new function the guid of the
  original, which gets the next number if it had none.
\<close>

record fn_state =
  guid_of :: "nat \<Rightarrow> nat"
  next_guid :: nat
  next_fn :: nat

definition proxy :: "jsval \<Rightarrow> fn_state \<Rightarrow> jsval \<times> fn_state" where
  "proxy fn s =
     (case fn of
        VFun f \<Rightarrow>
          (let g = (if guid_of s f \<noteq> 0 then guid_of s f else next_guid s);
               s1 = (if guid_of s f \<noteq> 0 then s else s\<lparr>next_guid := Suc (next_guid s)\<rparr>);
               p = next_fn s in
           (VFun p, s1\<lparr>guid_of := (guid_of s)(f := g, p := g), next_fn := Suc p\<rparr>))
      | _ \<Rightarrow> (VUndef, s))"

section \<open>Matched sets\<close>

record 'e jq_set =
  elems :: "'e list"
  prevObject :: "'e list option"

definition jq_get :: "'e list \<Rightarrow> int \<Rightarrow> 'e option" where
  "jq_get this num =
     (let i = (if num < 0 then num + int (length this) else num) in
      if 0 \<le> i \<and> i < int (length this) then Some (this ! nat i) else None)"

definition pushStack :: "'e list \<Rightarrow> 'e list \<Rightarrow> 'e jq_set" where
  "pushStack this es = \<lparr>elems = merge_from [] es, prevObject = Some this\<rparr>"

definition eq :: "'e list \<Rightarrow> int \<Rightarrow> 'e jq_set" where
  "eq this i =
     (let len = int (length this); j = i + (if i < 0 then len else 0) in
      pushStack this (if 0 \<le> j \<and> j < len then [this ! nat j] else []))"

definition first_set :: "'e list \<Rightarrow> 'e jq_set" where "first_set this = eq this 0"
definition last_set :: "'e list \<Rightarrow> 'e jq_set" where "last_set this = eq this (-1)"

definition slice_list :: "'e list \<Rightarrow> int \<Rightarrow> int option \<Rightarrow> 'e list" where
  "slice_list xs begin fin =
     (let len = int (length xs);
          clip = (\<lambda>i. if i < 0 then max 0 (len + i) else min i len);
          b = clip begin; e = (case fin of None \<Rightarrow> len | Some f \<Rightarrow> clip f) in
      take (nat (e - b)) (drop (nat b) xs))"

definition slice :: "'e list \<Rightarrow> int \<Rightarrow> int option \<Rightarrow> 'e jq_set" where
  "slice this begin fin = pushStack this (slice_list this begin fin)"

definition end_set :: "'e jq_set \<Rightarrow> 'e list" where
  "end_set this = (case prevObject this of Some p \<Rightarrow> p | None \<Rightarrow> [])"

section \<open>Lemmas on heaps\<close>

lemma put_simps [simp]:
  "next_ref (put a k v h) = next_ref h"
  "b \<noteq> a \<Longrightarrow> objs (put a k v h) b = objs h b"
  "jclass (objs (put a k v h) b) = jclass (objs h b)"
  "node_type (objs (put a k v h) b) = node_type (objs h b)"
  "is_window (objs (put a k v h) b) = is_window (objs h b)"
  "foreign_ctor (objs (put a k v h) b) = foreign_ctor (objs h b)"
  by (simp_all add: put_def)

lemma get_put: "get_prop (put a k v h) (VObj b) k' = (if b = a \<and> k' = k then v else get_prop h (VObj b) k')"
  by (auto simp: get_prop_def put_def)

lemma js_type_cong: "(\<And>a. v = VObj a \<Longrightarrow> jclass (objs h' a) = jclass (objs h a)) \<Longrightarrow> js_type h' v = js_type h v"
  by (cases v) auto

lemma plain_cong:
  assumes "\<And>a. v = VObj a \<Longrightarrow> jclass (objs h' a) = jclass (objs h a) \<and> node_type (objs h' a) = node_type (objs h a)
      \<and> is_window (objs h' a) = is_window (objs h a) \<and> foreign_ctor (objs h' a) = foreign_ctor (objs h a)"
  shows "isPlainObject h' v = isPlainObject h v" "isArray h' v = isArray h v"
proof -
  have "js_type h' v = js_type h v" using assms by (intro js_type_cong) auto
  then show "isPlainObject h' v = isPlainObject h v"
    using assms by (auto simp: isPlainObject_def has_nodeType_def isWindow_def split: jsval.split option.split)
  show "isArray h' v = isArray h v"
    using assms by (auto simp: isArray_def split: jsval.split)
qed

section \<open>Shallow extend\<close>

text \<open>What a property of the target is after one source: its own, or the source's defined value.\<close>

definition over :: "nat \<Rightarrow> jsval \<Rightarrow> jsval \<Rightarrow> jsval" where
  "over target v old = (if v = VUndef \<or> v = VObj target then old else v)"

lemma extend_prop_shallow:
  "extend_prop rec False t opts k h =
     Some (if over t (get_prop h opts k) VUndef = VUndef then h else put t k (get_prop h opts k) h)"
  by (auto simp: extend_prop_def over_def Let_def)

lemma get_other: "opts \<noteq> VObj t \<Longrightarrow> get_prop (put t k v h) opts k' = get_prop h opts k'"
  by (cases opts) (auto simp: get_prop_def)

lemma extend_props_shallow:
  "\<exists>h'. extend_props rec False t opts names h = Some h' \<and> next_ref h' = next_ref h
     \<and> (\<forall>a. a \<noteq> t \<longrightarrow> objs h' a = objs h a)
     \<and> (\<forall>k. get_prop h' (VObj t) k =
           (if k \<in> set names then over t (get_prop h opts k) (get_prop h (VObj t) k)
            else get_prop h (VObj t) k))"
proof (induction names arbitrary: h)
  case Nil
  then show ?case by simp
next
  case (Cons name names)
  let ?v = "get_prop h opts name"
  let ?h1 = "if over t ?v VUndef = VUndef then h else put t name ?v h"
  have src: "get_prop ?h1 opts k = get_prop h opts k" for k
  proof (cases "opts = VObj t")
    case True
    then show ?thesis by (simp add: get_put)
  next
    case False
    then show ?thesis by (simp add: get_other)
  qed
  have tgt: "get_prop ?h1 (VObj t) k = (if k = name then over t ?v (get_prop h (VObj t) k) else get_prop h (VObj t) k)" for k
    by (auto simp: get_put over_def)
  from Cons.IH [of ?h1] obtain h' where h': "extend_props rec False t opts names ?h1 = Some h'"
     "next_ref h' = next_ref ?h1" "\<forall>a. a \<noteq> t \<longrightarrow> objs h' a = objs ?h1 a"
     "\<forall>k. get_prop h' (VObj t) k =
           (if k \<in> set names then over t (get_prop ?h1 opts k) (get_prop ?h1 (VObj t) k)
            else get_prop ?h1 (VObj t) k)" by blast
  have "get_prop h' (VObj t) k = (if k \<in> set (name # names)
      then over t (get_prop h opts k) (get_prop h (VObj t) k) else get_prop h (VObj t) k)" for k
    using h'(4) by (simp add: src tgt) (simp add: over_def)
  moreover have "extend_props rec False t opts (name # names) h = Some h'"
    using h'(1) by (simp add: extend_prop_shallow)
  moreover have "next_ref h' = next_ref h" "\<forall>a. a \<noteq> t \<longrightarrow> objs h' a = objs h a"
    using h'(2,3) by auto
  ultimately show ?case by blast
qed

text \<open>The last source that defines a property wins.\<close>

fun last_defined :: "heap \<Rightarrow> nat \<Rightarrow> jsval list \<Rightarrow> string \<Rightarrow> jsval \<Rightarrow> jsval" where
  "last_defined h t [] k old = old"
| "last_defined h t (opts # rest) k old =
     last_defined h t rest k (if not_nullish opts \<and> k \<in> set (for_in h opts) then over t (get_prop h opts k) old else old)"

lemma for_in_frame: "(\<And>a. v = VObj a \<Longrightarrow> objs h' a = objs h a) \<Longrightarrow> for_in h' v = for_in h v"
  by (cases v) (auto simp: for_in_def)

lemma heap_frame: "(\<And>a. v = VObj a \<Longrightarrow> objs h' a = objs h a) \<Longrightarrow> get_prop h' v k = get_prop h v k"
  by (cases v) (auto simp: get_prop_def)

lemma last_defined_frame:
  assumes "\<And>a. a \<noteq> t \<Longrightarrow> objs h' a = objs h a" "VObj t \<notin> set srcs"
  shows "last_defined h' t srcs k old = last_defined h t srcs k old"
  using assms(2)
proof (induction srcs arbitrary: old)
  case (Cons s srcs)
  have same: "objs h' a = objs h a" if "s = VObj a" for a
    using that Cons.prems assms(1) [of a] by (cases "a = t") auto
  have "for_in h' s = for_in h s" "get_prop h' s k = get_prop h s k"
    using same by (auto intro: for_in_frame heap_frame)
  with Cons show ?case by simp
qed simp

lemma extend_all_shallow:
  assumes "VObj t \<notin> set srcs" "0 < n"
  shows "\<exists>h'. extend_all n False t srcs h = Some h' \<and> (\<forall>a. a \<noteq> t \<longrightarrow> objs h' a = objs h a)
     \<and> (\<forall>k. get_prop h' (VObj t) k = last_defined h t srcs k (get_prop h (VObj t) k))"
  using assms(1)
proof (induction srcs arbitrary: h)
  case Nil
  then show ?case by simp
next
  case (Cons s srcs)
  obtain m where n: "n = Suc m" using assms(2) by (cases n) auto
  have "\<exists>h1. extend_obj n False t s h = Some h1 \<and> (\<forall>a. a \<noteq> t \<longrightarrow> objs h1 a = objs h a)
    \<and> (\<forall>k. get_prop h1 (VObj t) k = (if not_nullish s \<and> k \<in> set (for_in h s)
        then over t (get_prop h s k) (get_prop h (VObj t) k) else get_prop h (VObj t) k))"
    using extend_props_shallow [of "extend_obj m False" t s "for_in h s" h] n
    by (cases "not_nullish s") auto
  then obtain h1 where h1: "extend_obj n False t s h = Some h1" "\<forall>a. a \<noteq> t \<longrightarrow> objs h1 a = objs h a"
    "\<forall>k. get_prop h1 (VObj t) k = (if not_nullish s \<and> k \<in> set (for_in h s)
        then over t (get_prop h s k) (get_prop h (VObj t) k) else get_prop h (VObj t) k)"
    by blast
  from Cons.IH [of h1] Cons.prems obtain h' where h': "extend_all n False t srcs h1 = Some h'"
    "\<forall>a. a \<noteq> t \<longrightarrow> objs h' a = objs h1 a"
    "\<forall>k. get_prop h' (VObj t) k = last_defined h1 t srcs k (get_prop h1 (VObj t) k)" by auto
  have "last_defined h1 t srcs k old = last_defined h t srcs k old" for k old
    using h1(2) Cons.prems by (intro last_defined_frame) auto
  with h1 h' show ?case by auto
qed

section \<open>Deep extend\<close>

text \<open>
  Seen from a bound \<open>B\<close>: the objects below it existed before, those from it on are new. The new
  objects hold no plain object or array from below.
\<close>

definition separated :: "nat \<Rightarrow> heap \<Rightarrow> bool" where
  "separated B h \<longleftrightarrow> B \<le> next_ref h \<and>
     (\<forall>a k b. B \<le> a \<longrightarrow> a < next_ref h \<longrightarrow> get_prop h (VObj a) k = VObj b \<longrightarrow>
        (B \<le> b \<and> b < next_ref h) \<or> (\<not> isPlainObject h (VObj b) \<and> \<not> isArray h (VObj b)))"

definition agree :: "nat \<Rightarrow> heap \<Rightarrow> heap \<Rightarrow> bool" where
  "agree B h h' \<longleftrightarrow> (\<forall>a < B. objs h' a = objs h a)"

text \<open>
  The objects below \<open>B\<close> refer only to each other and nest without a cycle: \<open>rk\<close> falls along
  plain objects and arrays.
\<close>

definition ranked :: "(nat \<Rightarrow> nat) \<Rightarrow> nat \<Rightarrow> heap \<Rightarrow> bool" where
  "ranked rk B h \<longleftrightarrow>
     (\<forall>a k. a < B \<longrightarrow>
        (case get_prop h (VObj a) k of
           VArr xs \<Rightarrow> False
         | VPromise p \<Rightarrow> False
         | VObj b \<Rightarrow> b < B \<and> (isPlainObject h (VObj b) \<or> isArray h (VObj b) \<longrightarrow> rk b < rk a)
         | _ \<Rightarrow> True))"

lemma alloc_simps [simp]:
  "fst (alloc obj h) = next_ref h" "next_ref (snd (alloc obj h)) = Suc (next_ref h)"
  "objs (snd (alloc obj h)) a = (if a = next_ref h then obj else objs h a)"
  by (simp_all add: alloc_def)

lemma separated_alloc:
  assumes "separated B h" "own obj = []"
  shows "separated B (snd (alloc obj h))"
  unfolding separated_def
proof (intro conjI allI impI)
  show "B \<le> next_ref (snd (alloc obj h))" using assms by (simp add: separated_def)
  fix a k b
  assume a: "B \<le> a" "a < next_ref (snd (alloc obj h))" "get_prop (snd (alloc obj h)) (VObj a) k = VObj b"
  then have ne: "a \<noteq> next_ref h" using assms(2) by (auto simp: get_prop_def)
  with a have "get_prop h (VObj a) k = VObj b" "a < next_ref h" by (auto simp: get_prop_def)
  with a(1) assms(1) have sep: "(B \<le> b \<and> b < next_ref h) \<or> (\<not> isPlainObject h (VObj b) \<and> \<not> isArray h (VObj b))"
    by (auto simp: separated_def)
  show "B \<le> b \<and> b < next_ref (snd (alloc obj h)) \<or>
      (\<not> isPlainObject (snd (alloc obj h)) (VObj b) \<and> \<not> isArray (snd (alloc obj h)) (VObj b))"
  proof (cases "b = next_ref h")
    case True
    then show ?thesis using assms(1) by (simp add: separated_def)
  next
    case False
    then have "isPlainObject (snd (alloc obj h)) (VObj b) = isPlainObject h (VObj b)"
      "isArray (snd (alloc obj h)) (VObj b) = isArray h (VObj b)"
      by (auto intro!: plain_cong)
    with sep show ?thesis by auto
  qed
qed

lemma separated_put:
  assumes "separated B h" "B \<le> t" "t < next_ref h"
    and "\<And>b. v = VObj b \<Longrightarrow> (B \<le> b \<and> b < next_ref h) \<or> (\<not> isPlainObject h (VObj b) \<and> \<not> isArray h (VObj b))"
  shows "separated B (put t k v h)"
proof -
  have "isPlainObject (put t k v h) w = isPlainObject h w" "isArray (put t k v h) w = isArray h w" for w
    by (intro plain_cong; simp)+
  then show ?thesis using assms by (auto simp: separated_def get_put split: if_splits)
qed

lemma separated_clone:
  assumes "separated B h" "B \<le> t" "t < next_ref h" "get_prop h (VObj t) name = src"
    and "isPlainObject h copy \<or> isArray h copy" "clone_of h src copy = (clone, h1)"
  shows "separated B h1 \<and> agree B h h1 \<and> next_ref h \<le> next_ref h1 \<and> B \<le> clone \<and> clone < next_ref h1"
proof -
  have fresh: ?thesis if "(clone, h1) = alloc obj h" "own obj = []" for obj
  proof -
    have c: "clone = next_ref h" and h1: "h1 = snd (alloc obj h)"
      using that(1) by (metis alloc_simps(1) fst_conv, metis snd_conv)
    have "separated B h1" unfolding h1 by (rule separated_alloc [OF assms(1) that(2)])
    moreover have "B \<le> next_ref h" using assms(1) by (simp add: separated_def)
    ultimately show ?thesis unfolding c h1 by (auto simp: agree_def)
  qed
  have own: "own new_object = []" "own new_array = []" by (simp_all add: new_object_def new_array_def)
  show ?thesis
  proof (cases "\<exists>a. src = VObj a \<and> clone = a \<and> h1 = h \<and> (isPlainObject h src \<or> isArray h src)")
    case True
    then have "B \<le> clone \<and> clone < next_ref h"
      using assms(1-4) by (auto simp: separated_def)
    with True assms(1) show ?thesis by (auto simp: agree_def)
  next
    case False
    then have "(clone, h1) = alloc new_object h \<or> (clone, h1) = alloc new_array h"
      using assms(6) by (auto simp: clone_of_def split: jsval.splits if_splits)
    then show ?thesis using fresh own by blast
  qed
qed

lemma agree_trans: "agree B h h1 \<Longrightarrow> agree B h1 h2 \<Longrightarrow> agree B h h2"
  by (simp add: agree_def)

lemma agree_put: "B \<le> t \<Longrightarrow> agree B h (put t k v h)"
  by (simp add: agree_def)

lemma ranked_agree:
  assumes "ranked rk B h" "agree B h h1"
  shows "ranked rk B h1"
proof -
  have "get_prop h1 (VObj a) k = get_prop h (VObj a) k" if "a < B" for a k
    using that assms(2) by (simp add: get_prop_def agree_def)
  moreover have "isPlainObject h1 (VObj b) = isPlainObject h (VObj b)" "isArray h1 (VObj b) = isArray h (VObj b)"
    if "b < B" for b
    using that assms(2) by (auto intro!: plain_cong simp: agree_def)
  ultimately show ?thesis using assms(1) by (auto simp: ranked_def split: jsval.splits)
qed

text \<open>What a deep merge of an old object into a new one guarantees.\<close>

definition deep_spec :: "(nat \<Rightarrow> nat) \<Rightarrow> nat \<Rightarrow> nat \<Rightarrow> (nat \<Rightarrow> jsval \<Rightarrow> heap \<Rightarrow> heap option) \<Rightarrow> bool" where
  "deep_spec rk B n rec \<longleftrightarrow>
     (\<forall>t a h. separated B h \<longrightarrow> ranked rk B h \<longrightarrow> B \<le> t \<longrightarrow> t < next_ref h \<longrightarrow> a < B \<longrightarrow> rk a < n \<longrightarrow>
        (\<exists>h'. rec t (VObj a) h = Some h' \<and> separated B h' \<and> agree B h h' \<and> next_ref h \<le> next_ref h'))"

lemma extend_prop_deep:
  assumes rec: "deep_spec rk B n rec" and sep: "separated B h" and rk: "ranked rk B h"
    and t: "B \<le> t" "t < next_ref h" and a: "a < B" "rk a < Suc n"
  shows "\<exists>h'. extend_prop rec True t (VObj a) name h = Some h' \<and> separated B h' \<and> agree B h h'
     \<and> next_ref h \<le> next_ref h'"
proof -
  let ?copy = "get_prop h (VObj a) name"
  let ?src = "get_prop h (VObj t) name"
  have val: "case ?copy of VArr xs \<Rightarrow> False | VPromise p \<Rightarrow> False
      | VObj b \<Rightarrow> b < B \<and> (isPlainObject h (VObj b) \<or> isArray h (VObj b) \<longrightarrow> rk b < rk a) | _ \<Rightarrow> True"
    using rk a by (simp add: ranked_def)
  show ?thesis
  proof (cases "truthy ?copy \<and> (isPlainObject h ?copy \<or> isArray h ?copy)")
    case True
    then obtain b where b: "?copy = VObj b" "b < B" "rk b < n"
      using val a(2) by (cases ?copy) (auto simp: isPlainObject_def isArray_def)
    obtain clone h1 where cl: "clone_of h ?src ?copy = (clone, h1)" by (cases "clone_of h ?src ?copy")
    note s1 = separated_clone [OF sep t refl _ cl]
    have h1: "separated B h1" "agree B h h1" "next_ref h \<le> next_ref h1" "B \<le> clone" "clone < next_ref h1"
      using s1 True by auto
    have "\<exists>h2. rec clone (VObj b) h1 = Some h2 \<and> separated B h2 \<and> agree B h1 h2 \<and> next_ref h1 \<le> next_ref h2"
      using rec h1 ranked_agree [OF rk h1(2)] b unfolding deep_spec_def by blast
    then obtain h2 where h2: "rec clone (VObj b) h1 = Some h2" "separated B h2" "agree B h1 h2"
      "next_ref h1 \<le> next_ref h2" by blast
    have "separated B (put t name (VObj clone) h2)"
      using h1 h2 t by (intro separated_put) auto
    moreover have "agree B h (put t name (VObj clone) h2)"
      using h1(2) h2(3) t by (meson agree_put agree_trans)
    moreover have "?copy \<noteq> VObj t" using b t by auto
    ultimately show ?thesis
      using True cl b h1 h2 by (auto simp: extend_prop_def Let_def)
  next
    case False
    then have res: "extend_prop rec True t (VObj a) name h
        = Some (if ?copy = VObj t \<or> ?copy = VUndef then h else put t name ?copy h)"
      by (auto simp: extend_prop_def Let_def)
    have "separated B (put t name ?copy h)"
      using sep t False by (intro separated_put) auto
    then show ?thesis using res sep agree_put [OF t(1), of h name ?copy] by (auto simp: agree_def)
  qed
qed

lemma extend_props_deep:
  assumes "deep_spec rk B n rec" "separated B h" "ranked rk B h" "B \<le> t" "t < next_ref h" "a < B" "rk a < Suc n"
  shows "\<exists>h'. extend_props rec True t (VObj a) names h = Some h' \<and> separated B h' \<and> agree B h h'
     \<and> next_ref h \<le> next_ref h'"
  using assms(2-)
proof (induction names arbitrary: h)
  case Nil
  then show ?case by (auto simp: agree_def)
next
  case (Cons name names)
  obtain h1 where h1: "extend_prop rec True t (VObj a) name h = Some h1" "separated B h1" "agree B h h1"
    "next_ref h \<le> next_ref h1"
    using extend_prop_deep [OF assms(1) Cons.prems] by blast
  have "ranked rk B h1" using Cons.prems(2) h1(3) by (rule ranked_agree)
  then obtain h2 where h2: "extend_props rec True t (VObj a) names h1 = Some h2" "separated B h2"
    "agree B h1 h2" "next_ref h1 \<le> next_ref h2"
    using Cons.IH [of h1] Cons.prems h1 by auto
  then show ?case using h1 agree_trans by fastforce
qed

lemma extend_obj_deep: "deep_spec rk B n (extend_obj n True)"
proof (induction n)
  case 0
  then show ?case by (simp add: deep_spec_def)
next
  case (Suc n)
  show ?case unfolding deep_spec_def
  proof (intro allI impI)
    fix t a h
    assume "separated B h" "ranked rk B h" "B \<le> t" "t < next_ref h" "a < B" "rk a < Suc n"
    from extend_props_deep [OF Suc this, of "for_in h (VObj a)"]
    show "\<exists>h'. extend_obj (Suc n) True t (VObj a) h = Some h' \<and> separated B h' \<and> agree B h h'
        \<and> next_ref h \<le> next_ref h'" by simp
  qed
qed

section \<open>Array helpers\<close>

lemma merge_from_append [simp]: "merge_from first second = first @ second"
  by (induction first second rule: merge_from.induct) auto

lemma grep_from_eq:
  "i \<le> length es \<Longrightarrow> grep_from i es cb invert ms =
     ms @ map fst (filter (\<lambda>(x, j). cb x j \<noteq> invert) (zip (drop i es) [i..<length es]))"
proof (induction "length es - i" arbitrary: i ms)
  case 0
  then show ?case by (simp add: grep_from.simps)
next
  case (Suc n)
  then have i: "i < length es" by simp
  then have "drop i es = es ! i # drop (Suc i) es" "[i..<length es] = i # [Suc i..<length es]"
    by (simp_all add: Cons_nth_drop_Suc upt_conv_Cons)
  with Suc i show ?case by (subst grep_from.simps) auto
qed

lemma grep_eq:
  "grep es cb invert = map fst (filter (\<lambda>(x, j). cb x j \<noteq> invert) (zip es [0..<length es]))"
  by (simp add: grep_def grep_from_eq)

lemma map_from_eq:
  "i \<le> length es \<Longrightarrow> map_from i es cb ret =
     flatten1 (ret @ filter not_nullish (map (\<lambda>(x, j). cb x j) (zip (drop i es) [i..<length es])))"
proof (induction "length es - i" arbitrary: i ret)
  case 0
  then show ?case by (simp add: map_from.simps)
next
  case (Suc n)
  then have i: "i < length es" by simp
  then have "drop i es = es ! i # drop (Suc i) es" "[i..<length es] = i # [Suc i..<length es]"
    by (simp_all add: Cons_nth_drop_Suc upt_conv_Cons)
  with Suc i show ?case by (subst map_from.simps) auto
qed

lemma index_of_spec:
  "index_of i x xs = (if x \<in> set xs then i + int (length (takeWhile (\<lambda>y. y \<noteq> x) xs)) else -1)"
  if "0 \<le> i"
  using that by (induction i x xs rule: index_of.induct) auto

section \<open>camelCase\<close>

fun no_dash_alnum :: "string \<Rightarrow> bool" where
  "no_dash_alnum (c # d # cs) = (\<not> (c = CHR ''-'' \<and> alnum d) \<and> no_dash_alnum (d # cs))"
| "no_dash_alnum _ = True"

fun no_double_dash :: "string \<Rightarrow> bool" where
  "no_double_dash (c # d # cs) = (\<not> (c = CHR ''-'' \<and> d = CHR ''-'') \<and> no_double_dash (d # cs))"
| "no_double_dash _ = True"

lemma replace_fixed: "no_dash_alnum s \<Longrightarrow> replace_dashAlpha s = s"
  by (induction s rule: replace_dashAlpha.induct) auto

lemma upper_not_dash [simp]: "alnum d \<Longrightarrow> upper_char d \<noteq> CHR ''-''"
proof
  assume d: "alnum d" "upper_char d = CHR ''-''"
  then have "(of_char (upper_char d) :: nat) = 45" by simp
  with d(1) show False by (auto simp: upper_char_def alnum_def Let_def split: if_splits)
qed

lemma dash_not_alnum [simp]: "\<not> alnum (CHR ''-'')"
  by (simp add: alnum_def)

lemma no_dash_alnum_Cons: "c \<noteq> CHR ''-'' \<Longrightarrow> no_dash_alnum (c # cs) = no_dash_alnum cs"
  by (cases cs) auto

lemma no_double_dash_tl: "no_double_dash (c # cs) \<Longrightarrow> no_double_dash cs"
  by (cases cs) auto

lemma replace_head: "d \<noteq> CHR ''-'' \<Longrightarrow> \<exists>r. replace_dashAlpha (d # cs) = d # r"
  by (cases cs) auto

lemma replace_no_dash_alnum: "no_double_dash s \<Longrightarrow> no_dash_alnum (replace_dashAlpha s)"
proof (induction s rule: replace_dashAlpha.induct)
  case (1 c d cs)
  show ?case
  proof (cases "c = CHR ''-'' \<and> alnum d")
    case True
    have "no_double_dash cs" using 1(3) by (auto dest: no_double_dash_tl)
    with True 1(1) show ?thesis by (simp add: no_dash_alnum_Cons)
  next
    case False
    have ih: "no_dash_alnum (replace_dashAlpha (d # cs))" using 1(2) False 1(3) by simp
    show ?thesis
    proof (cases "c = CHR ''-''")
      case True
      then have "d \<noteq> CHR ''-''" using 1(3) by simp
      then obtain r where "replace_dashAlpha (d # cs) = d # r" using replace_head by blast
      with ih True False show ?thesis by simp
    next
      case False
      with ih show ?thesis by (simp add: no_dash_alnum_Cons)
    qed
  qed
qed auto

lemma no_double_dash_msPrefix:
  assumes "no_double_dash s" shows "no_double_dash (replace_msPrefix s)"
proof (cases "starts_with ''-ms-'' s")
  case True
  then obtain t where s: "s = ''-ms-'' @ t" by (auto simp: starts_with_iff)
  with assms show ?thesis by (cases t) (auto simp: replace_msPrefix_def)
next
  case False
  with assms show ?thesis by (simp add: replace_msPrefix_def)
qed

lemma camelCase_fixed: "no_dash_alnum s \<Longrightarrow> camelCase s = s"
proof -
  assume s: "no_dash_alnum s"
  have "\<not> starts_with ''-ms-'' s"
  proof
    assume "starts_with ''-ms-'' s"
    then obtain t where "s = ''-ms-'' @ t" by (auto simp: starts_with_iff)
    with s show False by (simp add: alnum_def)
  qed
  with s show ?thesis by (simp add: camelCase_def replace_msPrefix_def replace_fixed)
qed

section \<open>Properties\<close>

text \<open>
  A shallow extend always returns. Each property of the target becomes the value of the last
  source that holds a defined value for it (a value that is the target itself is skipped), all
  other properties of the target stay, and no other object changes.
\<close>

theorem extend_shallow:
  assumes "target_ref (or_object arguments 0) h = (t, h1)" and "arguments = v # srcs" and "srcs \<noteq> []"
    and "v \<noteq> VBool True" and "VObj t \<notin> set srcs" and "0 < n"
  shows "\<exists>h'. jq_extend n this arguments h = Some (t, h')
     \<and> (\<forall>a. a \<noteq> t \<longrightarrow> objs h' a = objs h1 a)
     \<and> (\<forall>k. get_prop h' (VObj t) k = last_defined h1 t srcs k (get_prop h1 (VObj t) k))"
proof -
  have len: "length arguments \<noteq> 1" using assms(2,3) by simp
  have nodeep: "or_object arguments 0 \<noteq> Some (VBool True)" using assms(2,4) by (simp add: or_object_def)
  have ext: "jq_extend n this arguments h = map_option (\<lambda>h2. (t, h2)) (extend_all n False t srcs h1)"
    using assms(1,2) len nodeep by (simp add: jq_extend_def Let_def)
  from extend_all_shallow [OF assms(5,6), of h1] show ?thesis unfolding ext by auto
qed

definition example_heap :: heap where
  "example_heap = \<lparr>objs = (\<lambda>_. new_object)
     (0 := new_object\<lparr>own := [(''a'', VNum 1), (''b'', VNum 2)]\<rparr>,
      1 := new_object\<lparr>own := [(''b'', VNum 3), (''c'', VUndef), (''d'', VObj 2)]\<rparr>,
      2 := new_array\<lparr>own := [(''0'', VNum 4)]\<rparr>), next_ref = 3\<rparr>"

theorem extend_shallow_witness:
  "\<exists>h'. jq_extend 1 9 [VObj 0, VObj 1, VNull] example_heap = Some (0, h')
     \<and> get_prop h' (VObj 0) ''a'' = VNum 1 \<and> get_prop h' (VObj 0) ''b'' = VNum 3
     \<and> get_prop h' (VObj 0) ''d'' = VObj 2"
proof -
  have "target_ref (or_object [VObj 0, VObj 1, VNull] 0) example_heap = (0, example_heap)"
    by (simp add: target_ref_def or_object_def)
  from extend_shallow [OF this refl, of 1 9] obtain h' where
    "jq_extend 1 9 [VObj 0, VObj 1, VNull] example_heap = Some (0, h')"
    "\<And>k. get_prop h' (VObj 0) k = last_defined example_heap 0 [VObj 1, VNull] k (get_prop example_heap (VObj 0) k)"
    by auto
  then show ?thesis
    by (simp add: example_heap_def for_in_def get_prop_def over_def new_object_def prop_get_def)
qed



text \<open>
  grep keeps, in order, exactly the elements for which the callback answers unlike \<open>invert\<close>, and
  a grep and its inverted grep split the array between them.
\<close>

theorem grep_partition:
  "grep es cb invert = map fst (filter (\<lambda>(x, i). cb x i \<noteq> invert) (zip es [0..<length es]))
   \<and> mset (grep es cb False) + mset (grep es cb True) = mset es"
proof -
  have "mset (map fst (filter P ps)) + mset (map fst (filter (\<lambda>x. \<not> P x) ps)) = mset (map fst ps)"
    for P and ps :: "('a \<times> nat) list"
    by (induction ps) auto
  from this [of "\<lambda>(x, i). cb x i \<noteq> False" "zip es [0..<length es]"] show ?thesis
    by (simp add: grep_eq case_prod_unfold)
qed

text \<open>
  camelCase is idempotent on strings without two dashes in a row, and leaves no dash before a
  letter or digit there. (With two dashes the second pass would hump again.)
\<close>

theorem camelCase_idempotent:
  assumes "no_double_dash s"
  shows "camelCase (camelCase s) = camelCase s \<and> no_dash_alnum (camelCase s)"
proof -
  have "no_dash_alnum (camelCase s)"
    unfolding camelCase_def by (intro replace_no_dash_alnum no_double_dash_msPrefix assms)
  then show ?thesis by (simp add: camelCase_fixed)
qed

theorem camelCase_idempotent_witness:
  "camelCase ''-ms-border-top-width'' = ''msBorderTopWidth''
   \<and> camelCase ''msBorderTopWidth'' = ''msBorderTopWidth''"
proof -
  have c: "camelCase ''-ms-border-top-width'' = ''msBorderTopWidth''"
    by code_simp
  have "no_double_dash ''-ms-border-top-width''" by simp
  from camelCase_idempotent [OF this] c show ?thesis by simp
qed

text \<open>
  The method eq picks the element at an index counted from the front or, when negative, from
  the back, and the empty set when the index is out of range; end leads back to the set it came
  from.
\<close>

theorem eq_selects:
  "elems (eq this i) =
     (if - int (length this) \<le> i \<and> i < int (length this)
      then [this ! nat (i mod int (length this))] else [])
   \<and> end_set (eq this i) = this"
proof -
  have "nat (i mod int (length this)) = nat i" if "0 \<le> i" "i < int (length this)"
    using that by simp
  moreover have "i mod int (length this) = i + int (length this)" if "i < 0" "- int (length this) \<le> i"
  proof -
    have "(i + int (length this)) mod int (length this) = i + int (length this)"
      using that by (intro mod_pos_pos_trivial) auto
    then show ?thesis by simp
  qed
  ultimately show ?thesis
    by (auto simp: eq_def pushStack_def end_set_def Let_def)
qed

end
