(* ===== verification/Data_Store.thy ===== *)
theory Data_Store
  imports Core_Util
begin

text \<open>
  The data module of jquery.js: the Data objects (one private, one for users) that keep a property
  cache per owner, found through a numeric key written on the owner; the HTML5 data attributes;
  and the methods data and removeData of a matched set. The key of an owner in instance \<open>i\<close> is
  \<open>unlocks i owner\<close> (the non-enumerable expando property), the caches are \<open>caches i\<close>.
\<close>

section \<open>State\<close>

record owner_info =
  nodeType :: "int option"       \<comment> \<open>None: the owner has no nodeType\<close>
  attributes :: "(string \<times> string) list"

record data_state =
  uid :: nat
  unlocks :: "nat \<Rightarrow> nat \<Rightarrow> nat option"
  caches :: "nat \<Rightarrow> nat \<Rightarrow> jsval props option"

definition data_priv :: nat where "data_priv = 0"
definition data_user :: nat where "data_user = 1"

text \<open>After the two instances took the first two numbers for their expandos.\<close>

definition data_init :: data_state where
  "data_init = \<lparr>uid = 3, unlocks = (\<lambda>_ _. None), caches = (\<lambda>_ _. None)\<rparr>"

definition acceptData :: "owner_info \<Rightarrow> bool" where
  "acceptData owner = (nodeType owner = Some 1 \<or> nodeType owner = Some 9
     \<or> (case nodeType owner of None \<Rightarrow> True | Some t \<Rightarrow> t = 0))"

section \<open>The Data object\<close>

text \<open>
  \<open>info\<close> gives the nodes' fields. key returns 0 for an owner that takes no data; the cache of key 0
  is a getter that makes a new object at each read, so that what is written to it is lost.
\<close>

definition set_cache :: "nat \<Rightarrow> nat \<Rightarrow> jsval props option \<Rightarrow> data_state \<Rightarrow> data_state" where
  "set_cache i k c s = s\<lparr>caches := (caches s)(i := (caches s i)(k := c))\<rparr>"

definition set_unlock :: "nat \<Rightarrow> nat \<Rightarrow> nat \<Rightarrow> data_state \<Rightarrow> data_state" where
  "set_unlock i owner k s = s\<lparr>unlocks := (unlocks s)(i := (unlocks s i)(owner := Some k))\<rparr>"

definition Data_key :: "(nat \<Rightarrow> owner_info) \<Rightarrow> nat \<Rightarrow> nat \<Rightarrow> data_state \<Rightarrow> nat \<times> data_state" where
  "Data_key info i owner s =
     (if \<not> acceptData (info owner) then (0, s)
      else
        (let (unlock, s1) =
           (case unlocks s i owner of
              Some k \<Rightarrow> (if k \<noteq> 0 then (k, s) else (uid s, set_unlock i owner (uid s) (s\<lparr>uid := Suc (uid s)\<rparr>)))
            | None \<Rightarrow> (uid s, set_unlock i owner (uid s) (s\<lparr>uid := Suc (uid s)\<rparr>))) in
         (unlock, if caches s1 i unlock = None then set_cache i unlock (Some []) s1 else s1)))"

definition cache_at :: "nat \<Rightarrow> nat \<Rightarrow> data_state \<Rightarrow> jsval props" where
  "cache_at i unlock s = (if unlock = 0 then [] else case caches s i unlock of Some c \<Rightarrow> c | None \<Rightarrow> [])"

definition write_cache :: "nat \<Rightarrow> nat \<Rightarrow> jsval props \<Rightarrow> data_state \<Rightarrow> data_state" where
  "write_cache i unlock c s = (if unlock = 0 then s else set_cache i unlock (Some c) s)"

datatype data_arg = KeyArg string | ObjArg "jsval props"

text \<open>
  An object is copied by extend into an empty cache, which skips undefined values, and property by
  property into any other.
\<close>

definition assign_props :: "jsval props \<Rightarrow> jsval props \<Rightarrow> jsval props" where
  "assign_props cache data =
     (if cache = [] then fold (\<lambda>(k, v) c. if v = VUndef then c else prop_set k v c) data cache
      else fold (\<lambda>(k, v) c. prop_set k v c) data cache)"

definition Data_set :: "(nat \<Rightarrow> owner_info) \<Rightarrow> nat \<Rightarrow> nat \<Rightarrow> data_arg \<Rightarrow> jsval \<Rightarrow> data_state
    \<Rightarrow> jsval props \<times> data_state" where
  "Data_set info i owner data value s =
     (case Data_key info i owner s of
        (unlock, s1) \<Rightarrow>
          (let cache = cache_at i unlock s1;
               cache' = (case data of KeyArg k \<Rightarrow> prop_set k value cache | ObjArg ps \<Rightarrow> assign_props cache ps) in
           (cache', write_cache i unlock cache' s1)))"

definition Data_get_all :: "(nat \<Rightarrow> owner_info) \<Rightarrow> nat \<Rightarrow> nat \<Rightarrow> data_state \<Rightarrow> jsval props \<times> data_state" where
  "Data_get_all info i owner s = (case Data_key info i owner s of (unlock, s1) \<Rightarrow> (cache_at i unlock s1, s1))"

definition Data_get :: "(nat \<Rightarrow> owner_info) \<Rightarrow> nat \<Rightarrow> nat \<Rightarrow> string \<Rightarrow> data_state \<Rightarrow> jsval \<times> data_state" where
  "Data_get info i owner key s = (case Data_get_all info i owner s of (cache, s1) \<Rightarrow> (prop_get cache key, s1))"

text \<open>
  access: the results are the whole cache, a value, or, after writing without a value, the key
  argument itself.
\<close>

datatype data_result = RCache "jsval props" | RValue jsval | RArg data_arg

definition Data_access :: "(nat \<Rightarrow> owner_info) \<Rightarrow> nat \<Rightarrow> nat \<Rightarrow> data_arg option \<Rightarrow> jsval \<Rightarrow> data_state
    \<Rightarrow> data_result \<times> data_state" where
  "Data_access info i owner key value s =
     (case key of
        None \<Rightarrow> (case Data_get_all info i owner s of (c, s1) \<Rightarrow> (RCache c, s1))
      | Some arg \<Rightarrow>
          (case arg of
             KeyArg k \<Rightarrow>
               (if k \<noteq> [] \<and> value = VUndef then
                  (case Data_get info i owner k s of
                     (stored, s1) \<Rightarrow>
                       (if stored \<noteq> VUndef then (RValue stored, s1)
                        else (case Data_get info i owner (camelCase k) s1 of (v, s2) \<Rightarrow> (RValue v, s2))))
                else (case Data_set info i owner arg value s of
                        (_, s1) \<Rightarrow> (if value \<noteq> VUndef then RValue value else RArg arg, s1)))
           | ObjArg ps \<Rightarrow>
               (case Data_set info i owner arg value s of
                  (_, s1) \<Rightarrow> (if value \<noteq> VUndef then RValue value else RArg arg, s1))))"

datatype key_arg = AllKeys | OneKey string | KeyArray "string list"

text \<open>The names to delete.\<close>

definition removal_names :: "jsval props \<Rightarrow> key_arg \<Rightarrow> string list" where
  "removal_names cache key =
     (case key of
        AllKeys \<Rightarrow> []
      | KeyArray ks \<Rightarrow> ks @ map camelCase ks
      | OneKey k \<Rightarrow>
          (let camel = camelCase k in
           if prop_has k cache then [k, camel]
           else if prop_has camel cache then [camel]
           else ws_words camel))"

definition Data_remove :: "(nat \<Rightarrow> owner_info) \<Rightarrow> nat \<Rightarrow> nat \<Rightarrow> key_arg \<Rightarrow> data_state \<Rightarrow> data_state" where
  "Data_remove info i owner key s =
     (case Data_key info i owner s of
        (unlock, s1) \<Rightarrow>
          (if key = AllKeys then write_cache i unlock [] s1
           else
             (let cache = cache_at i unlock s1 in
              write_cache i unlock (fold prop_del (rev (removal_names cache key)) cache) s1)))"

definition Data_hasData :: "nat \<Rightarrow> nat \<Rightarrow> data_state \<Rightarrow> bool" where
  "Data_hasData i owner s =
     (case unlocks s i owner of
        None \<Rightarrow> False
      | Some k \<Rightarrow> cache_at i k s \<noteq> [])"

definition Data_discard :: "nat \<Rightarrow> nat \<Rightarrow> data_state \<Rightarrow> data_state" where
  "Data_discard i owner s =
     (case unlocks s i owner of
        None \<Rightarrow> s
      | Some k \<Rightarrow> (if k \<noteq> 0 then set_cache i k None s else s))"

section \<open>HTML5 data attributes\<close>

text \<open>The attribute name of a key: a dash before every capital, then lower case.\<close>

definition is_upper :: "char \<Rightarrow> bool" where
  "is_upper c = (65 \<le> (of_char c :: nat) \<and> (of_char c :: nat) \<le> 90)"

definition multiDash :: "string \<Rightarrow> string" where
  "multiDash key = concat (map (\<lambda>c. if is_upper c then [CHR ''-'', c] else [c]) key)"

definition data_attr_name :: "string \<Rightarrow> string" where
  "data_attr_name key = ''data-'' @ to_lower (multiDash key)"

definition brace_shaped :: "string \<Rightarrow> bool" where
  "brace_shaped s = (2 \<le> length s \<and>
     ((hd s = CHR ''{'' \<and> last s = CHR ''}'') \<or> (hd s = CHR ''['' \<and> last s = CHR '']'')))"

text \<open>
  The conversion of an attribute's text. \<open>num_of\<close> is the number a text denotes when it is the
  canonical text of that number, \<open>parse_json\<close> the parser, None when it throws.
\<close>

definition convert_attr :: "(string \<Rightarrow> jsval option) \<Rightarrow> (string \<Rightarrow> jsval option) \<Rightarrow> string \<Rightarrow> jsval" where
  "convert_attr num_of parse_json data =
     (if data = ''true'' then VBool True
      else if data = ''false'' then VBool False
      else if data = ''null'' then VNull
      else case num_of data of
        Some n \<Rightarrow> n
      | None \<Rightarrow>
          (if brace_shaped data then (case parse_json data of Some v \<Rightarrow> v | None \<Rightarrow> VStr data)
           else VStr data))"

definition dataAttr :: "(string \<Rightarrow> jsval option) \<Rightarrow> (string \<Rightarrow> jsval option) \<Rightarrow> (nat \<Rightarrow> owner_info) \<Rightarrow> nat
    \<Rightarrow> string \<Rightarrow> jsval \<Rightarrow> data_state \<Rightarrow> jsval \<times> data_state" where
  "dataAttr num_of parse_json info elem key data s =
     (if data = VUndef \<and> nodeType (info elem) = Some 1 then
        (case map_of (attributes (info elem)) (data_attr_name key) of
           Some text \<Rightarrow>
             (let v = convert_attr num_of parse_json text in
              (v, snd (Data_set info data_user elem (KeyArg key) v s)))
         | None \<Rightarrow> (VUndef, s))
      else (data, s))"

section \<open>jQuery.data and the methods of a set\<close>

definition jQuery_hasData :: "nat \<Rightarrow> data_state \<Rightarrow> bool" where
  "jQuery_hasData elem s = (Data_hasData data_user elem s \<or> Data_hasData data_priv elem s)"

definition jQuery_data :: "(nat \<Rightarrow> owner_info) \<Rightarrow> nat \<Rightarrow> data_arg option \<Rightarrow> jsval \<Rightarrow> data_state
    \<Rightarrow> data_result \<times> data_state" where
  "jQuery_data info elem name data = Data_access info data_user elem name data"

definition jQuery_removeData :: "(nat \<Rightarrow> owner_info) \<Rightarrow> nat \<Rightarrow> key_arg \<Rightarrow> data_state \<Rightarrow> data_state" where
  "jQuery_removeData info elem name = Data_remove info data_user elem name"

definition jQuery_privData :: "(nat \<Rightarrow> owner_info) \<Rightarrow> nat \<Rightarrow> data_arg option \<Rightarrow> jsval \<Rightarrow> data_state
    \<Rightarrow> data_result \<times> data_state" where
  "jQuery_privData info elem name data = Data_access info data_priv elem name data"

definition jQuery_removePrivData :: "(nat \<Rightarrow> owner_info) \<Rightarrow> nat \<Rightarrow> key_arg \<Rightarrow> data_state \<Rightarrow> data_state" where
  "jQuery_removePrivData info elem name = Data_remove info data_priv elem name"

text \<open>The loop of data() over the attributes, from the last to the first.\<close>

fun load_attrs :: "(string \<Rightarrow> jsval option) \<Rightarrow> (string \<Rightarrow> jsval option) \<Rightarrow> (nat \<Rightarrow> owner_info) \<Rightarrow> nat
    \<Rightarrow> string list \<Rightarrow> data_state \<Rightarrow> data_state" where
  "load_attrs num_of parse_json info elem [] s = s"
| "load_attrs num_of parse_json info elem (n # ns) s =
     (if starts_with ''data-'' n then
        (let name = camelCase (drop 5 n); v = fst (Data_get info data_user elem name s) in
         load_attrs num_of parse_json info elem ns (snd (dataAttr num_of parse_json info elem name v s)))
      else load_attrs num_of parse_json info elem ns s)"

definition fn_data_all :: "(string \<Rightarrow> jsval option) \<Rightarrow> (string \<Rightarrow> jsval option) \<Rightarrow> (nat \<Rightarrow> owner_info)
    \<Rightarrow> nat list \<Rightarrow> data_state \<Rightarrow> jsval props option \<times> data_state" where
  "fn_data_all num_of parse_json info this s =
     (case this of
        [] \<Rightarrow> (None, s)
      | elem # _ \<Rightarrow>
          (let s1 = snd (Data_get_all info data_user elem s);
               s2 = (if nodeType (info elem) = Some 1
                        \<and> \<not> truthy (fst (Data_get info data_priv elem ''hasDataAttrs'' s1)) then
                       snd (Data_set info data_priv elem (KeyArg ''hasDataAttrs'') (VBool True)
                         (load_attrs num_of parse_json info elem (rev (map fst (attributes (info elem))))
                           (snd (Data_get info data_priv elem ''hasDataAttrs'' s1))))
                     else if nodeType (info elem) = Some 1
                       then snd (Data_get info data_priv elem ''hasDataAttrs'' s1) else s1) in
           (Some (fst (Data_get_all info data_user elem s2)), s2)))"

definition fn_data_object :: "(nat \<Rightarrow> owner_info) \<Rightarrow> nat list \<Rightarrow> jsval props \<Rightarrow> data_state \<Rightarrow> data_state" where
  "fn_data_object info this ps s = fold (\<lambda>e s. snd (Data_set info data_user e (ObjArg ps) VUndef s)) this s"

definition fn_data_get :: "(string \<Rightarrow> jsval option) \<Rightarrow> (string \<Rightarrow> jsval option) \<Rightarrow> (nat \<Rightarrow> owner_info)
    \<Rightarrow> nat list \<Rightarrow> string \<Rightarrow> data_state \<Rightarrow> jsval \<times> data_state" where
  "fn_data_get num_of parse_json info this key s =
     (case this of
        [] \<Rightarrow> (VUndef, s)
      | elem # _ \<Rightarrow>
          (case Data_get info data_user elem key s of
             (d1, s1) \<Rightarrow>
               if d1 \<noteq> VUndef then (d1, s1)
               else (case Data_get info data_user elem (camelCase key) s1 of
                  (d2, s2) \<Rightarrow>
                    if d2 \<noteq> VUndef then (d2, s2)
                    else dataAttr num_of parse_json info elem (camelCase key) VUndef s2)))"

definition data_set_one :: "(nat \<Rightarrow> owner_info) \<Rightarrow> string \<Rightarrow> jsval \<Rightarrow> nat \<Rightarrow> data_state \<Rightarrow> data_state" where
  "data_set_one info key value elem s =
     (case Data_get info data_user elem (camelCase key) s of
        (d, s1) \<Rightarrow>
          (let s2 = snd (Data_set info data_user elem (KeyArg (camelCase key)) value s1) in
           if CHR ''-'' \<in> set key \<and> d \<noteq> VUndef
           then snd (Data_set info data_user elem (KeyArg key) value s2) else s2))"

definition fn_data_set :: "(nat \<Rightarrow> owner_info) \<Rightarrow> nat list \<Rightarrow> string \<Rightarrow> jsval \<Rightarrow> data_state \<Rightarrow> data_state" where
  "fn_data_set info this key value s =
     (if value = VUndef then s else fold (data_set_one info key value) this s)"

definition fn_removeData :: "(nat \<Rightarrow> owner_info) \<Rightarrow> nat list \<Rightarrow> key_arg \<Rightarrow> data_state \<Rightarrow> data_state" where
  "fn_removeData info this key s = fold (\<lambda>e s. Data_remove info data_user e key s) this s"

section \<open>The invariant and the abstract store\<close>

text \<open>
  Keys are given once: each instance has at most one owner per key, and all keys and caches are
  below the counter. \<open>store_of\<close> is what an owner's cache holds.
\<close>

definition data_inv :: "data_state \<Rightarrow> bool" where
  "data_inv s \<longleftrightarrow>
     0 < uid s
     \<and> (\<forall>i owner k. unlocks s i owner = Some k \<longrightarrow> 0 < k \<and> k < uid s)
     \<and> (\<forall>i k. caches s i k \<noteq> None \<longrightarrow> k < uid s)
     \<and> (\<forall>i o1 o2 k. unlocks s i o1 = Some k \<longrightarrow> unlocks s i o2 = Some k \<longrightarrow> o1 = o2)"

definition store_of :: "data_state \<Rightarrow> nat \<Rightarrow> nat \<Rightarrow> jsval props" where
  "store_of s i owner = (case unlocks s i owner of None \<Rightarrow> [] | Some k \<Rightarrow> cache_at i k s)"

lemma data_inv_init [js_inv]: "data_inv data_init"
  by (simp add: data_inv_def data_init_def)

lemma set_simps [simp]:
  "uid (set_cache i k c s) = uid s" "unlocks (set_cache i k c s) = unlocks s"
  "caches (set_cache i k c s) = (caches s)(i := (caches s i)(k := c))"
  "uid (set_unlock i owner k s) = uid s" "caches (set_unlock i owner k s) = caches s"
  "unlocks (set_unlock i owner k s) = (unlocks s)(i := (unlocks s i)(owner := Some k))"
  by (simp_all add: set_cache_def set_unlock_def)

lemma Data_key_reject: "\<not> acceptData (info owner) \<Longrightarrow> Data_key info i owner s = (0, s)"
  by (simp add: Data_key_def)

lemma Data_key_old:
  assumes "data_inv s" "acceptData (info owner)" "unlocks s i owner = Some k"
  shows "Data_key info i owner s = (k, if caches s i k = None then set_cache i k (Some []) s else s)"
proof -
  have "k \<noteq> 0" using assms by (auto simp: data_inv_def)
  with assms show ?thesis by (simp add: Data_key_def)
qed

lemma Data_key_new:
  assumes "data_inv s" "acceptData (info owner)" "unlocks s i owner = None"
  shows "Data_key info i owner s =
     (uid s, set_cache i (uid s) (Some []) (set_unlock i owner (uid s) (s\<lparr>uid := Suc (uid s)\<rparr>)))"
proof -
  have "caches s i (uid s) = None" using assms by (metis data_inv_def less_irrefl)
  with assms show ?thesis by (simp add: Data_key_def)
qed

lemma Data_key_spec:
  assumes inv: "data_inv s" and acc: "acceptData (info owner)" and key: "Data_key info i owner s = (k, s1)"
  shows "data_inv s1 \<and> unlocks s1 i owner = Some k \<and> 0 < k \<and> caches s1 i k \<noteq> None
     \<and> (\<forall>j o'. store_of s1 j o' = store_of s j o')"
proof (cases "unlocks s i owner")
  case (Some u)
  have k: "k = u" and s1: "s1 = (if caches s i u = None then set_cache i u (Some []) s else s)"
    using key Data_key_old [where info=info and owner=owner, OF inv acc Some] by (auto split: if_splits)
  have u: "0 < u" "u < uid s" using inv Some by (auto simp: data_inv_def)
  have "data_inv s1" using inv u unfolding s1 by (auto simp: data_inv_def)
  moreover have "store_of s1 j o' = store_of s j o'" for j o'
    unfolding s1 by (auto simp: store_of_def cache_at_def split: option.split)
  ultimately show ?thesis using Some u unfolding k s1 by auto
next
  case None
  let ?u = "uid s"
  have k: "k = ?u" and s1: "s1 = set_cache i ?u (Some []) (set_unlock i owner ?u (s\<lparr>uid := Suc ?u\<rparr>))"
    using trans [OF sym [OF Data_key_new [where info=info and owner=owner, OF inv acc None]] key]
    by (metis prod.inject)+
  have u: "0 < ?u" using inv by (simp add: data_inv_def)
  have bound: "\<And>j o' k. unlocks s j o' = Some k \<Longrightarrow> k < ?u" using inv by (auto simp: data_inv_def)
  have cb: "\<And>j k. caches s j k \<noteq> None \<Longrightarrow> k < ?u" using inv by (auto simp: data_inv_def)
  have inj: "\<And>j o1 o2 k. unlocks s j o1 = Some k \<Longrightarrow> unlocks s j o2 = Some k \<Longrightarrow> o1 = o2"
    using inv by (auto simp: data_inv_def)
  have "data_inv s1" unfolding data_inv_def
  proof (intro conjI allI impI)
    show "0 < uid s1" by (simp add: s1)
    fix j o1 o2 k'
    show "0 < k'" if "unlocks s1 j o1 = Some k'"
      using that u inv by (auto simp: s1 data_inv_def split: if_splits)
    show "k' < uid s1" if "unlocks s1 j o1 = Some k'"
      using that bound [of j o1 k'] by (auto simp: s1 split: if_splits)
    show "k' < uid s1" if "caches s1 j k' \<noteq> None"
      using that cb [of j k'] by (auto simp: s1 split: if_splits)
    show "o1 = o2" if "unlocks s1 j o1 = Some k'" "unlocks s1 j o2 = Some k'"
      using that bound [of j o1 k'] bound [of j o2 k'] inj [of j o1 k' o2]
      by (auto simp: s1 split: if_splits)
  qed
  moreover have "store_of s1 j o' = store_of s j o'" for j o'
  proof (cases "j = i \<and> o' = owner")
    case True
    then show ?thesis using None by (simp add: s1 store_of_def cache_at_def)
  next
    case False
    then have "unlocks s1 j o' = unlocks s j o'" by (auto simp: s1)
    moreover have "cache_at j k' s1 = cache_at j k' s" if "unlocks s j o' = Some k'" for k'
      using bound [OF that] by (simp add: cache_at_def s1)
    ultimately show ?thesis by (simp add: store_of_def split: option.split)
  qed
  ultimately show ?thesis using u unfolding k by (simp add: s1)
qed

lemma write_cache_spec:
  assumes inv: "data_inv s" and k: "unlocks s i owner = Some k"
  shows "data_inv (write_cache i k c s)
     \<and> (\<forall>j o'. store_of (write_cache i k c s) j o' = (if j = i \<and> o' = owner then c else store_of s j o'))"
proof -
  have kb: "0 < k" "k < uid s" using inv k by (auto simp: data_inv_def)
  have "data_inv (write_cache i k c s)"
    using inv kb by (auto simp: data_inv_def write_cache_def)
  moreover have "store_of (write_cache i k c s) j o' = (if j = i \<and> o' = owner then c else store_of s j o')" for j o'
  proof (cases "j = i \<and> o' = owner")
    case True
    then show ?thesis using k kb by (simp add: store_of_def write_cache_def cache_at_def)
  next
    case False
    have "k' \<noteq> k" if "unlocks s j o' = Some k'" "j = i" for k'
    proof
      assume "k' = k"
      then have "o' = owner" using inv k that unfolding data_inv_def by blast
      with False that show False by simp
    qed
    with False kb show ?thesis by (auto simp: store_of_def write_cache_def cache_at_def split: option.split)
  qed
  ultimately show ?thesis by blast
qed

lemma Data_set_spec:
  assumes inv: "data_inv s" and acc: "acceptData (info owner)"
  shows "data_inv (snd (Data_set info i owner data v s))
     \<and> (\<forall>j o'. store_of (snd (Data_set info i owner data v s)) j o' =
          (if j = i \<and> o' = owner then
             (case data of KeyArg k \<Rightarrow> prop_set k v (store_of s i owner)
              | ObjArg ps \<Rightarrow> assign_props (store_of s i owner) ps)
           else store_of s j o'))"
proof -
  obtain k s1 where key: "Data_key info i owner s = (k, s1)" by (cases "Data_key info i owner s")
  note sp = Data_key_spec [OF inv acc key]
  have "cache_at i k s1 = store_of s i owner"
    using sp by (metis option.simps(5) store_of_def)
  with sp write_cache_spec [of s1 i owner k] show ?thesis
    by (cases data) (simp_all add: Data_set_def key Let_def)
qed

lemma Data_set_reject: "\<not> acceptData (info owner) \<Longrightarrow> snd (Data_set info i owner data v s) = s"
  by (simp add: Data_set_def Data_key_reject write_cache_def Let_def)

lemma Data_get_all_spec:
  assumes inv: "data_inv s"
  shows "data_inv (snd (Data_get_all info i owner s))
     \<and> (\<forall>j o'. store_of (snd (Data_get_all info i owner s)) j o' = store_of s j o')
     \<and> fst (Data_get_all info i owner s) = (if acceptData (info owner) then store_of s i owner else [])"
proof (cases "acceptData (info owner)")
  case True
  obtain k s1 where key: "Data_key info i owner s = (k, s1)" by (cases "Data_key info i owner s")
  note sp = Data_key_spec [OF inv True key]
  have "cache_at i k s1 = store_of s i owner" using sp by (metis option.simps(5) store_of_def)
  with sp True show ?thesis by (simp add: Data_get_all_def key)
next
  case False
  then show ?thesis using inv by (simp add: Data_get_all_def Data_key_reject cache_at_def)
qed

lemma Data_get_spec:
  assumes inv: "data_inv s"
  shows "data_inv (snd (Data_get info i owner key s))
     \<and> (\<forall>j o'. store_of (snd (Data_get info i owner key s)) j o' = store_of s j o')
     \<and> fst (Data_get info i owner key s) = (if acceptData (info owner) then prop_get (store_of s i owner) key else VUndef)"
  using Data_get_all_spec [OF inv, of info i owner]
  by (auto simp: Data_get_def split: prod.split if_splits)

lemma Data_remove_spec:
  assumes inv: "data_inv s" and acc: "acceptData (info owner)"
  shows "data_inv (Data_remove info i owner key s)
     \<and> (\<forall>j o'. store_of (Data_remove info i owner key s) j o' =
          (if j = i \<and> o' = owner then
             (if key = AllKeys then []
              else fold prop_del (rev (removal_names (store_of s i owner) key)) (store_of s i owner))
           else store_of s j o'))"
proof -
  obtain k s1 where ky: "Data_key info i owner s = (k, s1)" by (cases "Data_key info i owner s")
  note sp = Data_key_spec [OF inv acc ky]
  have "cache_at i k s1 = store_of s i owner" using sp by (metis option.simps(5) store_of_def)
  with sp write_cache_spec [of s1 i owner k] show ?thesis
    by (simp add: Data_remove_def ky Let_def)
qed

lemma Data_remove_reject: "\<not> acceptData (info owner) \<Longrightarrow> Data_remove info i owner key s = s"
  by (simp add: Data_remove_def Data_key_reject write_cache_def Let_def)

section \<open>A store of properties per owner\<close>

text \<open>The contract the queues and the event module rely on.\<close>

locale owner_store =
  fixes lookup :: "'s \<Rightarrow> 'o \<Rightarrow> string \<Rightarrow> 'v"
    and absent :: 'v
    and insert_at :: "'o \<Rightarrow> string \<Rightarrow> 'v \<Rightarrow> 's \<Rightarrow> 's"
    and delete_at :: "'o \<Rightarrow> string list \<Rightarrow> 's \<Rightarrow> 's"
    and norm :: "string \<Rightarrow> string"
    and good :: "'s \<Rightarrow> bool"
    and accepts :: "'o \<Rightarrow> bool"
  assumes lookup_insert: "good s \<Longrightarrow> accepts x \<Longrightarrow>
      lookup (insert_at x k v s) y k' = (if y = x \<and> k' = k then v else lookup s y k')"
    and lookup_delete: "good s \<Longrightarrow> accepts x \<Longrightarrow>
      lookup (delete_at x ks s) y k' =
        (if y = x \<and> (k' \<in> set ks \<or> k' \<in> norm ` set ks) then absent else lookup s y k')"
    and good_insert: "good s \<Longrightarrow> good (insert_at x k v s)"
    and good_delete: "good s \<Longrightarrow> good (delete_at x ks s)"
begin

lemma insert_insert:
  "good s \<Longrightarrow> accepts x \<Longrightarrow> accepts y \<Longrightarrow>
     lookup (insert_at y l w (insert_at x k v s)) z m =
       (if z = y \<and> m = l then w else if z = x \<and> m = k then v else lookup s z m)"
  by (simp add: lookup_insert good_insert)

lemma delete_insert:
  "good s \<Longrightarrow> accepts x \<Longrightarrow> k \<in> set ks \<Longrightarrow>
     lookup (delete_at x ks (insert_at x k v s)) z m = lookup (delete_at x ks s) z m"
  by (auto simp: lookup_insert lookup_delete good_insert)

lemma good_inserts: "good s \<Longrightarrow> good (fold (\<lambda>x. insert_at x k v) xs s)"
  by (induction xs arbitrary: s) (auto simp: good_insert)

lemma lookup_inserts:
  "good s \<Longrightarrow> list_all accepts xs \<Longrightarrow>
     lookup (fold (\<lambda>x. insert_at x k v) xs s) y k' = (if y \<in> set xs \<and> k' = k then v else lookup s y k')"
  by (induction xs arbitrary: s) (auto simp: lookup_insert good_insert)

end

text \<open>What a read finds under a name, without the creation of a cache.\<close>

definition data_lookup :: "nat \<Rightarrow> data_state \<Rightarrow> nat \<Rightarrow> string \<Rightarrow> jsval" where
  "data_lookup i s owner k = prop_get (store_of s i owner) k"

lemma prop_get_fold_del: "prop_get (fold prop_del ks ps) k = (if k \<in> set ks then VUndef else prop_get ps k)"
  by (induction ks arbitrary: ps) auto

lemma assign_props_get:
  "distinct (map fst ps) \<Longrightarrow>
     prop_get (assign_props cache ps) k =
       (case map_of ps k of Some v \<Rightarrow> v | None \<Rightarrow> prop_get cache k)"
proof -
  assume d: "distinct (map fst ps)"
  have A: "prop_get (fold (\<lambda>(k, v) c. prop_set k v c) qs c) k =
      (case map_of qs k of Some v \<Rightarrow> v | None \<Rightarrow> prop_get c k)" if "distinct (map fst qs)" for qs c
    using that
  proof (induction qs arbitrary: c)
    case (Cons q qs)
    obtain a v where q: "q = (a, v)" by (cases q)
    have "map_of qs a = None" using Cons.prems q by (auto simp: map_of_eq_None_iff)
    with Cons q show ?case by (auto split: option.split)
  qed simp
  have B: "prop_get (fold (\<lambda>(k, v) c. if v = VUndef then c else prop_set k v c) qs c) k =
      (case map_of qs k of Some v \<Rightarrow> if v = VUndef then prop_get c k else v | None \<Rightarrow> prop_get c k)"
    if "distinct (map fst qs)" for qs c
    using that
  proof (induction qs arbitrary: c)
    case (Cons q qs)
    obtain a v where q: "q = (a, v)" by (cases q)
    have "map_of qs a = None" using Cons.prems q by (auto simp: map_of_eq_None_iff)
    with Cons q show ?case by (auto split: option.split)
  qed simp
  show ?thesis using A [OF d] B [OF d] by (auto simp: assign_props_def split: option.split)
qed

lemma lookup_set:
  assumes "data_inv s" "acceptData (info x)"
  shows "data_lookup j (snd (Data_set info i x (KeyArg k) v s)) y k' =
     (if j = i \<and> y = x \<and> k' = k then v else data_lookup j s y k')"
  using Data_set_spec [where info=info and owner=x and i=i and data="KeyArg k" and v=v, OF assms]
  by (simp add: data_lookup_def)

lemma inv_set: "data_inv s \<Longrightarrow> data_inv (snd (Data_set info i x d v s))"
  by (cases "acceptData (info x)") (auto simp: Data_set_reject dest: Data_set_spec [where info=info])

lemma inv_remove: "data_inv s \<Longrightarrow> data_inv (Data_remove info i x ks s)"
  by (cases "acceptData (info x)") (auto simp: Data_remove_reject dest: Data_remove_spec [where info=info])

lemma lookup_remove:
  assumes "data_inv s" "acceptData (info x)"
  shows "data_lookup j (Data_remove info i x (KeyArray ks) s) y k' =
     (if j = i \<and> y = x \<and> (k' \<in> set ks \<or> k' \<in> camelCase ` set ks) then VUndef else data_lookup j s y k')"
  using Data_remove_spec [where info=info and owner=x and i=i and key="KeyArray ks", OF assms]
  by (simp add: data_lookup_def prop_get_fold_del removal_names_def)

interpretation ds: owner_store "data_lookup i" VUndef "\<lambda>x k v s. snd (Data_set info i x (KeyArg k) v s)"
  "\<lambda>x ks s. Data_remove info i x (KeyArray ks) s" camelCase data_inv "\<lambda>x. acceptData (info x)"
  for i :: nat and info :: "nat \<Rightarrow> owner_info"
  by unfold_locales (simp_all add: lookup_set lookup_remove inv_set inv_remove)

lemma get_lookup:
  assumes "data_inv s" "acceptData (info x)"
  shows "fst (Data_get info i x k s) = data_lookup i s x k"
  using Data_get_spec [OF assms(1), of info i x k] assms(2) by (simp add: data_lookup_def)

lemma get_frame:
  assumes "data_inv s"
  shows "data_inv (snd (Data_get info i x k s))"
    and "data_lookup j (snd (Data_get info i x k s)) y k' = data_lookup j s y k'"
  using Data_get_spec [OF assms, of info i x k] by (simp_all add: data_lookup_def)

section \<open>Properties\<close>

text \<open>
  C21: Writing a name of an owner in one of the two data objects is read back, keeps the invariant,
  and changes no other name, no other owner and nothing of the other data object.
\<close>

theorem data_write_isolated:
  assumes "data_inv s" "acceptData (info x)" "acceptData (info y)"
  shows "data_inv (snd (Data_set info i x (KeyArg k) v s))
     \<and> fst (Data_get info j y k' (snd (Data_set info i x (KeyArg k) v s))) =
         (if j = i \<and> y = x \<and> k' = k then v else fst (Data_get info j y k' s))"
  using assms by (simp add: get_lookup inv_set lookup_set)

definition two_nodes :: "nat \<Rightarrow> owner_info" where
  "two_nodes n = \<lparr>nodeType = Some 1, attributes = (if n = 1 then [(''data-foo-bar'', ''x'')] else [])\<rparr>"

lemma two_nodes_accept [simp]: "acceptData (two_nodes n)"
  by (simp add: acceptData_def two_nodes_def)

theorem data_write_isolated_witness:
  "fst (Data_get two_nodes data_user 2 ''a'' (snd (Data_set two_nodes data_priv 2 (KeyArg ''a'') (VNum 5) data_init)))
     = VUndef
   \<and> data_inv (snd (Data_set two_nodes data_priv 2 (KeyArg ''a'') (VNum 5) data_init))"
proof -
  have g: "fst (Data_get two_nodes data_user 2 ''a'' data_init) = VUndef" by code_simp
  show ?thesis
    using data_write_isolated [where info=two_nodes and x=2 and y=2 and i=data_priv and j=data_user
        and k="''a''" and k'="''a''" and v="VNum 5", OF data_inv_init] g
    by (simp add: data_priv_def data_user_def)
qed

text \<open>
  The step of data(key, value) at one element: the camelCased name always gets the value, the name
  as given only when it has a dash and the camelCased one was already there.
\<close>

lemma data_set_one_effect:
  assumes "data_inv s" "acceptData (info x)"
  shows "data_inv (data_set_one info key v x s)
     \<and> data_lookup j (data_set_one info key v x s) y k' =
         (if j = data_user \<and> y = x \<and>
             (k' = camelCase key \<or> k' = key \<and> CHR ''-'' \<in> set key \<and> data_lookup data_user s x (camelCase key) \<noteq> VUndef)
          then v else data_lookup j s y k')"
  using assms by (auto simp: data_set_one_def case_prod_unfold Let_def get_lookup get_frame inv_set lookup_set)

text \<open>What data(key) finds in the store before it looks at the attributes.\<close>

definition data_seen :: "data_state \<Rightarrow> nat \<Rightarrow> string \<Rightarrow> jsval" where
  "data_seen s x key =
     (if data_lookup data_user s x key \<noteq> VUndef then data_lookup data_user s x key
      else data_lookup data_user s x (camelCase key))"

lemma fn_data_get_seen:
  assumes "data_inv s" "acceptData (info x)" "data_seen s x key \<noteq> VUndef"
  shows "fst (fn_data_get num_of parse_json info (x # xs) key s) = data_seen s x key"
  using assms by (auto simp: fn_data_get_def data_seen_def case_prod_unfold get_lookup get_frame split: if_splits)

definition no_stale :: "data_state \<Rightarrow> nat \<Rightarrow> string \<Rightarrow> bool" where
  "no_stale s x key \<longleftrightarrow> data_lookup data_user s x key = VUndef \<or> camelCase key = key
     \<or> CHR ''-'' \<in> set key \<and> data_lookup data_user s x (camelCase key) \<noteq> VUndef"

lemma fn_data_set_loop:
  assumes "data_inv s" "list_all (\<lambda>x. acceptData (info x)) this" "list_all (\<lambda>x. no_stale s x key) this"
    and "v \<noteq> VUndef"
  shows "data_inv (fold (data_set_one info key v) this s)
     \<and> (\<forall>x \<in> set this. data_seen (fold (data_set_one info key v) this s) x key = v)
     \<and> (\<forall>y k'. y \<notin> set this \<longrightarrow>
          data_lookup data_user (fold (data_set_one info key v) this s) y k' = data_lookup data_user s y k')"
  using assms
proof (induction this rule: rev_induct)
  case Nil
  then show ?case by simp
next
  case (snoc x xs)
  define s1 where "s1 = fold (data_set_one info key v) xs s"
  have ih: "data_inv s1" "\<forall>x \<in> set xs. data_seen s1 x key = v"
    "\<forall>y k'. y \<notin> set xs \<longrightarrow> data_lookup data_user s1 y k' = data_lookup data_user s y k'"
    using snoc by (simp_all add: s1_def)
  have acc: "acceptData (info x)" using snoc.prems by simp
  note ef = data_set_one_effect [where info=info and x=x and key=key and v=v, OF ih(1) acc]
  have "data_seen (data_set_one info key v x s1) y key = v" if "y \<in> insert x (set xs)" for y
  proof (cases "y = x")
    case True
    show ?thesis
    proof (cases "x \<in> set xs")
      case True
      then show ?thesis using ih(2) ef \<open>y = x\<close> by (auto simp: data_seen_def split: if_splits)
    next
      case False
      then have "no_stale s1 x key" using snoc.prems ih(3) by (simp add: no_stale_def)
      then show ?thesis using ef \<open>y = x\<close> by (auto simp: data_seen_def no_stale_def)
    qed
  next
    case False
    then have "data_seen s1 y key = v" using ih(2) that by simp
    with False show ?thesis by (simp add: data_seen_def ef [THEN conjunct2] split: if_splits)
  qed
  moreover have "data_inv (data_set_one info key v x s1)" using ef by simp
  moreover have "data_lookup data_user (data_set_one info key v x s1) y k' = data_lookup data_user s y k'"
    if "y \<notin> insert x (set xs)" for y k'
    using that ef ih(3) by simp
  ultimately show ?case by (simp add: s1_def)
qed

text \<open>
  After data(key, value) on a set, data(key) of every element of the set is the value, unless an
  entry stored by an object literal under the dashed name hides it; no other element is changed.
\<close>

theorem data_method_roundtrip:
  assumes "data_inv s" "list_all (\<lambda>x. acceptData (info x)) this" "list_all (\<lambda>x. no_stale s x key) this"
    and "v \<noteq> VUndef"
  shows "list_all (\<lambda>x. fst (fn_data_get num_of parse_json info [x] key (fn_data_set info this key v s)) = v) this
     \<and> (y \<notin> set this \<longrightarrow>
          data_lookup data_user (fn_data_set info this key v s) y k' = data_lookup data_user s y k')"
  using fn_data_set_loop [OF assms] assms
  by (auto simp: fn_data_set_def list_all_iff fn_data_get_seen)

theorem data_method_roundtrip_witness:
  "fst (fn_data_get (\<lambda>_. None) (\<lambda>_. None) two_nodes [2] ''foo-bar''
     (fn_data_set two_nodes [1, 2] ''foo-bar'' (VNum 7) data_init)) = VNum 7"
proof -
  have "list_all (\<lambda>x. no_stale data_init x ''foo-bar'') [1, 2]" by code_simp
  from data_method_roundtrip [where info=two_nodes, OF data_inv_init _ this] show ?thesis by simp
qed

text \<open>
  A value stored under a dashed name by an object literal hides what data(name, value) writes:
  the method writes the camelCased name only, and the read tries the dashed name first.
\<close>

theorem data_dashed_name_hidden:
  assumes "data_inv s" "acceptData (info x)" "camelCase key \<noteq> key"
    and "data_lookup data_user s x (camelCase key) = VUndef" "w \<noteq> VUndef" "v \<noteq> VUndef"
  shows "fst (fn_data_get num_of parse_json info [x] key
     (fn_data_set info [x] key v (fn_data_object info [x] [(key, w)] s))) = w"
proof -
  define s1 where "s1 = snd (Data_set info data_user x (ObjArg [(key, w)]) VUndef s)"
  have i1: "data_inv s1" unfolding s1_def by (rule inv_set [OF assms(1)])
  have l1: "data_lookup data_user s1 x k = (if k = key then w else data_lookup data_user s x k)" for k
    using Data_set_spec [where info=info and owner=x and i=data_user and data="ObjArg [(key, w)]" and v=VUndef, OF assms(1,2)]
    by (simp add: s1_def data_lookup_def assign_props_get)
  note ef = data_set_one_effect [where info=info and x=x and key=key and v=v, OF i1 assms(2)]
  have "data_seen (data_set_one info key v x s1) x key = w"
    using ef assms l1 by (simp add: data_seen_def)
  then show ?thesis
    using ef assms by (simp add: fn_data_set_def fn_data_object_def fn_data_get_seen flip: s1_def)
qed

theorem data_dashed_name_hidden_witness:
  "fst (fn_data_get (\<lambda>_. None) (\<lambda>_. None) two_nodes [2] ''a-b''
     (fn_data_set two_nodes [2] ''a-b'' (VNum 2) (fn_data_object two_nodes [2] [(''a-b'', VNum 1)] data_init))) = VNum 1"
proof -
  have "camelCase ''a-b'' \<noteq> ''a-b''" "data_lookup data_user data_init 2 (camelCase ''a-b'') = VUndef"
    by code_simp+
  from data_dashed_name_hidden [where info=two_nodes and x=2, OF data_inv_init two_nodes_accept this]
  show ?thesis by simp
qed

lemma replace_Cons: "c \<noteq> CHR ''-'' \<Longrightarrow> replace_dashAlpha (c # cs) = c # replace_dashAlpha cs"
  by (cases cs) auto

lemma lower_upper:
  assumes "is_upper c" shows "alnum (lower_char c)" "upper_char (lower_char c) = c"
proof -
  have n: "(of_char (lower_char c) :: nat) = of_char c + 32"
    using assms by (simp add: lower_char_def is_upper_def)
  then show "alnum (lower_char c)" using assms by (simp add: alnum_def is_upper_def Let_def)
  show "upper_char (lower_char c) = c" using assms n by (simp add: upper_char_def is_upper_def)
qed

lemma lower_char_id: "\<not> is_upper c \<Longrightarrow> lower_char c = c"
  by (auto simp: lower_char_def is_upper_def)

lemma dash_lower [simp]: "lower_char (CHR ''-'') = CHR ''-''"
  by (simp add: lower_char_def)

lemma replace_multiDash:
  "CHR ''-'' \<notin> set key \<Longrightarrow> replace_dashAlpha (to_lower (multiDash key)) = key"
proof (induction key)
  case (Cons c cs)
  then show ?case
    by (cases "is_upper c")
      (simp_all add: multiDash_def to_lower_def lower_upper lower_char_id replace_Cons replace_Cons [OF not_sym])
qed (simp add: multiDash_def to_lower_def)

text \<open>
  The attribute name derived from a key leads back to that key when the attributes are loaded,
  for keys without a dash that do not start with a capital.
\<close>

theorem data_attr_name_roundtrip:
  assumes "CHR ''-'' \<notin> set key" "\<not> is_upper (hd key)"
  shows "starts_with ''data-'' (data_attr_name key) \<and> camelCase (drop 5 (data_attr_name key)) = key"
proof -
  have "\<not> starts_with ''-ms-'' (to_lower (multiDash key))"
  proof (cases key)
    case (Cons c cs)
    with assms show ?thesis by (simp add: multiDash_def to_lower_def lower_char_id)
  qed (simp add: multiDash_def to_lower_def)
  then show ?thesis
    using replace_multiDash [OF assms(1)]
    by (simp add: data_attr_name_def camelCase_def replace_msPrefix_def)
qed

theorem data_attr_name_roundtrip_witness:
  "data_attr_name ''fooBarBaz'' = ''data-foo-bar-baz'' \<and> camelCase ''foo-bar-baz'' = ''fooBarBaz''"
proof -
  have n: "data_attr_name ''fooBarBaz'' = ''data-foo-bar-baz''" by code_simp
  have "\<not> is_upper (hd ''fooBarBaz'')" by code_simp
  from data_attr_name_roundtrip [OF _ this] n show ?thesis by simp
qed

text \<open>
  A data attribute is read once: what data(key) returned is what it returns from then on,
  whatever becomes of the element's attributes.
\<close>

theorem data_attr_read_once:
  assumes "data_inv s" "acceptData (info x)" "acceptData (info' x)"
    and "fn_data_get num_of parse_json info [x] key s = (v, s')" "v \<noteq> VUndef"
  shows "fst (fn_data_get num_of parse_json info' [x] key s') = v"
proof -
  have "data_inv s' \<and> data_seen s' x key = v"
  proof (cases "data_seen s x key = VUndef")
    case False
    then show ?thesis using assms
      by (auto simp: fn_data_get_def data_seen_def case_prod_unfold get_lookup get_frame split: if_splits)
  next
    case True
    then have u: "data_lookup data_user s x key = VUndef" "data_lookup data_user s x (camelCase key) = VUndef"
      by (auto simp: data_seen_def split: if_splits)
    define s2 where "s2 = snd (Data_get info data_user x (camelCase key) (snd (Data_get info data_user x key s)))"
    have i2: "data_inv s2" unfolding s2_def by (intro get_frame assms)
    have l2: "data_lookup data_user s2 x k = data_lookup data_user s x k" for k
      unfolding s2_def using assms by (simp add: get_frame)
    have "(v, s') = dataAttr num_of parse_json info x (camelCase key) VUndef s2"
      using assms u by (simp add: fn_data_get_def case_prod_unfold get_lookup get_frame s2_def)
    then have "s' = snd (Data_set info data_user x (KeyArg (camelCase key)) v s2)"
      using assms(5) by (auto simp: dataAttr_def Let_def split: if_splits option.splits)
    then show ?thesis using i2 l2 u assms
      by (simp add: inv_set lookup_set data_seen_def)
  qed
  then show ?thesis using fn_data_get_seen [where info=info' and s=s' and key=key and xs="[]"] assms by simp
qed

theorem data_attr_read_once_witness:
  "fst (fn_data_get (\<lambda>_. None) (\<lambda>_. None) (\<lambda>_. \<lparr>nodeType = Some 1, attributes = []\<rparr>) [1] ''foo-bar''
     (snd (fn_data_get (\<lambda>_. None) (\<lambda>_. None) two_nodes [1] ''foo-bar'' data_init))) = VStr ''x''"
proof -
  have f: "fst (fn_data_get (\<lambda>_. None) (\<lambda>_. None) two_nodes [1] ''foo-bar'' data_init) = VStr ''x''"
    by code_simp
  have e: "fn_data_get (\<lambda>_. None) (\<lambda>_. None) two_nodes [1] ''foo-bar'' data_init =
      (VStr ''x'', snd (fn_data_get (\<lambda>_. None) (\<lambda>_. None) two_nodes [1] ''foo-bar'' data_init))"
    using f by (metis prod.collapse)
  show ?thesis
    by (rule data_attr_read_once [OF data_inv_init two_nodes_accept _ e]) (simp_all add: acceptData_def)
qed

text \<open>Discarding an owner in one object keeps the invariant and every other owner's entries.\<close>

lemma Data_discard_spec:
  assumes "data_inv s"
  shows "data_inv (Data_discard i x s)
     \<and> data_lookup j (Data_discard i x s) y k =
         (if j = i \<and> y = x then VUndef else data_lookup j s y k)"
proof (cases "unlocks s i x")
  case None
  then show ?thesis using assms by (simp add: Data_discard_def data_lookup_def store_of_def)
next
  case (Some u)
  have u: "0 < u" using assms Some by (auto simp: data_inv_def)
  have inj: "y = x" if "unlocks s i y = Some u" for y using assms Some that by (auto simp: data_inv_def)
  have inv: "data_inv (Data_discard i x s)" using assms Some u by (auto simp: Data_discard_def data_inv_def)
  have "store_of (Data_discard i x s) j y = (if j = i \<and> y = x then [] else store_of s j y)"
  proof (cases "j = i \<and> y = x")
    case True
    then show ?thesis using Some u by (simp add: Data_discard_def store_of_def cache_at_def)
  next
    case False
    have "unlocks s j y \<noteq> Some u \<or> j \<noteq> i" using False inj by auto
    with Some u False show ?thesis
      by (auto simp: Data_discard_def store_of_def cache_at_def split: option.split)
  qed
  then show ?thesis using inv by (simp add: data_lookup_def)
qed

lemma hasData_store:
  "data_inv s \<Longrightarrow> Data_hasData i x s \<longleftrightarrow> store_of s i x \<noteq> []"
  by (simp add: Data_hasData_def store_of_def split: option.split)

end
