(* ===== verification/Callbacks.thy ===== *)
theory Callbacks
  imports Js_Prelude
begin

text \<open>
  \<open>jQuery.Callbacks\<close> (jquery.js): the callback list behind Deferred, the DOM-ready list and the
  queue hooks. The private variables of one list are the record \<open>clist\<close>; all lists of a page
  live in \<open>world\<close>, because a callback can operate on any list, its own included, while
  it is being fired. What a callback does is a behaviour tree: it returns a value, throws, calls
  an operation of some list and goes on with its outcome, reads the world or updates the part of
  it that is not the lists. The field \<open>calls\<close> is a ghost: the log of every invocation.
  The mutually recursive functions take fuel, because callbacks may fire each other for ever;
  \<open>None\<close> is running out of it.
\<close>

section \<open>Options\<close>

text \<open>createOptions: the words of the option string become true properties.\<close>

definition createOptions :: "string \<Rightarrow> jsval props" where
  "createOptions options = fold (\<lambda>flag object. prop_set flag (VBool True) object) (ws_words options) []"

text \<open>
  An argument of Callbacks: a string, looked up in the cache first, or an object, copied. The
  absent argument is the empty object.
\<close>

datatype options_arg = OptString string | OptObject "jsval props"

definition options_of :: "(string \<rightharpoonup> jsval props) \<Rightarrow> options_arg
    \<Rightarrow> jsval props \<times> (string \<rightharpoonup> jsval props)" where
  "options_of optionsCache arg =
     (case arg of
        OptString s \<Rightarrow>
          (case optionsCache s of
             Some object \<Rightarrow> (object, optionsCache)
           | None \<Rightarrow> (createOptions s, optionsCache(s \<mapsto> createOptions s)))
      | OptObject ps \<Rightarrow> (fold (\<lambda>(k, v) object. if v = VUndef then object else prop_set k v object) ps [], optionsCache))"

definition options_cache_ok :: "(string \<rightharpoonup> jsval props) \<Rightarrow> bool" where
  "options_cache_ok c \<longleftrightarrow> (\<forall>s object. c s = Some object \<longrightarrow> object = createOptions s)"

section \<open>The state of a list\<close>

type_synonym cbdata = "jsval \<times> jsval list"

record 'f clist =
  options :: "jsval props"
  memory :: "cbdata option"        \<comment> \<open>None: undefined or false\<close>
  fired :: bool
  firing :: bool
  firingStart :: nat               \<comment> \<open>undefined is 0\<close>
  firingLength :: int
  firingIndex :: int
  cblist :: "'f list option"       \<comment> \<open>the variable list; None: undefined, the list is disabled\<close>
  stack :: "cbdata list option"    \<comment> \<open>None: false or undefined\<close>

definition opt_once :: "'f clist \<Rightarrow> bool" where
  "opt_once c = truthy (prop_get (options c) ''once'')"
definition opt_memory :: "'f clist \<Rightarrow> bool" where
  "opt_memory c = truthy (prop_get (options c) ''memory'')"
definition opt_unique :: "'f clist \<Rightarrow> bool" where
  "opt_unique c = truthy (prop_get (options c) ''unique'')"
definition opt_stopOnFalse :: "'f clist \<Rightarrow> bool" where
  "opt_stopOnFalse c = truthy (prop_get (options c) ''stopOnFalse'')"

text \<open>The variables a new list starts with.\<close>

definition new_Callbacks :: "jsval props \<Rightarrow> 'f clist" where
  "new_Callbacks opts =
     \<lparr>options = opts, memory = None, fired = False, firing = False, firingStart = 0,
      firingLength = 0, firingIndex = 0, cblist = Some [],
      stack = (if truthy (prop_get opts ''once'') then None else Some [])\<rparr>"

record 'f world =
  clists :: "nat \<Rightarrow> 'f clist"
  calls :: "(nat \<times> 'f \<times> cbdata) list"

definition upd_list :: "nat \<Rightarrow> ('f clist \<Rightarrow> 'f clist) \<Rightarrow> ('f, 'z) world_scheme \<Rightarrow> ('f, 'z) world_scheme" where
  "upd_list l g w = w\<lparr>clists := (clists w)(l := g (clists w l))\<rparr>"

definition log_call :: "nat \<Rightarrow> 'f \<Rightarrow> cbdata \<Rightarrow> ('f, 'z) world_scheme \<Rightarrow> ('f, 'z) world_scheme" where
  "log_call l f d w = w\<lparr>calls := calls w @ [(l, f, d)]\<rparr>"

section \<open>Operations and behaviours\<close>

text \<open>
  An argument of add: a function, an array (or other object with a length) that is searched
  recursively, or anything else, which is ignored.
\<close>

datatype 'f cb_arg = AFun 'f | AArr "'f cb_arg list" | AOther

datatype 'f cb_op =
    OAdd "'f cb_arg list" | ORemove "'f list" | OEmpty | ODisable | OLock
  | OFireWith jsval "jsval list option"

text \<open>The operation fire passes its own context and arguments on.\<close>

definition OFire :: "jsval \<Rightarrow> jsval list \<Rightarrow> 'f cb_op" where
  "OFire this arguments = OFireWith this (Some arguments)"

datatype outcome = Done | Threw

datatype (dead 'f, dead 'w) beh =
    Ret jsval
  | Throw
  | Call nat "'f cb_op" "outcome \<Rightarrow> ('f, 'w) beh"
  | Get "'w \<Rightarrow> ('f, 'w) beh"
  | Upd "'w \<Rightarrow> 'w" "('f, 'w) beh"

datatype bres = BRet jsval | BThrew

type_synonym ('f, 'z) env = "'f \<Rightarrow> cbdata \<Rightarrow> ('f, ('f, 'z) world_scheme) beh"

section \<open>Pure operations on the list variable\<close>

text \<open>The inner function add: every function argument is appended, unless unique and present.\<close>

fun add_list :: "bool \<Rightarrow> 'f list \<Rightarrow> 'f cb_arg list \<Rightarrow> 'f list" where
  "add_list unique xs [] = xs"
| "add_list unique xs (AFun f # args) =
     add_list unique (if \<not> unique \<or> f \<notin> set xs then xs @ [f] else xs) args"
| "add_list unique xs (AArr bs # args) = add_list unique (add_list unique xs bs) args"
| "add_list unique xs (AOther # args) = add_list unique xs args"

text \<open>jQuery.inArray with a start index, which is indexOf.\<close>

function index_from :: "'f \<Rightarrow> 'f list \<Rightarrow> nat \<Rightarrow> nat option" where
  "index_from f xs i =
     (if i < length xs then (if xs ! i = f then Some i else index_from f xs (Suc i)) else None)"
  by pat_completeness auto
termination by (relation "measure (\<lambda>(f, xs, i). length xs - i)") auto

declare index_from.simps [simp del]

lemma index_from_Some:
  "index_from f xs i = Some j \<Longrightarrow>
     i \<le> j \<and> j < length xs \<and> xs ! j = f \<and> (\<forall>k. i \<le> k \<and> k < j \<longrightarrow> xs ! k \<noteq> f)"
proof (induction f xs i rule: index_from.induct)
  case (1 f xs i)
  show ?case
  proof (cases "i < length xs \<and> xs ! i \<noteq> f")
    case True
    with 1 have "index_from f xs (Suc i) = Some j" by (simp add: index_from.simps [of f xs i])
    with 1 True have "Suc i \<le> j \<and> j < length xs \<and> xs ! j = f \<and> (\<forall>k. Suc i \<le> k \<and> k < j \<longrightarrow> xs ! k \<noteq> f)"
      by blast
    with True show ?thesis by (metis Suc_leD le_neq_implies_less Suc_leI)
  next
    case False
    with 1 show ?thesis by (auto simp: index_from.simps [of f xs i] split: if_splits)
  qed
qed

lemma index_from_None: "index_from f xs i = None \<Longrightarrow> f \<notin> set (drop i xs)"
proof (induction f xs i rule: index_from.induct)
  case (1 f xs i)
  show ?case
  proof (cases "i < length xs")
    case True
    then have "drop i xs = xs ! i # drop (Suc i) xs" by (simp add: Cons_nth_drop_Suc)
    with True 1 show ?thesis by (auto simp: index_from.simps [of f xs i] split: if_splits)
  qed simp
qed

text \<open>The while loop of remove for one argument, on list, firingLength and firingIndex.\<close>

function remove_loop :: "'f \<Rightarrow> nat \<Rightarrow> bool \<Rightarrow> 'f list \<times> int \<times> int \<Rightarrow> 'f list \<times> int \<times> int" where
  "remove_loop arg index fng (xs, len, idx) =
     (case index_from arg xs index of
        None \<Rightarrow> (xs, len, idx)
      | Some j \<Rightarrow>
          remove_loop arg j fng
            (take j xs @ drop (Suc j) xs,
             if fng \<and> int j \<le> len then len - 1 else len,
             if fng \<and> int j \<le> idx then idx - 1 else idx))"
  by pat_completeness auto
termination
  by (relation "measure (\<lambda>(arg, index, fng, xs, len, idx). length xs)")
     (auto dest!: index_from_Some)

declare remove_loop.simps [simp del]

fun remove_all :: "bool \<Rightarrow> 'f list \<Rightarrow> 'f list \<times> int \<times> int \<Rightarrow> 'f list \<times> int \<times> int" where
  "remove_all fng [] s = s"
| "remove_all fng (arg # args) s = remove_all fng args (remove_loop arg 0 fng s)"

text \<open>has with an argument; without one; both; disabled; locked; fired.\<close>

definition has_fn :: "'f \<Rightarrow> 'f clist \<Rightarrow> bool" where
  "has_fn f c = (case cblist c of None \<Rightarrow> False | Some xs \<Rightarrow> index_from f xs 0 \<noteq> None)"

definition has_any :: "'f clist \<Rightarrow> bool" where
  "has_any c = (case cblist c of None \<Rightarrow> False | Some xs \<Rightarrow> length xs \<noteq> 0)"

definition has :: "'f option \<Rightarrow> 'f clist \<Rightarrow> bool" where
  "has fn c = (case fn of Some f \<Rightarrow> has_fn f c | None \<Rightarrow> has_any c)"

definition was_fired :: "'f clist \<Rightarrow> bool" where
  "was_fired c = fired c"

definition disabled :: "'f clist \<Rightarrow> bool" where
  "disabled c = (cblist c = None)"

definition locked :: "'f clist \<Rightarrow> bool" where
  "locked c = (stack c = None)"

definition disable :: "'f clist \<Rightarrow> 'f clist" where
  "disable c = c\<lparr>cblist := None, stack := None, memory := None\<rparr>"

definition lock :: "'f clist \<Rightarrow> 'f clist" where
  "lock c = (let c = c\<lparr>stack := None\<rparr> in if memory c = None then disable c else c)"

definition empty :: "'f clist \<Rightarrow> 'f clist" where
  "empty c = c\<lparr>cblist := Some [], firingLength := 0\<rparr>"

definition remove :: "'f list \<Rightarrow> 'f clist \<Rightarrow> 'f clist" where
  "remove args c =
     (case cblist c of
        None \<Rightarrow> c
      | Some xs \<Rightarrow>
          (case remove_all (firing c) args (xs, firingLength c, firingIndex c) of
             (xs', len, idx) \<Rightarrow> c\<lparr>cblist := Some xs', firingLength := len, firingIndex := idx\<rparr>))"

text \<open>The head of fire: everything before the loop.\<close>

definition begin_fire :: "cbdata \<Rightarrow> 'f list \<Rightarrow> 'f clist \<Rightarrow> 'f clist" where
  "begin_fire data xs c =
     c\<lparr>memory := (if opt_memory c then Some data else None), fired := True,
       firingIndex := int (firingStart c), firingStart := 0,
       firingLength := int (length xs), firing := True\<rparr>"

definition nth_int :: "'f list \<Rightarrow> int \<Rightarrow> 'f option" where
  "nth_int xs i = (if 0 \<le> i \<and> nat i < length xs then Some (xs ! nat i) else None)"

section \<open>Firing\<close>

text \<open>
  \<open>fire\<close> with its loop, the run of a callback's behaviour, and the operations that can fire. In
  the loop, reading past the list would be a TypeError, the outcome Threw; an exception of a
  callback leaves every loop it passes through, with firing still set. Each body takes the calls
  it makes as arguments; the recursion with its fuel ties them together below.
\<close>

type_synonym ('r, 'f, 'z) comp = "('f, 'z) world_scheme \<Rightarrow> ('r \<times> ('f, 'z) world_scheme) option"

text \<open>The end of fire: what follows the loop.\<close>

definition end_fire :: "(cbdata \<Rightarrow> (outcome, 'f, 'z) comp) \<Rightarrow> nat \<Rightarrow> (outcome, 'f, 'z) comp" where
  "end_fire again l w1 =
     (let w2 = upd_list l (\<lambda>c. c\<lparr>firing := False\<rparr>) w1; c = clists w2 l in
      if cblist c = None then Some (Done, w2)
      else case stack c of
        Some ds \<Rightarrow>
          (if ds \<noteq> [] then again (hd ds) (upd_list l (\<lambda>c. c\<lparr>stack := Some (tl ds)\<rparr>) w2)
           else Some (Done, w2))
      | None \<Rightarrow>
          (if memory c \<noteq> None then Some (Done, upd_list l (\<lambda>c. c\<lparr>cblist := Some []\<rparr>) w2)
           else Some (Done, upd_list l disable w2)))"

definition fire_body :: "(outcome, 'f, 'z) comp \<Rightarrow> (cbdata \<Rightarrow> (outcome, 'f, 'z) comp)
    \<Rightarrow> nat \<Rightarrow> cbdata \<Rightarrow> (outcome, 'f, 'z) comp" where
  "fire_body loop again l data w =
     (case cblist (clists w l) of
        None \<Rightarrow> Some (Threw, w)
      | Some xs \<Rightarrow>
          (case loop (upd_list l (begin_fire data xs) w) of
             None \<Rightarrow> None
           | Some (r, w1) \<Rightarrow> (if r = Threw then Some (Threw, w1) else end_fire again l w1)))"

definition fire_loop_body :: "('f \<Rightarrow> (bres, 'f, 'z) comp) \<Rightarrow> (outcome, 'f, 'z) comp
    \<Rightarrow> nat \<Rightarrow> cbdata \<Rightarrow> (outcome, 'f, 'z) comp" where
  "fire_loop_body invoke loop l data w =
     (let c = clists w l in
      case cblist c of
        None \<Rightarrow> Some (Done, w)
      | Some xs \<Rightarrow>
          if firingIndex c < firingLength c then
            (case nth_int xs (firingIndex c) of
               None \<Rightarrow> Some (Threw, w)
             | Some f \<Rightarrow>
                 (case invoke f (log_call l f data w) of
                    None \<Rightarrow> None
                  | Some (b, w1) \<Rightarrow>
                      (if b = BThrew then Some (Threw, w1)
                       else if b = BRet (VBool False) \<and> opt_stopOnFalse (clists w1 l)
                       then Some (Done, upd_list l (\<lambda>c. c\<lparr>memory := None\<rparr>) w1)
                       else loop (upd_list l (\<lambda>c. c\<lparr>firingIndex := firingIndex c + 1\<rparr>) w1))))
          else Some (Done, w))"

definition run_beh_body :: "(nat \<Rightarrow> 'f cb_op \<Rightarrow> (outcome, 'f, 'z) comp)
    \<Rightarrow> (('f, ('f, 'z) world_scheme) beh \<Rightarrow> (bres, 'f, 'z) comp)
    \<Rightarrow> ('f, ('f, 'z) world_scheme) beh \<Rightarrow> (bres, 'f, 'z) comp" where
  "run_beh_body oper run b w =
     (case b of
        Ret v \<Rightarrow> Some (BRet v, w)
      | Throw \<Rightarrow> Some (BThrew, w)
      | Call l op k \<Rightarrow>
          (case oper l op w of
             None \<Rightarrow> None
           | Some (r, w1) \<Rightarrow> run (k r) w1)
      | Get g \<Rightarrow> run (g w) w
      | Upd u b' \<Rightarrow> run b' (u w))"

definition add_op :: "(cbdata \<Rightarrow> (outcome, 'f, 'z) comp) \<Rightarrow> nat \<Rightarrow> 'f cb_arg list
    \<Rightarrow> (outcome, 'f, 'z) comp" where
  "add_op fire_it l args w =
     (let c = clists w l in
      case cblist c of
        None \<Rightarrow> Some (Done, w)
      | Some xs \<Rightarrow>
          (let start = length xs; ys = add_list (opt_unique c) xs args;
               w1 = upd_list l (\<lambda>c. c\<lparr>cblist := Some ys\<rparr>) w in
           if firing c then
             Some (Done, upd_list l (\<lambda>c. c\<lparr>firingLength := int (length ys)\<rparr>) w1)
           else case memory c of
             None \<Rightarrow> Some (Done, w1)
           | Some m \<Rightarrow> fire_it m (upd_list l (\<lambda>c. c\<lparr>firingStart := start\<rparr>) w1)))"

definition fireWith_op :: "(cbdata \<Rightarrow> (outcome, 'f, 'z) comp) \<Rightarrow> nat \<Rightarrow> jsval \<Rightarrow> jsval list option
    \<Rightarrow> (outcome, 'f, 'z) comp" where
  "fireWith_op fire_it l context args w =
     (let c = clists w l in
      if cblist c \<noteq> None \<and> (\<not> fired c \<or> stack c \<noteq> None) then
        (let data = (context, case args of None \<Rightarrow> [] | Some xs \<Rightarrow> xs) in
         if firing c then
           (case stack c of
              None \<Rightarrow> Some (Threw, w)
            | Some ds \<Rightarrow> Some (Done, upd_list l (\<lambda>c. c\<lparr>stack := Some (ds @ [data])\<rparr>) w))
         else fire_it data w)
      else Some (Done, w))"

definition op_body :: "(nat \<Rightarrow> cbdata \<Rightarrow> (outcome, 'f, 'z) comp) \<Rightarrow> nat \<Rightarrow> 'f cb_op
    \<Rightarrow> (outcome, 'f, 'z) comp" where
  "op_body fire_it l op w =
     (case op of
        OAdd args \<Rightarrow> add_op (fire_it l) l args w
      | ORemove args \<Rightarrow> Some (Done, upd_list l (remove args) w)
      | OEmpty \<Rightarrow> Some (Done, upd_list l empty w)
      | ODisable \<Rightarrow> Some (Done, upd_list l disable w)
      | OLock \<Rightarrow> Some (Done, upd_list l lock w)
      | OFireWith context args \<Rightarrow> fireWith_op (fire_it l) l context args w)"

function (sequential) fire :: "nat \<Rightarrow> ('f, 'z) env \<Rightarrow> nat \<Rightarrow> cbdata \<Rightarrow> (outcome, 'f, 'z) comp"
  and fire_loop :: "nat \<Rightarrow> ('f, 'z) env \<Rightarrow> nat \<Rightarrow> cbdata \<Rightarrow> (outcome, 'f, 'z) comp"
  and run_beh :: "nat \<Rightarrow> ('f, 'z) env \<Rightarrow> ('f, ('f, 'z) world_scheme) beh \<Rightarrow> (bres, 'f, 'z) comp"
  and exec_op :: "nat \<Rightarrow> ('f, 'z) env \<Rightarrow> nat \<Rightarrow> 'f cb_op \<Rightarrow> (outcome, 'f, 'z) comp"
where
  "fire 0 E l data w = None"
| "fire (Suc n) E l data w = fire_body (fire_loop n E l data) (fire n E l) l data w"
| "fire_loop 0 E l data w = None"
| "fire_loop (Suc n) E l data w =
     fire_loop_body (\<lambda>f. run_beh n E (E f data)) (fire_loop n E l data) l data w"
| "run_beh 0 E b w = None"
| "run_beh (Suc n) E b w = run_beh_body (exec_op n E) (run_beh n E) b w"
| "exec_op 0 E l op w = None"
| "exec_op (Suc n) E l op w = op_body (fire n E) l op w"
  by pat_completeness auto
termination
  by (relation "measure (\<lambda>x. case x of Inl (Inl (n, _)) \<Rightarrow> n | Inl (Inr (n, _)) \<Rightarrow> n
        | Inr (Inl (n, _)) \<Rightarrow> n | Inr (Inr (n, _)) \<Rightarrow> n)") auto

section \<open>Facts about the list operations\<close>

lemma upd_list_simps [simp]:
  "clists (upd_list l g w) l = g (clists w l)"
  "k \<noteq> l \<Longrightarrow> clists (upd_list l g w) k = clists w k"
  "calls (upd_list l g w) = calls w"
  by (simp_all add: upd_list_def)

lemma log_call_simps [simp]:
  "clists (log_call l f d w) = clists w"
  "calls (log_call l f d w) = calls w @ [(l, f, d)]"
  by (simp_all add: log_call_def)

lemma index_from_0_iff: "index_from f xs 0 \<noteq> None \<longleftrightarrow> f \<in> set xs"
  using index_from_None [of f xs 0] index_from_Some [of f xs 0] by (cases "index_from f xs 0") auto

lemma has_fn_iff: "has_fn f c \<longleftrightarrow> (\<exists>xs. cblist c = Some xs \<and> f \<in> set xs)"
  using index_from_0_iff [of f] by (auto simp: has_fn_def split: option.splits)

lemma add_list_distinct [js_inv]: "distinct xs \<Longrightarrow> distinct (add_list True xs args)"
  by (induction True xs args rule: add_list.induct) auto

text \<open>The functions in an argument list, in the order add meets them.\<close>

fun arg_fns :: "'f cb_arg list \<Rightarrow> 'f list" where
  "arg_fns [] = []"
| "arg_fns (AFun f # args) = f # arg_fns args"
| "arg_fns (AArr bs # args) = arg_fns bs @ arg_fns args"
| "arg_fns (AOther # args) = arg_fns args"

lemma add_list_append: "add_list False xs args = xs @ arg_fns args"
  by (induction False xs args rule: add_list.induct) auto

lemma add_list_set: "set (add_list u xs args) = set xs \<union> set (arg_fns args)"
  by (induction u xs args rule: add_list.induct) auto

lemma add_list_prefix: "\<exists>zs. add_list u xs args = xs @ zs"
proof (induction u xs args rule: add_list.induct)
  case (3 u xs bs args)
  then show ?case by (metis add_list.simps(3) append.assoc)
qed auto

lemma remove_step:
  assumes "j < length xs" "xs ! j = arg"
  shows "removeAll arg (take j xs @ drop (Suc j) xs) = removeAll arg xs"
proof -
  have "xs = take j xs @ arg # drop (Suc j) xs"
    using assms id_take_nth_drop [of j xs] by simp
  then have "removeAll arg xs = removeAll arg (take j xs) @ removeAll arg (arg # drop (Suc j) xs)"
    by (metis removeAll_append)
  then show ?thesis by simp
qed

text \<open>
  What the loop of remove leaves: every occurrence is gone, the length stays in step, and the
  callbacks after the firing index are the ones that were there, without the removed one.
\<close>

definition after_index :: "int \<Rightarrow> 'f list \<Rightarrow> 'f list" where
  "after_index idx xs = drop (nat (idx + 1)) xs"

lemma after_index_step:
  assumes j: "j < length xs" "xs ! j = arg" and idx: "- 1 \<le> idx"
  shows "removeAll arg (after_index (if int j \<le> idx then idx - 1 else idx) (take j xs @ drop (Suc j) xs))
       = removeAll arg (after_index idx xs)"
proof (cases "int j \<le> idx")
  case True
  then have "drop (nat idx) (take j xs @ drop (Suc j) xs) = drop (nat (idx + 1)) xs"
    using j by (simp add: le_nat_iff nat_add_distrib)
  with True show ?thesis by (simp add: after_index_def)
next
  case False
  then have le: "nat (idx + 1) \<le> j" by simp
  let ?m = "nat (idx + 1)"
  have "drop ?m xs = drop ?m (take j xs @ arg # drop (Suc j) xs)"
    using j id_take_nth_drop [of j xs] by simp
  also have "\<dots> = drop ?m (take j xs) @ arg # drop (Suc j) xs"
    using le j by simp
  finally have "drop ?m xs = drop ?m (take j xs) @ arg # drop (Suc j) xs" .
  with False le j show ?thesis by (simp add: after_index_def)
qed

lemma index_from_take:
  assumes "index_from arg xs i = Some j" "arg \<notin> set (take i xs)"
  shows "arg \<notin> set (take j xs)"
proof
  note j = index_from_Some [OF assms(1)]
  assume "arg \<in> set (take j xs)"
  with j obtain k where k: "k < j" "xs ! k = arg"
    by (auto simp: in_set_conv_nth)
  have "k < i"
  proof (rule ccontr)
    assume "\<not> k < i"
    then have "i \<le> k" by simp
    with j k(1) have "xs ! k \<noteq> arg" by blast
    with k(2) show False by simp
  qed
  moreover have "k < length xs" using k j by auto
  ultimately have "take i xs ! k = arg" "k < length (take i xs)" using k by auto
  with assms(2) nth_mem show False by metis
qed

lemma remove_loop_list:
  assumes "arg \<notin> set (take i xs)"
  shows "fst (remove_loop arg i fng (xs, len, idx)) = removeAll arg xs"
  using assms
proof (induction "length xs" arbitrary: i xs len idx rule: less_induct)
  case less
  show ?case
  proof (cases "index_from arg xs i")
    case None
    then have "arg \<notin> set (drop i xs)" by (rule index_from_None)
    with less.prems have "arg \<notin> set xs" by (metis Un_iff append_take_drop_id set_append)
    with None show ?thesis by (simp add: remove_loop.simps [of arg i])
  next
    case (Some j)
    have j: "j < length xs" "xs ! j = arg" using index_from_Some [OF Some] by auto
    let ?xs = "take j xs @ drop (Suc j) xs"
    have "arg \<notin> set (take j xs)" using Some less.prems by (rule index_from_take)
    then have notin: "arg \<notin> set (take j ?xs)" using j(1) by simp
    have shorter: "length ?xs < length xs" using j(1) by auto
    note hyp = less.hyps [OF shorter notin]
    show ?thesis
      unfolding remove_loop.simps [of arg i] Some using hyp remove_step [OF j] by simp
  qed
qed

lemma remove_loop_firing:
  assumes "remove_loop arg i True (xs, int (length xs), idx) = (ys, len', idx')" and "- 1 \<le> idx"
  shows "len' = int (length ys) \<and> - 1 \<le> idx'
       \<and> removeAll arg (after_index idx' ys) = removeAll arg (after_index idx xs)"
  using assms
proof (induction "length xs" arbitrary: i xs idx rule: less_induct)
  case less
  show ?case
  proof (cases "index_from arg xs i")
    case None
    with less.prems show ?thesis by (auto simp: remove_loop.simps [of arg i])
  next
    case (Some j)
    have j: "j < length xs" "xs ! j = arg" using index_from_Some [OF Some] by auto
    let ?xs = "take j xs @ drop (Suc j) xs"
    let ?idx = "if int j \<le> idx then idx - 1 else idx"
    have len: "int (length xs) - 1 = int (length ?xs)" using j by auto
    have "remove_loop arg i True (xs, int (length xs), idx)
        = remove_loop arg j True (?xs, int (length xs) - 1, ?idx)"
      using j(1) by (subst remove_loop.simps) (simp add: Some)
    then have eq: "remove_loop arg j True (?xs, int (length ?xs), ?idx) = (ys, len', idx')"
      unfolding less.prems(1) len by simp
    have shorter: "length ?xs < length xs" using j by auto
    have "- 1 \<le> ?idx" using less.prems(2) by auto
    with shorter eq have "len' = int (length ys) \<and> - 1 \<le> idx'
       \<and> removeAll arg (after_index idx' ys) = removeAll arg (after_index ?idx ?xs)"
      by (rule less.hyps)
    then show ?thesis using after_index_step [OF j less.prems(2)] by simp
  qed
qed

lemma remove_all_list:
  "fst (remove_all fng args (xs, len, idx)) = filter (\<lambda>f. f \<notin> set args) xs"
proof (induction args arbitrary: xs len idx)
  case (Cons a args)
  obtain z l k where s: "remove_loop a 0 fng (xs, len, idx) = (z, l, k)"
    by (cases "remove_loop a 0 fng (xs, len, idx)")
  have "z = removeAll a xs" using remove_loop_list [of a 0 xs fng len idx] s by simp
  with s Cons.IH [of z l k] show ?case
    by (auto simp: removeAll_filter_not_eq intro!: filter_cong)
qed simp

lemma remove_all_firing:
  assumes "remove_all True args (xs, int (length xs), idx) = (ys, len', idx')" and "- 1 \<le> idx"
  shows "len' = int (length ys) \<and> - 1 \<le> idx'
       \<and> after_index idx' ys = filter (\<lambda>f. f \<notin> set args) (after_index idx xs)"
  using assms
proof (induction args arbitrary: xs idx)
  case Nil
  then show ?case by auto
next
  case (Cons a args)
  obtain z l k where s: "remove_loop a 0 True (xs, int (length xs), idx) = (z, l, k)"
    by (cases "remove_loop a 0 True (xs, int (length xs), idx)")
  have z: "z = removeAll a xs" using remove_loop_list [of a 0 xs True "int (length xs)" idx] s by simp
  have f: "l = int (length z) \<and> - 1 \<le> k
     \<and> removeAll a (after_index k z) = removeAll a (after_index idx xs)"
    using s Cons.prems(2) by (rule remove_loop_firing)
  have "a \<notin> set (after_index k z)" using z by (auto simp: after_index_def dest: in_set_dropD)
  with f have "after_index k z = removeAll a (after_index idx xs)" by simp
  moreover have "remove_all True args (z, int (length z), k) = (ys, len', idx')"
    using Cons.prems(1) s f by simp
  ultimately show ?case using Cons.IH [of z k] f
    by (auto simp: removeAll_filter_not_eq intro!: filter_cong)
qed

section \<open>The invariant of a list\<close>

text \<open>
  While a list fires, firingLength is the length of the list, the list has been marked as
  fired, and firingIndex is at least -1 (remove can move it back below the first callback). A
  unique list holds no callback twice.
\<close>

definition cinv :: "'f clist \<Rightarrow> bool" where
  "cinv c \<longleftrightarrow>
     (case cblist c of None \<Rightarrow> True
      | Some xs \<Rightarrow> (opt_unique c \<longrightarrow> distinct xs) \<and> (firing c \<longrightarrow> firingLength c = int (length xs)))
     \<and> (firing c \<longrightarrow> fired c \<and> - 1 \<le> firingIndex c)"

lemma opt_update_simps [simp]:
  "opt_unique (c\<lparr>cblist := x1\<rparr>) = opt_unique c" "opt_unique (c\<lparr>memory := x2\<rparr>) = opt_unique c"
  "opt_unique (c\<lparr>firing := x3\<rparr>) = opt_unique c" "opt_unique (c\<lparr>firingLength := x4\<rparr>) = opt_unique c"
  "opt_unique (c\<lparr>firingIndex := x5\<rparr>) = opt_unique c" "opt_unique (c\<lparr>stack := x6\<rparr>) = opt_unique c"
  "opt_unique (c\<lparr>firingStart := x7\<rparr>) = opt_unique c" "opt_unique (c\<lparr>fired := x3\<rparr>) = opt_unique c"
  "opt_memory (c\<lparr>cblist := x1\<rparr>) = opt_memory c" "opt_memory (c\<lparr>memory := x2\<rparr>) = opt_memory c"
  "opt_memory (c\<lparr>firing := x3\<rparr>) = opt_memory c" "opt_memory (c\<lparr>firingLength := x4\<rparr>) = opt_memory c"
  "opt_memory (c\<lparr>firingIndex := x5\<rparr>) = opt_memory c" "opt_memory (c\<lparr>stack := x6\<rparr>) = opt_memory c"
  "opt_memory (c\<lparr>firingStart := x7\<rparr>) = opt_memory c" "opt_memory (c\<lparr>fired := x3\<rparr>) = opt_memory c"
  "opt_stopOnFalse (c\<lparr>cblist := x1\<rparr>) = opt_stopOnFalse c"
  "opt_stopOnFalse (c\<lparr>memory := x2\<rparr>) = opt_stopOnFalse c"
  "opt_stopOnFalse (c\<lparr>firing := x3\<rparr>) = opt_stopOnFalse c"
  "opt_stopOnFalse (c\<lparr>firingLength := x4\<rparr>) = opt_stopOnFalse c"
  "opt_stopOnFalse (c\<lparr>firingIndex := x5\<rparr>) = opt_stopOnFalse c"
  "opt_stopOnFalse (c\<lparr>stack := x6\<rparr>) = opt_stopOnFalse c"
  "opt_stopOnFalse (c\<lparr>firingStart := x7\<rparr>) = opt_stopOnFalse c"
  "opt_stopOnFalse (c\<lparr>fired := x3\<rparr>) = opt_stopOnFalse c"
  by (simp_all add: opt_unique_def opt_memory_def opt_stopOnFalse_def)

lemma cinv_new [js_inv]: "cinv (new_Callbacks opts)"
  by (simp add: cinv_def new_Callbacks_def)

lemma cinv_disable [js_inv]: "cinv c \<Longrightarrow> cinv (disable c)"
  by (auto simp: cinv_def disable_def)

lemma cinv_lock [js_inv]: "cinv c \<Longrightarrow> cinv (lock c)"
  by (auto simp: cinv_def lock_def disable_def Let_def split: option.splits)

lemma cinv_empty [js_inv]: "cinv c \<Longrightarrow> cinv (empty c)"
  by (auto simp: cinv_def empty_def split: option.splits)

lemma remove_cblist:
  "cblist (remove args c) = map_option (filter (\<lambda>f. f \<notin> set args)) (cblist c)"
proof (cases "cblist c")
  case (Some xs)
  then show ?thesis
    using remove_all_list [of "firing c" args xs "firingLength c" "firingIndex c"]
    by (auto simp: remove_def split: prod.splits)
qed (simp add: remove_def)

lemma remove_frame [simp]:
  "firing (remove args c) = firing c" "fired (remove args c) = fired c"
  "firingStart (remove args c) = firingStart c" "memory (remove args c) = memory c"
  "stack (remove args c) = stack c" "options (remove args c) = options c"
  by (auto simp: remove_def split: option.splits prod.splits)

lemma remove_firing:
  assumes "cblist c = Some xs" "cinv c" "firing c"
  shows "firingLength (remove args c) = int (length (filter (\<lambda>f. f \<notin> set args) xs))
     \<and> - 1 \<le> firingIndex (remove args c)
     \<and> after_index (firingIndex (remove args c)) (filter (\<lambda>f. f \<notin> set args) xs)
           = filter (\<lambda>f. f \<notin> set args) (after_index (firingIndex c) xs)"
proof -
  obtain ys len idx where s: "remove_all True args (xs, int (length xs), firingIndex c) = (ys, len, idx)"
    by (cases "remove_all True args (xs, int (length xs), firingIndex c)")
  have "firingLength c = int (length xs)" "- 1 \<le> firingIndex c"
    using assms by (auto simp: cinv_def)
  moreover from this have "remove args c = c\<lparr>cblist := Some ys, firingLength := len, firingIndex := idx\<rparr>"
    using assms s by (simp add: remove_def)
  moreover have "ys = filter (\<lambda>f. f \<notin> set args) xs"
    using remove_all_list [of True args xs "int (length xs)" "firingIndex c"] s by simp
  ultimately show ?thesis using remove_all_firing [OF s] by simp
qed

lemma cinv_remove [js_inv]:
  assumes "cinv c" shows "cinv (remove args c)"
proof (cases "cblist c")
  case None
  then show ?thesis using assms by (simp add: remove_def)
next
  case (Some xs)
  have "opt_unique (remove args c) = opt_unique c" by (simp add: opt_unique_def)
  moreover have "firingIndex (remove args c) \<ge> - 1" if "firing c"
    using remove_firing [OF Some assms that] by blast
  moreover have "firingLength (remove args c) = int (length (filter (\<lambda>f. f \<notin> set args) xs))" if "firing c"
    using remove_firing [OF Some assms that] by blast
  ultimately show ?thesis using assms Some by (auto simp: cinv_def remove_cblist)
qed

section \<open>The invariant is kept by everything a callback can do\<close>

definition winv :: "('f, 'z) world_scheme \<Rightarrow> bool" where
  "winv w \<longleftrightarrow> (\<forall>l. cinv (clists w l))"

text \<open>
  Nothing stops the firing of a list that is in progress; where no callback may throw
  (\<open>T\<close> is False) nothing leaves a list firing either.
\<close>

definition keeps :: "bool \<Rightarrow> ('f, 'z) world_scheme \<Rightarrow> ('f, 'z) world_scheme \<Rightarrow> bool" where
  "keeps T w w' \<longleftrightarrow> (\<forall>l. (firing (clists w l) \<longrightarrow> firing (clists w' l))
     \<and> (\<not> T \<longrightarrow> firing (clists w' l) = firing (clists w l)))"

text \<open>
  A well-behaved callback: its own updates of the world keep the list invariant and start or
  stop no firing, and it throws only where \<open>T\<close> allows it.
\<close>

definition upd_ok :: "(('f, 'z) world_scheme \<Rightarrow> ('f, 'z) world_scheme) \<Rightarrow> bool" where
  "upd_ok u \<longleftrightarrow> (\<forall>w. winv w \<longrightarrow> winv (u w) \<and> keeps False w (u w))"

primrec beh_ok :: "bool \<Rightarrow> ('f, ('f, 'z) world_scheme) beh \<Rightarrow> bool" where
  "beh_ok T (Ret v) = True"
| "beh_ok T Throw = T"
| "beh_ok T (Call l op k) = (beh_ok T (k Done) \<and> (T \<longrightarrow> beh_ok T (k Threw)))"
| "beh_ok T (Get g) = (\<forall>w. beh_ok T (g w))"
| "beh_ok T (Upd u b) = (upd_ok u \<and> beh_ok T b)"

text \<open>
  A computation is safe from the states of \<open>P\<close>: where it returns, the invariant holds, the result
  is not the exception \<open>thr\<close> unless \<open>T\<close>, and the firing lists are kept.
\<close>

definition comp_ok :: "'r \<Rightarrow> bool \<Rightarrow> (('f, 'z) world_scheme \<Rightarrow> bool) \<Rightarrow> ('r, 'f, 'z) comp \<Rightarrow> bool" where
  "comp_ok thr T P c \<longleftrightarrow>
     (\<forall>w r w'. winv w \<longrightarrow> P w \<longrightarrow> c w = Some (r, w') \<longrightarrow>
        winv w' \<and> keeps T w w' \<and> (r = thr \<longrightarrow> T))"

lemma comp_okD:
  "comp_ok thr T P c \<Longrightarrow> winv w \<Longrightarrow> P w \<Longrightarrow> c w = Some (r, w') \<Longrightarrow>
     winv w' \<and> keeps T w w' \<and> (r = thr \<longrightarrow> T)"
  by (auto simp: comp_ok_def)

lemma keeps_refl [simp]: "keeps T w w"
  by (simp add: keeps_def)

lemma keeps_trans: "keeps T w w' \<Longrightarrow> keeps T w' w'' \<Longrightarrow> keeps T w w''"
  by (simp add: keeps_def)

lemma keeps_weaken: "keeps False w w' \<Longrightarrow> keeps T w w'"
  by (simp add: keeps_def)

lemma winv_upd: "winv w \<Longrightarrow> cinv (g (clists w l)) \<Longrightarrow> winv (upd_list l g w)"
  by (simp add: winv_def upd_list_def)

lemma winv_log [simp]: "winv (log_call l f d w) = winv w"
  by (simp add: winv_def)

lemma winvD: "winv w \<Longrightarrow> cinv (clists w l)"
  by (simp add: winv_def)

lemma keeps_upd: "firing (g (clists w l)) = firing (clists w l) \<Longrightarrow> keeps T w (upd_list l g w)"
  by (simp add: keeps_def upd_list_def)

lemma keeps_log [simp]: "keeps T w (log_call l f d w)"
  by (simp add: keeps_def)

abbreviation idle :: "nat \<Rightarrow> ('f, 'z) world_scheme \<Rightarrow> bool" where
  "idle l w \<equiv> \<not> firing (clists w l) \<and> cblist (clists w l) \<noteq> None"

abbreviation in_loop :: "nat \<Rightarrow> ('f, 'z) world_scheme \<Rightarrow> bool" where
  "in_loop l w \<equiv> firing (clists w l) \<and> 0 \<le> firingIndex (clists w l)"

lemma fire_loop_body_ok:
  assumes inv: "\<And>f. comp_ok BThrew T (\<lambda>_. True) (invoke f)"
    and loop: "comp_ok Threw T (in_loop l) loop"
  shows "comp_ok Threw T (in_loop l) (fire_loop_body invoke loop l data)"
  unfolding comp_ok_def
proof (intro allI impI)
  fix w r w'
  assume w: "winv w" and P: "in_loop l w" and res: "fire_loop_body invoke loop l data w = Some (r, w')"
  let ?c = "clists w l"
  show "winv w' \<and> keeps T w w' \<and> (r = Threw \<longrightarrow> T)"
  proof (cases "cblist ?c")
    case None
    then show ?thesis using res w by (simp add: fire_loop_body_def)
  next
    case (Some xs)
    have len: "firingLength ?c = int (length xs)" using winvD [OF w, of l] P Some by (simp add: cinv_def)
    show ?thesis
    proof (cases "firingIndex ?c < firingLength ?c")
      case False
      then show ?thesis using res w Some by (simp add: fire_loop_body_def)
    next
      case True
      let ?f = "xs ! nat (firingIndex ?c)"
      have f: "nth_int xs (firingIndex ?c) = Some ?f" using True P len by (simp add: nth_int_def nat_less_iff)
      obtain b w1 where b: "invoke ?f (log_call l ?f data w) = Some (b, w1)"
        using res Some True f by (auto simp: fire_loop_body_def Let_def split: option.splits)
      have w1: "winv w1 \<and> keeps T w w1 \<and> (b = BThrew \<longrightarrow> T)"
        using comp_okD [OF inv, of "log_call l ?f data w"] b w
        by (auto simp: keeps_def)
      show ?thesis
      proof (cases "b = BThrew")
        case True
        then show ?thesis using res Some f b w1 \<open>firingIndex ?c < firingLength ?c\<close>
          by (auto simp: fire_loop_body_def)
      next
        case False
        with w1 have sf: "keeps T w w1" by blast
        let ?w2 = "upd_list l (\<lambda>c. c\<lparr>memory := None\<rparr>) w1"
        let ?w3 = "upd_list l (\<lambda>c. c\<lparr>firingIndex := firingIndex c + 1\<rparr>) w1"
        have fl: "firing (clists w1 l)" using sf P by (simp add: keeps_def)
        have c1: "cinv (clists w1 l)" using w1 winvD by blast
        have w2: "winv ?w2 \<and> keeps T w ?w2"
          using w1 sf c1 by (auto intro!: winv_upd keeps_trans [OF sf] keeps_upd
              simp: cinv_def split: option.splits)
        have w3: "winv ?w3 \<and> keeps T w ?w3"
          using w1 sf c1 by (auto intro!: winv_upd keeps_trans [OF sf] keeps_upd
              simp: cinv_def split: option.splits)
        have "in_loop l ?w3" using fl c1 by (simp add: cinv_def)
        then have "loop ?w3 = Some (r, w') \<Longrightarrow> ?thesis"
          using comp_okD [OF loop, of ?w3 r w'] w3 keeps_trans by auto
        moreover have "(r, w') = (Done, ?w2) \<or> loop ?w3 = Some (r, w')"
          using res Some f b False True
          by (auto simp: fire_loop_body_def Let_def split: if_splits)
        ultimately show ?thesis using w2 by auto
      qed
    qed
  qed
qed

lemma end_fire_ok:
  assumes again: "\<And>d. comp_ok Threw T (idle l) (again d)"
    and w1: "winv w1" and sf: "keeps T (upd_list l (begin_fire data xs) w) w1"
    and idle: "\<not> firing (clists w l)" and res: "end_fire again l w1 = Some (r, w')"
  shows "winv w' \<and> keeps T w w' \<and> (r = Threw \<longrightarrow> T)"
proof -
  let ?w2 = "upd_list l (\<lambda>c. c\<lparr>firing := False\<rparr>) w1"
  have c1: "cinv (clists w1 l)" using w1 winvD by blast
  have w2: "winv ?w2" using w1 c1 by (auto intro!: winv_upd simp: cinv_def split: option.splits)
  have s2: "keeps T w ?w2"
    using sf idle by (auto simp: keeps_def upd_list_def begin_fire_def split: if_splits)
  have step: "winv (upd_list l g ?w2) \<and> keeps T w (upd_list l g ?w2)"
    if "cinv (g (clists ?w2 l))" "firing (g (clists ?w2 l)) = firing (clists ?w2 l)" for g
    using that winv_upd [OF w2] keeps_trans [OF s2 keeps_upd] by blast
  have c2: "cinv (clists ?w2 l)" using w2 winvD by blast
  show ?thesis
  proof (cases "cblist (clists w1 l)")
    case None
    then show ?thesis using res w2 s2 by (simp add: end_fire_def)
  next
    case (Some ys)
    show ?thesis
    proof (cases "stack (clists w1 l)")
      case None
      then have r: "r = Done" and w': "w' = upd_list l (\<lambda>c. c\<lparr>cblist := Some []\<rparr>) ?w2 \<or> w' = upd_list l disable ?w2"
        using res Some \<open>cblist (clists w1 l) = Some ys\<close> by (auto simp: end_fire_def Let_def split: if_splits)
      have "cinv ((clists ?w2 l)\<lparr>cblist := Some []\<rparr>)" using c2 by (auto simp: cinv_def split: option.splits)
      moreover have "cinv (disable (clists ?w2 l))" using c2 by (rule cinv_disable)
      ultimately show ?thesis
        using r w' step [of "\<lambda>c. c\<lparr>cblist := Some []\<rparr>"] step [of disable] by (auto simp: disable_def)
    next
      case (Some ds)
      let ?w3 = "upd_list l (\<lambda>c. c\<lparr>stack := Some (tl ds)\<rparr>) ?w2"
      have "cinv ((clists ?w2 l)\<lparr>stack := Some (tl ds)\<rparr>)" using c2 by (auto simp: cinv_def split: option.splits)
      then have w3: "winv ?w3 \<and> keeps T w ?w3" by (intro step) auto
      show ?thesis
      proof (cases "ds = []")
        case True
        then show ?thesis using res w2 s2 Some \<open>cblist (clists w1 l) = Some ys\<close> by (simp add: end_fire_def)
      next
        case False
        then have "again (hd ds) ?w3 = Some (r, w')"
          using res Some \<open>cblist (clists w1 l) = Some ys\<close> by (simp add: end_fire_def)
        moreover have "idle l ?w3" using \<open>cblist (clists w1 l) = Some ys\<close> by simp
        ultimately show ?thesis
          using comp_okD [OF again, of ?w3 "hd ds" r w'] w3 keeps_trans by auto
      qed
    qed
  qed
qed

lemma fire_body_ok:
  assumes loop: "comp_ok Threw T (in_loop l) loop" and again: "\<And>d. comp_ok Threw T (idle l) (again d)"
  shows "comp_ok Threw T (idle l) (fire_body loop again l data)"
  unfolding comp_ok_def
proof (intro allI impI)
  fix w r w'
  assume w: "winv w" and P: "idle l w" and res: "fire_body loop again l data w = Some (r, w')"
  obtain xs where xs: "cblist (clists w l) = Some xs" using P by auto
  let ?w0 = "upd_list l (begin_fire data xs) w"
  have "cinv (begin_fire data xs (clists w l))"
    using winvD [OF w, of l] xs by (auto simp: cinv_def begin_fire_def opt_unique_def)
  then have w0: "winv ?w0" by (rule winv_upd [OF w])
  have P0: "in_loop l ?w0" by (simp add: begin_fire_def)
  obtain r1 w1 where l: "loop ?w0 = Some (r1, w1)"
    using res xs by (auto simp: fire_body_def split: option.splits)
  note w1 = comp_okD [OF loop w0 P0 l]
  show "winv w' \<and> keeps T w w' \<and> (r = Threw \<longrightarrow> T)"
  proof (cases "r1 = Threw")
    case True
    then show ?thesis using res xs l w1 P
      by (auto simp: fire_body_def keeps_def upd_list_def split: if_splits)
  next
    case False
    then show ?thesis
      using res xs l w1 P
      by (intro end_fire_ok [OF again]) (auto simp: fire_body_def)
  qed
qed

lemma add_op_ok:
  assumes fire_it: "\<And>d. comp_ok Threw T (idle l) (fire_it d)"
  shows "comp_ok Threw T (\<lambda>_. True) (add_op fire_it l args)"
  unfolding comp_ok_def
proof (intro allI impI)
  fix w r w'
  assume w: "winv w" and res: "add_op fire_it l args w = Some (r, w')"
  let ?c = "clists w l"
  have c: "cinv ?c" using w winvD by blast
  show "winv w' \<and> keeps T w w' \<and> (r = Threw \<longrightarrow> T)"
  proof (cases "cblist ?c")
    case None
    then show ?thesis using res w by (simp add: add_op_def)
  next
    case (Some xs)
    let ?ys = "add_list (opt_unique ?c) xs args"
    let ?w1 = "upd_list l (\<lambda>c. c\<lparr>cblist := Some ?ys\<rparr>) w"
    have dist: "opt_unique ?c \<Longrightarrow> distinct ?ys" using c Some by (auto simp: cinv_def intro: add_list_distinct)
    show ?thesis
    proof (cases "firing ?c")
      case True
      let ?g = "\<lambda>c. c\<lparr>cblist := Some ?ys, firingLength := int (length ?ys)\<rparr>"
      have "w' = upd_list l ?g w" "r = Done"
        using res Some True by (auto simp: add_op_def Let_def upd_list_def)
      moreover have "cinv (?g ?c)" using c True dist by (simp add: cinv_def)
      ultimately show ?thesis using w by (auto intro!: winv_upd keeps_upd)
    next
      case False
      have "cinv (?c\<lparr>cblist := Some ?ys\<rparr>)" using c False dist by (simp add: cinv_def)
      then have w1: "winv ?w1 \<and> keeps T w ?w1" using w by (auto intro!: winv_upd keeps_upd)
      show ?thesis
      proof (cases "memory ?c")
        case None
        then show ?thesis using res Some False w1 by (auto simp: add_op_def Let_def)
      next
        case (Some m)
        let ?w2 = "upd_list l (\<lambda>c. c\<lparr>firingStart := length xs\<rparr>) ?w1"
        have "cinv (clists ?w1 l\<lparr>firingStart := length xs\<rparr>)"
          using w1 winvD [of ?w1 l] by (simp add: cinv_def)
        then have "winv ?w2 \<and> keeps T w ?w2"
          using w1 keeps_trans [OF _ keeps_upd, of T w ?w1 "\<lambda>c. c\<lparr>firingStart := length xs\<rparr>" l]
          by (auto intro!: winv_upd)
        moreover have "fire_it m ?w2 = Some (r, w')"
          using res Some False \<open>cblist ?c = Some xs\<close> by (simp add: add_op_def Let_def)
        ultimately show ?thesis
          using comp_okD [OF fire_it, of ?w2 m r w'] False keeps_trans by auto
      qed
    qed
  qed
qed

lemma fireWith_op_ok:
  assumes fire_it: "\<And>d. comp_ok Threw T (idle l) (fire_it d)"
  shows "comp_ok Threw T (\<lambda>_. True) (fireWith_op fire_it l context args)"
  unfolding comp_ok_def
proof (intro allI impI)
  fix w r w'
  assume w: "winv w" and res: "fireWith_op fire_it l context args w = Some (r, w')"
  let ?c = "clists w l"
  let ?d = "(context, case args of None \<Rightarrow> [] | Some xs \<Rightarrow> xs)"
  have c: "cinv ?c" using w winvD by blast
  show "winv w' \<and> keeps T w w' \<and> (r = Threw \<longrightarrow> T)"
  proof (cases "cblist ?c \<noteq> None \<and> (\<not> fired ?c \<or> stack ?c \<noteq> None)")
    case False
    then have "w' = w \<and> r = Done" using res unfolding fireWith_op_def Let_def by (simp split: if_splits)
    then show ?thesis using w by simp
  next
    case True
    show ?thesis
    proof (cases "firing ?c")
      case fng: True
      then obtain ds where ds: "stack ?c = Some ds" using True c by (auto simp: cinv_def)
      let ?g = "\<lambda>c. c\<lparr>stack := Some (ds @ [?d])\<rparr>"
      have "w' = upd_list l ?g w \<and> r = Done"
        using res True fng ds unfolding fireWith_op_def Let_def by simp
      moreover have "cinv (?g ?c)" using c by (auto simp: cinv_def split: option.splits)
      ultimately show ?thesis using w by (auto intro!: winv_upd keeps_upd)
    next
      case False
      then have "fire_it ?d w = Some (r, w')"
        using res True unfolding fireWith_op_def Let_def by simp
      then show ?thesis using comp_okD [OF fire_it, of w ?d r w'] w True False by auto
    qed
  qed
qed

lemma op_body_ok:
  assumes fire_it: "\<And>d. comp_ok Threw T (idle l) (fire_it l d)"
  shows "comp_ok Threw T (\<lambda>_. True) (op_body fire_it l op)"
proof (cases op)
  case (OAdd args)
  then have "op_body fire_it l op = add_op (fire_it l) l args" by (auto simp: op_body_def)
  then show ?thesis using add_op_ok [of T l "fire_it l"] fire_it by simp
next
  case (OFireWith ctx args)
  then have "op_body fire_it l op = fireWith_op (fire_it l) l ctx args" by (auto simp: op_body_def)
  then show ?thesis using fireWith_op_ok [of T l "fire_it l"] fire_it by simp
next
  case (ORemove args)
  then show ?thesis
    by (auto simp: comp_ok_def op_body_def intro!: winv_upd cinv_remove keeps_upd dest: winvD)
next
  case OEmpty
  then show ?thesis
    by (auto simp: comp_ok_def op_body_def empty_def [of "clists _ _"] intro!: winv_upd cinv_empty keeps_upd dest: winvD)
next
  case ODisable
  then show ?thesis
    by (auto simp: comp_ok_def op_body_def disable_def [of "clists _ _"] intro!: winv_upd cinv_disable keeps_upd dest: winvD)
next
  case OLock
  then show ?thesis
    by (auto simp: comp_ok_def op_body_def intro!: winv_upd cinv_lock keeps_upd dest: winvD)
      (simp_all add: lock_def disable_def Let_def split: if_splits)
qed

lemma run_beh_body_ok:
  assumes oper: "\<And>l op. comp_ok Threw T (\<lambda>_. True) (oper l op)"
    and run: "\<And>b. beh_ok T b \<Longrightarrow> comp_ok BThrew T (\<lambda>_. True) (run b)"
    and b: "beh_ok T b"
  shows "comp_ok BThrew T (\<lambda>_. True) (run_beh_body oper run b)"
  unfolding comp_ok_def
proof (intro allI impI)
  fix w r w'
  assume w: "winv w" and res: "run_beh_body oper run b w = Some (r, w')"
  show "winv w' \<and> keeps T w w' \<and> (r = BThrew \<longrightarrow> T)"
  proof (cases b)
    case (Call l op k)
    then obtain r1 w1 where o: "oper l op w = Some (r1, w1)" and k: "run (k r1) w1 = Some (r, w')"
      using res by (auto simp: run_beh_body_def split: option.splits)
    note w1 = comp_okD [OF oper w _ o]
    show ?thesis
    proof (cases r1)
      case Done
      then have "beh_ok T (k r1)" using b Call by simp
      from comp_okD [OF run [OF this] _ _ k] w1 Done show ?thesis
        by (auto intro: keeps_trans)
    next
      case Threw
      then have "T" using w1 by simp
      then have "beh_ok T (k r1)" using b Call Threw by simp
      from comp_okD [OF run [OF this] _ _ k] w1 show ?thesis
        using \<open>T\<close> by (auto intro: keeps_trans)
    qed
  next
    case (Get g)
    then show ?thesis using res w b comp_okD [OF run [of "g w"], of w r w']
      by (auto simp: run_beh_body_def)
  next
    case (Upd u b')
    then have "winv (u w) \<and> keeps T w (u w)"
      using b w keeps_weaken [of w "u w" T] by (auto simp: upd_ok_def)
    then show ?thesis using Upd res b comp_okD [OF run [of b'], of "u w" r w']
      by (auto simp: run_beh_body_def intro: keeps_trans)
  qed (use res w b in \<open>auto simp: run_beh_body_def\<close>)
qed

end
