(* ===== verification/Callbacks_Fire.thy ===== *)
theory Callbacks_Fire
  imports Callbacks
begin

text \<open>
  What holds of the firing engine of Callbacks for every amount of fuel and every behaviour of
  the callbacks, and what firing callbacks that only return a value does exactly.
\<close>

section \<open>Safety of the engine\<close>

text \<open>All four functions, by induction on the fuel.\<close>

lemma engine_ok:
  assumes E: "\<And>f d. beh_ok T (E f d)"
  shows "comp_ok Threw T (idle l) (fire n E l d)"
    and "comp_ok Threw T (in_loop l) (fire_loop n E l d)"
    and "beh_ok T b \<Longrightarrow> comp_ok BThrew T (\<lambda>_. True) (run_beh n E b)"
    and "comp_ok Threw T (\<lambda>_. True) (exec_op n E l op)"
proof (induction n arbitrary: l d b op)
  case 0
  { case 1 show ?case by (simp add: comp_ok_def) next
    case 2 show ?case by (simp add: comp_ok_def) next
    case 3 show ?case by (simp add: comp_ok_def) next
    case 4 show ?case by (simp add: comp_ok_def) }
next
  case (Suc n)
  { case 1
    have eq: "fire (Suc n) E l d = fire_body (fire_loop n E l d) (fire n E l) l d" by (rule ext) simp
    show ?case unfolding eq by (rule fire_body_ok [OF Suc.IH(2) Suc.IH(1)])
  next
    case 2
    have eq: "fire_loop (Suc n) E l d = fire_loop_body (\<lambda>f. run_beh n E (E f d)) (fire_loop n E l d) l d"
      by (rule ext) simp
    show ?case unfolding eq by (rule fire_loop_body_ok [OF Suc.IH(3) [OF E] Suc.IH(2)])
  next
    case 3
    have eq: "run_beh (Suc n) E b = run_beh_body (exec_op n E) (run_beh n E) b" by (rule ext) simp
    show ?case unfolding eq by (rule run_beh_body_ok [OF Suc.IH(4) Suc.IH(3) 3])
  next
    case 4
    have eq: "exec_op (Suc n) E l op = op_body (fire n E) l op" by (rule ext) simp
    show ?case unfolding eq by (rule op_body_ok) (rule Suc.IH(1)) }
qed

section \<open>More fuel changes nothing\<close>

definition less_fuel :: "('r, 'f, 'z) comp \<Rightarrow> ('r, 'f, 'z) comp \<Rightarrow> bool" where
  "less_fuel c c' \<longleftrightarrow> (\<forall>w x. c w = Some x \<longrightarrow> c' w = Some x)"

lemma less_fuel_iff: "less_fuel c c' \<longleftrightarrow> (\<forall>w. c w \<noteq> None \<longrightarrow> c' w = c w)"
  unfolding less_fuel_def by (metis not_None_eq)

lemma less_fuel_eq: "less_fuel c c' \<Longrightarrow> c w \<noteq> None \<Longrightarrow> c' w = c w"
  unfolding less_fuel_iff by blast

lemma end_fire_mono:
  assumes "\<And>d. less_fuel (again d) (again' d)"
  shows "less_fuel (end_fire again l) (end_fire again' l)"
  unfolding less_fuel_iff
  by (auto simp: end_fire_def Let_def less_fuel_eq [OF assms] split: option.split_asm if_split_asm)

lemma fire_body_mono:
  assumes "less_fuel loop loop'" "\<And>d. less_fuel (again d) (again' d)"
  shows "less_fuel (fire_body loop again l d) (fire_body loop' again' l d)"
  unfolding less_fuel_iff
  by (auto simp: fire_body_def less_fuel_eq [OF assms(1)] less_fuel_eq [OF end_fire_mono [OF assms(2)]]
      split: option.split_asm if_split_asm)

lemma fire_loop_body_mono:
  assumes "\<And>f. less_fuel (invoke f) (invoke' f)" "less_fuel loop loop'"
  shows "less_fuel (fire_loop_body invoke loop l d) (fire_loop_body invoke' loop' l d)"
  unfolding less_fuel_iff
  by (auto simp: fire_loop_body_def Let_def less_fuel_eq [OF assms(1)] less_fuel_eq [OF assms(2)]
      split: option.split_asm if_split_asm)

lemma run_beh_body_mono:
  assumes "\<And>l op. less_fuel (oper l op) (oper' l op)" "\<And>b. less_fuel (run b) (run' b)"
  shows "less_fuel (run_beh_body oper run b) (run_beh_body oper' run' b)"
  unfolding less_fuel_iff
  by (cases b) (auto simp: run_beh_body_def less_fuel_eq [OF assms(1)] less_fuel_eq [OF assms(2)]
      split: option.split_asm)

lemma op_body_mono:
  assumes "\<And>l d. less_fuel (fire_it l d) (fire_it' l d)"
  shows "less_fuel (op_body fire_it l op) (op_body fire_it' l op)"
  unfolding less_fuel_iff
  by (cases op) (auto simp: op_body_def add_op_def fireWith_op_def Let_def less_fuel_eq [OF assms]
      split: option.split_asm if_split_asm)

lemma engine_mono:
  "less_fuel (fire n E l d) (fire (Suc n) E l d)"
  "less_fuel (fire_loop n E l d) (fire_loop (Suc n) E l d)"
  "less_fuel (run_beh n E b) (run_beh (Suc n) E b)"
  "less_fuel (exec_op n E l op) (exec_op (Suc n) E l op)"
proof (induction n arbitrary: l d b op)
  case 0
  { case 1 show ?case by (simp add: less_fuel_def) next
    case 2 show ?case by (simp add: less_fuel_def) next
    case 3 show ?case by (simp add: less_fuel_def) next
    case 4 show ?case by (simp add: less_fuel_def) }
next
  case (Suc n)
  { case 1
    have eq: "\<And>m. fire (Suc m) E l d = fire_body (fire_loop m E l d) (fire m E l) l d" by (rule ext) simp
    show ?case by (subst (1 2) eq) (rule fire_body_mono [OF Suc.IH(2) Suc.IH(1)])
  next
    case 2
    have eq: "\<And>m. fire_loop (Suc m) E l d = fire_loop_body (\<lambda>f. run_beh m E (E f d)) (fire_loop m E l d) l d"
      by (rule ext) simp
    show ?case by (subst (1 2) eq) (rule fire_loop_body_mono [OF Suc.IH(3) Suc.IH(2)])
  next
    case 3
    have eq: "\<And>m. run_beh (Suc m) E b = run_beh_body (exec_op m E) (run_beh m E) b" by (rule ext) simp
    show ?case by (subst (1 2) eq) (rule run_beh_body_mono [OF Suc.IH(4) Suc.IH(3)])
  next
    case 4
    have eq: "\<And>m. exec_op (Suc m) E l op = op_body (fire m E) l op" by (rule ext) simp
    show ?case by (subst (1 2) eq) (rule op_body_mono, rule Suc.IH(1)) }
qed

lemma fuel_mono:
  assumes "exec_op n E l op w = Some x" "n \<le> m"
  shows "exec_op m E l op w = Some x"
  using assms(2)
proof (induction m rule: dec_induct)
  case base
  show ?case by (rule assms(1))
next
  case (step m)
  then show ?case using engine_mono(4) [of m E l op] by (simp only: less_fuel_def)
qed

section \<open>Firing callbacks that only return a value\<close>

definition plain :: "('f \<Rightarrow> cbdata \<Rightarrow> jsval) \<Rightarrow> ('f, 'z) env" where
  "plain R = (\<lambda>f d. Ret (R f d))"

text \<open>The callbacks a firing reaches: up to the first false, when stopOnFalse is set.\<close>

fun called :: "bool \<Rightarrow> ('f \<Rightarrow> jsval) \<Rightarrow> 'f list \<Rightarrow> 'f list" where
  "called stop r [] = []"
| "called stop r (f # fs) = f # (if stop \<and> is_false (r f) then [] else called stop r fs)"

definition stopped :: "bool \<Rightarrow> ('f \<Rightarrow> jsval) \<Rightarrow> 'f list \<Rightarrow> bool" where
  "stopped stop r fs \<longleftrightarrow> stop \<and> (\<exists>f\<in>set fs. is_false (r f))"

lemma called_all: "\<not> stopped stop r fs \<Longrightarrow> called stop r fs = fs"
  by (induction fs) (auto simp: stopped_def)

lemma stopped_simps [simp]:
  "stopped stop r [] = False"
  "stopped stop r (f # fs) = ((stop \<and> is_false (r f)) \<or> stopped stop r fs)"
  by (auto simp: stopped_def)

text \<open>The state after the loop: the calls are logged, and the index stands where the loop left.\<close>

definition loop_result :: "nat \<Rightarrow> cbdata \<Rightarrow> bool \<Rightarrow> ('f \<Rightarrow> jsval) \<Rightarrow> 'f list
    \<Rightarrow> ('f, 'z) world_scheme \<Rightarrow> ('f, 'z) world_scheme" where
  "loop_result l d stop r fs w =
     (upd_list l (\<lambda>c. if stopped stop r fs
          then c\<lparr>memory := None, firingIndex := firingIndex c + int (length (called stop r fs)) - 1\<rparr>
          else c\<lparr>firingIndex := firingIndex c + int (length fs)\<rparr>) w)
      \<lparr>calls := calls w @ map (\<lambda>f. (l, f, d)) (called stop r fs)\<rparr>"

lemma run_beh_plain: "0 < n \<Longrightarrow> run_beh n (plain R) (plain R f d) w = Some (BRet (R f d), w)"
  by (cases n) (simp_all add: run_beh_body_def plain_def)

lemma plain_loop:
  assumes "cblist (clists w l) = Some xs" "firingLength (clists w l) = int (length xs)"
    and "firingIndex (clists w l) = int k" "k \<le> length xs" "length xs - k + 2 \<le> n"
  shows "fire_loop n (plain R) l d w =
     Some (Done, loop_result l d (opt_stopOnFalse (clists w l)) (\<lambda>f. R f d) (drop k xs) w)"
  using assms
proof (induction "length xs - k" arbitrary: k n w)
  case 0
  obtain m where n: "n = Suc m" using 0 by (cases n) auto
  have "drop k xs = []" using 0 by simp
  moreover have "w\<lparr>calls := calls w, clists := (clists w)(l := clists w l)\<rparr> = w" by simp
  ultimately show ?case using 0 n
    by (simp add: fire_loop_body_def loop_result_def upd_list_def)
next
  case (Suc j)
  obtain m where n: "n = Suc m" and m: "0 < m" using Suc.prems by (cases n) auto
  let ?c = "clists w l"
  let ?stop = "opt_stopOnFalse ?c"
  let ?f = "xs ! k"
  have k: "k < length xs" using Suc.hyps(2) by simp
  then have drop: "drop k xs = ?f # drop (Suc k) xs" by (simp add: Cons_nth_drop_Suc)
  have nth: "nth_int xs (firingIndex ?c) = Some ?f" using k Suc.prems by (simp add: nth_int_def)
  show ?case
  proof (cases "is_false (R ?f d) \<and> ?stop")
    case True
    then show ?thesis
      using n m k nth Suc.prems drop
      by (simp add: fire_loop_body_def run_beh_plain loop_result_def log_call_def upd_list_def)
  next
    case False
    let ?w = "upd_list l (\<lambda>c. c\<lparr>firingIndex := firingIndex c + 1\<rparr>) (log_call l ?f d w)"
    have ih: "fire_loop m (plain R) l d ?w =
        Some (Done, loop_result l d (opt_stopOnFalse (clists ?w l)) (\<lambda>f. R f d) (drop (Suc k) xs) ?w)"
      using Suc.hyps Suc.prems n k by (intro Suc.hyps(1)) auto
    have "fire_loop n (plain R) l d w = fire_loop m (plain R) l d ?w"
      using n m k nth Suc.prems False
      by (auto simp: fire_loop_body_def run_beh_plain)
    also have "\<dots> = Some (Done, loop_result l d ?stop (\<lambda>f. R f d) (drop (Suc k) xs) ?w)"
      unfolding ih by simp
    also have "loop_result l d ?stop (\<lambda>f. R f d) (drop (Suc k) xs) ?w
        = loop_result l d ?stop (\<lambda>f. R f d) (drop k xs) w"
      using False by (auto simp: loop_result_def upd_list_def log_call_def drop algebra_simps)
    finally show ?thesis .
  qed
qed

text \<open>The state after a whole firing, from the callback number firingStart on.\<close>

definition fired_part :: "'f clist \<Rightarrow> 'f list" where
  "fired_part c = (case cblist c of None \<Rightarrow> [] | Some xs \<Rightarrow> drop (firingStart c) xs)"

definition fired_list :: "cbdata \<Rightarrow> ('f \<Rightarrow> jsval) \<Rightarrow> 'f clist \<Rightarrow> 'f clist" where
  "fired_list d r c =
     (let fs = fired_part c; st = stopped (opt_stopOnFalse c) r fs;
          mem = (if opt_memory c \<and> \<not> st then Some d else None) in
      c\<lparr>memory := mem, fired := True, firing := False,
        firingIndex := int (firingStart c)
          + (if st then int (length (called (opt_stopOnFalse c) r fs)) - 1 else int (length fs)),
        firingStart := 0,
        firingLength := (case cblist c of None \<Rightarrow> 0 | Some xs \<Rightarrow> int (length xs)),
        cblist := (if stack c \<noteq> None then cblist c else if mem \<noteq> None then Some [] else None)\<rparr>)"

definition fire_result :: "nat \<Rightarrow> cbdata \<Rightarrow> ('f \<Rightarrow> jsval) \<Rightarrow> ('f, 'z) world_scheme \<Rightarrow> ('f, 'z) world_scheme" where
  "fire_result l d r w =
     (upd_list l (fired_list d r) w)
       \<lparr>calls := calls w @ map (\<lambda>f. (l, f, d))
          (called (opt_stopOnFalse (clists w l)) r (fired_part (clists w l)))\<rparr>"

lemma plain_fire:
  assumes c: "cblist (clists w l) = Some xs" "firingStart (clists w l) \<le> length xs"
    and st: "stack (clists w l) = None \<or> stack (clists w l) = Some []"
    and n: "length xs - firingStart (clists w l) + 3 \<le> n"
  shows "fire n (plain R) l d w = Some (Done, fire_result l d (\<lambda>f. R f d) w)"
proof -
  let ?c = "clists w l"
  let ?stop = "opt_stopOnFalse ?c"
  let ?r = "\<lambda>f. R f d"
  let ?w0 = "upd_list l (begin_fire d xs) w"
  obtain m where m: "n = Suc m" using n by (cases n) auto
  have stop0: "opt_stopOnFalse (clists ?w0 l) = ?stop"
    by (simp add: begin_fire_def opt_stopOnFalse_def)
  have "fire_loop m (plain R) l d ?w0 =
      Some (Done, loop_result l d (opt_stopOnFalse (clists ?w0 l)) ?r (drop (firingStart ?c) xs) ?w0)"
    using c n m by (intro plain_loop) (auto simp: begin_fire_def)
  then have loop: "fire_loop m (plain R) l d ?w0 =
      Some (Done, loop_result l d ?stop ?r (drop (firingStart ?c) xs) ?w0)" unfolding stop0 .
  have part: "fired_part ?c = drop (firingStart ?c) xs" using c by (simp add: fired_part_def)
  have "end_fire (fire m (plain R) l) l (loop_result l d ?stop ?r (drop (firingStart ?c) xs) ?w0)
      = Some (Done, fire_result l d ?r w)"
  proof (cases "stopped ?stop ?r (drop (firingStart ?c) xs)")
    case True
    then show ?thesis using st c part
      by (cases d; cases "clists w l") (auto simp: end_fire_def Let_def loop_result_def fire_result_def
          fired_list_def upd_list_def begin_fire_def disable_def algebra_simps)
  next
    case False
    then show ?thesis using st c part
      by (cases d; cases "clists w l") (auto simp: end_fire_def Let_def loop_result_def fire_result_def
          fired_list_def upd_list_def begin_fire_def disable_def algebra_simps)
  qed
  then show ?thesis using c m loop by (simp add: fire_body_def)
qed

section \<open>The contract of a once memory list\<close>

text \<open>
  What Deferred and the queue hooks rely on: a list that is fired at most once with effect, calls
  everything added before at that moment and everything added later at once, all with the data
  of the first firing. \<open>held\<close> is what waits, \<open>val_of\<close> the remembered data, \<open>log_of\<close> the calls.
\<close>

locale one_shot =
  fixes add_to :: "'f list \<Rightarrow> 's \<Rightarrow> 's"
    and fire_with :: "'d \<Rightarrow> 's \<Rightarrow> 's"
    and held :: "'s \<Rightarrow> 'f list"
    and val_of :: "'s \<Rightarrow> 'd option"
    and log_of :: "'s \<Rightarrow> ('f \<times> 'd) list"
    and good :: "'s \<Rightarrow> bool"
  assumes add_pending: "good s \<Longrightarrow> val_of s = None \<Longrightarrow>
      good (add_to fs s) \<and> val_of (add_to fs s) = None \<and> held (add_to fs s) = held s @ fs
      \<and> log_of (add_to fs s) = log_of s"
    and add_fired: "good s \<Longrightarrow> val_of s = Some d \<Longrightarrow>
      good (add_to fs s) \<and> val_of (add_to fs s) = Some d
      \<and> log_of (add_to fs s) = log_of s @ map (\<lambda>f. (f, d)) fs"
    and fire_pending: "good s \<Longrightarrow> val_of s = None \<Longrightarrow>
      good (fire_with d s) \<and> val_of (fire_with d s) = Some d
      \<and> log_of (fire_with d s) = log_of s @ map (\<lambda>f. (f, d)) (held s)"
    and fire_fired: "good s \<Longrightarrow> val_of s = Some d' \<Longrightarrow>
      good (fire_with d s) \<and> val_of (fire_with d s) = Some d' \<and> log_of (fire_with d s) = log_of s"
begin

primrec run_script :: "('f list + 'd) list \<Rightarrow> 's \<Rightarrow> 's" where
  "run_script [] s = s"
| "run_script (x # xs) s = run_script xs (case x of Inl fs \<Rightarrow> add_to fs s | Inr d \<Rightarrow> fire_with d s)"

lemma run_fired:
  "good s \<Longrightarrow> val_of s = Some d \<Longrightarrow>
     log_of (run_script xs s) = log_of s @ map (\<lambda>f. (f, d)) (concat (map (case_sum id (\<lambda>_. [])) xs))"
proof (induction xs arbitrary: s)
  case (Cons x xs)
  show ?case
  proof (cases x)
    case (Inl fs)
    with Cons add_fired [of s d fs] show ?thesis by simp
  next
    case (Inr e)
    with Cons fire_fired [of s d e] show ?thesis by simp
  qed
qed simp

lemma run_pending:
  "good s \<Longrightarrow> val_of s = None \<Longrightarrow>
     log_of (run_script xs s) =
       (case filter (\<lambda>x. \<not> isl x) xs of
          [] \<Rightarrow> log_of s
        | x # _ \<Rightarrow> log_of s @ map (\<lambda>f. (f, projr x)) (held s @ concat (map (case_sum id (\<lambda>_. [])) xs)))"
proof (induction xs arbitrary: s)
  case (Cons x xs)
  show ?case
  proof (cases x)
    case (Inl fs)
    with Cons add_pending [of s fs] show ?thesis by (simp split: list.split)
  next
    case (Inr e)
    with Cons fire_pending [of s e] run_fired [of "fire_with e s" e xs] show ?thesis by simp
  qed
qed simp

end

section \<open>The model satisfies the contract\<close>

text \<open>Adding functions to, and firing, list \<open>l\<close> of a world, with fuel for all its callbacks.\<close>

definition fuel_for :: "('f, 'z) world_scheme \<Rightarrow> nat \<Rightarrow> nat" where
  "fuel_for w l = 5 + length (case cblist (clists w l) of None \<Rightarrow> [] | Some xs \<Rightarrow> xs)"

definition cb_add :: "('f \<Rightarrow> cbdata \<Rightarrow> jsval) \<Rightarrow> nat \<Rightarrow> 'f list \<Rightarrow> ('f, 'z) world_scheme \<Rightarrow> ('f, 'z) world_scheme" where
  "cb_add R l fs w =
     (case exec_op (fuel_for w l + length fs) (plain R) l (OAdd (map AFun fs)) w of
        Some (_, w') \<Rightarrow> w' | None \<Rightarrow> w)"

definition cb_fire :: "('f \<Rightarrow> cbdata \<Rightarrow> jsval) \<Rightarrow> nat \<Rightarrow> cbdata \<Rightarrow> ('f, 'z) world_scheme \<Rightarrow> ('f, 'z) world_scheme" where
  "cb_fire R l d w =
     (case exec_op (fuel_for w l) (plain R) l (OFireWith (fst d) (Some (snd d))) w of
        Some (_, w') \<Rightarrow> w' | None \<Rightarrow> w)"

text \<open>The two states of a list made with the options once and memory.\<close>

definition once_memory :: "'f clist \<Rightarrow> bool" where
  "once_memory c \<longleftrightarrow> opt_memory c \<and> \<not> opt_unique c \<and> \<not> opt_stopOnFalse c
     \<and> \<not> firing c \<and> firingStart c = 0 \<and> stack c = None
     \<and> (if fired c then memory c \<noteq> None \<and> cblist c = Some []
        else memory c = None \<and> cblist c \<noteq> None)"

definition held_fns :: "'f clist \<Rightarrow> 'f list" where
  "held_fns c = (case cblist c of None \<Rightarrow> [] | Some xs \<Rightarrow> xs)"

definition calls_of :: "nat \<Rightarrow> ('f, 'z) world_scheme \<Rightarrow> ('f \<times> cbdata) list" where
  "calls_of l w = map snd (filter (\<lambda>x. fst x = l) (calls w))"

lemma arg_fns_AFun [simp]: "arg_fns (map AFun fs) = fs"
  by (induction fs) auto

lemma once_memory_new: "once_memory (new_Callbacks (createOptions ''once memory''))"
proof -
  have "ws_words ''once memory'' = [''once'', ''memory'']"
    by (simp add: ws_words_def is_ws_def)
  then have "createOptions ''once memory'' = [(''once'', VBool True), (''memory'', VBool True)]"
    by (simp add: createOptions_def)
  then show ?thesis
    by (simp add: new_Callbacks_def once_memory_def opt_memory_def opt_unique_def opt_stopOnFalse_def prop_get_def)
qed

lemma exec_op_Suc: "0 < n \<Longrightarrow> exec_op n E l op w = op_body (fire (n - 1) E) l op w"
  by (cases n) simp_all

lemma cb_add_pending:
  assumes "once_memory (clists w l)" "\<not> fired (clists w l)"
  shows "cb_add R l fs w = upd_list l (\<lambda>c. c\<lparr>cblist := Some (held_fns c @ fs)\<rparr>) w"
  using assms
  by (auto simp: cb_add_def exec_op_Suc fuel_for_def op_body_def add_op_def once_memory_def
      held_fns_def add_list_append upd_list_def)

lemma cb_add_fired:
  assumes om: "once_memory (clists w l)" and "memory (clists w l) = Some d" "fired (clists w l)"
  shows "once_memory (clists (cb_add R l fs w) l) \<and> memory (clists (cb_add R l fs w) l) = Some d
     \<and> fired (clists (cb_add R l fs w) l) \<and> calls (cb_add R l fs w) = calls w @ map (\<lambda>f. (l, f, d)) fs"
proof -
  let ?c = "clists w l"
  let ?w1 = "upd_list l (\<lambda>c. c\<lparr>firingStart := 0\<rparr>) (upd_list l (\<lambda>c. c\<lparr>cblist := Some fs\<rparr>) w)"
  have "exec_op (fuel_for w l + length fs) (plain R) l (OAdd (map AFun fs)) w
      = fire (fuel_for w l + length fs - 1) (plain R) l d ?w1"
    using assms by (simp add: exec_op_Suc fuel_for_def op_body_def add_op_def once_memory_def add_list_append)
  also have "\<dots> = Some (Done, fire_result l d (\<lambda>f. R f d) ?w1)"
    using om by (intro plain_fire) (auto simp: once_memory_def fuel_for_def)
  finally have "cb_add R l fs w = fire_result l d (\<lambda>f. R f d) ?w1" by (simp add: cb_add_def)
  moreover have "called False r fs = fs" for r :: "'a \<Rightarrow> jsval" by (rule called_all) (simp add: stopped_def)
  moreover have "\<not> stopped False r fs" for r :: "'a \<Rightarrow> jsval" by (simp add: stopped_def)
  ultimately show ?thesis using assms
    by (auto simp: fire_result_def fired_list_def fired_part_def once_memory_def upd_list_def Let_def
        opt_memory_def opt_unique_def opt_stopOnFalse_def)
qed

lemma cb_fire_pending:
  assumes om: "once_memory (clists w l)" and "\<not> fired (clists w l)"
  shows "once_memory (clists (cb_fire R l d w) l) \<and> memory (clists (cb_fire R l d w) l) = Some d
     \<and> fired (clists (cb_fire R l d w) l)
     \<and> calls (cb_fire R l d w) = calls w @ map (\<lambda>f. (l, f, d)) (held_fns (clists w l))"
proof -
  obtain xs where xs: "cblist (clists w l) = Some xs" using assms by (auto simp: once_memory_def)
  have "exec_op (fuel_for w l) (plain R) l (OFireWith (fst d) (Some (snd d))) w
      = fire (fuel_for w l - 1) (plain R) l d w"
    using assms xs by (simp add: exec_op_Suc fuel_for_def op_body_def fireWith_op_def once_memory_def)
  also have "\<dots> = Some (Done, fire_result l d (\<lambda>f. R f d) w)"
    using om xs by (intro plain_fire) (auto simp: once_memory_def fuel_for_def)
  finally have "cb_fire R l d w = fire_result l d (\<lambda>f. R f d) w" by (simp add: cb_fire_def)
  moreover have "called False r fs = fs" for r :: "'a \<Rightarrow> jsval" and fs by (rule called_all) (simp add: stopped_def)
  moreover have "\<not> stopped False r fs" for r :: "'a \<Rightarrow> jsval" and fs by (simp add: stopped_def)
  ultimately show ?thesis using assms xs
    by (auto simp: fire_result_def fired_list_def fired_part_def held_fns_def once_memory_def upd_list_def Let_def
        opt_memory_def opt_unique_def opt_stopOnFalse_def)
qed

lemma cb_fire_fired:
  assumes "once_memory (clists w l)" "fired (clists w l)"
  shows "cb_fire R l d w = w"
  using assms by (simp add: cb_fire_def exec_op_Suc fuel_for_def op_body_def fireWith_op_def once_memory_def)

interpretation om: one_shot "cb_add R l" "cb_fire R l"
    "\<lambda>w. held_fns (clists w l)" "\<lambda>w. memory (clists w l)" "calls_of l"
    "\<lambda>w. once_memory (clists w l)"
  for R l
proof (unfold_locales, goal_cases)
  case (1 w fs)
  then have "\<not> fired (clists w l)" by (auto simp: once_memory_def)
  with 1 show ?case
    by (auto simp: cb_add_pending calls_of_def held_fns_def once_memory_def opt_memory_def opt_unique_def
        opt_stopOnFalse_def)
next
  case (2 w d fs)
  then have "fired (clists w l)" by (auto simp: once_memory_def split: if_splits)
  with 2 cb_add_fired [of w l d R fs] show ?case by (simp add: calls_of_def comp_def)
next
  case (3 w d)
  then have "\<not> fired (clists w l)" by (auto simp: once_memory_def)
  with 3 cb_fire_pending [of w l R d] show ?case by (simp add: calls_of_def comp_def)
next
  case (4 w d' d)
  then have "fired (clists w l)" by (auto simp: once_memory_def split: if_splits)
  with 4 cb_fire_fired show ?case by metis
qed

section \<open>Properties\<close>

text \<open>A world in which every list has just been created with the given options.\<close>

definition fresh_world :: "string \<Rightarrow> 'f world" where
  "fresh_world opts = \<lparr>clists = (\<lambda>_. new_Callbacks (createOptions opts)), calls = []\<rparr>"

lemma winv_fresh [js_inv]: "winv (fresh_world opts)"
  by (simp add: winv_def fresh_world_def cinv_new)

text \<open>
  C1: Whatever the callbacks do to the lists while they run (add, remove, empty, disable, lock or
  fire any list, reading and updating the rest of the world), as long as none of them throws, an
  operation of a callback list that returns has not failed: the loop never reads past the list
  and the queue of pending firings is never missing. The invariant of every list holds after it,
  and exactly the lists that were firing before are firing.
\<close>

theorem callbacks_engine_safe:
  assumes "winv w" and "\<And>f d. beh_ok False (E f d)" and "exec_op n E l op w = Some (r, w')"
  shows "r = Done \<and> winv w' \<and> (\<forall>k. firing (clists w' k) = firing (clists w k))"
  using comp_okD [OF engine_ok(4) [OF assms(2)] assms(1) _ assms(3)] by (cases r) (auto simp: keeps_def)

definition example_env :: "(nat, 'z) env" where
  "example_env f d =
     (if f = 0 then Call 0 (ORemove [0, 2]) (\<lambda>_. Call 0 (OFireWith VNull None) (\<lambda>_. Ret VUndef))
      else Ret (VNum 1))"

lemmas engine_eval =
  op_body_def fireWith_op_def add_op_def fire_body_def fire_loop_body_def run_beh_body_def end_fire_def
  fresh_world_def new_Callbacks_def createOptions_def upd_list_def log_call_def begin_fire_def
  nth_int_def remove_def remove_loop.simps index_from.simps opt_memory_def opt_stopOnFalse_def
  opt_unique_def prop_get_def ws_words_def is_ws_def

theorem callbacks_engine_safe_witness:
  "\<exists>w'. exec_op 12 example_env 0 (OFireWith VNull None)
       (upd_list 0 (\<lambda>c. c\<lparr>cblist := Some [0, 1, 2]\<rparr>) (fresh_world [])) = Some (Done, w')
     \<and> winv w' \<and> calls w' = [(0, 0, (VNull, [])), (0, 1, (VNull, [])), (0, 1, (VNull, []))]"
proof -
  let ?w = "upd_list 0 (\<lambda>c. c\<lparr>cblist := Some [0, 1, 2]\<rparr>) (fresh_world []) :: nat world"
  have w: "winv ?w"
    by (rule winv_upd [OF winv_fresh])
      (simp add: cinv_def fresh_world_def new_Callbacks_def opt_unique_def createOptions_def)
  have ok: "\<And>f d. beh_ok False (example_env f d :: (nat, nat world) beh)"
    by (simp add: example_env_def)
  have run: "\<exists>w'. exec_op 12 example_env 0 (OFireWith VNull None) ?w = Some (Done, w')
     \<and> calls w' = [(0, 0, (VNull, [])), (0, 1, (VNull, [])), (0, 1, (VNull, []))]"
    by (simp add: example_env_def eval_nat_numeral engine_eval Let_def)
  then obtain w' where w': "exec_op 12 example_env 0 (OFireWith VNull None) ?w = Some (Done, w')"
     "calls w' = [(0, 0, (VNull, [])), (0, 1, (VNull, [])), (0, 1, (VNull, []))]" by blast
  have "winv w'" using callbacks_engine_safe [OF w ok w'(1)] by blast
  with w' show ?thesis by blast
qed

text \<open>
  A list with the option unique never holds a callback twice, after any operation and
  whatever the callbacks do, even if some of them throw.
\<close>

theorem callbacks_unique_distinct:
  assumes "winv w" and "\<And>f d. beh_ok True (E f d)" and "exec_op n E l op w = Some (r, w')"
    and "opt_unique (clists w' k)" and "cblist (clists w' k) = Some xs"
  shows "distinct xs"
  using comp_okD [OF engine_ok(4) [OF assms(2)] assms(1) _ assms(3)] assms(4,5) winvD [of w' k]
  by (auto simp: cinv_def)

theorem callbacks_unique_distinct_witness: "distinct [7, 8::nat]"
proof -
  let ?w = "fresh_world ''unique'' :: nat world"
  let ?E = "\<lambda>f d. Throw :: (nat, nat world) beh"
  have run: "\<exists>w'. exec_op 3 ?E 0 (OAdd [AFun 7, AArr [AFun 8, AFun 7], AOther]) ?w = Some (Done, w')
     \<and> opt_unique (clists w' 0) \<and> cblist (clists w' 0) = Some [7, 8]"
    by (simp add: eval_nat_numeral engine_eval Let_def)
  then show ?thesis
    using callbacks_unique_distinct [of ?w ?E 3 0 "OAdd [AFun 7, AArr [AFun 8, AFun 7], AOther]" Done _ 0 "[7, 8]"]
      winv_fresh [of "''unique''"] by auto
qed

text \<open>
  Removing callbacks from a list that is being fired drops exactly the given callbacks, and
  what the firing still has to call (the callbacks after firingIndex) is what it had to call
  before without them: none of the others is skipped or called twice.
\<close>

theorem remove_while_firing:
  assumes "cinv c" and "firing c" and "cblist c = Some xs"
  shows "cblist (remove args c) = Some (filter (\<lambda>f. f \<notin> set args) xs)
     \<and> firingLength (remove args c) = int (length (filter (\<lambda>f. f \<notin> set args) xs))
     \<and> after_index (firingIndex (remove args c)) (filter (\<lambda>f. f \<notin> set args) xs)
         = filter (\<lambda>f. f \<notin> set args) (after_index (firingIndex c) xs)"
  using remove_cblist [of args c] remove_firing [OF assms(3,1,2), of args] assms(3) by simp

theorem remove_while_firing_witness:
  "after_index (firingIndex (remove [4, 6, 9]
      ((new_Callbacks [])\<lparr>cblist := Some [4, 5, 6, 7, 4, 8::nat], fired := True, firing := True,
         firingLength := 6, firingIndex := 2\<rparr>))) [5, 7, 8::nat] = [7, 8]"
proof -
  let ?c = "(new_Callbacks [])\<lparr>cblist := Some [4, 5, 6, 7, 4, 8::nat], fired := True, firing := True,
         firingLength := 6, firingIndex := 2\<rparr>"
  have "cinv ?c" by (simp add: cinv_def new_Callbacks_def opt_unique_def)
  from remove_while_firing [OF this, of "[4, 5, 6, 7, 4, 8]" "[4, 6, 9]"] show ?thesis
    by (simp add: after_index_def new_Callbacks_def)
qed

text \<open>
  C12: Firing an idle list (fireWith) whose callbacks only return values: with fuel linear in the
  length of the list the firing ends; the callbacks are called in order, each once, with the
  given context and arguments, up to the first that returns false when stopOnFalse is set;
  afterwards the list is idle and marked as fired, the data is remembered exactly if the option
  memory is set and the firing was not stopped, a repeatable list keeps its callbacks, and a list
  fired once is emptied or, if nothing is remembered, disabled. No other list changes.
\<close>

theorem fireWith_plain:
  fixes ctx :: jsval and args :: "jsval list option" and R :: "'f \<Rightarrow> cbdata \<Rightarrow> jsval"
    and xs :: "'f list" and w :: "('f, 'z) world_scheme"
  assumes "cblist (clists w l) = Some xs" and "\<not> firing (clists w l)" and "firingStart (clists w l) = 0"
    and "stack (clists w l) = Some [] \<or> stack (clists w l) = None \<and> \<not> fired (clists w l)"
    and "length xs + 4 \<le> n"
  defines "d \<equiv> (ctx, case args of None \<Rightarrow> [] | Some as \<Rightarrow> as)"
  defines "st \<equiv> stopped (opt_stopOnFalse (clists w l)) (\<lambda>f. R f d) xs"
  shows "\<exists>w'. exec_op n (plain R) l (OFireWith ctx args) w = Some (Done, w')
     \<and> calls w' = calls w @ map (\<lambda>f. (l, f, d)) (called (opt_stopOnFalse (clists w l)) (\<lambda>f. R f d) xs)
     \<and> fired (clists w' l) \<and> \<not> firing (clists w' l)
     \<and> memory (clists w' l) = (if opt_memory (clists w l) \<and> \<not> st then Some d else None)
     \<and> cblist (clists w' l) =
         (if stack (clists w l) \<noteq> None then Some xs
          else if opt_memory (clists w l) \<and> \<not> st then Some [] else None)
     \<and> stack (clists w' l) = stack (clists w l)
     \<and> (\<forall>k. k \<noteq> l \<longrightarrow> clists w' k = clists w k)"
proof -
  have "exec_op n (plain R) l (OFireWith ctx args) w = fire (n - 1) (plain R) l d w"
    using assms(1-5) by (auto simp: exec_op_Suc op_body_def fireWith_op_def d_def)
  also have "\<dots> = Some (Done, fire_result l d (\<lambda>f. R f d) w)"
    using assms(1-5) by (intro plain_fire) auto
  finally show ?thesis
    using assms(1-5)
    by (auto simp: fire_result_def fired_list_def fired_part_def Let_def st_def upd_list_def)
qed

theorem fireWith_plain_witness:
  "\<exists>w'. exec_op 7 (plain (\<lambda>f d. VBool (f \<noteq> 11))) 0 (OFireWith VNull (Some [VNum 1]))
        (upd_list 0 (\<lambda>c. c\<lparr>cblist := Some [10, 11, 12::nat]\<rparr>) (fresh_world ''stopOnFalse'')) = Some (Done, w')
     \<and> calls w' = [(0, 10, (VNull, [VNum 1])), (0, 11, (VNull, [VNum 1]))]"
proof -
  let ?w = "upd_list 0 (\<lambda>c. c\<lparr>cblist := Some [10, 11, 12::nat]\<rparr>) (fresh_world ''stopOnFalse'') :: nat world"
  have stop: "opt_stopOnFalse (clists ?w 0)"
    by (simp add: engine_eval)
  have "cblist (clists ?w 0) = Some [10, 11, 12]" "\<not> firing (clists ?w 0)" "firingStart (clists ?w 0) = 0"
    "stack (clists ?w 0) = Some []" "calls ?w = []"
    by (simp_all add: engine_eval)
  then show ?thesis
    using fireWith_plain [where w = ?w and l = 0 and xs = "[10, 11, 12]" and n = 7 and ctx = VNull
        and args = "Some [VNum 1]" and R = "\<lambda>f d. VBool (f \<noteq> 11)"] stop
    by (auto simp: Let_def)
qed

text \<open>A sequence of additions and firings of list \<open>l\<close>, from the outside.\<close>

primrec cb_script :: "('f \<Rightarrow> cbdata \<Rightarrow> jsval) \<Rightarrow> nat \<Rightarrow> ('f list + cbdata) list
    \<Rightarrow> ('f, 'z) world_scheme \<Rightarrow> ('f, 'z) world_scheme" where
  "cb_script R l [] w = w"
| "cb_script R l (x # xs) w =
     cb_script R l xs (case x of Inl fs \<Rightarrow> cb_add R l fs w | Inr d \<Rightarrow> cb_fire R l d w)"

lemma cb_script_run: "cb_script R l xs w = om.run_script R l xs w"
  by (induction xs arbitrary: w) auto

text \<open>
  C4: The contract of a list made with the options once and memory, for every sequence of
  additions and firings: without a firing nothing is called; with one, every callback ever added,
  before or after it, is called exactly once, in the order of the additions, and always with the
  data of the first firing. Later firings have no effect.
\<close>

theorem once_memory_contract:
  assumes "clists w l = new_Callbacks (createOptions ''once memory'')" and "calls w = []"
  shows "calls_of l (cb_script R l xs w) =
     (case filter (\<lambda>x. \<not> isl x) xs of
        [] \<Rightarrow> []
      | x # _ \<Rightarrow> map (\<lambda>f. (f, projr x)) (concat (map (case_sum id (\<lambda>_. [])) xs)))"
proof -
  have "once_memory (clists w l)" "memory (clists w l) = None" "held_fns (clists w l) = []" "calls_of l w = []"
    using assms once_memory_new by (simp_all add: new_Callbacks_def held_fns_def calls_of_def)
  then show ?thesis using om.run_pending [of w l R xs] by (simp add: cb_script_run split: list.splits)
qed

theorem once_memory_contract_witness:
  "calls_of 0 (cb_script (\<lambda>f d. VUndef) 0
      [Inl [1], Inl [2], Inr (VNull, [VNum 5]), Inl [3], Inr (VNull, [VNum 6]), Inl [4::nat]]
      (fresh_world ''once memory'' :: nat world))
     = map (\<lambda>f. (f, VNull, [VNum 5])) [1, 2, 3, 4]"
  using once_memory_contract [of "fresh_world ''once memory'' :: nat world" 0 "\<lambda>f d. VUndef"
      "[Inl [1], Inl [2], Inr (VNull, [VNum 5]), Inl [3], Inr (VNull, [VNum 6]), Inl [4::nat]]"]
  by (simp add: fresh_world_def)

text \<open>
  A callback that throws stops its list for good. The exception leaves the loop before
  firing is cleared, so that afterwards fireWith only queues its data and add only appends: no
  callback of the list is ever called again, with any fuel, by firing it or adding to it.
\<close>

theorem throwing_callback_blocks_list:
  assumes "cblist (clists w l) = Some (f # fs)" and "stack (clists w l) = Some []"
    and "\<not> firing (clists w l)" and "firingStart (clists w l) = 0"
    and "\<And>d. E f d = Throw" and "4 \<le> n"
  shows "\<exists>w1. exec_op n E l (OFireWith ctx args) w = Some (Threw, w1) \<and> firing (clists w1 l)
     \<and> (\<forall>m ctx' args' r w2. exec_op m E l (OFireWith ctx' args') w1 = Some (r, w2) \<longrightarrow>
          calls w2 = calls w1 \<and> firing (clists w2 l))
     \<and> (\<forall>m as r w2. exec_op m E l (OAdd as) w1 = Some (r, w2) \<longrightarrow>
          calls w2 = calls w1 \<and> firing (clists w2 l))"
proof -
  let ?d = "(ctx, case args of None \<Rightarrow> [] | Some xs \<Rightarrow> xs)"
  let ?w1 = "log_call l f ?d (upd_list l (begin_fire ?d (f # fs)) w)"
  obtain k where n: "n = Suc (Suc (Suc (Suc k)))"
  proof -
    obtain j where "n = 4 + j" using assms(6) le_Suc_ex by blast
    then show ?thesis using that by (simp add: eval_nat_numeral)
  qed
  have run: "exec_op n E l (OFireWith ctx args) w = Some (Threw, ?w1)"
    using assms by (simp add: n op_body_def fireWith_op_def fire_body_def fire_loop_body_def
        run_beh_body_def begin_fire_def nth_int_def Let_def)
  have fng: "firing (clists ?w1 l)" "cblist (clists ?w1 l) = Some (f # fs)"
    "stack (clists ?w1 l) = Some []" using assms by (simp_all add: begin_fire_def)
  have "calls w2 = calls ?w1 \<and> firing (clists w2 l)"
    if "exec_op m E l (OFireWith ctx' args') ?w1 = Some (r, w2)" for m ctx' args' r w2
    using that fng by (cases m) (auto simp: op_body_def fireWith_op_def Let_def)
  moreover have "calls w2 = calls ?w1 \<and> firing (clists w2 l)"
    if "exec_op m E l (OAdd as) ?w1 = Some (r, w2)" for m as r w2
    using that fng by (cases m) (auto simp: op_body_def add_op_def Let_def)
  ultimately show ?thesis using run fng by blast
qed

theorem throwing_callback_blocks_list_witness:
  "\<exists>w1. exec_op 4 (\<lambda>f d. if f = 1 then Throw else Ret VUndef) 0 (OFireWith VNull None)
      (upd_list 0 (\<lambda>c. c\<lparr>cblist := Some [1, 2::nat]\<rparr>) (fresh_world [])) = Some (Threw, w1)
     \<and> firing (clists w1 0)"
  using throwing_callback_blocks_list [of "upd_list 0 (\<lambda>c. c\<lparr>cblist := Some [1, 2::nat]\<rparr>) (fresh_world [])"
      0 1 "[2]" "\<lambda>f d. if f = 1 then Throw else Ret VUndef" 4 VNull None]
  by (auto simp: engine_eval)

text \<open>
  A disabled list is silent, whatever is done to it except emptying it: no operation other
  than empty calls anything or brings the list back. The operation empty does bring it back: it
  assigns a new list, after which disabled answers false and callbacks can be added again.
\<close>

theorem disabled_until_empty:
  "(disabled (clists w l) \<longrightarrow> op \<noteq> OEmpty \<longrightarrow> exec_op (Suc n) E l op w = Some (Done, w')
      \<longrightarrow> calls w' = calls w \<and> disabled (clists w' l))
   \<and> \<not> disabled (empty c) \<and> cblist (empty c) = Some []"
  by (cases op) (auto simp: disabled_def op_body_def add_op_def fireWith_op_def remove_def disable_def
      lock_def empty_def Let_def)

theorem disabled_until_empty_witness:
  "disabled (clists (upd_list 0 disable (fresh_world [] :: nat world)) 0)
   \<and> (\<exists>w'. exec_op (Suc 0) (\<lambda>f d. Throw) 0 OLock (upd_list 0 disable (fresh_world [] :: nat world)) = Some (Done, w')
        \<and> calls w' = [] \<and> disabled (clists w' 0))"
proof -
  let ?w = "upd_list 0 disable (fresh_world []) :: nat world"
  have d: "disabled (clists ?w 0)" by (simp add: disabled_def disable_def)
  obtain w' where w': "exec_op (Suc 0) (\<lambda>f d. Throw) 0 OLock ?w = Some (Done, w')"
    by (simp add: op_body_def)
  have "calls w' = calls ?w \<and> disabled (clists w' 0)"
    using disabled_until_empty [of ?w 0 OLock 0 "\<lambda>f d. Throw" w' "new_Callbacks [] :: nat clist"] d w' by simp
  with d w' show ?thesis by (auto simp: fresh_world_def)
qed

text \<open>
  The cache of parsed option strings is transparent: from a cache that holds only parsed
  strings, asking for options gives the parsed string, with or without a cached entry, and leaves
  such a cache. The parsed object has exactly the words of the string as true properties.
\<close>

theorem options_cache_transparent:
  assumes "options_cache_ok cache"
  shows "fst (options_of cache (OptString s)) = createOptions s
     \<and> options_cache_ok (snd (options_of cache (OptString s)))
     \<and> (\<forall>flag. truthy (prop_get (createOptions s) flag) = (flag \<in> set (ws_words s)))"
proof -
  have "prop_get (fold (\<lambda>flag object. prop_set flag (VBool True) object) ws object) flag
      = (if flag \<in> set ws then VBool True else prop_get object flag)" for ws object flag
    by (induction ws arbitrary: object) auto
  then have "\<forall>flag. truthy (prop_get (createOptions s) flag) = (flag \<in> set (ws_words s))"
    by (simp add: createOptions_def)
  with assms show ?thesis
    by (auto simp: options_of_def options_cache_ok_def split: option.splits)
qed

theorem options_cache_transparent_witness:
  "fst (options_of [''once'' \<mapsto> createOptions ''once''] (OptString ''once'')) = [(''once'', VBool True)]"
proof -
  have "options_cache_ok [''once'' \<mapsto> createOptions ''once'']" by (simp add: options_cache_ok_def)
  from options_cache_transparent [OF this, of "''once''"] show ?thesis
    by (simp add: createOptions_def ws_words_def is_ws_def)
qed

end
