(* ===== verification/Fx_Queue.thy ===== *)
theory Fx_Queue
  imports Data_Store Callbacks_Fire
begin

text \<open>
  The queue module of jquery.js: the named queues of functions kept per element in the private data,
  the progress sentinel of the fx queue, the queue hooks, and promises on a set of queues. The
  private data is used through the contract of \<open>owner_store\<close>: a cell per element and name, and
  a removal that also takes the camelCased names. The callback list of a hooks object is a
  \<open>one_shot\<close> list. What a queued function does is a list of acts. The calls a function makes are
  pushed on a stack of tasks in front of what is left to do, so that a run is a loop over one step
  function; it takes fuel, because a function can queue itself for ever.
\<close>

section \<open>State\<close>

datatype qentry = InProgress | QFn nat

datatype qcell = CUndef | CQueue "qentry list" | CHooks nat

text \<open>
  A hooks object: the stop function, and its list empty, whose first callback removes the two names
  \<open>owns\<close> of the element; \<open>subs\<close> are the promises waiting on it.
\<close>

record qhooks =
  owner :: nat
  qtype :: string
  stop_fn :: "nat option"
  subs :: "nat list"
  emptied :: bool

record qpromise =
  waiting :: int     \<comment> \<open>the variable count\<close>
  resolved :: nat    \<comment> \<open>how often the deferred was resolved\<close>

record qstate =
  cells :: "nat \<Rightarrow> string \<Rightarrow> qcell"
  hookobj :: "nat \<Rightarrow> qhooks"
  next_hook :: nat
  promises :: "nat \<Rightarrow> qpromise option"
  started :: "(nat \<times> string \<times> nat) list"   \<comment> \<open>ghost: the functions called, in order\<close>

datatype qdata = Push nat | Replace "nat list"

datatype qact =
    ANext
  | ASetStop nat
  | AQueue "nat list" string qdata
  | ADequeue "nat list" string
  | AClear "nat list" string
  | APromise nat "nat list" string

datatype qtask =
    TDequeue nat string
  | TQueueOn nat string qdata
  | TAct nat string nat qact
  | TEmpty nat

datatype qresult = OutOfFuel | TypeErr | Fin qstate

section \<open>The private data as a store of cells\<close>

definition cell_set :: "nat \<Rightarrow> string \<Rightarrow> qcell \<Rightarrow> qstate \<Rightarrow> qstate" where
  "cell_set e k c s = s\<lparr>cells := (cells s)(e := (cells s e)(k := c))\<rparr>"

definition cell_remove :: "nat \<Rightarrow> string list \<Rightarrow> qstate \<Rightarrow> qstate" where
  "cell_remove e ks s =
     s\<lparr>cells := (cells s)(e := (\<lambda>k. if k \<in> set (ks @ map camelCase ks) then CUndef else cells s e k))\<rparr>"

interpretation qs: owner_store cells CUndef cell_set cell_remove camelCase "\<lambda>_. True" "\<lambda>_. True"
  by unfold_locales (auto simp: cell_set_def cell_remove_def)

section \<open>The operations\<close>

definition queue_key :: "string \<Rightarrow> string" where
  "queue_key type = (if type = [] then ''fx'' else type) @ ''queue''"

definition hooks_key :: "string \<Rightarrow> string" where
  "hooks_key type = type @ ''queueHooks''"

definition queue_entries :: "nat \<Rightarrow> string \<Rightarrow> qstate \<Rightarrow> qentry list" where
  "queue_entries elem type s = (case cells s elem (queue_key type) of CQueue q \<Rightarrow> q | _ \<Rightarrow> [])"

text \<open>jQuery.queue with data: an array replaces the queue, anything else is pushed.\<close>

definition jq_queue :: "nat \<Rightarrow> string \<Rightarrow> qdata \<Rightarrow> qstate \<Rightarrow> qstate" where
  "jq_queue elem type data s =
     (case data of
        Replace fs \<Rightarrow> cell_set elem (queue_key type) (CQueue (map QFn fs)) s
      | Push f \<Rightarrow> cell_set elem (queue_key type) (CQueue (queue_entries elem type s @ [QFn f])) s)"

definition queueHooks :: "nat \<Rightarrow> string \<Rightarrow> qstate \<Rightarrow> nat \<times> qstate" where
  "queueHooks elem type s =
     (case cells s elem (hooks_key type) of
        CHooks h \<Rightarrow> (h, s)
      | _ \<Rightarrow>
          (let h = next_hook s in
           (h, cell_set elem (hooks_key type) (CHooks h)
                 (s\<lparr>next_hook := Suc h,
                    hookobj := (hookobj s)(h := \<lparr>owner = elem, qtype = type, stop_fn = None, subs = [],
                      emptied = False\<rparr>)\<rparr>))))"

text \<open>\<open>queue.shift()\<close>.\<close>

fun shift :: "qentry list \<Rightarrow> qentry option \<times> qentry list" where
  "shift [] = (None, [])"
| "shift (x # xs) = (Some x, xs)"

definition delete_stop :: "nat \<Rightarrow> qstate \<Rightarrow> qstate" where
  "delete_stop h s = s\<lparr>hookobj := (hookobj s)(h := (hookobj s h)\<lparr>stop_fn := None\<rparr>)\<rparr>"

text \<open>
  The array of an absent queue is a new one that nobody else sees.
\<close>

definition store_queue :: "nat \<Rightarrow> string \<Rightarrow> qentry list \<Rightarrow> qstate \<Rightarrow> qstate" where
  "store_queue elem type q s =
     (case cells s elem (queue_key type) of
        CQueue _ \<Rightarrow> cell_set elem (queue_key type) (CQueue q) s
      | _ \<Rightarrow> s)"

definition jq_dequeue :: "(nat \<Rightarrow> qact list) \<Rightarrow> nat \<Rightarrow> string \<Rightarrow> qstate \<Rightarrow> (qtask list \<times> qstate) option" where
  "jq_dequeue R elem type0 s =
     (let type = (if type0 = [] then ''fx'' else type0);
          queue = queue_entries elem type s;
          startLength = int (length queue);
          (fn, queue) = shift queue;
          (h, s) = queueHooks elem type s;
          (fn, queue, startLength) =
            (if fn = Some InProgress then (case shift queue of (fn', queue') \<Rightarrow> (fn', queue', startLength - 1))
             else (fn, queue, startLength)) in
      (case fn of
         Some InProgress \<Rightarrow> None
       | Some (QFn f) \<Rightarrow>
           Some (map (TAct elem type h) (R f) @ (if startLength = 0 then [TEmpty h] else []),
             delete_stop h (store_queue elem type (if type = ''fx'' then InProgress # queue else queue) s)
               \<lparr>started := started s @ [(elem, type, f)]\<rparr>)
       | None \<Rightarrow>
           Some (if startLength = 0 then [TEmpty h] else [], store_queue elem type queue s)))"

text \<open>The function resolve of a promise.\<close>

definition resolve :: "nat \<Rightarrow> qstate \<Rightarrow> qstate" where
  "resolve p s =
     (case promises s p of
        None \<Rightarrow> s
      | Some r \<Rightarrow>
          s\<lparr>promises := (promises s)(p := Some (r\<lparr>waiting := waiting r - 1,
              resolved := (if waiting r - 1 = 0 then Suc (resolved r) else resolved r)\<rparr>))\<rparr>)"

text \<open>empty.fire(): the callback that removes the data comes first, then the promises.\<close>

definition fire_empty :: "nat \<Rightarrow> qstate \<Rightarrow> qstate" where
  "fire_empty h s =
     (let o' = hookobj s h in
      if emptied o' then s
      else fold resolve (subs o')
             (cell_remove (owner o') [qtype o' @ ''queue'', hooks_key (qtype o')]
               (s\<lparr>hookobj := (hookobj s)(h := o'\<lparr>emptied := True, subs := []\<rparr>)\<rparr>)))"

text \<open>empty.add(resolve): at once when the list has been fired.\<close>

definition add_sub :: "nat \<Rightarrow> nat \<Rightarrow> qstate \<Rightarrow> qstate" where
  "add_sub h p s =
     (let o' = hookobj s h in
      if emptied o' then resolve p s
      else s\<lparr>hookobj := (hookobj s)(h := o'\<lparr>subs := subs o' @ [p]\<rparr>)\<rparr>)"

text \<open>One round of the loop of promise.\<close>

definition promise_wait :: "nat \<Rightarrow> string \<Rightarrow> nat \<Rightarrow> qstate \<Rightarrow> qstate" where
  "promise_wait p type elem s =
     (case cells s elem (hooks_key type) of
        CHooks h \<Rightarrow>
          add_sub h p (s\<lparr>promises := (promises s)(p := map_option (\<lambda>r. r\<lparr>waiting := waiting r + 1\<rparr>) (promises s p))\<rparr>)
      | _ \<Rightarrow> s)"

definition fn_promise :: "nat \<Rightarrow> nat list \<Rightarrow> string \<Rightarrow> qstate \<Rightarrow> qstate" where
  "fn_promise p this type s =
     resolve p (fold (promise_wait p (if type = [] then ''fx'' else type)) (rev this)
       (s\<lparr>promises := (promises s)(p := Some \<lparr>waiting = 1, resolved = 0\<rparr>)\<rparr>))"

text \<open>The function each runs in queue(type, data).\<close>

definition fn_queue_one :: "nat \<Rightarrow> string \<Rightarrow> qdata \<Rightarrow> qstate \<Rightarrow> qtask list \<times> qstate" where
  "fn_queue_one elem type data s =
     (let s = jq_queue elem type data s;
          (h, s) = queueHooks elem type s in
      (if type = ''fx'' \<and> (case queue_entries elem type s of InProgress # _ \<Rightarrow> False | _ \<Rightarrow> True)
       then [TDequeue elem type] else [], s))"

definition fn_queue :: "nat list \<Rightarrow> string \<Rightarrow> qdata \<Rightarrow> qtask list" where
  "fn_queue this type data = map (\<lambda>e. TQueueOn e type data) this"

definition fn_dequeue :: "nat list \<Rightarrow> string \<Rightarrow> qtask list" where
  "fn_dequeue this type = map (\<lambda>e. TDequeue e type) this"

definition fn_clearQueue :: "nat list \<Rightarrow> string \<Rightarrow> qtask list" where
  "fn_clearQueue this type = fn_queue this (if type = [] then ''fx'' else type) (Replace [])"

text \<open>An act of a function called with \<open>elem\<close>, next and the hooks object \<open>h\<close>.\<close>

definition do_act :: "nat \<Rightarrow> string \<Rightarrow> nat \<Rightarrow> qact \<Rightarrow> qstate \<Rightarrow> qtask list \<times> qstate" where
  "do_act elem type h a s =
     (case a of
        ANext \<Rightarrow> ([TDequeue elem type], s)
      | ASetStop f \<Rightarrow> ([], s\<lparr>hookobj := (hookobj s)(h := (hookobj s h)\<lparr>stop_fn := Some f\<rparr>)\<rparr>)
      | AQueue this t d \<Rightarrow> (fn_queue this t d, s)
      | ADequeue this t \<Rightarrow> (fn_dequeue this t, s)
      | AClear this t \<Rightarrow> (fn_clearQueue this t, s)
      | APromise p this t \<Rightarrow> ([], if promises s p = None then fn_promise p this t s else s))"

definition qstep :: "(nat \<Rightarrow> qact list) \<Rightarrow> qtask \<Rightarrow> qstate \<Rightarrow> (qtask list \<times> qstate) option" where
  "qstep R t s =
     (case t of
        TDequeue e type \<Rightarrow> jq_dequeue R e type s
      | TQueueOn e type d \<Rightarrow> Some (fn_queue_one e type d s)
      | TAct e type h a \<Rightarrow> Some (do_act e type h a s)
      | TEmpty h \<Rightarrow> Some ([], fire_empty h s))"

fun qrun :: "nat \<Rightarrow> (nat \<Rightarrow> qact list) \<Rightarrow> qtask list \<Rightarrow> qstate \<Rightarrow> qresult" where
  "qrun n R [] s = Fin s"
| "qrun 0 R (t # ts) s = OutOfFuel"
| "qrun (Suc n) R (t # ts) s =
     (case qstep R t s of None \<Rightarrow> TypeErr | Some (us, s') \<Rightarrow> qrun n R (us @ ts) s')"

definition qinit :: qstate where
  "qinit = \<lparr>cells = (\<lambda>_ _. CUndef), hookobj = (\<lambda>_. \<lparr>owner = 0, qtype = [], stop_fn = None, subs = [], emptied = False\<rparr>),
     next_hook = 0, promises = (\<lambda>_. None), started = []\<rparr>"

section \<open>The invariant\<close>

text \<open>
  The sentinel is only ever the head of an fx queue; a hooks object in the store is the one of its
  element and name and has not been emptied; a promise waits for as many lists as hold it.
\<close>

definition subs_total :: "qstate \<Rightarrow> nat \<Rightarrow> int" where
  "subs_total s p = (\<Sum>h<next_hook s. int (count_list (subs (hookobj s h)) p))"

definition cells_inv :: "qstate \<Rightarrow> bool" where
  "cells_inv s \<longleftrightarrow>
     (\<forall>e k q. cells s e k = CQueue q \<longrightarrow> InProgress \<notin> set (tl q) \<and> (InProgress \<in> set q \<longrightarrow> k = ''fxqueue''))
     \<and> (\<forall>e k h. cells s e k = CHooks h \<longrightarrow>
          h < next_hook s \<and> owner (hookobj s h) = e \<and> k = hooks_key (qtype (hookobj s h)) \<and> \<not> emptied (hookobj s h))"

fun pstate_ok :: "qpromise option \<Rightarrow> int \<Rightarrow> bool" where
  "pstate_ok None n = (n = 0)"
| "pstate_ok (Some r) n = (waiting r = n \<and> resolved r = (if n = 0 then 1 else 0))"

definition promise_ok :: "qstate \<Rightarrow> (nat \<Rightarrow> int) \<Rightarrow> bool" where
  "promise_ok s f \<longleftrightarrow> (\<forall>p. pstate_ok (promises s p) (f p))"

definition subs_inv :: "qstate \<Rightarrow> bool" where
  "subs_inv s \<longleftrightarrow> (\<forall>h. next_hook s \<le> h \<or> emptied (hookobj s h) \<longrightarrow> subs (hookobj s h) = [])"

definition promise_inv :: "qstate \<Rightarrow> bool" where
  "promise_inv s \<longleftrightarrow> subs_inv s \<and> promise_ok s (subs_total s)"

lemma cell_set_simps [simp]:
  "cells (cell_set e k c s) = (cells s)(e := (cells s e)(k := c))"
  "hookobj (cell_set e k c s) = hookobj s" "next_hook (cell_set e k c s) = next_hook s"
  "promises (cell_set e k c s) = promises s" "started (cell_set e k c s) = started s"
  "hookobj (cell_remove e ks s) = hookobj s" "next_hook (cell_remove e ks s) = next_hook s"
  "promises (cell_remove e ks s) = promises s" "started (cell_remove e ks s) = started s"
  by (simp_all add: cell_set_def cell_remove_def)

lemma store_queue_simps [simp]:
  "hookobj (store_queue e t q s) = hookobj s" "next_hook (store_queue e t q s) = next_hook s"
  "promises (store_queue e t q s) = promises s" "started (store_queue e t q s) = started s"
  by (simp_all add: store_queue_def split: qcell.split)

lemma resolve_simps [simp]:
  "cells (resolve p s) = cells s" "hookobj (resolve p s) = hookobj s" "next_hook (resolve p s) = next_hook s"
  "started (resolve p s) = started s"
  by (simp_all add: resolve_def split: option.split)

lemma fold_resolve_simps [simp]:
  "cells (fold resolve ps s) = cells s" "hookobj (fold resolve ps s) = hookobj s"
  "next_hook (fold resolve ps s) = next_hook s" "started (fold resolve ps s) = started s"
  by (induction ps arbitrary: s) auto

lemma cells_inv_set:
  assumes "cells_inv s" "\<And>q. c = CQueue q \<Longrightarrow> InProgress \<notin> set (tl q) \<and> (InProgress \<in> set q \<longrightarrow> k = ''fxqueue'')"
    "\<And>h. c = CHooks h \<Longrightarrow> h < next_hook s \<and> owner (hookobj s h) = e \<and> k = hooks_key (qtype (hookobj s h))
       \<and> \<not> emptied (hookobj s h)"
  shows "cells_inv (cell_set e k c s)"
  using assms unfolding cells_inv_def by (auto split: if_splits)

lemma cells_inv_remove: "cells_inv s \<Longrightarrow> cells_inv (cell_remove e ks s)"
  unfolding cells_inv_def by (simp add: cell_remove_def)

lemma cells_inv_cong:
  "cells_inv s \<Longrightarrow> cells s' = cells s \<Longrightarrow> next_hook s' = next_hook s \<Longrightarrow>
    (\<And>h. owner (hookobj s' h) = owner (hookobj s h) \<and> qtype (hookobj s' h) = qtype (hookobj s h)
       \<and> emptied (hookobj s' h) = emptied (hookobj s h)) \<Longrightarrow> cells_inv s'"
  unfolding cells_inv_def by simp

lemma cells_inv_queue:
  "cells_inv s \<Longrightarrow> InProgress \<notin> set (tl (queue_entries e t s))
     \<and> (InProgress \<in> set (queue_entries e t s) \<longrightarrow> queue_key t = ''fxqueue'')"
  by (auto simp: cells_inv_def queue_entries_def split: qcell.split)

lemma tl_append_notin: "x \<notin> set (tl xs) \<Longrightarrow> x \<notin> set ys \<Longrightarrow> x \<notin> set (tl (xs @ ys)) \<or> xs = []"
  by (cases xs) auto

lemma cells_inv_jq_queue:
  assumes "cells_inv s" shows "cells_inv (jq_queue e t d s)"
proof (cases d)
  case (Push f)
  have "InProgress \<notin> set (tl (queue_entries e t s @ [QFn f]))"
    using cells_inv_queue [OF assms, of e t] by (cases "queue_entries e t s") auto
  then show ?thesis
    using assms cells_inv_queue [OF assms, of e t] Push by (auto simp: jq_queue_def intro!: cells_inv_set)
next
  case (Replace fs)
  have "InProgress \<notin> set (map QFn fs)" "InProgress \<notin> set (tl (map QFn fs))" by (auto simp flip: map_tl)
  then show ?thesis using assms Replace by (auto simp: jq_queue_def intro!: cells_inv_set)
qed

lemma queueHooks_spec:
  assumes "cells_inv s" "queueHooks e t s = (h, s')"
  shows "cells_inv s' \<and> cells s' e (hooks_key t) = CHooks h
    \<and> (\<forall>e' k. (e', k) \<noteq> (e, hooks_key t) \<longrightarrow> cells s' e' k = cells s e' k)
    \<and> promises s' = promises s \<and> started s' = started s
    \<and> (\<forall>h'. h' < next_hook s \<longrightarrow> hookobj s' h' = hookobj s h') \<and> next_hook s \<le> next_hook s'"
proof (cases "\<exists>h. cells s e (hooks_key t) = CHooks h")
  case True
  then show ?thesis using assms by (auto simp: queueHooks_def)
next
  case False
  let ?s1 = "s\<lparr>next_hook := Suc (next_hook s), hookobj := (hookobj s)(next_hook s :=
      \<lparr>owner = e, qtype = t, stop_fn = None, subs = [], emptied = False\<rparr>)\<rparr>"
  have s': "h = next_hook s" "s' = cell_set e (hooks_key t) (CHooks (next_hook s)) ?s1"
    using False assms(2) by (auto simp: queueHooks_def Let_def split: qcell.splits)
  have "cells_inv ?s1" using assms(1) unfolding cells_inv_def by fastforce
  then have "cells_inv s'" unfolding s' by (intro cells_inv_set) auto
  then show ?thesis using s' by auto
qed

lemma cells_inv_store_queue:
  assumes "cells_inv s" "InProgress \<notin> set (tl q)" "InProgress \<in> set q \<longrightarrow> queue_key t = ''fxqueue''"
  shows "cells_inv (store_queue e t q s)"
  using assms by (auto simp: store_queue_def split: qcell.split intro!: cells_inv_set)

text \<open>The three outcomes of a dequeue.\<close>

definition norm_type :: "string \<Rightarrow> string" where
  "norm_type t = (if t = [] then ''fx'' else t)"

definition waiting_fns :: "nat \<Rightarrow> string \<Rightarrow> qstate \<Rightarrow> qentry list" where
  "waiting_fns e t s = (case queue_entries e (norm_type t) s of InProgress # q \<Rightarrow> q | q \<Rightarrow> q)"

lemma norm_type_simps [simp]: "norm_type t \<noteq> []" "norm_type (norm_type t) = norm_type t"
  "queue_key (norm_type t) = queue_key t" "norm_type ''fx'' = ''fx''"
  by (simp_all add: norm_type_def queue_key_def)

lemma jq_dequeue_unfold:
  assumes "cells_inv s" "queueHooks e (norm_type t) s = (h, s1)"
  shows "jq_dequeue R e t s =
     (case waiting_fns e t s of
        [] \<Rightarrow> Some ([TEmpty h], store_queue e (norm_type t) [] s1)
      | QFn f # q \<Rightarrow>
          Some (map (TAct e (norm_type t) h) (R f),
            delete_stop h (store_queue e (norm_type t) (if norm_type t = ''fx'' then InProgress # q else q) s1)
              \<lparr>started := started s @ [(e, norm_type t, f)]\<rparr>)
      | InProgress # q \<Rightarrow> None)"
proof -
  have st: "started s1 = started s" using queueHooks_spec [OF assms] by simp
  consider "queue_entries e (norm_type t) s = []" | f q where "queue_entries e (norm_type t) s = QFn f # q"
    | "queue_entries e (norm_type t) s = [InProgress]" | f q where "queue_entries e (norm_type t) s = InProgress # QFn f # q"
    | q where "queue_entries e (norm_type t) s = InProgress # InProgress # q"
    by (metis qentry.exhaust list.exhaust)
  then show ?thesis
    using assms(2) st
    by cases (simp_all add: jq_dequeue_def waiting_fns_def Let_def flip: norm_type_def)
qed

lemma waiting_fns_ok:
  assumes "cells_inv s" shows "InProgress \<notin> set (waiting_fns e t s)"
  using cells_inv_queue [OF assms, of e "norm_type t"]
  by (cases "queue_entries e (norm_type t) s") (auto simp: waiting_fns_def queue_key_def norm_type_def split: qentry.splits)

lemma set_tl: "x \<in> set (tl xs) \<Longrightarrow> x \<in> set xs"
  by (cases xs) auto

lemma jq_dequeue_inv:
  assumes "cells_inv s"
  shows "\<exists>us s'. jq_dequeue R e t s = Some (us, s') \<and> cells_inv s'"
proof -
  obtain h s1 where hk: "queueHooks e (norm_type t) s = (h, s1)" by (cases "queueHooks e (norm_type t) s")
  have i1: "cells_inv s1" using queueHooks_spec [OF assms hk] by simp
  note ok = waiting_fns_ok [OF assms, of e t]
  show ?thesis
  proof (cases "waiting_fns e t s")
    case Nil
    then show ?thesis using i1 by (simp add: jq_dequeue_unfold [OF assms hk] cells_inv_store_queue)
  next
    case (Cons x q)
    with ok obtain f where x: "x = QFn f" by (cases x) auto
    have "cells_inv (store_queue e (norm_type t) (if norm_type t = ''fx'' then InProgress # q else q) s1)"
      using i1 ok Cons by (intro cells_inv_store_queue) (auto simp: queue_key_def norm_type_def dest: set_tl)
    then have "cells_inv (delete_stop h (store_queue e (norm_type t) (if norm_type t = ''fx'' then InProgress # q else q) s1)
              \<lparr>started := started s @ [(e, norm_type t, f)]\<rparr>)"
      by (rule cells_inv_cong) (simp_all add: delete_stop_def)
    then show ?thesis using Cons x by (simp add: jq_dequeue_unfold [OF assms hk])
  qed
qed

lemma fire_empty_cells:
  "cells (fire_empty h s) =
     (if emptied (hookobj s h) then cells s
      else cells (cell_remove (owner (hookobj s h)) [qtype (hookobj s h) @ ''queue'', hooks_key (qtype (hookobj s h))] s))"
  by (simp add: fire_empty_def Let_def cell_remove_def cong: if_cong)

lemma fire_empty_inv:
  assumes "cells_inv s" shows "cells_inv (fire_empty h s)"
proof (cases "emptied (hookobj s h)")
  case False
  have o: "hookobj (fire_empty h s) = (hookobj s)(h := (hookobj s h)\<lparr>emptied := True, subs := []\<rparr>)"
    "next_hook (fire_empty h s) = next_hook s"
    using False by (simp_all add: fire_empty_def Let_def)
  have c: "cells (fire_empty h s) e k = CUndef \<or> cells (fire_empty h s) e k = cells s e k" for e k
    using False by (auto simp: fire_empty_cells cell_remove_def)
  have r: "cells (fire_empty h s) (owner (hookobj s h)) (hooks_key (qtype (hookobj s h))) = CUndef"
    using False by (simp add: fire_empty_cells cell_remove_def)
  show ?thesis unfolding cells_inv_def
  proof (intro conjI allI impI)
    fix e k q assume "cells (fire_empty h s) e k = CQueue q"
    then have "cells s e k = CQueue q" using c [of e k] by auto
    then show "InProgress \<notin> set (tl q)" "InProgress \<in> set q \<Longrightarrow> k = ''fxqueue''"
      using assms by (auto simp: cells_inv_def)
  next
    fix e k h' assume a: "cells (fire_empty h s) e k = CHooks h'"
    then have "cells s e k = CHooks h'" using c [of e k] by auto
    then have n: "h' < next_hook s \<and> owner (hookobj s h') = e \<and> k = hooks_key (qtype (hookobj s h'))
        \<and> \<not> emptied (hookobj s h')"
      using assms by (simp add: cells_inv_def)
    moreover have "h' \<noteq> h" using a n r by auto
    ultimately show "h' < next_hook (fire_empty h s)" "owner (hookobj (fire_empty h s) h') = e"
      "k = hooks_key (qtype (hookobj (fire_empty h s) h'))" "\<not> emptied (hookobj (fire_empty h s) h')"
      by (simp_all add: o)
  qed
qed (simp add: fire_empty_def assms)

lemma promise_wait_cells:
  "cells (promise_wait p t e s) = cells s \<and> next_hook (promise_wait p t e s) = next_hook s
   \<and> (\<forall>h. owner (hookobj (promise_wait p t e s) h) = owner (hookobj s h)
        \<and> qtype (hookobj (promise_wait p t e s) h) = qtype (hookobj s h)
        \<and> emptied (hookobj (promise_wait p t e s) h) = emptied (hookobj s h))"
  by (auto simp: promise_wait_def add_sub_def Let_def split: qcell.split)

lemma fn_promise_inv: "cells_inv s \<Longrightarrow> cells_inv (fn_promise p this t s)"
proof -
  have A: "cells_inv (fold (promise_wait p t) es s)" if "cells_inv s" for es s t
    using that
  proof (induction es arbitrary: s)
    case (Cons e es)
    have "cells_inv (promise_wait p t e s)"
      by (rule cells_inv_cong [OF Cons.prems]) (simp_all add: promise_wait_cells)
    with Cons.IH show ?case by simp
  qed simp
  assume "cells_inv s"
  then have "cells_inv (s\<lparr>promises := (promises s)(p := Some \<lparr>waiting = 1, resolved = 0\<rparr>)\<rparr>)"
    by (rule cells_inv_cong) simp_all
  from A [OF this] have "cells_inv (fold (promise_wait p (if t = [] then ''fx'' else t)) (rev this)
       (s\<lparr>promises := (promises s)(p := Some \<lparr>waiting = 1, resolved = 0\<rparr>)\<rparr>))" .
  then show ?thesis unfolding fn_promise_def by (rule cells_inv_cong) simp_all
qed

lemma fn_queue_one_inv:
  assumes "cells_inv s" shows "cells_inv (snd (fn_queue_one e t d s))"
proof -
  obtain h s1 where hk: "queueHooks e t (jq_queue e t d s) = (h, s1)" by (cases "queueHooks e t (jq_queue e t d s)")
  from queueHooks_spec [OF cells_inv_jq_queue [OF assms] hk] show ?thesis
    by (simp add: fn_queue_one_def hk Let_def)
qed

lemma qstep_inv:
  assumes "cells_inv s" shows "\<exists>us s'. qstep R t s = Some (us, s') \<and> cells_inv s'"
proof (cases t)
  case (TAct e ty h a)
  have "cells_inv (s\<lparr>hookobj := (hookobj s)(h := (hookobj s h)\<lparr>stop_fn := Some f\<rparr>)\<rparr>)" for f
    by (rule cells_inv_cong [OF assms]) simp_all
  then have "cells_inv (snd (do_act e ty h a s))"
    using assms by (simp add: do_act_def fn_promise_inv split: qact.split)
  then show ?thesis using TAct by (cases "do_act e ty h a s") (simp add: qstep_def)
next
  case (TQueueOn e ty d)
  then show ?thesis using fn_queue_one_inv [OF assms, of e ty d]
    by (cases "fn_queue_one e ty d s") (simp add: qstep_def)
qed (use assms in \<open>simp_all add: qstep_def jq_dequeue_inv fire_empty_inv\<close>)

lemma qrun_cells_inv:
  "cells_inv s \<Longrightarrow> qrun n R ts s \<noteq> TypeErr \<and> (qrun n R ts s = Fin s' \<longrightarrow> cells_inv s')"
proof (induction n R ts s rule: qrun.induct)
  case (3 n R t ts s)
  from qstep_inv [OF 3(2)] obtain us s1 where "qstep R t s = Some (us, s1)" "cells_inv s1" by blast
  with 3(1) show ?case by simp
qed auto

lemma qinit_inv [js_inv]: "cells_inv qinit" "promise_inv qinit"
  by (simp_all add: cells_inv_def promise_inv_def promise_ok_def subs_inv_def qinit_def subs_total_def)

section \<open>Promises\<close>

lemma promise_ok_resolve:
  assumes "promise_ok s f" "1 \<le> f p" shows "promise_ok (resolve p s) (f(p := f p - 1))"
proof -
  have p: "pstate_ok (promises s p) (f p)" using assms by (simp add: promise_ok_def)
  then obtain r where r: "promises s p = Some r" using assms(2) by (cases "promises s p") auto
  with assms p show ?thesis by (simp add: resolve_def promise_ok_def)
qed

lemma promise_ok_fold:
  "promise_ok s f \<Longrightarrow> (\<And>q. int (count_list ps q) \<le> f q) \<Longrightarrow>
     promise_ok (fold resolve ps s) (\<lambda>q. f q - int (count_list ps q))"
proof (induction ps arbitrary: s f)
  case (Cons p ps)
  have "1 \<le> f p" using Cons.prems(2) [of p] by simp
  from promise_ok_resolve [OF Cons.prems(1) this]
  have "promise_ok (fold resolve ps (resolve p s)) (\<lambda>q. (f(p := f p - 1)) q - int (count_list ps q))"
    by (rule Cons.IH) (use Cons.prems(2) in \<open>force split: if_splits\<close>)
  moreover have "(\<lambda>q. (f(p := f p - 1)) q - int (count_list ps q)) = (\<lambda>q. f q - int (count_list (p # ps) q))"
    by auto
  ultimately show ?case by simp
qed simp

lemma subs_total_cong:
  "next_hook s' = next_hook s \<Longrightarrow> (\<And>h. subs (hookobj s' h) = subs (hookobj s h)) \<Longrightarrow>
     subs_total s' = subs_total s"
  by (simp add: subs_total_def fun_eq_iff)

lemma promise_inv_cong:
  "promise_inv s \<Longrightarrow> next_hook s' = next_hook s \<Longrightarrow> promises s' = promises s \<Longrightarrow>
    (\<And>h. subs (hookobj s' h) = subs (hookobj s h) \<and> emptied (hookobj s' h) = emptied (hookobj s h)) \<Longrightarrow>
    promise_inv s'"
  using subs_total_cong [of s' s] by (simp add: promise_inv_def subs_inv_def promise_ok_def)

lemma sum_update:
  fixes f :: "'a \<Rightarrow> int"
  assumes "h < (n::nat)"
  shows "(\<Sum>i<n. f ((g(h := v)) i)) = (\<Sum>i<n. f (g i)) - f (g h) + f v"
proof -
  have "(\<Sum>i<n. f (g i)) = f (g h) + (\<Sum>i\<in>{..<n} - {h}. f (g i))" by (rule sum.remove) (use assms in auto)
  moreover have "(\<Sum>i<n. f ((g(h := v)) i)) = f ((g(h := v)) h) + (\<Sum>i\<in>{..<n} - {h}. f ((g(h := v)) i))"
    by (rule sum.remove) (use assms in auto)
  moreover have "(\<Sum>i\<in>{..<n} - {h}. f ((g(h := v)) i)) = (\<Sum>i\<in>{..<n} - {h}. f (g i))"
    by (rule sum.cong) auto
  ultimately show ?thesis by simp
qed

lemma subs_total_update:
  assumes "h < next_hook s" "next_hook s' = next_hook s" "hookobj s' = (hookobj s)(h := o')"
  shows "subs_total s' p = subs_total s p - int (count_list (subs (hookobj s h)) p) + int (count_list (subs o') p)"
  unfolding subs_total_def assms(2,3) by (rule sum_update [OF assms(1), where f="\<lambda>o'. int (count_list (subs o') p)"])

lemma subs_total_remove:
  assumes "subs_inv s"
  shows "subs_total (s\<lparr>hookobj := (hookobj s)(h := (hookobj s h)\<lparr>emptied := True, subs := []\<rparr>)\<rparr>) p =
     subs_total s p - int (count_list (subs (hookobj s h)) p)"
proof (cases "h < next_hook s")
  case True
  show ?thesis
    using subs_total_update [OF True, of "s\<lparr>hookobj := (hookobj s)(h := (hookobj s h)\<lparr>emptied := True, subs := []\<rparr>)\<rparr>"
        "(hookobj s h)\<lparr>emptied := True, subs := []\<rparr>" p] by simp
next
  case False
  then have "subs (hookobj s h) = []" using assms by (simp add: subs_inv_def)
  moreover have "subs_total (s\<lparr>hookobj := (hookobj s)(h := (hookobj s h)\<lparr>emptied := True, subs := []\<rparr>)\<rparr>) p =
      subs_total s p"
    using False by (auto simp: subs_total_def intro!: sum.cong)
  ultimately show ?thesis by simp
qed

lemma count_le_subs_total:
  assumes "subs_inv s" shows "int (count_list (subs (hookobj s h)) p) \<le> subs_total s p"
proof (cases "h < next_hook s")
  case True
  then show ?thesis unfolding subs_total_def by (intro member_le_sum) auto
next
  case False
  then have "subs (hookobj s h) = []" using assms by (simp add: subs_inv_def)
  then show ?thesis by (simp add: subs_total_def sum_nonneg)
qed

lemma fire_empty_promise:
  assumes "promise_inv s" shows "promise_inv (fire_empty h s)"
proof (cases "emptied (hookobj s h)")
  case False
  let ?o = "hookobj s h"
  let ?s1 = "s\<lparr>hookobj := (hookobj s)(h := ?o\<lparr>emptied := True, subs := []\<rparr>)\<rparr>"
  let ?s2 = "cell_remove (owner ?o) [qtype ?o @ ''queue'', hooks_key (qtype ?o)] ?s1"
  have i: "subs_inv s" "promise_ok s (subs_total s)" using assms by (simp_all add: promise_inv_def)
  have f: "fire_empty h s = fold resolve (subs ?o) ?s2" using False by (simp add: fire_empty_def Let_def)
  have "promise_ok ?s2 (subs_total s)" using i(2) by (simp add: promise_ok_def)
  from promise_ok_fold [OF this, of "subs ?o"] count_le_subs_total [OF i(1)]
  have "promise_ok (fire_empty h s) (\<lambda>q. subs_total s q - int (count_list (subs ?o) q))" by (simp add: f)
  moreover have "subs_total (fire_empty h s) = subs_total ?s1"
    by (rule subs_total_cong) (simp_all add: f)
  then have "subs_total (fire_empty h s) = (\<lambda>q. subs_total s q - int (count_list (subs ?o) q))"
    by (simp add: subs_total_remove [OF i(1)] fun_eq_iff)
  moreover have "subs_inv (fire_empty h s)" using i(1) by (simp add: f subs_inv_def)
  ultimately show ?thesis by (simp add: promise_inv_def)
qed (simp add: fire_empty_def assms)

lemma queueHooks_promise:
  assumes "promise_inv s" shows "promise_inv (snd (queueHooks e t s))"
proof (cases "\<exists>h. cells s e (hooks_key t) = CHooks h")
  case True
  then show ?thesis using assms by (auto simp: queueHooks_def)
next
  case False
  define s' where "s' = snd (queueHooks e t s)"
  have s': "next_hook s' = Suc (next_hook s)" "promises s' = promises s"
    "hookobj s' = (hookobj s)(next_hook s := \<lparr>owner = e, qtype = t, stop_fn = None, subs = [], emptied = False\<rparr>)"
    using False by (auto simp: s'_def queueHooks_def Let_def split: qcell.splits)
  have "subs_total s' = subs_total s"
    by (auto simp: subs_total_def s' fun_eq_iff intro!: sum.cong)
  then show ?thesis using assms unfolding s'_def [symmetric]
    by (auto simp: promise_inv_def subs_inv_def promise_ok_def s')
qed

text \<open>While a promise is built it waits for one more than the lists that hold it.\<close>

lemma promise_wait_ok:
  assumes "cells_inv s" "subs_inv s" "promise_ok s ((subs_total s)(p := subs_total s p + 1))"
  shows "subs_inv (promise_wait p t e s)
     \<and> promise_ok (promise_wait p t e s)
         ((subs_total (promise_wait p t e s))(p := subs_total (promise_wait p t e s) p + 1))"
proof (cases "\<exists>h. cells s e (hooks_key t) = CHooks h")
  case True
  then obtain h where h: "cells s e (hooks_key t) = CHooks h" by blast
  then have hb: "h < next_hook s" "\<not> emptied (hookobj s h)" using assms(1) by (auto simp: cells_inv_def)
  let ?s' = "promise_wait p t e s"
  have s': "next_hook ?s' = next_hook s"
    "hookobj ?s' = (hookobj s)(h := (hookobj s h)\<lparr>subs := subs (hookobj s h) @ [p]\<rparr>)"
    "promises ?s' = (promises s)(p := map_option (\<lambda>r. r\<lparr>waiting := waiting r + 1\<rparr>) (promises s p))"
    using h hb by (simp_all add: promise_wait_def add_sub_def Let_def)
  have tot: "subs_total ?s' q = subs_total s q + (if q = p then 1 else 0)" for q
    by (subst subs_total_update [OF hb(1) s'(1,2)]) simp
  have nn: "0 \<le> subs_total s p" by (simp add: subs_total_def sum_nonneg)
  obtain r where r: "promises s p = Some r" "waiting r = subs_total s p + 1" "resolved r = 0"
    using assms(3) nn by (cases "promises s p") (auto simp: promise_ok_def dest!: spec [of _ p])
  have "promise_ok ?s' ((subs_total ?s')(p := subs_total ?s' p + 1))"
    using assms(3) r nn by (auto simp: promise_ok_def s'(3) tot split: if_splits)
  moreover have "subs_inv ?s'" using assms(2) hb by (auto simp: subs_inv_def s')
  ultimately show ?thesis by blast
next
  case False
  then have "promise_wait p t e s = s" by (auto simp: promise_wait_def split: qcell.splits)
  with assms show ?thesis by simp
qed

lemma promise_wait_fold_ok:
  "cells_inv s \<Longrightarrow> subs_inv s \<Longrightarrow> promise_ok s ((subs_total s)(p := subs_total s p + 1)) \<Longrightarrow>
     subs_inv (fold (promise_wait p t) es s)
     \<and> promise_ok (fold (promise_wait p t) es s)
         ((subs_total (fold (promise_wait p t) es s))(p := subs_total (fold (promise_wait p t) es s) p + 1))"
proof (induction es arbitrary: s)
  case (Cons e es)
  have "cells_inv (promise_wait p t e s)"
    by (rule cells_inv_cong [OF Cons.prems(1)]) (simp_all add: promise_wait_cells)
  from Cons.IH [OF this] promise_wait_ok [OF Cons.prems, of t e] show ?case unfolding fold_simps by blast
qed simp

lemma fn_promise_promise:
  assumes "cells_inv s" "promise_inv s" "promises s p = None"
  shows "promise_inv (fn_promise p this t s)"
proof -
  let ?s0 = "s\<lparr>promises := (promises s)(p := Some \<lparr>waiting = 1, resolved = 0\<rparr>)\<rparr>"
  define s1 where "s1 = fold (promise_wait p (if t = [] then ''fx'' else t)) (rev this) ?s0"
  have z: "subs_total s p = 0" using assms(2,3) by (auto simp: promise_inv_def promise_ok_def dest!: spec [of _ p])
  have t0: "subs_total ?s0 = subs_total s" by (rule subs_total_cong) simp_all
  have "cells_inv ?s0" by (rule cells_inv_cong [OF assms(1)]) simp_all
  moreover have "subs_inv ?s0" "promise_ok ?s0 ((subs_total ?s0)(p := subs_total ?s0 p + 1))"
    using assms(2) z by (auto simp: t0 promise_inv_def subs_inv_def promise_ok_def)
  ultimately have s1: "subs_inv s1" "promise_ok s1 ((subs_total s1)(p := subs_total s1 p + 1))"
    using promise_wait_fold_ok unfolding s1_def by blast+
  have "0 \<le> subs_total s1 p" by (simp add: subs_total_def sum_nonneg)
  with promise_ok_resolve [OF s1(2), of p] have "promise_ok (resolve p s1) (subs_total s1)" by simp
  moreover have "subs_total (resolve p s1) = subs_total s1" by (rule subs_total_cong) simp_all
  moreover have "subs_inv (resolve p s1)" using s1(1) by (simp add: subs_inv_def)
  ultimately show ?thesis by (simp add: promise_inv_def fn_promise_def flip: s1_def)
qed

lemma jq_dequeue_promise:
  assumes "cells_inv s" "promise_inv s" "jq_dequeue R e t s = Some (us, s')"
  shows "promise_inv s'"
proof -
  obtain h s1 where hk: "queueHooks e (norm_type t) s = (h, s1)" by (cases "queueHooks e (norm_type t) s")
  have i1: "promise_inv s1" using queueHooks_promise [OF assms(2), of e "norm_type t"] hk by simp
  have A: "promise_inv (store_queue e ty q s1)" for ty q by (rule promise_inv_cong [OF i1]) simp_all
  have B: "promise_inv (delete_stop h (store_queue e ty q s1)\<lparr>started := l\<rparr>)" for ty q l
    by (rule promise_inv_cong [OF A [of ty q]]) (simp_all add: delete_stop_def)
  show ?thesis using assms(3) A B
    by (auto simp: jq_dequeue_unfold [OF assms(1) hk] split: list.splits qentry.splits)
qed

lemma qstep_promise:
  assumes "cells_inv s" "promise_inv s" "qstep R t s = Some (us, s')"
  shows "promise_inv s'"
proof (cases t)
  case (TDequeue e ty)
  then show ?thesis using assms by (auto simp: qstep_def dest: jq_dequeue_promise)
next
  case (TQueueOn e ty d)
  have "promise_inv (jq_queue e ty d s)"
    by (rule promise_inv_cong [OF assms(2)]) (simp_all add: jq_queue_def split: qdata.split)
  from queueHooks_promise [OF this, of e ty] TQueueOn assms(3) show ?thesis
    by (auto simp: qstep_def fn_queue_one_def Let_def split: prod.splits)
next
  case (TAct e ty h a)
  have S: "promise_inv (s\<lparr>hookobj := (hookobj s)(h := (hookobj s h)\<lparr>stop_fn := f\<rparr>)\<rparr>)" for f
    by (rule promise_inv_cong [OF assms(2)]) simp_all
  show ?thesis using TAct assms S fn_promise_promise
    by (auto simp: qstep_def do_act_def split: qact.splits if_splits)
next
  case (TEmpty h)
  then show ?thesis using assms fire_empty_promise by (auto simp: qstep_def)
qed

lemma qrun_promise_inv:
  "cells_inv s \<Longrightarrow> promise_inv s \<Longrightarrow> qrun n R ts s = Fin s' \<Longrightarrow> promise_inv s'"
proof (induction n R ts s rule: qrun.induct)
  case (3 n R t ts s)
  from qstep_inv [OF 3(2)] obtain us s1 where q: "qstep R t s = Some (us, s1)" "cells_inv s1" by blast
  with 3 qstep_promise [OF 3(2,3) q(1)] show ?case by simp
qed simp_all

section \<open>Runs\<close>

lemma qrun_mono: "qrun n R ts s = Fin s' \<Longrightarrow> qrun (n + m) R ts s = Fin s'"
proof (induction n R ts s rule: qrun.induct)
  case (1 n R s)
  then show ?case by (cases "n + m") auto
next
  case (3 n R t ts s)
  then show ?case by (auto split: option.splits)
qed simp

lemma qrun_append:
  "qrun n R ts s = Fin s1 \<Longrightarrow> qrun m R us s1 = Fin s2 \<Longrightarrow> qrun (n + m) R (ts @ us) s = Fin s2"
proof (induction n R ts s rule: qrun.induct)
  case (1 n R s)
  then show ?case using qrun_mono [of m R us s1 s2 n] by (simp add: add.commute)
next
  case (3 n R t ts s)
  then show ?case by (auto split: option.splits)
qed simp

text \<open>A list of tasks ends in a state: some fuel is enough.\<close>

definition qends :: "(nat \<Rightarrow> qact list) \<Rightarrow> qtask list \<Rightarrow> qstate \<Rightarrow> qstate \<Rightarrow> bool" where
  "qends R ts s s' \<longleftrightarrow> (\<exists>n. qrun n R ts s = Fin s')"

lemma qends_Nil [simp]: "qends R [] s s' \<longleftrightarrow> s' = s"
  by (auto simp: qends_def)

lemma qends_append: "qends R ts s s1 \<Longrightarrow> qends R us s1 s2 \<Longrightarrow> qends R (ts @ us) s s2"
  unfolding qends_def using qrun_append by blast

lemma qends_step: "qstep R t s = Some (us, s1) \<Longrightarrow> qends R (us @ ts) s1 s2 \<Longrightarrow> qends R (t # ts) s s2"
proof -
  assume a: "qstep R t s = Some (us, s1)" "qends R (us @ ts) s1 s2"
  then obtain n where "qrun n R (us @ ts) s1 = Fin s2" by (auto simp: qends_def)
  with a(1) have "qrun (Suc n) R (t # ts) s = Fin s2" by simp
  then show ?thesis unfolding qends_def by blast
qed

lemma qends_inv: "qends R ts s s' \<Longrightarrow> cells_inv s \<Longrightarrow> cells_inv s'"
  unfolding qends_def using qrun_cells_inv by blast

section \<open>The fx queue of one element, abstractly\<close>

text \<open>
  Functions that do their work later and then call next: an element is idle or busy with the last
  function started, and the others wait. The events are queue(f) and the call of next.
\<close>

datatype fxev = Enq nat | Nxt

fun fx_abs :: "fxev \<Rightarrow> bool \<times> nat list \<times> nat list \<Rightarrow> bool \<times> nat list \<times> nat list" where
  "fx_abs (Enq f) (busy, wait, done) = (if busy then (True, wait @ [f], done) else (True, [], done @ [f]))"
| "fx_abs Nxt (busy, [], done) = (False, [], done)"
| "fx_abs Nxt (busy, f # wait, done) = (True, wait, done @ [f])"

fun ev_tasks :: "nat \<Rightarrow> fxev \<Rightarrow> qtask list" where
  "ev_tasks e (Enq f) = fn_queue [e] ''fx'' (Push f)"
| "ev_tasks e Nxt = fn_dequeue [e] ''fx''"

definition fx_rel :: "nat \<Rightarrow> qstate \<Rightarrow> bool \<times> nat list \<times> nat list \<Rightarrow> bool" where
  "fx_rel e s a = (case a of (busy, wait, done) \<Rightarrow>
     cells s e ''fxqueue'' = (if busy then CQueue (InProgress # map QFn wait) else CUndef)
     \<and> (\<not> busy \<longrightarrow> wait = [])
     \<and> started s = map (\<lambda>f. (e, ''fx'', f)) done)"

lemma queue_key_fx [simp]: "queue_key ''fx'' = ''fxqueue''" "hooks_key ''fx'' = ''fxqueueHooks''"
  by (simp_all add: queue_key_def hooks_key_def)

lemma delete_stop_simps [simp]:
  "cells (delete_stop h s) = cells s" "started (delete_stop h s) = started s"
  by (simp_all add: delete_stop_def)

text \<open>What a dequeue with a waiting function and one with none come to.\<close>

lemma dequeue_starts:
  assumes "cells_inv s" "R f = []" "waiting_fns e ''fx'' s = QFn f # q"
    and "cells s e ''fxqueue'' \<noteq> CUndef"
  shows "\<exists>s'. qends R [TDequeue e ''fx''] s s' \<and> cells s' e ''fxqueue'' = CQueue (InProgress # q)
     \<and> started s' = started s @ [(e, ''fx'', f)]"
proof -
  obtain h s1 where hk: "queueHooks e (norm_type ''fx'') s = (h, s1)" by (cases "queueHooks e (norm_type ''fx'') s")
  then have hk': "queueHooks e ''fx'' s = (h, s1)" by simp
  note sp = queueHooks_spec [OF assms(1) hk']
  have c: "cells s1 e ''fxqueue'' = cells s e ''fxqueue''" using sp by simp
  obtain q0 where q0: "cells s e ''fxqueue'' = CQueue q0"
    using assms(3) by (auto simp: waiting_fns_def queue_entries_def split: qcell.splits)
  let ?s2 = "delete_stop h (store_queue e ''fx'' (InProgress # q) s1)\<lparr>started := started s @ [(e, ''fx'', f)]\<rparr>"
  have "qstep R (TDequeue e ''fx'') s = Some ([], ?s2)"
    using assms by (simp add: qstep_def jq_dequeue_unfold [OF assms(1) hk])
  then have "qends R [TDequeue e ''fx''] s ?s2" by (rule qends_step) simp
  moreover have "cells ?s2 e ''fxqueue'' = CQueue (InProgress # q)"
    using c q0 by (simp add: store_queue_def)
  ultimately show ?thesis by (intro exI [of _ ?s2]) simp
qed

lemma dequeue_empties:
  assumes "cells_inv s" "waiting_fns e t s = []"
  shows "\<exists>s'. qends R [TDequeue e t] s s' \<and> started s' = started s
     \<and> (\<forall>k. cells s' e k =
          (if k \<in> {norm_type t @ ''queue'', hooks_key (norm_type t), camelCase (norm_type t @ ''queue''),
              camelCase (hooks_key (norm_type t))} then CUndef
           else cells s e k))"
proof -
  obtain h s1 where hk: "queueHooks e (norm_type t) s = (h, s1)" by (cases "queueHooks e (norm_type t) s")
  note sp = queueHooks_spec [OF assms(1) hk]
  have k: "queue_key t = norm_type t @ ''queue''" by (simp add: queue_key_def norm_type_def)
  define s2 where "s2 = store_queue e (norm_type t) [] s1"
  have o: "owner (hookobj s1 h) = e" "qtype (hookobj s1 h) = norm_type t" "\<not> emptied (hookobj s1 h)"
  proof -
    have "cells_inv s1" "cells s1 e (hooks_key (norm_type t)) = CHooks h" using sp by simp_all
    then have "owner (hookobj s1 h) = e \<and> hooks_key (norm_type t) = hooks_key (qtype (hookobj s1 h))
        \<and> \<not> emptied (hookobj s1 h)"
      unfolding cells_inv_def by blast
    then show "owner (hookobj s1 h) = e" "qtype (hookobj s1 h) = norm_type t" "\<not> emptied (hookobj s1 h)"
      by (simp_all add: hooks_key_def)
  qed
  have "qstep R (TDequeue e t) s = Some ([TEmpty h], s2)"
    using assms(2) by (simp add: qstep_def jq_dequeue_unfold [OF assms(1) hk] s2_def)
  moreover have "qends R [TEmpty h] s2 (fire_empty h s2)"
    by (rule qends_step [of _ _ _ "[]"]) (simp_all add: qstep_def)
  ultimately have "qends R [TDequeue e t] s (fire_empty h s2)" by (simp add: qends_step)
  moreover have "started (fire_empty h s2) = started s"
    using sp by (simp add: fire_empty_def Let_def s2_def)
  moreover have "cells s2 e k = cells s e k" if "k \<noteq> queue_key t" "k \<noteq> hooks_key (norm_type t)" for k
    using sp that by (simp add: s2_def store_queue_def split: qcell.split)
  then have "cells (fire_empty h s2) e k =
          (if k \<in> {norm_type t @ ''queue'', hooks_key (norm_type t), camelCase (norm_type t @ ''queue''),
              camelCase (hooks_key (norm_type t))} then CUndef
           else cells s e k)" for k
    using o by (auto simp: fire_empty_cells s2_def cell_remove_def k)
  ultimately show ?thesis by blast
qed

lemma fx_step:
  assumes "cells_inv s" "fx_rel e s a" "\<And>f. R f = []"
  shows "\<exists>s'. qends R (ev_tasks e ev) s s' \<and> fx_rel e s' (fx_abs ev a)"
proof -
  obtain busy wait dn where a: "a = (busy, wait, dn)" by (cases a)
  show ?thesis
  proof (cases ev)
    case Nxt
    show ?thesis
    proof (cases wait)
      case Nil
      then have "waiting_fns e ''fx'' s = []"
        using assms(2) a by (auto simp: fx_rel_def waiting_fns_def queue_entries_def split: if_splits)
      from dequeue_empties [OF assms(1) this, of R] Nil assms(2) a Nxt show ?thesis
        by (auto simp: fn_dequeue_def fx_rel_def)
    next
      case (Cons f w)
      then have "waiting_fns e ''fx'' s = QFn f # map QFn w" "cells s e ''fxqueue'' \<noteq> CUndef"
        using assms(2) a by (auto simp: fx_rel_def waiting_fns_def queue_entries_def split: if_splits)
      from dequeue_starts [OF assms(1) assms(3) this] Cons assms(2) a Nxt show ?thesis
        by (auto simp: fn_dequeue_def fx_rel_def)
    qed
  next
    case (Enq f)
    define s1 where "s1 = jq_queue e ''fx'' (Push f) s"
    have i1: "cells_inv s1" unfolding s1_def by (rule cells_inv_jq_queue [OF assms(1)])
    obtain h s2 where hk: "queueHooks e ''fx'' s1 = (h, s2)" by (cases "queueHooks e ''fx'' s1")
    note sp = queueHooks_spec [OF i1 hk]
    have st: "started s2 = started s" using sp by (simp add: s1_def jq_queue_def)
    have c2: "cells s2 e ''fxqueue'' = CQueue (queue_entries e ''fx'' s @ [QFn f])"
      using sp by (simp add: s1_def jq_queue_def)
    show ?thesis
    proof (cases busy)
      case True
      then have q: "queue_entries e ''fx'' s = InProgress # map QFn wait"
        using assms(2) a by (simp add: fx_rel_def queue_entries_def)
      then have "qstep R (TQueueOn e ''fx'' (Push f)) s = Some ([], s2)"
        using c2 by (simp add: qstep_def fn_queue_one_def Let_def hk queue_entries_def flip: s1_def)
      then have "qends R (ev_tasks e ev) s s2" using Enq by (simp add: fn_queue_def qends_step)
      moreover have "fx_rel e s2 (fx_abs ev a)"
        using True Enq a c2 q st assms(2) by (simp add: fx_rel_def)
      ultimately show ?thesis by blast
    next
      case False
      then have q: "queue_entries e ''fx'' s = []" and w: "wait = []"
        using assms(2) a by (simp_all add: fx_rel_def queue_entries_def)
      then have "qstep R (TQueueOn e ''fx'' (Push f)) s = Some ([TDequeue e ''fx''], s2)"
        using c2 by (simp add: qstep_def fn_queue_one_def Let_def hk queue_entries_def flip: s1_def)
      moreover have "waiting_fns e ''fx'' s2 = QFn f # []" "cells s2 e ''fxqueue'' \<noteq> CUndef"
        using c2 q by (simp_all add: waiting_fns_def queue_entries_def)
      with dequeue_starts [where R=R, OF conjunct1 [OF sp] assms(3)] obtain s3 where
        s3: "qends R [TDequeue e ''fx''] s2 s3" "cells s3 e ''fxqueue'' = CQueue [InProgress]"
          "started s3 = started s2 @ [(e, ''fx'', f)]" by blast
      ultimately have "qends R (ev_tasks e ev) s s3" using Enq by (simp add: fn_queue_def qends_step)
      moreover have "fx_rel e s3 (fx_abs ev a)"
        using False Enq a s3 st w assms(2) by (simp add: fx_rel_def)
      ultimately show ?thesis by blast
    qed
  qed
qed

section \<open>Properties\<close>

text \<open>
  Whatever the queued functions do, no run of queue operations from the start meets the progress
  sentinel where it expects a function; in every state reached the sentinel is only the head of an
  fx queue, and every hooks object in the store belongs to its element and name and is not emptied.
\<close>

theorem queue_no_type_error:
  "qrun n R ts qinit \<noteq> TypeErr \<and> (qrun n R ts qinit = Fin s \<longrightarrow> cells_inv s)"
  using qrun_cells_inv [OF qinit_inv(1)] by blast

theorem queue_no_type_error_witness:
  "qrun 9 (\<lambda>f. if f = 0 then [ANext] else []) (fn_queue [1] ''fx'' (Push 0) @ fn_queue [1] ''fx'' (Push 7)) qinit \<noteq> TypeErr
   \<and> (case qrun 9 (\<lambda>f. if f = 0 then [ANext] else []) (fn_queue [1] ''fx'' (Push 0) @ fn_queue [1] ''fx'' (Push 7)) qinit of
        Fin s \<Rightarrow> cells_inv s \<and> map (\<lambda>(e, t, f). f) (started s) = [0, 7] | _ \<Rightarrow> False)"
proof -
  let ?r = "qrun 9 (\<lambda>f. if f = 0 then [ANext] else []) (fn_queue [1] ''fx'' (Push 0) @ fn_queue [1] ''fx'' (Push 7)) qinit"
  have "case ?r of Fin s \<Rightarrow> map (\<lambda>(e, t, f). f) (started s) = [0, 7] | _ \<Rightarrow> False" by code_simp
  then obtain s where "?r = Fin s" "map (\<lambda>(e, t, f). f) (started s) = [0, 7]" by (cases ?r) auto
  with queue_no_type_error [of 9 "\<lambda>f. if f = 0 then [ANext] else []" _ s] show ?thesis by simp
qed

text \<open>
  A promise on queues is resolved exactly when no callback list that holds it is left to be
  emptied, and never more than once.
\<close>

theorem promise_resolved_iff_drained:
  assumes "qrun n R ts qinit = Fin s" "promises s p = Some r"
  shows "resolved r = (if \<exists>h. p \<in> set (subs (hookobj s h)) then 0 else 1)"
proof -
  have i: "promise_inv s" using qrun_promise_inv [OF qinit_inv assms(1)] .
  then have r: "resolved r = (if subs_total s p = 0 then 1 else 0)"
    using assms(2) by (auto simp: promise_inv_def promise_ok_def dest!: spec [of _ p])
  have "subs_total s p = 0 \<longleftrightarrow> (\<forall>h < next_hook s. count_list (subs (hookobj s h)) p = 0)"
    unfolding subs_total_def by (subst sum_nonneg_eq_0_iff) auto
  also have "\<dots> \<longleftrightarrow> (\<forall>h. p \<notin> set (subs (hookobj s h)))"
    using i by (auto simp: promise_inv_def subs_inv_def count_list_0_iff) (metis empty_iff list.set(1) not_le)
  finally show ?thesis using r by simp
qed

theorem promise_resolved_iff_drained_witness:
  "(case qrun 9 (\<lambda>_. []) (fn_queue [1] ''fx'' (Push 0) @ [TAct 1 ''fx'' 0 (APromise 5 [1] [])]) qinit of
      Fin s \<Rightarrow> (case promises s 5 of Some r \<Rightarrow> resolved r = 0 | None \<Rightarrow> False) | _ \<Rightarrow> False)"
proof -
  let ?r = "qrun 9 (\<lambda>_. []) (fn_queue [1] ''fx'' (Push 0) @ [TAct 1 ''fx'' 0 (APromise 5 [1] [])]) qinit"
  have "case ?r of Fin s \<Rightarrow> promises s 5 \<noteq> None \<and> 5 \<in> set (subs (hookobj s 0)) | _ \<Rightarrow> False" by code_simp
  then obtain s r where s: "?r = Fin s" "promises s 5 = Some r" "5 \<in> set (subs (hookobj s 0))"
    by (cases ?r) auto
  from promise_resolved_iff_drained [OF s(1,2)] s show ?thesis by auto
qed

text \<open>
  C8: The fx queue of an element refines the abstract queue: any sequence of queue and next events,
  with functions that finish later, ends, and has started the same functions in the same order, one
  at a time.
\<close>

theorem fx_queue_refines:
  assumes "\<And>f. R f = []"
  shows "\<exists>n s. qrun n R (concat (map (ev_tasks e) evs)) qinit = Fin s
     \<and> fx_rel e s (fold fx_abs evs (False, [], []))"
proof -
  have "\<exists>s'. qends R (concat (map (ev_tasks e) evs)) s s' \<and> fx_rel e s' (fold fx_abs evs a)"
    if "cells_inv s" "fx_rel e s a" for s a
    using that
  proof (induction evs arbitrary: s a)
    case (Cons ev evs)
    from fx_step [where R=R and ev=ev, OF Cons.prems assms] obtain s1 where
      s1: "qends R (ev_tasks e ev) s s1" "fx_rel e s1 (fx_abs ev a)" by blast
    from Cons.IH [OF qends_inv [OF s1(1) Cons.prems(1)] s1(2)] qends_append [OF s1(1)]
    show ?case by fastforce
  qed auto
  moreover have "fx_rel e qinit (False, [], [])" by (simp add: fx_rel_def qinit_def)
  ultimately show ?thesis unfolding qends_def using qinit_inv(1) by blast
qed

theorem fx_queue_refines_witness:
  "\<exists>n s. qrun n (\<lambda>_. []) (concat (map (ev_tasks 1) [Enq 4, Enq 5, Nxt])) qinit = Fin s
     \<and> fx_rel 1 s (True, [], [4, 5])"
  using fx_queue_refines [where R="\<lambda>_. []" and e=1 and evs="[Enq 4, Enq 5, Nxt]"] by simp

text \<open>
  Draining a queue deletes every queue whose name has the same camelCased key: what waits in
  the other queue is lost.
\<close>

theorem drain_deletes_camel_queue:
  assumes "cells_inv s" "waiting_fns e t s = []" "camelCase (norm_type t @ ''queue'') = queue_key t'"
  shows "\<exists>s'. qends R [TDequeue e t] s s' \<and> started s' = started s \<and> queue_entries e t' s' = []"
  using dequeue_empties [OF assms(1,2), of R] assms(3) by (auto simp: queue_entries_def)

theorem drain_deletes_camel_queue_witness:
  "\<exists>s s'. queue_entries 1 ''myQ'' s = [QFn 3] \<and> qends (\<lambda>_. []) [TDequeue 1 ''my-q''] s s'
     \<and> queue_entries 1 ''myQ'' s' = []"
proof -
  let ?s = "jq_queue 1 ''myQ'' (Push 3) qinit"
  have c: "cells_inv ?s" by (rule cells_inv_jq_queue [OF qinit_inv(1)])
  have "waiting_fns 1 ''my-q'' ?s = []" "camelCase (norm_type ''my-q'' @ ''queue'') = queue_key ''myQ''"
    "queue_entries 1 ''myQ'' ?s = [QFn 3]" by code_simp+
  with drain_deletes_camel_queue [OF c, of 1 "''my-q''" "''myQ''" "\<lambda>_. []"] show ?thesis by blast
qed

text \<open>
  clearQueue removes the sentinel together with the waiting functions, so that a function
  queued next starts at once although the one in progress has not called next.
\<close>

theorem clearQueue_loses_sentinel:
  assumes "cells_inv s" "queue_entries e ''fx'' s = InProgress # q" "\<And>f. R f = []"
  shows "\<exists>s'. qends R (fn_clearQueue [e] [] @ fn_queue [e] ''fx'' (Push g)) s s'
     \<and> started s' = started s @ [(e, ''fx'', g)]"
proof -
  define s1 where "s1 = jq_queue e ''fx'' (Replace []) s"
  have i1: "cells_inv s1" unfolding s1_def by (rule cells_inv_jq_queue [OF assms(1)])
  obtain h s2 where hk: "queueHooks e ''fx'' s1 = (h, s2)" by (cases "queueHooks e ''fx'' s1")
  note sp = queueHooks_spec [OF i1 hk]
  have c2: "cells s2 e ''fxqueue'' = CQueue []" using sp by (simp add: s1_def jq_queue_def)
  have st: "started s2 = started s" using sp by (simp add: s1_def jq_queue_def)
  have "waiting_fns e ''fx'' s2 = []" using c2 by (simp add: waiting_fns_def queue_entries_def)
  from dequeue_empties [OF conjunct1 [OF sp] this, of R] obtain s3 where
    s3: "qends R [TDequeue e ''fx''] s2 s3" "started s3 = started s2" "cells s3 e ''fxqueue'' = CUndef" by auto
  have "qstep R (TQueueOn e ''fx'' (Replace [])) s = Some ([TDequeue e ''fx''], s2)"
    using c2 by (simp add: qstep_def fn_queue_one_def Let_def hk queue_entries_def flip: s1_def)
  then have clear: "qends R (fn_clearQueue [e] []) s s3"
    using s3(1) by (simp add: fn_clearQueue_def fn_queue_def qends_step)
  define a where "a = (False, [] :: nat list, [] :: nat list)"
  have i3: "cells_inv s3" by (rule qends_inv [OF s3(1) conjunct1 [OF sp]])
  define s4 where "s4 = jq_queue e ''fx'' (Push g) s3"
  have i4: "cells_inv s4" unfolding s4_def by (rule cells_inv_jq_queue [OF i3])
  obtain h' s5 where hk': "queueHooks e ''fx'' s4 = (h', s5)" by (cases "queueHooks e ''fx'' s4")
  note sp' = queueHooks_spec [OF i4 hk']
  have c5: "cells s5 e ''fxqueue'' = CQueue [QFn g]" "started s5 = started s3"
    using sp' s3(3) by (simp_all add: s4_def jq_queue_def queue_entries_def)
  then have "waiting_fns e ''fx'' s5 = QFn g # []" "cells s5 e ''fxqueue'' \<noteq> CUndef"
    by (simp_all add: waiting_fns_def queue_entries_def)
  from dequeue_starts [where R=R, OF conjunct1 [OF sp'] assms(3) this] obtain s6 where
    s6: "qends R [TDequeue e ''fx''] s5 s6" "started s6 = started s5 @ [(e, ''fx'', g)]" by blast
  have "qstep R (TQueueOn e ''fx'' (Push g)) s3 = Some ([TDequeue e ''fx''], s5)"
    using c5 by (simp add: qstep_def fn_queue_one_def Let_def hk' queue_entries_def flip: s4_def)
  then have "qends R (fn_queue [e] ''fx'' (Push g)) s3 s6" using s6(1) by (simp add: fn_queue_def qends_step)
  from qends_append [OF clear this] show ?thesis using s6 c5 s3 st by auto
qed

theorem clearQueue_loses_sentinel_witness:
  "\<exists>s s'. queue_entries 1 ''fx'' s = [InProgress] \<and> started s = [(1, ''fx'', 3)]
     \<and> qends (\<lambda>_. []) (fn_clearQueue [1] [] @ fn_queue [1] ''fx'' (Push 4)) s s'
     \<and> started s' = [(1, ''fx'', 3), (1, ''fx'', 4)]"
proof -
  let ?t = "fn_queue [1] ''fx'' (Push 3)"
  have "case qrun 9 (\<lambda>_. []) ?t qinit of
      Fin s \<Rightarrow> queue_entries 1 ''fx'' s = InProgress # [] \<and> started s = [(1, ''fx'', 3)] | _ \<Rightarrow> False" by code_simp
  then obtain s where s: "qrun 9 (\<lambda>_. []) ?t qinit = Fin s" "queue_entries 1 ''fx'' s = InProgress # []"
    "started s = [(1, ''fx'', 3)]" by (cases "qrun 9 (\<lambda>_. []) ?t qinit") auto
  have "cells_inv s" using qrun_cells_inv [OF qinit_inv(1)] s(1) by blast
  from clearQueue_loses_sentinel [where R="\<lambda>_. []" and g=4, OF this s(2)] obtain s' where
    "qends (\<lambda>_. []) (fn_clearQueue [1] [] @ fn_queue [1] ''fx'' (Push 4)) s s'"
    "started s' = started s @ [(1, ''fx'', 4)]" by blast
  with s show ?thesis by (intro exI [of _ s] exI [of _ s']) simp
qed

end
