(* ===== verification/Deferred.thy ===== *)
theory Deferred
  imports Callbacks_Fire
begin

text \<open>
  jQuery.Deferred and jQuery.when (jquery.js) on top of the callback lists. The Deferred number
  \<open>d\<close> has the lists \<open>3 * d\<close> (done), \<open>3 * d + 1\<close> (fail) and \<open>3 * d + 2\<close> (progress); its variable state is
  \<open>dstates d\<close>. The functions that Deferred, then and when add to lists are constructors of \<open>dfn\<close>,
  their bodies are behaviours in the sense of the callback engine; user functions are given by a
  parameter. The DOM-ready deferred is at the end.
\<close>

section \<open>State\<close>

datatype dfn =
    SetState nat nat                       \<comment> \<open>function() { state = stateString }\<close>
  | DisableList nat                        \<comment> \<open>tuples[i ^ 1][2].disable\<close>
  | LockList nat                           \<comment> \<open>tuples[2][2].lock\<close>
  | UserFn nat
  | Forward nat nat nat "nat option"       \<comment> \<open>the listener then adds: parent, newDefer, tuple, fn\<close>
  | Action nat nat                         \<comment> \<open>newDefer[resolve | reject | notify]\<close>
  | UpdateFunc nat nat bool                \<comment> \<open>updateFunc of when: master, index, progress\<close>

fun public_fn :: "dfn \<Rightarrow> bool" where
  "public_fn (SetState d i) = False"
| "public_fn (DisableList l) = False"
| "public_fn (LockList l) = False"
| "public_fn _ = True"

record when_vars =
  remaining :: int
  resolveValues :: "jsval list"
  resolveContexts :: "jsval list"
  progressValues :: "jsval list"
  progressContexts :: "jsval list"

record dworld = "dfn world" +
  dstates :: "nat \<Rightarrow> nat option"      \<comment> \<open>None: pending, Some 0: resolved, Some 1: rejected\<close>
  next_d :: nat
  whens :: "nat \<Rightarrow> when_vars"

type_synonym dbeh = "(dfn, dworld) beh"

definition state_name :: "nat option \<Rightarrow> string" where
  "state_name s = (case s of None \<Rightarrow> ''pending'' | Some i \<Rightarrow> if i = 0 then ''resolved'' else ''rejected'')"

text \<open>The list of tuple \<open>i\<close> of Deferred \<open>d\<close>.\<close>

definition tuple_list :: "nat \<Rightarrow> nat \<Rightarrow> nat" where
  "tuple_list d i = 3 * d + i"

text \<open>
  The constructor: three lists, and in the first two the functions that settle the state, disable
  the other list and lock the progress list.
\<close>

definition settle_fns :: "nat \<Rightarrow> nat \<Rightarrow> dfn list" where
  "settle_fns d i = [SetState d i, DisableList (tuple_list d (1 - i)), LockList (tuple_list d 2)]"

definition new_list :: "nat \<Rightarrow> dfn clist" where
  "new_list l =
     (if l mod 3 = 2 then new_Callbacks (createOptions ''memory'')
      else (new_Callbacks (createOptions ''once memory''))
        \<lparr>cblist := Some (add_list False [] (map AFun (settle_fns (l div 3) (l mod 3))))\<rparr>)"

text \<open>Every Deferred is constructed beforehand; making one takes the next number.\<close>

definition dinit :: dworld where
  "dinit = \<lparr>clists = new_list, calls = [], dstates = (\<lambda>_. None), next_d = 0,
     whens = (\<lambda>_. \<lparr>remaining = 0, resolveValues = [], resolveContexts = [], progressValues = [], progressContexts = []\<rparr>)\<rparr>"

section \<open>Methods as behaviours\<close>

text \<open>A call whose exception passes on.\<close>

definition call_then :: "nat \<Rightarrow> dfn cb_op \<Rightarrow> dbeh \<Rightarrow> dbeh" where
  "call_then l op k = Call l op (\<lambda>r. if r = Threw then Throw else k)"

primrec beh_bind :: "('f, 'w) beh \<Rightarrow> (jsval \<Rightarrow> ('f, 'w) beh) \<Rightarrow> ('f, 'w) beh" where
  "beh_bind (Ret v) h = h v"
| "beh_bind Throw h = Throw"
| "beh_bind (Call l op k) h = Call l op (\<lambda>r. beh_bind (k r) h)"
| "beh_bind (Get g) h = Get (\<lambda>w. beh_bind (g w) h)"
| "beh_bind (Upd u b) h = Upd u (beh_bind b h)"

definition add_fn :: "nat \<Rightarrow> nat \<Rightarrow> dfn cb_arg list \<Rightarrow> dbeh \<Rightarrow> dbeh" where
  "add_fn d i args = call_then (tuple_list d i) (OAdd args)"

text \<open>resolveWith, rejectWith, notifyWith; and the methods without With, whose context is the promise.\<close>

definition actionWith :: "nat \<Rightarrow> nat \<Rightarrow> jsval \<Rightarrow> jsval list \<Rightarrow> dbeh \<Rightarrow> dbeh" where
  "actionWith d i this args = call_then (tuple_list d i) (OFireWith this (Some args))"

definition action :: "nat \<Rightarrow> nat \<Rightarrow> jsval list \<Rightarrow> dbeh \<Rightarrow> dbeh" where
  "action d i args = actionWith d i (VPromise d) args"

definition always :: "nat \<Rightarrow> dfn cb_arg list \<Rightarrow> dbeh \<Rightarrow> dbeh" where
  "always d args k = add_fn d 0 [AArr args] (add_fn d 1 [AArr args] k)"

definition new_Deferred :: "(nat \<Rightarrow> dbeh) \<Rightarrow> dbeh" where
  "new_Deferred k = Get (\<lambda>w. let d = next_d w in Upd (\<lambda>w. w\<lparr>next_d := Suc d\<rparr>) (k d))"

text \<open>then: \<open>fns i\<close> is the handler of tuple \<open>i\<close> where the argument is a function.\<close>

definition then_op :: "nat \<Rightarrow> (nat \<Rightarrow> nat option) \<Rightarrow> (nat \<Rightarrow> dbeh) \<Rightarrow> dbeh" where
  "then_op d fns k =
     new_Deferred (\<lambda>nd.
       add_fn d 0 [AFun (Forward d nd 0 (fns 0))]
         (add_fn d 1 [AFun (Forward d nd 1 (fns 1))]
           (add_fn d 2 [AFun (Forward d nd 2 (fns 2))] (k nd))))"

definition forward_result :: "nat \<Rightarrow> nat \<Rightarrow> nat \<Rightarrow> bool \<Rightarrow> cbdata \<Rightarrow> jsval \<Rightarrow> dbeh" where
  "forward_result d nd i is_fn data returned =
     (case returned of
        VPromise p \<Rightarrow>
          add_fn p 0 [AFun (Action nd 0)]
            (add_fn p 1 [AFun (Action nd 1)] (add_fn p 2 [AFun (Action nd 2)] (Ret VUndef)))
      | _ \<Rightarrow>
          actionWith nd i (if fst data = VPromise d then VPromise nd else fst data)
            (if is_fn then [returned] else snd data) (Ret VUndef))"

definition forward_beh :: "(nat \<Rightarrow> cbdata \<Rightarrow> dbeh) \<Rightarrow> nat \<Rightarrow> nat \<Rightarrow> nat \<Rightarrow> nat option \<Rightarrow> cbdata \<Rightarrow> dbeh" where
  "forward_beh U d nd i fn data =
     (case fn of
        Some f \<Rightarrow> beh_bind (U f data) (forward_result d nd i True data)
      | None \<Rightarrow> forward_result d nd i False data (VBool False))"

text \<open>updateFunc of when.\<close>

definition update_value :: "jsval list \<Rightarrow> jsval" where
  "update_value args = (if length args > 1 then VArr args else case args of v # _ \<Rightarrow> v | [] \<Rightarrow> VUndef)"

definition update_vars :: "nat \<Rightarrow> bool \<Rightarrow> cbdata \<Rightarrow> when_vars \<Rightarrow> when_vars" where
  "update_vars i progress data v =
     (if progress
      then v\<lparr>progressContexts := (progressContexts v)[i := fst data],
             progressValues := (progressValues v)[i := update_value (snd data)]\<rparr>
      else v\<lparr>resolveContexts := (resolveContexts v)[i := fst data],
             resolveValues := (resolveValues v)[i := update_value (snd data)],
             remaining := remaining v - 1\<rparr>)"

definition updateFunc_beh :: "nat \<Rightarrow> nat \<Rightarrow> bool \<Rightarrow> cbdata \<Rightarrow> dbeh" where
  "updateFunc_beh m i progress data =
     Upd (\<lambda>w. w\<lparr>whens := (whens w)(m := update_vars i progress data (whens w m))\<rparr>)
       (Get (\<lambda>w. let v = whens w m in
          if progress then actionWith m 2 (VArr (progressContexts v)) (progressValues v) (Ret VUndef)
          else if remaining v = 0 then actionWith m 0 (VArr (resolveContexts v)) (resolveValues v) (Ret VUndef)
          else Ret VUndef))"

text \<open>The loop of when over its arguments.\<close>

fun when_loop :: "nat \<Rightarrow> nat \<Rightarrow> jsval list \<Rightarrow> dbeh \<Rightarrow> dbeh" where
  "when_loop m i [] k = k"
| "when_loop m i (VPromise p # vs) k =
     add_fn p 0 [AFun (UpdateFunc m i False)]
       (add_fn p 1 [AFun (Action m 1)]
         (add_fn p 2 [AFun (UpdateFunc m i True)] (when_loop m (Suc i) vs k)))"
| "when_loop m i (_ # vs) k =
     Upd (\<lambda>w. w\<lparr>whens := (whens w)(m := (whens w m)\<lparr>remaining := remaining (whens w m) - 1\<rparr>)\<rparr>)
       (when_loop m (Suc i) vs k)"

definition when_op :: "jsval list \<Rightarrow> (nat \<Rightarrow> dbeh) \<Rightarrow> dbeh" where
  "when_op args k =
     (case args of
        [VPromise p] \<Rightarrow> k p
      | _ \<Rightarrow>
          new_Deferred (\<lambda>m.
            let n = length args; rem = (if n \<noteq> 1 then int n else 0);
                finish = Get (\<lambda>w. if remaining (whens w m) = 0
                  then actionWith m 0 (if n > 1 then VArr (resolveContexts (whens w m)) else VUndef)
                         (resolveValues (whens w m)) (k m)
                  else k m) in
            Upd (\<lambda>w. w\<lparr>whens := (whens w)(m := \<lparr>remaining = rem, resolveValues = args,
                  resolveContexts = replicate n VUndef, progressValues = replicate n VUndef,
                  progressContexts = replicate n VUndef\<rparr>)\<rparr>)
              (if n > 1 then when_loop m 0 args finish else finish)))"

text \<open>The bodies of all functions.\<close>

fun dfn_beh :: "(nat \<Rightarrow> cbdata \<Rightarrow> dbeh) \<Rightarrow> dfn \<Rightarrow> cbdata \<Rightarrow> dbeh" where
  "dfn_beh U (SetState d i) data = Upd (\<lambda>w. w\<lparr>dstates := (dstates w)(d := Some i)\<rparr>) (Ret VUndef)"
| "dfn_beh U (DisableList l) data = Call l ODisable (\<lambda>_. Ret VUndef)"
| "dfn_beh U (LockList l) data = Call l OLock (\<lambda>_. Ret VUndef)"
| "dfn_beh U (UserFn f) data = U f data"
| "dfn_beh U (Forward d nd i fn) data = forward_beh U d nd i fn data"
| "dfn_beh U (Action nd i) data = actionWith nd i (fst data) (snd data) (Ret VUndef)"
| "dfn_beh U (UpdateFunc m i p) data = updateFunc_beh m i p data"

text \<open>A script: behaviours run one after the other, as turns of the event loop; an exception ends a turn.\<close>

fun run_turns :: "nat \<Rightarrow> (nat \<Rightarrow> cbdata \<Rightarrow> dbeh) \<Rightarrow> dbeh list \<Rightarrow> dworld \<Rightarrow> dworld option" where
  "run_turns n U [] w = Some w"
| "run_turns n U (b # bs) w =
     (case run_beh n (dfn_beh U) b w of None \<Rightarrow> None | Some (_, w') \<Rightarrow> run_turns n U bs w')"

section \<open>The invariant\<close>

text \<open>
  A list of a pending Deferred that settles starts with its three settling functions and has not
  been fired; once the Deferred is settled with \<open>i\<close>, list \<open>i\<close> has been fired and cannot be again, and
  what it still has to call are public functions; the other one is disabled for good; the progress
  list is locked.
\<close>

definition settle_list_ok :: "nat \<Rightarrow> nat \<Rightarrow> nat option \<Rightarrow> dfn clist \<Rightarrow> bool" where
  "settle_list_ok d i st c \<longleftrightarrow>
     opt_memory c \<and> \<not> opt_unique c \<and> \<not> opt_stopOnFalse c \<and> stack c = None
     \<and> (case st of
          None \<Rightarrow> \<not> fired c \<and> \<not> firing c \<and> memory c = None \<and> firingStart c = 0
            \<and> (\<exists>us. cblist c = Some (settle_fns d i @ us) \<and> list_all public_fn us)
        | Some j \<Rightarrow>
            if j = i then fired c \<and> (\<forall>xs. cblist c = Some xs \<longrightarrow>
                (if firing c then 0 \<le> firingIndex c \<and> list_all public_fn (drop (nat (firingIndex c)) xs)
                 else list_all public_fn xs))
            else cblist c = None)"

definition progress_list_ok :: "nat option \<Rightarrow> dfn clist \<Rightarrow> bool" where
  "progress_list_ok st c \<longleftrightarrow>
     (\<forall>xs. cblist c = Some xs \<longrightarrow> list_all public_fn xs) \<and> (memory c \<noteq> None \<longrightarrow> fired c)
     \<and> (st \<noteq> None \<longrightarrow> cblist c = None \<or> fired c \<and> stack c = None)"

definition list_ok :: "nat \<Rightarrow> nat option \<Rightarrow> dfn clist \<Rightarrow> bool" where
  "list_ok l st c = (if l mod 3 = 2 then progress_list_ok st c else settle_list_ok (l div 3) (l mod 3) st c)"

fun call_ok :: "(nat \<Rightarrow> nat option) \<Rightarrow> nat \<times> dfn \<times> cbdata \<Rightarrow> bool" where
  "call_ok st (l, f, data) = (l mod 3 \<noteq> 2 \<longrightarrow> public_fn f \<longrightarrow> st (l div 3) = Some (l mod 3))"

definition calls_ok :: "dworld \<Rightarrow> bool" where
  "calls_ok w \<longleftrightarrow> list_all (call_ok (dstates w)) (calls w)"

definition dinv :: "dworld \<Rightarrow> bool" where
  "dinv w \<longleftrightarrow> (\<forall>l. list_ok l (dstates w (l div 3)) (clists w l)) \<and> calls_ok w"

text \<open>States are final, and calls are only added.\<close>

definition advances :: "dworld \<Rightarrow> dworld \<Rightarrow> bool" where
  "advances w w' \<longleftrightarrow> (\<forall>d j. dstates w d = Some j \<longrightarrow> dstates w' d = Some j)
     \<and> set (calls w) \<subseteq> set (calls w')"

lemma advances_refl [simp]: "advances w w" by (simp add: advances_def)

lemma advances_trans: "advances w w' \<Longrightarrow> advances w' w'' \<Longrightarrow> advances w w''"
  by (auto simp: advances_def)

text \<open>What user code can do: add public functions, fire, read, and change the rest of the world.\<close>

fun arg_public :: "dfn cb_arg \<Rightarrow> bool" where
  "arg_public (AFun f) = public_fn f"
| "arg_public (AArr as) = list_all arg_public as"
| "arg_public AOther = True"

fun pub_op :: "dfn cb_op \<Rightarrow> bool" where
  "pub_op (OAdd args) = list_all arg_public args"
| "pub_op (OFireWith this args) = True"
| "pub_op _ = False"

definition upd_pub :: "(dworld \<Rightarrow> dworld) \<Rightarrow> bool" where
  "upd_pub u \<longleftrightarrow> (\<forall>w. clists (u w) = clists w \<and> calls (u w) = calls w \<and> dstates (u w) = dstates w)"

primrec beh_pub :: "dbeh \<Rightarrow> bool" where
  "beh_pub (Ret v) = True"
| "beh_pub Throw = True"
| "beh_pub (Call l op k) = (pub_op op \<and> beh_pub (k Done) \<and> beh_pub (k Threw))"
| "beh_pub (Get g) = (\<forall>w. beh_pub (g w))"
| "beh_pub (Upd u b) = (upd_pub u \<and> beh_pub b)"

lemma arg_public_fns: "list_all arg_public args \<Longrightarrow> list_all public_fn (arg_fns args)"
  by (induction args rule: arg_fns.induct) auto

lemma dinv_list: "dinv w \<Longrightarrow> list_ok l (dstates w (l div 3)) (clists w l)"
  by (simp add: dinv_def)

lemma dinv_upd_list:
  "dinv w \<Longrightarrow> list_ok l (dstates w (l div 3)) (g (clists w l)) \<Longrightarrow> dinv (upd_list l g w)"
  by (auto simp: dinv_def upd_list_def calls_ok_def)

lemma advances_upd_list [simp]: "advances w (upd_list l g w)"
  by (simp add: advances_def upd_list_def)

lemma dinv_upd_pub: "upd_pub u \<Longrightarrow> dinv w \<Longrightarrow> dinv (u w) \<and> advances w (u w)"
  by (simp add: upd_pub_def dinv_def calls_ok_def advances_def)

lemma dinv_log:
  assumes "dinv w" "public_fn f" "l mod 3 = 2 \<or> dstates w (l div 3) = Some (l mod 3)"
  shows "dinv (log_call l f data w) \<and> advances w (log_call l f data w)"
proof -
  have "dstates (log_call l f data w) = dstates w" by (simp add: log_call_def)
  moreover have "call_ok (dstates w) (l, f, data)" using assms(3) by auto
  ultimately show ?thesis using assms(1) by (auto simp: dinv_def calls_ok_def advances_def)
qed

text \<open>The three settling calls, from the first firing of a pending list.\<close>

definition settled_world :: "nat \<Rightarrow> nat \<Rightarrow> cbdata \<Rightarrow> dworld \<Rightarrow> dworld" where
  "settled_world d i data w =
     (let l = tuple_list d i; c = clists w l; xs = (case cblist c of Some xs \<Rightarrow> xs | None \<Rightarrow> []) in
      w\<lparr>calls := calls w @ map (\<lambda>f. (l, f, data)) (settle_fns d i),
        dstates := (dstates w)(d := Some i),
        clists := (clists w)
          (l := (begin_fire data xs c)\<lparr>firingIndex := 3\<rparr>,
           tuple_list d (1 - i) := disable (clists w (tuple_list d (1 - i))),
           tuple_list d 2 := lock (clists w (tuple_list d 2)))\<rparr>)"

lemma tuple_list_simps:
  "i < 3 \<Longrightarrow> tuple_list d i div 3 = d" "i < 3 \<Longrightarrow> tuple_list d i mod 3 = i"
  by (simp_all add: tuple_list_def)

lemma list_split: "tuple_list (l div 3) (l mod 3) = l"
  by (simp add: tuple_list_def)

lemma tuple_list_eq [simp]: "i < 3 \<Longrightarrow> j < 3 \<Longrightarrow> tuple_list d i = tuple_list e j \<longleftrightarrow> d = e \<and> i = j"
  by (metis tuple_list_simps)

lemma run_beh_Suc: "run_beh n E b w \<noteq> None \<Longrightarrow> \<exists>m. n = Suc m"
  by (cases n) auto

lemma settling_beh:
  "run_beh n (dfn_beh U) (dfn_beh U (SetState d i) data) w = Some (r, w') \<Longrightarrow>
     r = BRet VUndef \<and> w' = w\<lparr>dstates := (dstates w)(d := Some i)\<rparr>"
  "run_beh n (dfn_beh U) (dfn_beh U (DisableList l) data) w = Some (r, w') \<Longrightarrow>
     r = BRet VUndef \<and> w' = upd_list l disable w"
  "run_beh n (dfn_beh U) (dfn_beh U (LockList l) data) w = Some (r, w') \<Longrightarrow>
     r = BRet VUndef \<and> w' = upd_list l lock w"
  by (cases n; cases "n - 1"; cases "n - 2"; auto simp: run_beh_body_def op_body_def numeral_2_eq_2 split: option.splits)+

lemma loop_step:
  assumes run: "fire_loop n E l data w = Some R"
    and c: "cblist (clists w l) = Some xs" "firingLength (clists w l) = int (length xs)"
      "firingIndex (clists w l) = int k" "k < length xs"
    and b: "\<And>m r w'. run_beh m E (E (xs ! k) data) (log_call l (xs ! k) data w) = Some (r, w') \<Longrightarrow>
      r = BRet VUndef \<and> w' = v"
  shows "\<exists>m < n. fire_loop m E l data (upd_list l (\<lambda>c. c\<lparr>firingIndex := firingIndex c + 1\<rparr>) v) = Some R"
proof -
  obtain m where n: "n = Suc m" using run by (cases n) auto
  have "nth_int xs (int k) = Some (xs ! k)" using c by (simp add: nth_int_def)
  then have step: "(case run_beh m E (E (xs ! k) data) (log_call l (xs ! k) data w) of
      None \<Rightarrow> None
    | Some (b, w1) \<Rightarrow>
       (if b = BThrew then Some (Threw, w1)
        else if b = BRet (VBool False) \<and> opt_stopOnFalse (clists w1 l)
        then Some (Done, upd_list l (\<lambda>c. c\<lparr>memory := None\<rparr>) w1)
        else fire_loop m E l data (upd_list l (\<lambda>c. c\<lparr>firingIndex := firingIndex c + 1\<rparr>) w1))) = Some R"
    using run c by (simp add: n fire_loop_body_def Let_def)
  then obtain r w' where r: "run_beh m E (E (xs ! k) data) (log_call l (xs ! k) data w) = Some (r, w')"
    by (auto split: option.splits)
  from b [OF this] r step
  show ?thesis by (intro exI [of _ m]) (simp add: n)
qed

lemma settle_run:
  assumes w: "dinv w" "dstates w d = None" "i < 2"
    and xs: "cblist (clists w (tuple_list d i)) = Some xs"
    and run: "fire_loop n (dfn_beh U) (tuple_list d i) data (upd_list (tuple_list d i) (begin_fire data xs) w) = Some R"
  shows "\<exists>m < n. fire_loop m (dfn_beh U) (tuple_list d i) data (settled_world d i data w) = Some R"
proof -
  let ?l = "tuple_list d i"
  let ?E = "dfn_beh U"
  let ?up = "\<lambda>c. c\<lparr>firingIndex := firingIndex c + 1\<rparr>"
  have ok: "settle_list_ok d i None (clists w ?l)"
    using dinv_list [OF w(1), of ?l] w by (simp add: list_ok_def tuple_list_simps)
  then obtain us where us: "xs = settle_fns d i @ us" and st: "firingStart (clists w ?l) = 0"
    using xs by (auto simp: settle_list_ok_def)
  have ne: "?l \<noteq> tuple_list d (1 - i)" "?l \<noteq> tuple_list d 2" "tuple_list d (1 - i) \<noteq> tuple_list d 2"
  proof -
    have "i \<noteq> 1 - i" using w(3) by arith
    with w(3) show "?l \<noteq> tuple_list d (1 - i)" "?l \<noteq> tuple_list d 2" "tuple_list d (1 - i) \<noteq> tuple_list d 2"
      by simp_all
  qed
  have len: "2 < length xs" "0 < length xs" "1 < length xs" by (simp_all add: us settle_fns_def)
  let ?w0 = "upd_list ?l (begin_fire data xs) w"
  let ?v1 = "(log_call ?l (xs ! 0) data ?w0)\<lparr>dstates := (dstates w)(d := Some i)\<rparr>"
  let ?w1 = "upd_list ?l ?up ?v1"
  let ?v2 = "upd_list (tuple_list d (1 - i)) disable (log_call ?l (xs ! 1) data ?w1)"
  let ?w2 = "upd_list ?l ?up ?v2"
  let ?v3 = "upd_list (tuple_list d 2) lock (log_call ?l (xs ! 2) data ?w2)"
  let ?w3 = "upd_list ?l ?up ?v3"
  have nth: "xs ! 0 = SetState d i" "xs ! 1 = DisableList (tuple_list d (1 - i))" "xs ! 2 = LockList (tuple_list d 2)"
    by (simp_all add: us settle_fns_def)
  have d0: "dstates (log_call ?l (xs ! 0) data ?w0) = dstates w" by (simp add: log_call_def upd_list_def)
  obtain m1 where m1: "m1 < n" "fire_loop m1 ?E ?l data ?w1 = Some R"
  proof -
    have "\<exists>m < n. fire_loop m ?E ?l data ?w1 = Some R"
    proof (rule loop_step [OF run, where xs=xs and k=0])
      show "r = BRet VUndef \<and> w' = ?v1"
        if "run_beh m ?E (?E (xs ! 0) data) (log_call ?l (xs ! 0) data ?w0) = Some (r, w')" for m r w'
        using settling_beh(1) [OF that [unfolded nth(1)]] d0 by (simp add: nth(1))
    qed (use xs st len in \<open>auto simp: begin_fire_def\<close>)
    then show thesis using that by blast
  qed
  have c1: "clists ?w1 ?l = ?up (begin_fire data xs (clists w ?l))" by simp
  obtain m2 where m2: "m2 < m1" "fire_loop m2 ?E ?l data ?w2 = Some R"
  proof -
    have "\<exists>m < m1. fire_loop m ?E ?l data ?w2 = Some R"
    proof (rule loop_step [OF m1(2), where xs=xs and k=1])
      show "r = BRet VUndef \<and> w' = ?v2"
        if "run_beh m ?E (?E (xs ! 1) data) (log_call ?l (xs ! 1) data ?w1) = Some (r, w')" for m r w'
        using settling_beh(2) [OF that [unfolded nth(2)]] unfolding nth(2) .
    qed (use xs st len in \<open>auto simp: begin_fire_def\<close>)
    then show thesis using that by blast
  qed
  obtain m3 where m3: "m3 < m2" "fire_loop m3 ?E ?l data ?w3 = Some R"
  proof -
    have "\<exists>m < m2. fire_loop m ?E ?l data ?w3 = Some R"
    proof (rule loop_step [OF m2(2), where xs=xs and k=2])
      show "r = BRet VUndef \<and> w' = ?v3"
        if "run_beh m ?E (?E (xs ! 2) data) (log_call ?l (xs ! 2) data ?w2) = Some (r, w')" for m r w'
        using settling_beh(3) [OF that [unfolded nth(3)]] unfolding nth(3) .
    qed (use xs st len ne in \<open>simp_all add: begin_fire_def\<close>)
    then show thesis using that by blast
  qed
  have "?w3 = settled_world d i data w"
    using ne xs st nth
    by (cases w) (auto simp: settled_world_def Let_def upd_list_def log_call_def begin_fire_def settle_fns_def fun_eq_iff)
  then show ?thesis using m1(1) m2(1) m3 by (intro exI [of _ m3]) simp
qed

lemma mod3_cases: "l mod 3 \<noteq> 2 \<Longrightarrow> l mod 3 < (2::nat)"
  by (metis One_nat_def Suc_1 less_2_cases_iff mod_less_divisor not_less_less_Suc_eq numeral_3_eq_3 zero_less_numeral)

lemma upd_list_twice [simp]: "upd_list l g (upd_list l h w) = upd_list l (\<lambda>c. g (h c)) w"
  by (cases w) (simp add: upd_list_def)

lemma dstates_upd_list [simp]: "dstates (upd_list l g w) = dstates w"
  by (simp add: upd_list_def)

lemma opt_more_simps [simp]:
  "opt_memory (disable c) = opt_memory c" "opt_unique (disable c) = opt_unique c"
  "opt_stopOnFalse (disable c) = opt_stopOnFalse c"
  "opt_memory (begin_fire data xs c) = opt_memory c" "opt_unique (begin_fire data xs c) = opt_unique c"
  "opt_stopOnFalse (begin_fire data xs c) = opt_stopOnFalse c"
  by (simp_all add: opt_memory_def opt_unique_def opt_stopOnFalse_def disable_def begin_fire_def)

lemma settle_list_ok_disable:
  "settle_list_ok d i None c \<Longrightarrow> i \<noteq> j \<Longrightarrow> settle_list_ok d i (Some j) (disable c)"
  unfolding settle_list_ok_def by (auto simp: disable_def opt_memory_def opt_unique_def opt_stopOnFalse_def)

lemma progress_list_ok_lock: "progress_list_ok st c \<Longrightarrow> progress_list_ok st' (lock c)"
  by (auto simp: progress_list_ok_def lock_def disable_def Let_def)

lemma settled_world_inv:
  assumes w: "dinv w" "dstates w d = None" "i < 2"
  shows "dinv (settled_world d i data w) \<and> advances w (settled_world d i data w)
     \<and> dstates (settled_world d i data w) d = Some i"
proof -
  let ?w' = "settled_world d i data w"
  have ne: "i \<noteq> 1 - i" "1 - i < 2" using w(3) by arith+
  have ok: "settle_list_ok d i None (clists w (tuple_list d i))"
    "settle_list_ok d (1 - i) None (clists w (tuple_list d (1 - i)))"
    "progress_list_ok None (clists w (tuple_list d 2))"
    using dinv_list [OF w(1), of "tuple_list d i"] dinv_list [OF w(1), of "tuple_list d (1 - i)"]
      dinv_list [OF w(1), of "tuple_list d 2"] w ne
    by (simp_all add: list_ok_def tuple_list_simps)
  obtain us where us: "cblist (clists w (tuple_list d i)) = Some (settle_fns d i @ us)" "list_all public_fn us"
    using ok(1) by (auto simp: settle_list_ok_def)
  have ds: "dstates ?w' = (dstates w)(d := Some i)" by (simp add: settled_world_def Let_def)
  have "list_ok l (dstates ?w' (l div 3)) (clists ?w' l)" for l
  proof (cases "l div 3 = d")
    case False
    then have "l \<noteq> tuple_list d i" "l \<noteq> tuple_list d (1 - i)" "l \<noteq> tuple_list d 2"
      using w(3) by (auto simp: tuple_list_def)
    then have "clists ?w' l = clists w l" by (simp add: settled_world_def Let_def)
    then show ?thesis using False dinv_list [OF w(1), of l] by (simp add: ds)
  next
    case True
    then have l: "l = tuple_list d (l mod 3)" using list_split [of l] by simp
    consider "l mod 3 = 2" | "l mod 3 = i" | "l mod 3 = 1 - i" using w(3) by (cases "l mod 3 = 2"; cases i; cases "l mod 3") (auto dest: mod3_cases)
    then show ?thesis
    proof cases
      case 1
      then have "l = tuple_list d 2" using l by simp
      then have "clists ?w' l = lock (clists w (tuple_list d 2))"
        using w(3) by (simp add: settled_world_def Let_def)
      then show ?thesis using 1 True ok(3) progress_list_ok_lock by (simp add: list_ok_def)
    next
      case 2
      then have "l = tuple_list d i" using l by simp
      then have "clists ?w' l = (begin_fire data (settle_fns d i @ us) (clists w l))\<lparr>firingIndex := 3\<rparr>"
        using w(3) ne us(1) by (simp add: settled_world_def Let_def)
      then show ?thesis using 2 True w(3) us ok(1) \<open>l = tuple_list d i\<close>
        by (auto simp: list_ok_def ds settle_list_ok_def begin_fire_def settle_fns_def opt_memory_def
            opt_unique_def opt_stopOnFalse_def)
    next
      case 3
      then have "l = tuple_list d (1 - i)" using l by simp
      then have "clists ?w' l = disable (clists w (tuple_list d (1 - i)))"
        using w(3) ne by (simp add: settled_world_def Let_def)
      then show ?thesis using 3 True w(3) ne settle_list_ok_disable [OF ok(2)] by (simp add: list_ok_def ds)
    qed
  qed
  moreover have "calls_ok ?w'"
  proof -
    have "call_ok (dstates ?w') x" if "x \<in> set (calls w)" for x
    proof -
      obtain l f a where x: "x = (l, f, a)" by (cases x)
      have "call_ok (dstates w) x" using w(1) that by (simp add: dinv_def calls_ok_def list_all_iff)
      then show ?thesis using w(2) by (auto simp: x ds)
    qed
    then show ?thesis
      by (auto simp: calls_ok_def list_all_iff settled_world_def Let_def settle_fns_def)
  qed
  ultimately have "dinv ?w'" by (simp add: dinv_def)
  moreover have "advances w ?w'" using w(2) by (auto simp: advances_def ds) (simp add: settled_world_def Let_def)
  ultimately show ?thesis by (simp add: ds)
qed

section \<open>The invariant is kept by every run\<close>

lemma list_ok_settled:
  "list_ok l st c \<Longrightarrow> l mod 3 \<noteq> 2 \<Longrightarrow> settle_list_ok (l div 3) (l mod 3) st c"
  by (simp add: list_ok_def)

text \<open>The end of a firing.\<close>

lemma end_fire_inv:
  assumes w: "dinv w" and s: "l mod 3 \<noteq> 2 \<Longrightarrow> dstates w (l div 3) = Some (l mod 3)"
    and again: "\<And>d w r w'. dinv w \<Longrightarrow> l mod 3 = 2 \<Longrightarrow> again d w = Some (r, w') \<Longrightarrow> dinv w' \<and> advances w w'"
    and run: "end_fire again l w = Some (r, w')"
  shows "dinv w' \<and> advances w w'"
proof (cases "l mod 3 = 2")
  case True
  have ok: "progress_list_ok (dstates w (l div 3)) (clists w l)"
    using dinv_list [OF w, of l] True by (simp add: list_ok_def)
  have D: "dinv (upd_list l g w)" if "progress_list_ok (dstates w (l div 3)) (g (clists w l))" for g
    using dinv_upd_list [OF w, of l g] that True by (simp add: list_ok_def)
  show ?thesis
  proof (cases "cblist (clists w l) \<noteq> None \<and> (\<exists>ds. stack (clists w l) = Some ds \<and> ds \<noteq> [])")
    case True
    then obtain ds where ds: "stack (clists w l) = Some ds" "ds \<noteq> []" "cblist (clists w l) \<noteq> None" by blast
    then have st: "dstates w (l div 3) = None" using ok by (auto simp: progress_list_ok_def)
    let ?w2 = "upd_list l (\<lambda>c. c\<lparr>firing := False, stack := Some (tl ds)\<rparr>) w"
    have "dinv ?w2" using ok st by (intro D) (simp add: progress_list_ok_def)
    moreover have "again (hd ds) ?w2 = Some (r, w')" using run ds by (simp add: end_fire_def Let_def)
    ultimately have "dinv w' \<and> advances ?w2 w'" using again \<open>l mod 3 = 2\<close> by blast
    then show ?thesis using advances_trans [OF advances_upd_list] by blast
  next
    case False
    show ?thesis using run False ok
      by (auto simp: end_fire_def Let_def progress_list_ok_def disable_def intro!: D
          split: option.splits if_splits list.splits)
  qed
next
  case False
  then have ok: "settle_list_ok (l div 3) (l mod 3) (Some (l mod 3)) (clists w l)"
    using list_ok_settled [OF dinv_list [OF w, of l]] s by simp
  have D: "dinv (upd_list l g w)" if "settle_list_ok (l div 3) (l mod 3) (Some (l mod 3)) (g (clists w l))" for g
    using dinv_upd_list [OF w, of l g] that False s by (simp add: list_ok_def)
  show ?thesis using run ok
    by (auto simp: end_fire_def Let_def settle_list_ok_def disable_def opt_memory_def
        opt_unique_def opt_stopOnFalse_def intro!: D
        split: option.splits if_splits)
qed

lemma nth_int_drop: "nth_int xs i = Some f \<Longrightarrow> 0 \<le> i \<and> f \<in> set (drop (nat i) xs)"
  by (auto simp: nth_int_def in_set_conv_nth split: if_splits intro: exI [of _ 0])

lemma list_all_drop_Suc: "list_all P (drop n xs) \<Longrightarrow> list_all P (drop (Suc n) xs)"
  using set_drop_subset_set_drop [of n "Suc n" xs] by (auto simp: list_all_iff)

lemma list_all_drop: "list_all P xs \<Longrightarrow> list_all P (drop n xs)"
  by (auto simp: list_all_iff dest: in_set_dropD)

lemma fire_loop_body_inv:
  assumes w: "dinv w" and s: "l mod 3 \<noteq> 2 \<Longrightarrow> dstates w (l div 3) = Some (l mod 3)"
    and invoke: "\<And>f w r w'. public_fn f \<Longrightarrow> dinv w \<Longrightarrow> invoke f w = Some (r, w') \<Longrightarrow> dinv w' \<and> advances w w'"
    and loop: "\<And>w r w'. dinv w \<Longrightarrow> (l mod 3 \<noteq> 2 \<Longrightarrow> dstates w (l div 3) = Some (l mod 3)) \<Longrightarrow>
       loop w = Some (r, w') \<Longrightarrow> dinv w' \<and> advances w w'"
    and run: "fire_loop_body invoke loop l data w = Some (r, w')"
  shows "dinv w' \<and> advances w w'"
proof (cases "\<exists>xs f. cblist (clists w l) = Some xs \<and> firingIndex (clists w l) < firingLength (clists w l)
    \<and> nth_int xs (firingIndex (clists w l)) = Some f")
  case True
  then obtain xs f where x: "cblist (clists w l) = Some xs" "firingIndex (clists w l) < firingLength (clists w l)"
    "nth_int xs (firingIndex (clists w l)) = Some f" by blast
  note ix = nth_int_drop [OF x(3)]
  have pf: "public_fn f"
  proof (cases "l mod 3 = 2")
    case True
    then have "list_all public_fn xs" using dinv_list [OF w, of l] x(1) by (simp add: list_ok_def progress_list_ok_def)
    then show ?thesis using ix by (auto simp: list_all_iff dest: in_set_dropD)
  next
    case False
    then have "list_all public_fn (drop (nat (firingIndex (clists w l))) xs)"
      using dinv_list [OF w, of l] x(1) s
      by (auto simp: list_ok_def settle_list_ok_def list_all_iff split: if_splits dest: in_set_dropD)
    then show ?thesis using ix by (simp add: list_all_iff)
  qed
  have lg: "dinv (log_call l f data w) \<and> advances w (log_call l f data w)"
    using dinv_log [OF w pf] s by blast
  obtain b w1 where b: "invoke f (log_call l f data w) = Some (b, w1)"
    using run x by (auto simp: fire_loop_body_def Let_def split: option.splits)
  then have w1: "dinv w1" "advances w w1" using invoke [OF pf _ b] lg advances_trans by blast+
  have s1: "dstates w1 (l div 3) = Some (l mod 3)" if "l mod 3 \<noteq> 2"
    using s [OF that] w1(2) by (auto simp: advances_def)
  note ok1 = dinv_list [OF w1(1), of l]
  have up: "dinv (upd_list l (\<lambda>c. c\<lparr>firingIndex := firingIndex c + 1\<rparr>) w1)"
  proof (rule dinv_upd_list [OF w1(1)])
    show "list_ok l (dstates w1 (l div 3)) ((clists w1 l)\<lparr>firingIndex := firingIndex (clists w1 l) + 1\<rparr>)"
    proof (cases "l mod 3 = 2")
      case True
      then show ?thesis using ok1 by (simp add: list_ok_def progress_list_ok_def)
    next
      case False
      then show ?thesis using ok1 s1 [OF False]
        by (auto simp: list_ok_def settle_list_ok_def nat_add_distrib list_all_drop_Suc)
    qed
  qed
  show ?thesis
  proof (cases "b = BThrew")
    case True
    then show ?thesis using run x b w1 by (simp add: fire_loop_body_def Let_def)
  next
    case nt: False
    show ?thesis
    proof (cases "b = BRet (VBool False) \<and> opt_stopOnFalse (clists w1 l)")
      case True
      then have "l mod 3 = 2" using ok1 by (auto simp: list_ok_def settle_list_ok_def split: if_splits)
      then have "dinv (upd_list l (\<lambda>c. c\<lparr>memory := None\<rparr>) w1)"
        using ok1 by (intro dinv_upd_list [OF w1(1)]) (simp add: list_ok_def progress_list_ok_def)
      then show ?thesis using run x b w1 True advances_trans [OF w1(2) advances_upd_list]
        by (auto simp: fire_loop_body_def Let_def)
    next
      case False
      then have "loop (upd_list l (\<lambda>c. c\<lparr>firingIndex := firingIndex c + 1\<rparr>) w1) = Some (r, w')"
        using run x b nt by (auto simp: fire_loop_body_def Let_def)
      from loop [OF up _ this] s1 show ?thesis
        using advances_trans [OF w1(2) advances_trans [OF advances_upd_list]] by auto
    qed
  qed
next
  case False
  then have "w' = w" using run by (auto simp: fire_loop_body_def Let_def split: option.splits if_splits)
  then show ?thesis using w by simp
qed

text \<open>What a computation run in a good world gives.\<close>

abbreviation keeps_dinv :: "('r \<times> dworld) option \<Rightarrow> dworld \<Rightarrow> bool" where
  "keeps_dinv res w \<equiv> (\<forall>r w'. res = Some (r, w') \<longrightarrow> dinv w' \<and> advances w w')"

lemma fire_inv:
  assumes w: "dinv w" and nf: "l mod 3 \<noteq> 2 \<Longrightarrow> \<not> firing (clists w l)"
    and loop: "\<And>m w. m < n \<Longrightarrow> dinv w \<Longrightarrow> (l mod 3 \<noteq> 2 \<Longrightarrow> dstates w (l div 3) = Some (l mod 3)) \<Longrightarrow>
       keeps_dinv (fire_loop m (dfn_beh U) l data w) w"
    and again: "\<And>m d w. m < n \<Longrightarrow> dinv w \<Longrightarrow> l mod 3 = 2 \<Longrightarrow> keeps_dinv (fire m (dfn_beh U) l d w) w"
  shows "keeps_dinv (fire n (dfn_beh U) l data w) w"
proof (intro allI impI)
  fix r w' assume run: "fire n (dfn_beh U) l data w = Some (r, w')"
  then obtain m where n: "n = Suc m" by (cases n) auto
  show "dinv w' \<and> advances w w'"
  proof (cases "cblist (clists w l)")
    case None
    then show ?thesis using run w by (auto simp: n fire_body_def)
  next
    case (Some xs)
    let ?w0 = "upd_list l (begin_fire data xs) w"
    obtain b w1 where b: "fire_loop m (dfn_beh U) l data ?w0 = Some (b, w1)"
      using run Some by (auto simp: n fire_body_def split: option.splits)
    have "dinv w1 \<and> advances w w1 \<and> (l mod 3 \<noteq> 2 \<longrightarrow> dstates w1 (l div 3) = Some (l mod 3))"
    proof (cases "l mod 3 \<noteq> 2 \<and> dstates w (l div 3) = None")
      case True
      then have i: "l mod 3 < 2" by (simp add: mod3_cases)
      have "\<exists>k < m. fire_loop k (dfn_beh U) (tuple_list (l div 3) (l mod 3)) data
          (settled_world (l div 3) (l mod 3) data w) = Some (b, w1)"
        by (rule settle_run [OF w]) (use True i Some b in \<open>simp_all add: list_split\<close>)
      then obtain k where k: "k < n" "fire_loop k (dfn_beh U) l data
          (settled_world (l div 3) (l mod 3) data w) = Some (b, w1)"
        by (auto simp: n list_split intro: less_SucI)
      note si = settled_world_inv [OF w conjunct2 [OF True] i, of data]
      then have "dinv w1 \<and> advances (settled_world (l div 3) (l mod 3) data w) w1"
        using loop [OF k(1), of "settled_world (l div 3) (l mod 3) data w"] k(2) by blast
      then show ?thesis using si by (auto simp: advances_def)
    next
      case False
      have st: "dstates w (l div 3) = Some (l mod 3)" if "l mod 3 \<noteq> 2"
        using dinv_list [OF w, of l] that False Some
        by (auto simp: list_ok_def settle_list_ok_def split: option.splits if_splits)
      have "list_ok l (dstates w (l div 3)) (begin_fire data xs (clists w l))"
      proof (cases "l mod 3 = 2")
        case True
        then show ?thesis using dinv_list [OF w, of l] Some
          by (auto simp: list_ok_def progress_list_ok_def begin_fire_def)
      next
        case False
        have "list_all public_fn (drop k xs)" for k
          using dinv_list [OF w, of l] Some False st [OF False] nf [OF False]
          by (auto simp: list_ok_def settle_list_ok_def list_all_iff dest: in_set_dropD)
        then show ?thesis using dinv_list [OF w, of l] Some False st
          by (auto simp: list_ok_def settle_list_ok_def begin_fire_def opt_memory_def opt_unique_def opt_stopOnFalse_def)
      qed
      then have "dinv ?w0" by (rule dinv_upd_list [OF w])
      then have "dinv w1 \<and> advances ?w0 w1" using loop [of m ?w0] b st n by auto
      then show ?thesis using st by (auto simp: advances_def)
    qed
    then have w1: "dinv w1" "advances w w1" "l mod 3 \<noteq> 2 \<Longrightarrow> dstates w1 (l div 3) = Some (l mod 3)" by auto
    show ?thesis
    proof (cases "b = Threw")
      case True
      then show ?thesis using run Some b w1 by (simp add: n fire_body_def)
    next
      case False
      then have "end_fire (fire m (dfn_beh U) l) l w1 = Some (r, w')"
        using run Some b by (simp add: n fire_body_def)
      from end_fire_inv [OF w1(1) w1(3) _ this] again n have "dinv w' \<and> advances w1 w'" by blast
      then show ?thesis using w1(2) advances_trans by blast
    qed
  qed
qed

lemma add_op_inv:
  assumes w: "dinv w" and args: "list_all arg_public args"
    and fire: "\<And>d w. dinv w \<Longrightarrow> (l mod 3 \<noteq> 2 \<Longrightarrow> \<not> firing (clists w l)) \<Longrightarrow> keeps_dinv (fire_it d w) w"
  shows "keeps_dinv (add_op fire_it l args w) w"
proof (intro allI impI)
  fix r w' assume run: "add_op fire_it l args w = Some (r, w')"
  show "dinv w' \<and> advances w w'"
  proof (cases "cblist (clists w l)")
    case None
    then show ?thesis using run w by (simp add: add_op_def Let_def)
  next
    case (Some xs)
    let ?c = "clists w l"
    let ?ys = "add_list (opt_unique ?c) xs args"
    have pub: "public_fn f" if "f \<in> set ?ys" "f \<notin> set xs" for f
      using that arg_public_fns [OF args] by (auto simp: add_list_set list_all_iff)
    note ok = dinv_list [OF w, of l]
    have app: "?ys = xs @ arg_fns args" if "l mod 3 \<noteq> 2"
      using ok that by (simp add: list_ok_def settle_list_ok_def add_list_append)
    have L: "list_ok l (dstates w (l div 3)) (g ?c)"
      if g: "\<And>c. cblist (g c) = Some ?ys \<and> fired (g c) = fired c \<and> firing (g c) = firing c \<and> stack (g c) = stack c
          \<and> memory (g c) = memory c \<and> firingIndex (g c) = firingIndex c \<and> options (g c) = options c
          \<and> (memory c = None \<longrightarrow> firingStart (g c) = firingStart c)" for g
    proof (cases "l mod 3 = 2")
      case True
      have "list_all public_fn ?ys"
        using ok Some pub True by (auto simp: list_ok_def progress_list_ok_def list_all_iff)
      then show ?thesis using ok g [of ?c] Some True by (auto simp: list_ok_def progress_list_ok_def)
    next
      case False
      then have "list_all public_fn (arg_fns args)" using arg_public_fns [OF args] by simp
      then show ?thesis using ok g [of ?c] Some False app [OF False]
        by (auto simp: list_ok_def settle_list_ok_def opt_memory_def opt_unique_def opt_stopOnFalse_def
            list_all_drop split: option.splits if_splits)
    qed
    show ?thesis
    proof (cases "firing ?c")
      case True
      then have "w' = upd_list l (\<lambda>c. c\<lparr>cblist := Some ?ys, firingLength := int (length ?ys)\<rparr>) w"
        using run Some by (simp add: add_op_def Let_def)
      moreover have "list_ok l (dstates w (l div 3)) ((\<lambda>c. c\<lparr>cblist := Some ?ys, firingLength := int (length ?ys)\<rparr>) ?c)"
        by (rule L) simp
      ultimately show ?thesis using dinv_upd_list [OF w] by simp
    next
      case nf: False
      show ?thesis
      proof (cases "memory ?c")
        case None
        then have "w' = upd_list l (\<lambda>c. c\<lparr>cblist := Some ?ys\<rparr>) w"
          using run Some nf by (simp add: add_op_def Let_def)
        moreover have "list_ok l (dstates w (l div 3)) ((\<lambda>c. c\<lparr>cblist := Some ?ys\<rparr>) ?c)"
          by (rule L) simp
        ultimately show ?thesis using dinv_upd_list [OF w] by simp
      next
        case (Some m)
        let ?g = "\<lambda>c. c\<lparr>cblist := Some ?ys, firingStart := length xs\<rparr>"
        have "fire_it m (upd_list l ?g w) = Some (r, w')"
          using run \<open>cblist ?c = Some xs\<close> nf Some by (simp add: add_op_def Let_def)
        moreover have "dinv (upd_list l ?g w)"
        proof (rule dinv_upd_list [OF w])
          show "list_ok l (dstates w (l div 3)) (?g ?c)"
          proof (cases "l mod 3 = 2")
            case True
            have "list_all public_fn ?ys"
              using ok \<open>cblist ?c = Some xs\<close> pub True by (auto simp: list_ok_def progress_list_ok_def list_all_iff)
            then show ?thesis using ok \<open>cblist ?c = Some xs\<close> True by (auto simp: list_ok_def progress_list_ok_def)
          next
            case False
            then have "list_all public_fn (arg_fns args)" using arg_public_fns [OF args] by simp
            then show ?thesis using ok Some \<open>cblist ?c = Some xs\<close> False app [OF False]
              by (auto simp: list_ok_def settle_list_ok_def opt_memory_def opt_unique_def opt_stopOnFalse_def
                  list_all_drop split: option.splits if_splits)
          qed
        qed
        moreover have "\<not> firing (clists (upd_list l ?g w) l)" using nf by simp
        ultimately show ?thesis using fire advances_trans [OF advances_upd_list] by blast
      qed
    qed
  qed
qed

lemma fireWith_op_inv:
  assumes w: "dinv w"
    and fire: "\<And>d w. dinv w \<Longrightarrow> (l mod 3 \<noteq> 2 \<Longrightarrow> \<not> firing (clists w l)) \<Longrightarrow> keeps_dinv (fire_it d w) w"
  shows "keeps_dinv (fireWith_op fire_it l this args w) w"
proof (intro allI impI)
  fix r w' assume run: "fireWith_op fire_it l this args w = Some (r, w')"
  let ?c = "clists w l"
  note ok = dinv_list [OF w, of l]
  show "dinv w' \<and> advances w w'"
  proof (cases "cblist ?c \<noteq> None \<and> (\<not> fired ?c \<or> stack ?c \<noteq> None) \<and> firing ?c")
    case True
    then have l: "l mod 3 = 2" if "stack ?c \<noteq> None"
      using ok that by (auto simp: list_ok_def settle_list_ok_def split: if_splits)
    show ?thesis
    proof (cases "stack ?c")
      case None
      then show ?thesis using run True w by (auto simp: fireWith_op_def Let_def)
    next
      case (Some ds)
      let ?d = "(this, case args of None \<Rightarrow> [] | Some xs \<Rightarrow> xs)"
      have "w' = upd_list l (\<lambda>c. c\<lparr>stack := Some (ds @ [?d])\<rparr>) w"
        using run True Some by (auto simp: fireWith_op_def Let_def)
      moreover have "dinv (upd_list l (\<lambda>c. c\<lparr>stack := Some (ds @ [?d])\<rparr>) w)"
        using ok l Some True by (intro dinv_upd_list [OF w]) (auto simp: list_ok_def progress_list_ok_def)
      ultimately show ?thesis by simp
    qed
  next
    case nf: False
    show ?thesis
    proof (cases "cblist ?c \<noteq> None \<and> (\<not> fired ?c \<or> stack ?c \<noteq> None)")
      case True
      then have "fire_it (this, case args of None \<Rightarrow> [] | Some xs \<Rightarrow> xs) w = Some (r, w')" "\<not> firing ?c"
        using run nf by (auto simp: fireWith_op_def Let_def)
      then show ?thesis using fire [OF w] by blast
    next
      case False
      then show ?thesis using run w by (auto simp: fireWith_op_def Let_def split: if_splits)
    qed
  qed
qed

lemma beh_pub_bind: "beh_pub b \<Longrightarrow> (\<And>v. beh_pub (h v)) \<Longrightarrow> beh_pub (beh_bind b h)"
  by (induction b) auto

lemma beh_pub_parts:
  "beh_pub (call_then l op k) \<longleftrightarrow> pub_op op \<and> beh_pub k"
  "beh_pub (add_fn d i args k) \<longleftrightarrow> list_all arg_public args \<and> beh_pub k"
  "beh_pub (actionWith d i this vs k) \<longleftrightarrow> beh_pub k"
  "beh_pub (action d i vs k) \<longleftrightarrow> beh_pub k"
  by (simp_all add: call_then_def add_fn_def actionWith_def action_def)

lemma beh_pub_new: "(\<And>d. beh_pub (k d)) \<Longrightarrow> beh_pub (new_Deferred k)"
  by (simp add: new_Deferred_def Let_def upd_pub_def)

lemma beh_pub_forward: "beh_pub (forward_result d nd i g data v)"
  by (cases v) (simp_all add: forward_result_def beh_pub_parts)

lemma dfn_beh_pub:
  assumes "\<And>f d. beh_pub (U f d)" "public_fn f"
  shows "beh_pub (dfn_beh U f data)"
proof (cases f)
  case (Forward d nd i fn)
  then show ?thesis using assms(1) beh_pub_forward beh_pub_bind
    by (auto simp: forward_beh_def split: option.split)
next
  case (UpdateFunc m i p)
  then show ?thesis by (simp add: updateFunc_beh_def upd_pub_def Let_def beh_pub_parts)
qed (use assms in \<open>simp_all add: beh_pub_parts\<close>)

lemma then_op_pub: "(\<And>nd. beh_pub (k nd)) \<Longrightarrow> beh_pub (then_op d fns k)"
  unfolding then_op_def by (intro beh_pub_new) (simp add: beh_pub_parts)

lemma when_loop_pub: "beh_pub k \<Longrightarrow> beh_pub (when_loop m i vs k)"
  by (induction m i vs k rule: when_loop.induct) (auto simp: beh_pub_parts upd_pub_def)

lemma when_op_pub: "(\<And>d. beh_pub (k d)) \<Longrightarrow> beh_pub (when_op args k)"
  unfolding when_op_def Let_def
  by (auto split: list.split jsval.split intro!: beh_pub_new when_loop_pub simp: beh_pub_parts upd_pub_def)

text \<open>All functions of the engine, by induction on the fuel.\<close>

lemma engine_dinv:
  assumes U: "\<And>f d. beh_pub (U f d)"
  shows "(\<forall>l data w. dinv w \<longrightarrow> (l mod 3 \<noteq> 2 \<longrightarrow> \<not> firing (clists w l)) \<longrightarrow> keeps_dinv (fire n (dfn_beh U) l data w) w)
    \<and> (\<forall>l data w. dinv w \<longrightarrow> (l mod 3 \<noteq> 2 \<longrightarrow> dstates w (l div 3) = Some (l mod 3)) \<longrightarrow>
         keeps_dinv (fire_loop n (dfn_beh U) l data w) w)
    \<and> (\<forall>b w. beh_pub b \<longrightarrow> dinv w \<longrightarrow> keeps_dinv (run_beh n (dfn_beh U) b w) w)
    \<and> (\<forall>l op w. pub_op op \<longrightarrow> dinv w \<longrightarrow> keeps_dinv (exec_op n (dfn_beh U) l op w) w)"
proof (induction n rule: less_induct)
  case (less n)
  note F = less.IH [THEN conjunct1, rule_format]
  note L = less.IH [THEN conjunct2, THEN conjunct1, rule_format]
  note B = less.IH [THEN conjunct2, THEN conjunct2, THEN conjunct1, rule_format]
  note X = less.IH [THEN conjunct2, THEN conjunct2, THEN conjunct2, rule_format]
  have "keeps_dinv (fire n (dfn_beh U) l data w) w"
    if "dinv w" "l mod 3 \<noteq> 2 \<longrightarrow> \<not> firing (clists w l)" for l data w
    by (rule fire_inv) (use that L F in blast)+
  moreover have "keeps_dinv (fire_loop n (dfn_beh U) l data w) w"
    if w: "dinv w" "l mod 3 \<noteq> 2 \<longrightarrow> dstates w (l div 3) = Some (l mod 3)" for l data w
  proof (intro allI impI)
    fix r w' assume run: "fire_loop n (dfn_beh U) l data w = Some (r, w')"
    then obtain m where n: "n = Suc m" by (cases n) auto
    have m: "m < n" by (simp add: n)
    from run have "fire_loop_body (\<lambda>f. run_beh m (dfn_beh U) (dfn_beh U f data)) (fire_loop m (dfn_beh U) l data) l data w
        = Some (r, w')" by (simp add: n)
    then show "dinv w' \<and> advances w w'"
    proof (rule fire_loop_body_inv [rotated -1])
      show "dinv w1 \<and> advances w0 w1"
        if "public_fn f" "dinv w0" "run_beh m (dfn_beh U) (dfn_beh U f data) w0 = Some (b, w1)" for f w0 b w1
        using B [OF m dfn_beh_pub [OF U that(1)] that(2,3)] .
      show "dinv w1 \<and> advances w0 w1"
        if "dinv w0" "l mod 3 \<noteq> 2 \<Longrightarrow> dstates w0 (l div 3) = Some (l mod 3)"
          "fire_loop m (dfn_beh U) l data w0 = Some (b, w1)" for w0 b w1
        using L [OF m that] .
    qed (use w in simp_all)
  qed
  moreover have "keeps_dinv (exec_op n (dfn_beh U) l op w) w" if "pub_op op" "dinv w" for l op w
  proof (cases n)
    case (Suc m)
    have f: "keeps_dinv (fire m (dfn_beh U) l d v) v"
      if "dinv v" "l mod 3 \<noteq> 2 \<Longrightarrow> \<not> firing (clists v l)" for d v
      using F [of m] that Suc by blast
    have "keeps_dinv (add_op (fire m (dfn_beh U) l) l args w) w" if "op = OAdd args" for args
      by (rule add_op_inv) (use that f \<open>pub_op op\<close> \<open>dinv w\<close> in \<open>simp_all\<close>)
    moreover have "keeps_dinv (fireWith_op (fire m (dfn_beh U) l) l this args w) w" for this args
      by (rule fireWith_op_inv) (use f \<open>dinv w\<close> in \<open>simp_all\<close>)
    ultimately show ?thesis using \<open>pub_op op\<close> by (cases op) (simp_all add: Suc op_body_def)
  qed simp
  moreover have "keeps_dinv (run_beh n (dfn_beh U) b w) w" if "beh_pub b" "dinv w" for b w
  proof (cases n)
    case (Suc m)
    then have m: "m < n" by simp
    show ?thesis
    proof (cases b)
      case (Call l op k)
      have "beh_pub (k r)" for r using that Call by (cases r) simp_all
      then show ?thesis using X [OF m, of op w l] B [OF m] that Call Suc advances_trans
        by (fastforce simp: run_beh_body_def split: option.splits)
    next
      case (Upd u b')
      then show ?thesis using that dinv_upd_pub [of u w] B [OF m, of b' "u w"] Suc advances_trans
        by (fastforce simp: run_beh_body_def)
    next
      case (Get g)
      then show ?thesis using that B [OF m, of "g w" w] Suc by (simp add: run_beh_body_def)
    qed (use that Suc in \<open>simp_all add: run_beh_body_def\<close>)
  qed simp
  ultimately show ?case by blast
qed

lemma options_words:
  "createOptions ''once memory'' = [(''once'', VBool True), (''memory'', VBool True)]"
  "createOptions ''memory'' = [(''memory'', VBool True)]"
proof -
  have "ws_words ''once memory'' = [''once'', ''memory'']" "ws_words ''memory'' = [''memory'']"
    by (simp_all add: ws_words_def is_ws_def)
  then show "createOptions ''once memory'' = [(''once'', VBool True), (''memory'', VBool True)]"
    "createOptions ''memory'' = [(''memory'', VBool True)]"
    by (simp_all add: createOptions_def)
qed

lemma dinv_dinit [js_inv]: "dinv dinit"
proof -
  have "progress_list_ok None (new_Callbacks (createOptions ''memory''))"
    by (simp add: progress_list_ok_def new_Callbacks_def)
  moreover have "settle_list_ok d i None ((new_Callbacks (createOptions ''once memory''))
      \<lparr>cblist := Some (add_list False [] (map AFun (settle_fns d i)))\<rparr>)" for d i
  proof -
    note om = once_memory_new [unfolded once_memory_def]
    have "\<not> fired (new_Callbacks (createOptions ''once memory''))" by (simp add: new_Callbacks_def)
    with om show ?thesis unfolding settle_list_ok_def add_list_append by auto
  qed
  ultimately have "list_ok l None (new_list l)" for l
    unfolding list_ok_def new_list_def by (simp only: if_True if_False split: if_split) blast
  then show ?thesis by (simp add: dinv_def dinit_def calls_ok_def)
qed

lemma run_turns_inv:
  assumes "\<And>f d. beh_pub (U f d)" "list_all beh_pub bs" "dinv w" "run_turns n U bs w = Some w'"
  shows "dinv w' \<and> advances w w'"
  using assms(2-)
proof (induction bs arbitrary: w)
  case (Cons b bs)
  then obtain r w1 where r: "run_beh n (dfn_beh U) b w = Some (r, w1)" "run_turns n U bs w1 = Some w'"
    by (auto split: option.splits)
  have b: "beh_pub b" "list_all beh_pub bs" using Cons.prems(1) by simp_all
  have w1: "dinv w1 \<and> advances w w1"
    using engine_dinv [of U n, OF assms(1), THEN conjunct2, THEN conjunct2, THEN conjunct1, rule_format, OF b(1) Cons.prems(2) r(1)] .
  have "dinv w' \<and> advances w1 w'" by (rule Cons.IH [OF b(2) _ r(2)]) (simp add: w1)
  with w1 show ?case using advances_trans [of w w1 w'] by blast
qed simp

text \<open>What is inert once a Deferred is settled.\<close>

lemma settled_inert:
  assumes w: "dinv w" and "dstates w d = Some j" "i < 3"
  shows "exec_op (Suc m) (dfn_beh U) (tuple_list d i) (OFireWith this args) w = Some (Done, w)
    \<and> (i < 2 \<longrightarrow> i \<noteq> j \<longrightarrow> exec_op (Suc m) (dfn_beh U) (tuple_list d i) (OAdd fs) w = Some (Done, w))"
proof -
  have "list_ok (tuple_list d i) (Some j) (clists w (tuple_list d i))"
    using dinv_list [OF w, of "tuple_list d i"] assms(2,3) by (simp add: tuple_list_simps)
  then show ?thesis using assms(3)
    by (auto simp: op_body_def fireWith_op_def add_op_def Let_def list_ok_def progress_list_ok_def settle_list_ok_def
        tuple_list_simps split: if_splits)
qed

section \<open>What runs come to\<close>

text \<open>With enough fuel, and any more, a computation ends in this way.\<close>

definition op_ends :: "(nat \<Rightarrow> cbdata \<Rightarrow> dbeh) \<Rightarrow> nat \<Rightarrow> dfn cb_op \<Rightarrow> dworld \<Rightarrow> outcome \<Rightarrow> dworld \<Rightarrow> bool" where
  "op_ends U l op w r w' \<longleftrightarrow> (\<exists>N. \<forall>n \<ge> N. exec_op n (dfn_beh U) l op w = Some (r, w'))"

definition beh_ends :: "(nat \<Rightarrow> cbdata \<Rightarrow> dbeh) \<Rightarrow> dbeh \<Rightarrow> dworld \<Rightarrow> bres \<Rightarrow> dworld \<Rightarrow> bool" where
  "beh_ends U b w r w' \<longleftrightarrow> (\<exists>N. \<forall>n \<ge> N. run_beh n (dfn_beh U) b w = Some (r, w'))"

definition loop_ends :: "(nat \<Rightarrow> cbdata \<Rightarrow> dbeh) \<Rightarrow> nat \<Rightarrow> cbdata \<Rightarrow> dworld \<Rightarrow> dworld \<Rightarrow> bool" where
  "loop_ends U l data w w' \<longleftrightarrow> (\<exists>N. \<forall>n \<ge> N. fire_loop n (dfn_beh U) l data w = Some (Done, w'))"

lemma all_ge_Suc: "(\<And>n. N \<le> n \<Longrightarrow> P (Suc n)) \<Longrightarrow> \<exists>N. \<forall>n \<ge> N. P n"
  by (metis Suc_le_D Suc_le_mono)

lemma beh_ends_Ret: "beh_ends U (Ret v) w (BRet v) w"
  unfolding beh_ends_def by (rule all_ge_Suc [of 0]) (simp add: run_beh_body_def)

lemma beh_ends_Upd: "beh_ends U b (u w) r w' \<Longrightarrow> beh_ends U (Upd u b) w r w'"
  unfolding beh_ends_def by (elim exE, rule_tac N=N in all_ge_Suc) (simp add: run_beh_body_def)

lemma beh_ends_Get: "beh_ends U (g w) w r w' \<Longrightarrow> beh_ends U (Get g) w r w'"
  unfolding beh_ends_def by (elim exE, rule_tac N=N in all_ge_Suc) (simp add: run_beh_body_def)

lemma beh_ends_Call:
  "op_ends U l op w r1 w1 \<Longrightarrow> beh_ends U (k r1) w1 r w' \<Longrightarrow> beh_ends U (Call l op k) w r w'"
  unfolding beh_ends_def op_ends_def
proof (elim exE)
  fix M N assume M: "\<forall>n \<ge> M. exec_op n (dfn_beh U) l op w = Some (r1, w1)"
    and N: "\<forall>n \<ge> N. run_beh n (dfn_beh U) (k r1) w1 = Some (r, w')"
  show "\<exists>N. \<forall>n \<ge> N. run_beh n (dfn_beh U) (Call l op k) w = Some (r, w')"
    by (rule all_ge_Suc [of "max M N"]) (use M N in \<open>simp add: run_beh_body_def\<close>)
qed

lemma loop_ends_done:
  "firingIndex (clists w l) = firingLength (clists w l) \<Longrightarrow> loop_ends U l data w w"
  unfolding loop_ends_def by (rule all_ge_Suc [of 0]) (simp add: fire_loop_body_def Let_def split: option.split)

lemma loop_ends_step:
  assumes c: "cblist (clists w l) = Some xs" "firingLength (clists w l) = int (length xs)"
      "firingIndex (clists w l) = int k" "k < length xs"
    and b: "beh_ends U (dfn_beh U (xs ! k) data) (log_call l (xs ! k) data w) (BRet v) w1"
    and s: "\<not> opt_stopOnFalse (clists w1 l)"
    and rest: "loop_ends U l data (upd_list l (\<lambda>c. c\<lparr>firingIndex := firingIndex c + 1\<rparr>) w1) w'"
  shows "loop_ends U l data w w'"
proof -
  obtain M N where M: "\<forall>n \<ge> M. run_beh n (dfn_beh U) (dfn_beh U (xs ! k) data) (log_call l (xs ! k) data w) = Some (BRet v, w1)"
    and N: "\<forall>n \<ge> N. fire_loop n (dfn_beh U) l data (upd_list l (\<lambda>c. c\<lparr>firingIndex := firingIndex c + 1\<rparr>) w1) = Some (Done, w')"
    using b rest by (auto simp: beh_ends_def loop_ends_def)
  have "nth_int xs (int k) = Some (xs ! k)" using c by (simp add: nth_int_def)
  then have "fire_loop (Suc n) (dfn_beh U) l data w = Some (Done, w')" if "max M N \<le> n" for n
    using c M N s that by (simp add: fire_loop_body_def Let_def)
  then show ?thesis unfolding loop_ends_def by (rule all_ge_Suc)
qed

text \<open>The callbacks a firing still has to run, where each leaves the list alone.\<close>

inductive calls_run :: "(nat \<Rightarrow> cbdata \<Rightarrow> dbeh) \<Rightarrow> nat \<Rightarrow> cbdata \<Rightarrow> dfn list \<Rightarrow> dworld \<Rightarrow> dworld \<Rightarrow> bool" where
  "calls_run U l data [] w w"
| "beh_ends U (dfn_beh U f data) (log_call l f data w) (BRet v) w1 \<Longrightarrow> clists w1 l = clists w l \<Longrightarrow>
   calls_run U l data fs (upd_list l (\<lambda>c. c\<lparr>firingIndex := firingIndex c + 1\<rparr>) w1) w' \<Longrightarrow>
   calls_run U l data (f # fs) w w'"

lemma calls_run_loop:
  assumes "calls_run U l data fs w w'" "cblist (clists w l) = Some xs"
    "firingLength (clists w l) = int (length xs)" "firingIndex (clists w l) = int k"
    "drop k xs = fs" "k \<le> length xs" "\<not> opt_stopOnFalse (clists w l)"
  shows "loop_ends U l data w w' \<and> (\<exists>j. clists w' l = (clists w l)\<lparr>firingIndex := j\<rparr>)"
  using assms
proof (induction U l data fs w w' arbitrary: k rule: calls_run.induct)
  case (1 U l data w)
  then have "firingIndex (clists w l) = firingLength (clists w l)" by simp
  moreover have "clists w l = (clists w l)\<lparr>firingIndex := firingIndex (clists w l)\<rparr>" by simp
  ultimately show ?case using loop_ends_done by blast
next
  case (2 U f data l w v w1 fs w')
  then have k: "k < length xs" "xs ! k = f" "drop (Suc k) xs = fs"
    by (auto simp: drop_Suc nth_via_drop drop_eq_Nil2 not_le intro: ccontr simp flip: tl_drop)
  let ?w2 = "upd_list l (\<lambda>c. c\<lparr>firingIndex := firingIndex c + 1\<rparr>) w1"
  have ih: "loop_ends U l data ?w2 w' \<and> (\<exists>j. clists w' l = (clists ?w2 l)\<lparr>firingIndex := j\<rparr>)"
    by (rule "2.IH" [of "Suc k"]) (use 2 k in \<open>simp_all add: opt_stopOnFalse_def\<close>)
  have "loop_ends U l data w w'"
    by (rule loop_ends_step [of w l xs k U data v w1]) (use 2 k ih in simp_all)
  then show ?case using ih 2 by auto
qed

lemma loop_ends_settle:
  assumes w: "dinv w" "dstates w d = None" "i < 2"
    and xs: "cblist (clists w (tuple_list d i)) = Some xs"
    and rest: "loop_ends U (tuple_list d i) data (settled_world d i data w) w'"
  shows "loop_ends U (tuple_list d i) data (upd_list (tuple_list d i) (begin_fire data xs) w) w'"
proof -
  let ?l = "tuple_list d i"
  let ?up = "\<lambda>c. c\<lparr>firingIndex := firingIndex c + 1\<rparr>"
  have ok: "settle_list_ok d i None (clists w ?l)"
    using dinv_list [OF w(1), of ?l] w by (simp add: list_ok_def tuple_list_simps)
  then obtain us where us: "xs = settle_fns d i @ us" and st: "firingStart (clists w ?l) = 0"
    and nostop: "\<not> opt_stopOnFalse (clists w ?l)"
    using xs by (auto simp: settle_list_ok_def)
  have ne: "?l \<noteq> tuple_list d (1 - i)" "?l \<noteq> tuple_list d 2" "tuple_list d (1 - i) \<noteq> tuple_list d 2"
  proof -
    have "i \<noteq> 1 - i" using w(3) by arith
    with w(3) show "?l \<noteq> tuple_list d (1 - i)" "?l \<noteq> tuple_list d 2" "tuple_list d (1 - i) \<noteq> tuple_list d 2"
      by simp_all
  qed
  have len: "0 < length xs" "1 < length xs" "2 < length xs" by (simp_all add: us settle_fns_def)
  have nth: "xs ! 0 = SetState d i" "xs ! 1 = DisableList (tuple_list d (1 - i))" "xs ! 2 = LockList (tuple_list d 2)"
    by (simp_all add: us settle_fns_def)
  let ?w0 = "upd_list ?l (begin_fire data xs) w"
  let ?v1 = "(log_call ?l (xs ! 0) data ?w0)\<lparr>dstates := (dstates w)(d := Some i)\<rparr>"
  let ?w1 = "upd_list ?l ?up ?v1"
  let ?v2 = "upd_list (tuple_list d (1 - i)) disable (log_call ?l (xs ! 1) data ?w1)"
  let ?w2 = "upd_list ?l ?up ?v2"
  let ?v3 = "upd_list (tuple_list d 2) lock (log_call ?l (xs ! 2) data ?w2)"
  let ?w3 = "upd_list ?l ?up ?v3"
  have d0: "dstates (log_call ?l (xs ! 0) data ?w0) = dstates w" by (simp add: log_call_def)
  have plain: "op_ends U l ODisable v Done (upd_list l disable v)" "op_ends U l OLock v Done (upd_list l lock v)" for l v
    unfolding op_ends_def by (rule all_ge_Suc [of 0], simp add: op_body_def)+
  have e3: "?w3 = settled_world d i data w"
    using ne xs st nth
    by (cases w) (auto simp: settled_world_def Let_def upd_list_def log_call_def begin_fire_def settle_fns_def fun_eq_iff)
  have l3: "loop_ends U ?l data ?w3 w'" using rest by (simp only: e3)
  have b3: "beh_ends U (dfn_beh U (xs ! 2) data) (log_call ?l (xs ! 2) data ?w2) (BRet VUndef) ?v3"
    unfolding nth(3) dfn_beh.simps by (rule beh_ends_Call [OF plain(2) beh_ends_Ret])
  have l2: "loop_ends U ?l data ?w2 w'"
    by (rule loop_ends_step [OF _ _ _ len(3) b3 _ l3]) (use xs st ne nostop in \<open>auto simp: begin_fire_def opt_stopOnFalse_def\<close>)
  have b2: "beh_ends U (dfn_beh U (xs ! 1) data) (log_call ?l (xs ! 1) data ?w1) (BRet VUndef) ?v2"
    unfolding nth(2) dfn_beh.simps by (rule beh_ends_Call [OF plain(1) beh_ends_Ret])
  have l1: "loop_ends U ?l data ?w1 w'"
    by (rule loop_ends_step [OF _ _ _ len(2) b2 _ l2]) (use xs st ne nostop in \<open>auto simp: begin_fire_def opt_stopOnFalse_def\<close>)
  have "beh_ends U (dfn_beh U (SetState d i) data) v (BRet VUndef) (v\<lparr>dstates := (dstates v)(d := Some i)\<rparr>)" for v
    unfolding dfn_beh.simps by (intro beh_ends_Upd beh_ends_Ret)
  then have b1: "beh_ends U (dfn_beh U (xs ! 0) data) (log_call ?l (xs ! 0) data ?w0) (BRet VUndef) ?v1"
    unfolding nth(1) using d0 [unfolded nth(1)] by metis
  show ?thesis
    by (rule loop_ends_step [OF _ _ _ len(1) b1 _ l1]) (use xs st nostop in \<open>auto simp: begin_fire_def opt_stopOnFalse_def\<close>)
qed

text \<open>Firing a pending list: the settled world, the listeners, and the end of the firing.\<close>

lemma settle_ends:
  assumes w: "dinv w" "dstates w d = None" "i < 2"
    and xs: "cblist (clists w (tuple_list d i)) = Some (settle_fns d i @ us)"
    and run: "calls_run U (tuple_list d i) (this, args) us (settled_world d i (this, args) w) w2"
  shows "op_ends U (tuple_list d i) (OFireWith this (Some args)) w Done
     (upd_list (tuple_list d i) (\<lambda>c. c\<lparr>firing := False, cblist := Some []\<rparr>) w2)"
    and "\<exists>j. clists w2 (tuple_list d i) = (clists (settled_world d i (this, args) w) (tuple_list d i))\<lparr>firingIndex := j\<rparr>"
proof -
  let ?l = "tuple_list d i"
  let ?data = "(this, args)"
  let ?xs = "settle_fns d i @ us"
  let ?w1 = "settled_world d i ?data w"
  have ok: "settle_list_ok d i None (clists w ?l)"
    using dinv_list [OF w(1), of ?l] w by (simp add: list_ok_def tuple_list_simps)
  have ne: "?l \<noteq> tuple_list d (1 - i)" "?l \<noteq> tuple_list d 2"
  proof -
    have "i \<noteq> 1 - i" using w(3) by arith
    with w(3) show "?l \<noteq> tuple_list d (1 - i)" "?l \<noteq> tuple_list d 2" by simp_all
  qed
  have c1: "clists ?w1 ?l = (begin_fire ?data ?xs (clists w ?l))\<lparr>firingIndex := 3\<rparr>"
    using ne xs by (simp add: settled_world_def Let_def)
  have cr: "loop_ends U ?l ?data ?w1 w2 \<and> (\<exists>j. clists w2 ?l = (clists ?w1 ?l)\<lparr>firingIndex := j\<rparr>)"
    by (rule calls_run_loop [OF run, where xs="?xs" and k=3])
      (use ok c1 xs in \<open>simp_all add: begin_fire_def settle_list_ok_def settle_fns_def opt_stopOnFalse_def\<close>)
  then show "\<exists>j. clists w2 ?l = (clists ?w1 ?l)\<lparr>firingIndex := j\<rparr>" by blast
  then obtain j where j: "clists w2 ?l = (begin_fire ?data ?xs (clists w ?l))\<lparr>firingIndex := j\<rparr>"
    by (auto simp: c1)
  obtain N where N: "\<forall>n \<ge> N. fire_loop n (dfn_beh U) ?l ?data (upd_list ?l (begin_fire ?data ?xs) w) = Some (Done, w2)"
    using loop_ends_settle [OF w xs conjunct1 [OF cr]] by (auto simp: loop_ends_def)
  have "exec_op (Suc n) (dfn_beh U) ?l (OFireWith this (Some args)) w =
      Some (Done, upd_list ?l (\<lambda>c. c\<lparr>firing := False, cblist := Some []\<rparr>) w2)" if "Suc N \<le> n" for n
  proof -
    have m: "n = Suc (n - 1)" "N \<le> n - 1" using \<open>Suc N \<le> n\<close> by simp_all
    then obtain m where m: "n = Suc m" "N \<le> m" by blast
    have "stack (clists w ?l) = None" "\<not> fired (clists w ?l)" "\<not> firing (clists w ?l)" "opt_memory (clists w ?l)"
      using ok by (auto simp: settle_list_ok_def)
    then show ?thesis using N m j xs
      by (simp add: op_body_def fireWith_op_def fire_body_def end_fire_def Let_def begin_fire_def)
  qed
  then show "op_ends U ?l (OFireWith this (Some args)) w Done
     (upd_list ?l (\<lambda>c. c\<lparr>firing := False, cblist := Some []\<rparr>) w2)"
    unfolding op_ends_def by (rule all_ge_Suc)
qed

lemma settle_ends_alone:
  assumes w: "dinv w" "dstates w d = None" "i < 2"
    and xs: "cblist (clists w (tuple_list d i)) = Some (settle_fns d i)"
  shows "op_ends U (tuple_list d i) (OFireWith this (Some args)) w Done
     (upd_list (tuple_list d i) (\<lambda>c. c\<lparr>firing := False, cblist := Some []\<rparr>) (settled_world d i (this, args) w))"
  by (rule settle_ends(1) [OF w, where us="[]"]) (use xs in \<open>simp_all add: calls_run.intros\<close>)

text \<open>What a settled world leaves of the other Deferreds.\<close>

lemma settled_world_frame:
  assumes "i < 2" "d \<noteq> e"
  shows "j < 3 \<Longrightarrow> clists (settled_world d i data w) (tuple_list e j) = clists w (tuple_list e j)"
    and "dstates (settled_world d i data w) e = dstates w e"
  using assms by (simp_all add: settled_world_def Let_def)

lemma settled_world_list:
  assumes "i < 2" "opt_memory (clists w (tuple_list d i))"
  shows "memory (clists (settled_world d i data w) (tuple_list d i)) = Some data"
    and "dstates (settled_world d i data w) d = Some i"
    and "whens (settled_world d i data w) = whens w"
proof -
  have "i \<noteq> 1 - i" using assms(1) by arith
  then show "memory (clists (settled_world d i data w) (tuple_list d i)) = Some data"
    using assms by (simp add: settled_world_def Let_def begin_fire_def)
qed (simp_all add: settled_world_def Let_def)

lemma pending_opts:
  "dinv w \<Longrightarrow> i < 2 \<Longrightarrow> dstates w d = None \<Longrightarrow> opt_memory (clists w (tuple_list d i))"
  using dinv_list [of w "tuple_list d i"] by (simp add: list_ok_def settle_list_ok_def tuple_list_simps)

lemma dinv_log_settled:
  assumes "dinv w" "i < 2" "dstates w d = Some i" "public_fn f"
  shows "dinv (log_call (tuple_list d i) f data w)"
  using dinv_log [OF assms(1,4), of "tuple_list d i" data] assms by (simp add: tuple_list_simps)

lemma call_then_ends:
  assumes "op_ends U l op w Done w1" "beh_ends U k w1 r w'"
  shows "beh_ends U (call_then l op k) w r w'"
  unfolding call_then_def by (rule beh_ends_Call [OF assms(1)]) (simp add: assms(2))

lemma log_call_dworld [simp]:
  "dstates (log_call l f data w) = dstates w" "whens (log_call l f data w) = whens w"
  "whens (upd_list l g w) = whens w"
  by (simp_all add: log_call_def upd_list_def)

section \<open>Properties\<close>

text \<open>
  C2: A Deferred is settled once: whatever the listeners do, no listener of done and listener of fail
  of one Deferred are both called, those that are called saw the final state, and the state is the same
  in every later turn.
\<close>

theorem deferred_settles_once:
  assumes "\<And>f d. beh_pub (U f d)" "list_all beh_pub bs" "list_all beh_pub cs"
    and "run_turns n U bs dinit = Some w" "run_turns m U cs w = Some w'"
  shows "\<not> ((tuple_list d 0, UserFn f, x) \<in> set (calls w') \<and> (tuple_list d 1, UserFn g, y) \<in> set (calls w'))
    \<and> (dstates w d = Some j \<longrightarrow> dstates w' d = Some j)
    \<and> (i < 2 \<longrightarrow> (tuple_list d i, UserFn f, x) \<in> set (calls w') \<longrightarrow> dstates w' d = Some i)"
proof -
  have w: "dinv w" using run_turns_inv [OF assms(1,2) dinv_dinit assms(4)] by blast
  have w': "dinv w'" "advances w w'" using run_turns_inv [OF assms(1,3) w assms(5)] by blast+
  have A: "dstates w' d = Some i" if "i < 2" "(tuple_list d i, UserFn f, x) \<in> set (calls w')" for i f x
  proof -
    have "list_all (call_ok (dstates w')) (calls w')" using w'(1) by (simp add: dinv_def calls_ok_def)
    then have "call_ok (dstates w') (tuple_list d i, UserFn f, x)" using that(2) unfolding list_all_iff by blast
    then show ?thesis using that(1) by (simp add: tuple_list_simps)
  qed
  show ?thesis using A [of 0 f x] A [of 1 g y] A [of i f x] w'(2) by (auto simp: advances_def)
qed

text \<open>
  Once a Deferred is settled, resolving, rejecting and notifying it change nothing at all, and
  listeners added for the other outcome are dropped.
\<close>

theorem settled_is_inert:
  assumes "\<And>f d. beh_pub (U f d)" "list_all beh_pub bs" "run_turns n U bs dinit = Some w"
    and "dstates w d = Some j" "i < 3"
  shows "exec_op (Suc m) (dfn_beh U) (tuple_list d i) (OFireWith this args) w = Some (Done, w)
    \<and> (i < 2 \<longrightarrow> i \<noteq> j \<longrightarrow> exec_op (Suc m) (dfn_beh U) (tuple_list d i) (OAdd fs) w = Some (Done, w))"
proof -
  have w: "dinv w" using run_turns_inv [OF assms(1,2) dinv_dinit assms(3)] by blast
  show ?thesis by (rule settled_inert [OF w assms(4,5)])
qed

lemma resolve_turn:
  "\<exists>N w. (\<forall>n \<ge> N. run_turns n (\<lambda>_ _. Ret VUndef) [action 0 0 [VNum 1] (Ret VUndef)] dinit = Some w)
     \<and> dstates w 0 = Some 0"
proof -
  let ?U = "\<lambda>(f::nat) (d::cbdata). Ret VUndef :: dbeh"
  let ?w = "settled_world 0 0 (VPromise 0, [VNum 1]) dinit"
  have x: "cblist (clists dinit (tuple_list 0 0)) = Some (settle_fns 0 0)" "dstates dinit 0 = None"
    by (simp_all add: dinit_def new_list_def tuple_list_simps add_list_append)
  have "beh_ends ?U (action 0 0 [VNum 1] (Ret VUndef)) dinit (BRet VUndef)
      (upd_list (tuple_list 0 0) (\<lambda>c. c\<lparr>firing := False, cblist := Some []\<rparr>) ?w)"
    unfolding action_def actionWith_def
    by (rule call_then_ends [OF settle_ends_alone [OF dinv_dinit x(2) _ x(1)] beh_ends_Ret]) simp
  then show ?thesis using settled_world_inv [OF dinv_dinit x(2), of 0]
    by (fastforce simp: beh_ends_def)
qed

theorem deferred_settles_once_witness:
  "\<exists>n w w'. run_turns n (\<lambda>_ _. Ret VUndef) [action 0 0 [VNum 1] (Ret VUndef)] dinit = Some w
     \<and> run_turns n (\<lambda>_ _. Ret VUndef) [action 0 1 [VNum 2] (Ret VUndef)] w = Some w'
     \<and> dstates w 0 = Some 0
     \<and> \<not> ((tuple_list 0 0, UserFn 1, VNull, []) \<in> set (calls w') \<and> (tuple_list 0 1, UserFn 2, VNull, []) \<in> set (calls w'))"
proof -
  let ?U = "\<lambda>(f::nat) (d::cbdata). Ret VUndef :: dbeh"
  obtain N w where N: "\<forall>n \<ge> N. run_turns n ?U [action 0 0 [VNum 1] (Ret VUndef)] dinit = Some w" "dstates w 0 = Some 0"
    using resolve_turn by blast
  let ?n = "Suc (Suc N)"
  have r: "run_turns ?n ?U [action 0 0 [VNum 1] (Ret VUndef)] dinit = Some w" by (rule N(1) [rule_format]) simp
  have pb: "list_all beh_pub [action d i vs (Ret VUndef)]" for d i vs by (simp add: beh_pub_parts)
  have "dinv w" by (rule conjunct1 [OF run_turns_inv [OF _ pb dinv_dinit r]]) simp
  from settled_inert [OF this N(2), of 1 N ?U] have t:
    "run_turns ?n ?U [action 0 1 [VNum 2] (Ret VUndef)] w = Some w"
    by (simp add: action_def actionWith_def call_then_def run_beh_body_def)
  have "\<not> ((tuple_list 0 0, UserFn 1, VNull, []) \<in> set (calls w) \<and> (tuple_list 0 1, UserFn 2, VNull, []) \<in> set (calls w))"
    using deferred_settles_once [where U="?U" and d=0, OF _ pb pb r t] by auto
  with r t N(2) show ?thesis by blast
qed

theorem settled_is_inert_witness:
  "\<exists>w. dstates w 0 = Some 0
     \<and> exec_op 1 (dfn_beh (\<lambda>_ _. Ret VUndef)) (tuple_list 0 1) (OFireWith VNull None) w = Some (Done, w)"
proof -
  let ?U = "\<lambda>(f::nat) (d::cbdata). Ret VUndef :: dbeh"
  obtain N w where N: "\<forall>n \<ge> N. run_turns n ?U [action 0 0 [VNum 1] (Ret VUndef)] dinit = Some w" "dstates w 0 = Some 0"
    using resolve_turn by blast
  have pb: "list_all beh_pub [action 0 0 [VNum 1] (Ret VUndef)]" by (simp add: beh_pub_parts)
  have "run_turns N ?U [action 0 0 [VNum 1] (Ret VUndef)] dinit = Some w" by (rule N(1) [rule_format]) simp
  from settled_is_inert [where U="?U" and i=1 and m=0, OF _ pb this N(2)] N(2) show ?thesis by auto
qed


definition linked_world :: "nat \<Rightarrow> nat option \<Rightarrow> dworld" where
  "linked_world i fn = upd_list (tuple_list 0 i) (\<lambda>c. c\<lparr>cblist := Some (settle_fns 0 i @ [Forward 0 1 i fn])\<rparr>) dinit"

lemma linked_world_ok:
  assumes "i < 2"
  shows "dinv (linked_world i fn)" "dstates (linked_world i fn) d = None"
    "cblist (clists (linked_world i fn) (tuple_list 0 i)) = Some (settle_fns 0 i @ [Forward 0 1 i fn])"
    "cblist (clists (linked_world i fn) (tuple_list 1 i)) = Some (settle_fns 1 i)"
proof -
  have st: "dstates dinit = (\<lambda>_. None)" by (simp add: dinit_def)
  have "settle_list_ok 0 i None (clists dinit (tuple_list 0 i))"
    using dinv_list [OF dinv_dinit, of "tuple_list 0 i"] assms by (simp add: list_ok_def tuple_list_simps st)
  then show "dinv (linked_world i fn)"
    unfolding linked_world_def using assms
    by (intro dinv_upd_list [OF dinv_dinit])
      (auto simp: list_ok_def tuple_list_simps st settle_list_ok_def opt_memory_def opt_unique_def opt_stopOnFalse_def)
  show "dstates (linked_world i fn) d = None" by (simp add: linked_world_def st)
  show "cblist (clists (linked_world i fn) (tuple_list 0 i)) = Some (settle_fns 0 i @ [Forward 0 1 i fn])"
    by (simp add: linked_world_def)
  have "tuple_list 1 i \<noteq> tuple_list 0 i" using assms by simp
  then show "cblist (clists (linked_world i fn) (tuple_list 1 i)) = Some (settle_fns 1 i)"
    using assms by (simp add: linked_world_def dinit_def new_list_def tuple_list_simps add_list_append)
qed


section \<open>when\<close>

lemma run_dinv:
  assumes "\<And>f d. beh_pub (U f d)" "dinv w" "op_ends U l op w r w'" "pub_op op"
  shows "dinv w'"
proof -
  obtain N where "exec_op N (dfn_beh U) l op w = Some (r, w')" using assms(3) by (auto simp: op_ends_def)
  with engine_dinv [of U N, OF assms(1)] assms show ?thesis by blast
qed

lemma settled_world_whens [simp]: "whens (settled_world d i data w) = whens w"
  by (simp add: settled_world_def Let_def)

text \<open>One subordinate is resolved.\<close>

lemma when_step:
  assumes U: "\<And>f d. beh_pub (U f d)"
    and w: "dinv w" "dstates w p = None" "dstates w m = None" "p \<noteq> m"
    and xs: "cblist (clists w (tuple_list p 0)) = Some (settle_fns p 0 @ [UpdateFunc m j False])"
      "cblist (clists w (tuple_list m 0)) = Some (settle_fns m 0)"
    and V: "V = update_vars j False (this, args) (whens w m)"
  shows "\<exists>w'. op_ends U (tuple_list p 0) (OFireWith this (Some args)) w Done w' \<and> dinv w'
    \<and> whens w' m = V
    \<and> (\<forall>e. e \<noteq> p \<longrightarrow> e \<noteq> m \<longrightarrow> dstates w' e = dstates w e \<and> clists w' (tuple_list e 0) = clists w (tuple_list e 0))
    \<and> (if remaining V = 0 then dstates w' m = Some 0
         \<and> memory (clists w' (tuple_list m 0)) = Some (VArr (resolveContexts V), resolveValues V)
       else dstates w' m = None \<and> clists w' (tuple_list m 0) = clists w (tuple_list m 0))"
proof -
  let ?data = "(this, args)"
  let ?l = "tuple_list p 0"
  let ?f = "UpdateFunc m j False"
  let ?w1 = "settled_world p 0 ?data w"
  let ?w2 = "log_call ?l ?f ?data ?w1"
  let ?w3 = "?w2\<lparr>whens := (whens ?w2)(m := V)\<rparr>"
  have z: "(0::nat) < 2" "(0::nat) < 3" by simp_all
  have s1: "dinv ?w1" "dstates ?w1 p = Some 0" using settled_world_inv [OF w(1,2) z(1)] by blast+
  have i2: "dinv ?w2" by (rule dinv_log_settled [OF s1(1) z(1) s1(2)]) simp
  have i3: "dinv ?w3" by (rule conjunct1 [OF dinv_upd_pub [OF _ i2]]) (simp add: upd_pub_def)
  have wh: "whens ?w2 = whens w" by (simp add: settled_world_def Let_def)
  have n3: "dstates ?w3 m = None" using settled_world_frame(2) [OF z(1) w(4)] w(3) by simp
  have c3: "clists ?w3 (tuple_list m 0) = clists w (tuple_list m 0)"
    using settled_world_frame(1) [OF z(1) w(4) z(2)] by simp
  define w4 where "w4 = (if remaining V = 0
    then upd_list (tuple_list m 0) (\<lambda>c. c\<lparr>firing := False, cblist := Some []\<rparr>)
           (settled_world m 0 (VArr (resolveContexts V), resolveValues V) ?w3) else ?w3)"
  have b: "beh_ends U (dfn_beh U ?f ?data) ?w2 (BRet VUndef) w4"
  proof -
    have "beh_ends U (if remaining V = 0 then actionWith m 0 (VArr (resolveContexts V)) (resolveValues V) (Ret VUndef)
        else Ret VUndef) ?w3 (BRet VUndef) w4"
    proof (cases "remaining V = 0")
      case True
      have x3: "cblist (clists ?w3 (tuple_list m 0)) = Some (settle_fns m 0)" using c3 xs(2) by simp
      show ?thesis
        using call_then_ends [OF settle_ends_alone [OF i3 n3 z(1) x3, where this="VArr (resolveContexts V)" and args="resolveValues V"]
            beh_ends_Ret [of U VUndef]]
        by (simp add: True actionWith_def w4_def)
    qed (simp add: w4_def beh_ends_Ret)
    then show ?thesis
      unfolding dfn_beh.simps updateFunc_beh_def
      by (intro beh_ends_Upd beh_ends_Get) (simp add: Let_def flip: V)
  qed
  have fr: "clists w4 (tuple_list e 0) = clists w (tuple_list e 0) \<and> dstates w4 e = dstates w e" if "e \<noteq> p" "e \<noteq> m" for e
    using settled_world_frame [OF z(1), of p e] settled_world_frame [OF z(1), of m e] that z(2)
    by (simp add: w4_def)
  have k4: "clists w4 ?l = clists ?w1 ?l"
    using settled_world_frame(1) [OF z(1) w(4) [symmetric] z(2)] w(4) by (simp add: w4_def)
  let ?w5 = "upd_list ?l (\<lambda>c. c\<lparr>firingIndex := firingIndex c + 1\<rparr>) w4"
  have "calls_run U ?l ?data [?f] ?w1 ?w5" by (rule calls_run.intros(2) [OF b k4 calls_run.intros(1)])
  from settle_ends(1) [OF w(1,2) z(1) xs(1) this] obtain w' where
    w': "w' = upd_list ?l (\<lambda>c. c\<lparr>firing := False, cblist := Some []\<rparr>) ?w5"
      "op_ends U ?l (OFireWith this (Some args)) w Done w'" by blast
  have fields: "dstates w' = dstates w4" "whens w' = whens w4"
    "e \<noteq> p \<Longrightarrow> clists w' (tuple_list e 0) = clists w4 (tuple_list e 0)" for e
    by (simp_all add: w'(1))
  have "whens w4 m = V" by (simp add: w4_def settled_world_def Let_def)
  moreover have "if remaining V = 0 then dstates w4 m = Some 0
         \<and> memory (clists w4 (tuple_list m 0)) = Some (VArr (resolveContexts V), resolveValues V)
       else dstates w4 m = None \<and> clists w4 (tuple_list m 0) = clists w (tuple_list m 0)"
    using settled_world_list [OF z(1) pending_opts [OF i3 z(1) n3]] n3 c3 by (simp add: w4_def)
  moreover have "dinv w'" by (rule run_dinv [OF U w(1) w'(2)]) simp
  ultimately show ?thesis using w'(2) fr fields w(4) by (intro exI [of _ w']) auto
qed

fun op_seq :: "(nat \<Rightarrow> cbdata \<Rightarrow> dbeh) \<Rightarrow> (nat \<times> dfn cb_op) list \<Rightarrow> dworld \<Rightarrow> dworld \<Rightarrow> bool" where
  "op_seq U [] w w' \<longleftrightarrow> w' = w"
| "op_seq U ((l, op) # ops) w w' \<longleftrightarrow> (\<exists>w1. op_ends U l op w Done w1 \<and> op_seq U ops w1 w')"

text \<open>The master waits for the subordinates that are not in \<open>S\<close>.\<close>

definition when_waiting :: "nat \<Rightarrow> nat list \<Rightarrow> (nat \<Rightarrow> jsval) \<Rightarrow> (nat \<Rightarrow> jsval list) \<Rightarrow> nat set \<Rightarrow> dworld \<Rightarrow> bool" where
  "when_waiting m ps ctx args S w \<longleftrightarrow>
     dinv w \<and> dstates w m = None \<and> cblist (clists w (tuple_list m 0)) = Some (settle_fns m 0)
     \<and> (\<forall>k < length ps. k \<notin> S \<longrightarrow> dstates w (ps ! k) = None
          \<and> cblist (clists w (tuple_list (ps ! k) 0)) = Some (settle_fns (ps ! k) 0 @ [UpdateFunc m k False]))
     \<and> length (resolveValues (whens w m)) = length ps \<and> length (resolveContexts (whens w m)) = length ps
     \<and> (\<forall>k \<in> S. resolveValues (whens w m) ! k = update_value (args k) \<and> resolveContexts (whens w m) ! k = ctx k)
     \<and> remaining (whens w m) = int (length ps) - int (card S)"

lemma when_all:
  assumes U: "\<And>f d. beh_pub (U f d)" and ps: "distinct ps" "m \<notin> set ps"
  shows "when_waiting m ps ctx args S w \<Longrightarrow> distinct ks \<Longrightarrow> set ks = {..<length ps} - S \<Longrightarrow> S \<subset> {..<length ps} \<Longrightarrow>
    \<exists>w'. op_seq U (map (\<lambda>k. (tuple_list (ps ! k) 0, OFireWith (ctx k) (Some (args k)))) ks) w w'
      \<and> dstates w' m = Some 0
      \<and> memory (clists w' (tuple_list m 0)) =
          Some (VArr (map ctx [0..<length ps]), map (\<lambda>k. update_value (args k)) [0..<length ps])"
proof (induction ks arbitrary: S w)
  case Nil
  then show ?case by auto
next
  case (Cons k ks)
  let ?n = "length ps"
  let ?V = "update_vars k False (ctx k, args k) (whens w m)"
  have k: "k < ?n" "k \<notin> S" using Cons.prems(3) by auto
  have fin: "finite S" using Cons.prems(4) finite_subset [of S "{..<?n}"] by auto
  have pk: "ps ! k \<in> set ps" "ps ! k \<noteq> m" using k(1) ps(2) by auto
  note wt = Cons.prems(1) [unfolded when_waiting_def]
  have pre: "dinv w" "dstates w (ps ! k) = None" "dstates w m = None" "ps ! k \<noteq> m"
    "cblist (clists w (tuple_list (ps ! k) 0)) = Some (settle_fns (ps ! k) 0 @ [UpdateFunc m k False])"
    "cblist (clists w (tuple_list m 0)) = Some (settle_fns m 0)"
    using wt k pk(2) by simp_all
  obtain w1 where s1: "op_ends U (tuple_list (ps ! k) 0) (OFireWith (ctx k) (Some (args k))) w Done w1 \<and> dinv w1
    \<and> whens w1 m = ?V
    \<and> (\<forall>e. e \<noteq> ps ! k \<longrightarrow> e \<noteq> m \<longrightarrow> dstates w1 e = dstates w e \<and> clists w1 (tuple_list e 0) = clists w (tuple_list e 0))
    \<and> (if remaining ?V = 0 then dstates w1 m = Some 0
         \<and> memory (clists w1 (tuple_list m 0)) = Some (VArr (resolveContexts ?V), resolveValues ?V)
       else dstates w1 m = None \<and> clists w1 (tuple_list m 0) = clists w (tuple_list m 0))"
    using when_step [where U=U, OF U pre refl] by blast
  then have w1: "op_ends U (tuple_list (ps ! k) 0) (OFireWith (ctx k) (Some (args k))) w Done w1" "dinv w1"
    "whens w1 m = ?V"
    "\<And>e. e \<noteq> ps ! k \<Longrightarrow> e \<noteq> m \<Longrightarrow> dstates w1 e = dstates w e \<and> clists w1 (tuple_list e 0) = clists w (tuple_list e 0)"
    "if remaining ?V = 0 then dstates w1 m = Some 0
         \<and> memory (clists w1 (tuple_list m 0)) = Some (VArr (resolveContexts ?V), resolveValues ?V)
       else dstates w1 m = None \<and> clists w1 (tuple_list m 0) = clists w (tuple_list m 0)"
    by blast+
  have rem: "remaining ?V = int ?n - int (card (insert k S))"
    using wt k fin by (simp add: update_vars_def)
  have sub: "insert k S \<subseteq> {..<?n}" using Cons.prems(4) k(1) by auto
  have vals: "\<forall>j \<in> insert k S. resolveValues ?V ! j = update_value (args j) \<and> resolveContexts ?V ! j = ctx j"
    "length (resolveValues ?V) = ?n" "length (resolveContexts ?V) = ?n"
    using wt k by (auto simp: update_vars_def nth_list_update)
  show ?case
  proof (cases ks)
    case Nil
    then have S: "insert k S = {..<?n}" using Cons.prems(3) sub by auto
    have "resolveValues ?V = map (\<lambda>k. update_value (args k)) [0..<?n]" "resolveContexts ?V = map ctx [0..<?n]"
      using vals S by (auto intro!: nth_equalityI)
    moreover have "remaining ?V = 0" using rem S by simp
    ultimately show ?thesis using w1 Nil by auto
  next
    case ks: (Cons k' ks')
    then have "k' \<in> {..<?n} - insert k S" using Cons.prems(2,3) by auto
    then have psub: "insert k S \<subset> {..<?n}" using sub by auto
    then have "card (insert k S) < ?n" using psubset_card_mono [of "{..<?n}"] by simp
    then have nz: "remaining ?V \<noteq> 0" using rem by simp
    have "when_waiting m ps ctx args (insert k S) w1"
      unfolding when_waiting_def w1(3)
    proof (intro conjI)
      show "\<forall>j < ?n. j \<notin> insert k S \<longrightarrow> dstates w1 (ps ! j) = None
          \<and> cblist (clists w1 (tuple_list (ps ! j) 0)) = Some (settle_fns (ps ! j) 0 @ [UpdateFunc m j False])"
      proof (intro allI impI)
        fix j assume j: "j < ?n" "j \<notin> insert k S"
        then have "ps ! j \<noteq> ps ! k" "ps ! j \<noteq> m" using ps k(1) by (auto simp: nth_eq_iff_index_eq)
        from w1(4) [OF this] wt j show "dstates w1 (ps ! j) = None
          \<and> cblist (clists w1 (tuple_list (ps ! j) 0)) = Some (settle_fns (ps ! j) 0 @ [UpdateFunc m j False])"
          by simp
      qed
    qed (use w1 nz wt vals rem in auto)
    from Cons.IH [OF this _ _ psub] Cons.prems(2,3) obtain w' where
      "op_seq U (map (\<lambda>k. (tuple_list (ps ! k) 0, OFireWith (ctx k) (Some (args k)))) ks) w1 w'"
      "dstates w' m = Some 0"
      "memory (clists w' (tuple_list m 0)) =
          Some (VArr (map ctx [0..<length ps]), map (\<lambda>k. update_value (args k)) [0..<length ps])" by auto
    with w1(1) show ?thesis by auto
  qed
qed


definition when_example :: dworld where
  "when_example =
     upd_list (tuple_list 0 0) (\<lambda>c. c\<lparr>cblist := Some (settle_fns 0 0 @ [UpdateFunc 2 0 False])\<rparr>)
       (upd_list (tuple_list 1 0) (\<lambda>c. c\<lparr>cblist := Some (settle_fns 1 0 @ [UpdateFunc 2 1 False])\<rparr>)
         (dinit\<lparr>whens := (\<lambda>_. \<lparr>remaining = 2, resolveValues = [VPromise 0, VPromise 1],
            resolveContexts = [VUndef, VUndef], progressValues = [VUndef, VUndef],
            progressContexts = [VUndef, VUndef]\<rparr>)\<rparr>))"

lemma when_example_ok: "when_waiting 2 [0, 1] ctx args {} when_example"
proof -
  let ?w0 = "dinit\<lparr>whens := (\<lambda>_. \<lparr>remaining = 2, resolveValues = [VPromise 0, VPromise 1],
            resolveContexts = [VUndef, VUndef], progressValues = [VUndef, VUndef],
            progressContexts = [VUndef, VUndef]\<rparr>)\<rparr>"
  have st: "dstates dinit = (\<lambda>_. None)" by (simp add: dinit_def)
  have c0: "clists dinit (tuple_list d 0) = (new_Callbacks (createOptions ''once memory''))\<lparr>cblist := Some (settle_fns d 0)\<rparr>" for d
    by (simp add: dinit_def new_list_def tuple_list_simps add_list_append)
  have U: "dinv (upd_list (tuple_list p 0) (\<lambda>c. c\<lparr>cblist := Some (settle_fns p 0 @ [UpdateFunc 2 k False])\<rparr>) w)"
    if "dinv w" "dstates w = (\<lambda>_. None)" for p k w
  proof (rule dinv_upd_list [OF that(1)])
    have "settle_list_ok p 0 None (clists w (tuple_list p 0))"
      using dinv_list [OF that(1), of "tuple_list p 0"] that(2) by (simp add: list_ok_def tuple_list_simps)
    then show "list_ok (tuple_list p 0) (dstates w (tuple_list p 0 div 3))
        ((clists w (tuple_list p 0))\<lparr>cblist := Some (settle_fns p 0 @ [UpdateFunc 2 k False])\<rparr>)"
      by (auto simp: list_ok_def tuple_list_simps that(2) settle_list_ok_def opt_memory_def opt_unique_def opt_stopOnFalse_def)
  qed
  have "dinv ?w0" using dinv_dinit by (simp add: dinv_def calls_ok_def)
  then have "dinv when_example" unfolding when_example_def by (intro U) (simp_all add: st)
  moreover have "tuple_list 1 0 \<noteq> tuple_list 0 0" "tuple_list 2 0 \<noteq> tuple_list 0 0" "tuple_list 2 0 \<noteq> tuple_list 1 0"
    by simp_all
  ultimately show ?thesis
    unfolding when_waiting_def by (simp add: when_example_def c0 st less_2_cases_iff nth_Cons split: nat.split)
qed


section \<open>DOM ready\<close>

text \<open>
  The variables of the ready event. \<open>ready_resolves\<close> counts the calls of resolveWith on readyList, of
  which the Deferred heeds the first; \<open>ready_waiting\<close> are the ways in which completed or ready
  will be called: the two listeners, or the timeout.
\<close>

datatype ready_source = Listeners | Timeout

record ready_state =
  isReady :: bool
  readyWait :: int
  ready_resolves :: nat
  readyList_made :: bool
  ready_waiting :: "ready_source option"

definition ready_init :: ready_state where
  "ready_init = \<lparr>isReady = False, readyWait = 1, ready_resolves = 0, readyList_made = False, ready_waiting = None\<rparr>"

definition ready :: "bool \<Rightarrow> ready_state \<Rightarrow> ready_state" where
  "ready wait s =
     (if wait then
        (let s = s\<lparr>readyWait := readyWait s - 1\<rparr> in
         if readyWait s \<noteq> 0 then s
         else s\<lparr>isReady := True, ready_resolves := Suc (ready_resolves s)\<rparr>)
      else if isReady s then s
      else
        (let s = s\<lparr>isReady := True, readyWait := readyWait s - 1\<rparr> in
         if readyWait s > 0 then s
         else s\<lparr>ready_resolves := Suc (ready_resolves s)\<rparr>))"

definition holdReady :: "bool \<Rightarrow> ready_state \<Rightarrow> ready_state" where
  "holdReady hold s = (if hold then s\<lparr>readyWait := readyWait s + 1\<rparr> else ready True s)"

definition ready_promise :: "bool \<Rightarrow> ready_state \<Rightarrow> ready_state" where
  "ready_promise document_complete s =
     (if readyList_made s then s
      else s\<lparr>readyList_made := True,
             ready_waiting := Some (if document_complete then Timeout else Listeners)\<rparr>)"

text \<open>completed removes both listeners, a timeout fires once: the source is used up.\<close>

definition completed :: "ready_state \<Rightarrow> ready_state" where
  "completed s = (if ready_waiting s = None then s else ready False (s\<lparr>ready_waiting := None\<rparr>))"

datatype ready_event = Hold | Release | DomEvent | UseReady bool

fun ready_step :: "ready_event \<Rightarrow> ready_state \<Rightarrow> ready_state" where
  "ready_step Hold s = holdReady True s"
| "ready_step Release s = holdReady False s"
| "ready_step DomEvent s = completed s"
| "ready_step (UseReady c) s = ready_promise c s"

text \<open>The contract: pending holds, whether the document has come, whether the callbacks have run.\<close>

fun ready_spec :: "ready_event \<Rightarrow> nat \<times> bool \<times> bool \<Rightarrow> nat \<times> bool \<times> bool" where
  "ready_spec Hold (h, here, run) = (Suc h, here, run)"
| "ready_spec Release (h, here, run) = (h - 1, here, run \<or> here \<and> h = 1)"
| "ready_spec DomEvent (h, here, run) = (h, True, run \<or> h = 0)"
| "ready_spec (UseReady c) (h, here, run) = (h, here, run)"

text \<open>Every release has a hold of its own, and the document is only looked for once it was asked for.\<close>

fun ready_fair :: "ready_event list \<Rightarrow> nat \<Rightarrow> bool" where
  "ready_fair [] h = True"
| "ready_fair (Hold # es) h = ready_fair es (Suc h)"
| "ready_fair (Release # es) h = (0 < h \<and> ready_fair es (h - 1))"
| "ready_fair (_ # es) h = ready_fair es h"

definition ready_rel :: "ready_state \<Rightarrow> nat \<times> bool \<times> bool \<Rightarrow> bool" where
  "ready_rel s a = (case a of (h, here, run) \<Rightarrow>
     readyList_made s \<and> (ready_waiting s = None \<longleftrightarrow> here) \<and> isReady s = here
     \<and> readyWait s = int h + (if here then 0 else 1) \<and> (0 < ready_resolves s \<longleftrightarrow> run) \<and> (h = 0 \<longrightarrow> here \<longrightarrow> run))"

lemma ready_rel_step:
  assumes "ready_rel s (h, here, run)" "e = Release \<Longrightarrow> 0 < h"
  shows "ready_rel (ready_step e s) (ready_spec e (h, here, run))"
  using assms by (cases e; cases here)
    (auto simp: ready_rel_def holdReady_def ready_def completed_def ready_promise_def Let_def)

text \<open>
  The ready callbacks run exactly when the document has come and every hold has been
  released, for any interleaving of holds, releases and the document's event in which each
  release has its hold.
\<close>

theorem ready_refines:
  assumes "ready_fair es 0"
  shows "ready_rel (fold ready_step es (ready_promise c ready_init)) (fold ready_spec es (0, False, False))"
proof -
  have "ready_rel (fold ready_step es s) (fold ready_spec es a)" if "ready_rel s a" "ready_fair es (fst a)" for s a
    using that
  proof (induction es arbitrary: s a)
    case (Cons e es)
    obtain h here run where a: "a = (h, here, run)" by (cases a)
    have "e = Release \<Longrightarrow> 0 < h" using Cons.prems(2) a by simp
    then have "ready_rel (ready_step e s) (ready_spec e a)" using ready_rel_step Cons.prems(1) a by blast
    moreover have "ready_fair es (fst (ready_spec e a))" using Cons.prems(2) a by (cases e) auto
    ultimately show ?case using Cons.IH by simp
  qed simp
  moreover have "ready_rel (ready_promise c ready_init) (0, False, False)"
    by (simp add: ready_rel_def ready_promise_def ready_init_def)
  ultimately show ?thesis using assms by simp
qed

theorem ready_refines_witness:
  "ready_resolves (fold ready_step [Hold, DomEvent] (ready_promise False ready_init)) = 0
   \<and> 0 < ready_resolves (fold ready_step [Hold, DomEvent, Release] (ready_promise False ready_init))"
  using ready_refines [of "[Hold, DomEvent]" False] ready_refines [of "[Hold, DomEvent, Release]" False]
  by (simp add: ready_rel_def)

text \<open>
  A release without a hold runs the ready callbacks before the document has come, and the
  document's own event is then ignored.
\<close>

theorem extra_release_runs_early:
  "ready_resolves (holdReady False (ready_promise c ready_init)) = 1
   \<and> ready_waiting (holdReady False (ready_promise c ready_init)) \<noteq> None
   \<and> ready_resolves (completed (holdReady False (ready_promise c ready_init))) = 1"
  by (simp add: holdReady_def ready_def completed_def ready_promise_def ready_init_def)

end
