(* ===== verification/Class_Names.thy ===== *)
theory Class_Names
  imports Data_Store
begin

text \<open>
  addClass, removeClass, toggleClass and hasClass of a matched set (jquery.js). The methods work on
  the text of className, padded with spaces, by searching and replacing; the lemmas show what that
  does to the list of class names the text stands for.
\<close>

section \<open>Searching and replacing in strings\<close>

text \<open>\<open>s.replace(p, r)\<close> for a string \<open>p\<close>: the first occurrence.\<close>

fun replace_first :: "string \<Rightarrow> string \<Rightarrow> string \<Rightarrow> string" where
  "replace_first p r [] = (if p = [] then r else [])"
| "replace_first p r (c # cs) =
     (if starts_with p (c # cs) then r @ drop (length p) (c # cs) else c # replace_first p r cs)"

fun contains :: "string \<Rightarrow> string \<Rightarrow> bool" where
  "contains p [] = (p = [])"
| "contains p (c # cs) = (starts_with p (c # cs) \<or> contains p cs)"

lemma index_of_contains: "0 \<le> i \<Longrightarrow> 0 \<le> index_of_from i p s \<longleftrightarrow> contains p s"
  by (induction i p s rule: index_of_from.induct) auto

lemma indexOf_contains [simp]: "0 \<le> index_of_str s p \<longleftrightarrow> contains p s"
  by (simp add: index_of_str_def index_of_contains)

lemma starts_with_length: "starts_with p s \<Longrightarrow> length p \<le> length s"
  by (induction p s rule: starts_with.induct) auto

lemma replace_first_length:
  "contains p s \<Longrightarrow> length (replace_first p r s) + length p = length s + length r"
  by (induction p r s rule: replace_first.induct) (auto dest: starts_with_length)

section \<open>The methods\<close>

text \<open>What the methods see of an element; \<open>__className__\<close> of its private data is \<open>saved\<close>.\<close>

record class_elem =
  is_element :: bool        \<comment> \<open>\<open>nodeType === 1\<close>\<close>
  className :: string
  saved :: string

text \<open>rclass: the white space of HTML becomes a space.\<close>

definition html_ws :: "char \<Rightarrow> bool" where
  "html_ws c = (c = CHR 0x09 \<or> c = CHR 0x0D \<or> c = CHR 0x0A \<or> c = CHR 0x0C)"

definition rclass :: "string \<Rightarrow> string" where
  "rclass s = map (\<lambda>c. if html_ws c then CHR '' '' else c) s"

definition spaced :: "string \<Rightarrow> string" where
  "spaced s = rclass (CHR '' '' # s @ '' '')"

definition add_one :: "string \<Rightarrow> string \<Rightarrow> string" where
  "add_one clazz cur =
     (if index_of_str cur (CHR '' '' # clazz @ '' '') < 0 then cur @ clazz @ '' '' else cur)"

text \<open>The inner loop of removeClass.\<close>

function remove_one :: "string \<Rightarrow> string \<Rightarrow> string" where
  "remove_one clazz cur =
     (if 0 \<le> index_of_str cur (CHR '' '' # clazz @ '' '')
      then remove_one clazz (replace_first (CHR '' '' # clazz @ '' '') '' '' cur) else cur)"
  by pat_completeness auto
termination
proof (relation "measure (\<lambda>(clazz, cur). length cur)", simp)
  fix clazz cur assume "0 \<le> index_of_str cur (CHR '' '' # clazz @ '' '')"
  then have "contains (CHR '' '' # clazz @ '' '') cur" by simp
  from replace_first_length [OF this, of "'' ''"]
  show "((clazz, replace_first (CHR '' '' # clazz @ '' '') '' '' cur), clazz, cur) \<in> measure (\<lambda>(clazz, cur). length cur)"
    by simp
qed

declare remove_one.simps [simp del]

definition add_to_elem :: "string \<Rightarrow> class_elem \<Rightarrow> class_elem" where
  "add_to_elem value elem =
     (if \<not> is_element elem then elem
      else
        (let cur = (if className elem \<noteq> [] then spaced (className elem) else '' '') in
         elem\<lparr>className := js_trim (fold add_one (ws_words value) cur)\<rparr>))"

text \<open>No value is given: everything goes.\<close>

definition remove_from_elem :: "string option \<Rightarrow> class_elem \<Rightarrow> class_elem" where
  "remove_from_elem value elem =
     (if \<not> is_element elem \<or> className elem = [] then elem
      else
        (case value of
           None \<Rightarrow> elem\<lparr>className := []\<rparr>
         | Some v \<Rightarrow>
             elem\<lparr>className := js_trim (fold remove_one (ws_words v) (spaced (className elem)))\<rparr>))"

definition elem_hasClass :: "string \<Rightarrow> class_elem \<Rightarrow> bool" where
  "elem_hasClass selector elem =
     (is_element elem \<and> 0 \<le> index_of_str (spaced (className elem)) (CHR '' '' # selector @ '' ''))"

text \<open>
  The argument: a string, a function of the index and the current className, a boolean, undefined
  or no argument, or anything else. The page holds the elements by number.
\<close>

datatype class_arg = CStr string | CFun "nat \<Rightarrow> string \<Rightarrow> class_arg" | CBool bool | CUndef | COther

type_synonym class_page = "nat \<Rightarrow> class_elem"

definition upd_elem :: "nat \<Rightarrow> (class_elem \<Rightarrow> class_elem) \<Rightarrow> class_page \<Rightarrow> class_page" where
  "upd_elem e g p = p(e := g (p e))"

primrec addClass :: "class_arg \<Rightarrow> nat list \<Rightarrow> class_page \<Rightarrow> class_page" where
  "addClass (CStr value) this p = (if value = [] then p else fold (\<lambda>e. upd_elem e (add_to_elem value)) this p)"
| "addClass (CFun f) this p =
     fold (\<lambda>(j, e) p. addClass (f j (className (p e))) [e] p) (enumerate 0 this) p"
| "addClass (CBool b) this p = p"
| "addClass CUndef this p = p"
| "addClass COther this p = p"

primrec removeClass :: "class_arg \<Rightarrow> nat list \<Rightarrow> class_page \<Rightarrow> class_page" where
  "removeClass (CStr value) this p =
     (if value = [] then p else fold (\<lambda>e. upd_elem e (remove_from_elem (Some value))) this p)"
| "removeClass (CFun f) this p =
     fold (\<lambda>(j, e) p. removeClass (f j (className (p e))) [e] p) (enumerate 0 this) p"
| "removeClass (CBool b) this p = p"
| "removeClass CUndef this p = p"
| "removeClass COther this p = p"

definition removeClass_all :: "nat list \<Rightarrow> class_page \<Rightarrow> class_page" where
  "removeClass_all this p = fold (\<lambda>e. upd_elem e (remove_from_elem None)) this p"

definition hasClass :: "string \<Rightarrow> nat list \<Rightarrow> class_page \<Rightarrow> bool" where
  "hasClass selector this p = list_ex (\<lambda>e. elem_hasClass selector (p e)) this"

definition toggle_name :: "nat \<Rightarrow> string \<Rightarrow> class_page \<Rightarrow> class_page" where
  "toggle_name e name p =
     (if hasClass name [e] p then removeClass (CStr name) [e] p else addClass (CStr name) [e] p)"

definition toggle_whole :: "bool \<Rightarrow> class_elem \<Rightarrow> class_elem" where
  "toggle_whole off elem =
     (let s = (if className elem \<noteq> [] then className elem else saved elem) in
      elem\<lparr>saved := s, className := (if className elem \<noteq> [] \<or> off then [] else s)\<rparr>)"

primrec toggleClass :: "class_arg \<Rightarrow> bool option \<Rightarrow> nat list \<Rightarrow> class_page \<Rightarrow> class_page" where
  "toggleClass (CStr value) stateVal this p =
     (case stateVal of
        Some b \<Rightarrow> (if b then addClass (CStr value) this p else removeClass (CStr value) this p)
      | None \<Rightarrow> fold (\<lambda>e p. fold (toggle_name e) (ws_words value) p) this p)"
| "toggleClass (CFun f) stateVal this p =
     fold (\<lambda>(i, e) p. toggleClass (f i (className (p e))) stateVal [e] p) (enumerate 0 this) p"
| "toggleClass (CBool b) stateVal this p = fold (\<lambda>e. upd_elem e (toggle_whole (\<not> b))) this p"
| "toggleClass CUndef stateVal this p = fold (\<lambda>e. upd_elem e (toggle_whole False)) this p"
| "toggleClass COther stateVal this p = p"

section \<open>Padded lists of names\<close>

fun pad :: "string list \<Rightarrow> string" where
  "pad [] = '' ''"
| "pad (w # ws) = CHR '' '' # w @ pad ws"

fun no_space :: "string \<Rightarrow> bool" where
  "no_space [] = True"
| "no_space (c # cs) = (c \<noteq> CHR '' '' \<and> no_space cs)"

lemma pad_append: "pad (ws @ [w]) = pad ws @ w @ '' ''"
  by (induction ws) auto

lemma pad_Cons_space: "\<exists>r. pad ws = CHR '' '' # r"
  by (cases ws) auto

lemma pad_split: "CHR '' '' # s @ '' '' = pad (split_on (CHR '' '') s)"
proof (induction s)
  case (Cons c s)
  then show ?case by (cases "split_on (CHR '' '') s") auto
qed simp

lemma split_no_space: "list_all no_space (split_on (CHR '' '') s)"
  by (induction s) (auto split: list.split)

lemma starts_word: "no_space v \<Longrightarrow> no_space w \<Longrightarrow>
    starts_with (v @ '' '') (w @ CHR '' '' # r) \<longleftrightarrow> v = w"
proof (induction v arbitrary: w)
  case Nil
  then show ?case by (cases w) auto
next
  case (Cons c v)
  then show ?case by (cases w) auto
qed

lemma contains_skip: "no_space w \<Longrightarrow> contains (CHR '' '' # p) (w @ r) \<longleftrightarrow> contains (CHR '' '' # p) r"
  by (induction w) auto

lemma contains_pad:
  assumes "no_space v" "list_all no_space ws" "v \<noteq> []"
  shows "contains (CHR '' '' # v @ '' '') (pad ws) \<longleftrightarrow> v \<in> set ws"
  using assms(2)
proof (induction ws)
  case Nil
  then show ?case using assms(3) by (cases v) auto
next
  case (Cons w ws)
  obtain r where r: "pad ws = CHR '' '' # r" using pad_Cons_space by blast
  have "starts_with (v @ '' '') (w @ pad ws) \<longleftrightarrow> v = w"
    using Cons.prems assms(1) by (simp add: r starts_word)
  then show ?case using Cons by (simp add: contains_skip)
qed

lemma replace_skip:
  "no_space w \<Longrightarrow> replace_first (CHR '' '' # p) q (w @ r) = w @ replace_first (CHR '' '' # p) q r"
  by (induction w) auto

lemma replace_pad:
  assumes "no_space v" "list_all no_space ws" "v \<noteq> []"
  shows "replace_first (CHR '' '' # v @ '' '') '' '' (pad ws) = pad (remove1 v ws)"
  using assms(2)
proof (induction ws)
  case Nil
  then show ?case using assms(3) by (cases v) auto
next
  case (Cons w ws)
  obtain r where r: "pad ws = CHR '' '' # r" using pad_Cons_space by blast
  have "starts_with (v @ '' '') (w @ pad ws) \<longleftrightarrow> v = w"
    using Cons.prems assms(1) by (simp add: r starts_word)
  then show ?case using Cons by (auto simp: replace_skip r)
qed

lemma remove_one_pad:
  assumes "no_space v" "list_all no_space ws" "v \<noteq> []"
  shows "remove_one v (pad ws) = pad (removeAll v ws)"
  using assms(2)
proof (induction "length ws" arbitrary: ws rule: less_induct)
  case less
  show ?case
  proof (cases "v \<in> set ws")
    case True
    have "list_all no_space (remove1 v ws)" using less(2) by (auto simp: list_all_iff dest: notin_set_remove1)
    then have "remove_one v (pad (remove1 v ws)) = pad (removeAll v (remove1 v ws))"
      using True length_pos_if_in_set [OF True] by (intro less(1)) (simp_all add: length_remove1)
    moreover have "removeAll v (remove1 v ws) = removeAll v ws" by (induction ws) auto
    ultimately show ?thesis
      using True by (subst remove_one.simps) (simp add: contains_pad [OF assms(1) less(2) assms(3)] replace_pad [OF assms(1) less(2) assms(3)])
  next
    case False
    then show ?thesis
      by (subst remove_one.simps) (simp add: contains_pad [OF assms(1) less(2) assms(3)])
  qed
qed

lemma add_one_pad:
  assumes "no_space v" "list_all no_space ws" "v \<noteq> []"
  shows "add_one v (pad ws) = pad (if v \<in> set ws then ws else ws @ [v])"
  using contains_pad [OF assms] by (simp add: add_one_def pad_append flip: not_le)

section \<open>The names of a text\<close>

text \<open>
  The class names a className stands for, in order. A text is plain when its only white space is that
  of HTML; the trim of the methods also strips the vertical tab and the no-break space.
\<close>

definition class_names :: "string \<Rightarrow> string list" where
  "class_names s = filter (\<lambda>w. w \<noteq> []) (split_on (CHR '' '') (rclass s))"

fun plain_text :: "string \<Rightarrow> bool" where
  "plain_text [] = True"
| "plain_text (c # cs) = ((is_ws c \<longrightarrow> c = CHR '' '' \<or> html_ws c) \<and> plain_text cs)"

lemma html_ws_simps [simp]: "\<not> html_ws (CHR '' '')"
  by (simp add: html_ws_def)

lemma html_ws_is_ws: "html_ws c \<Longrightarrow> is_ws c"
  by (auto simp: html_ws_def is_ws_def)

lemma spaced_pad: "spaced s = pad (split_on (CHR '' '') (rclass s))"
proof -
  have "spaced s = CHR '' '' # rclass s @ '' ''" by (simp add: spaced_def rclass_def)
  then show ?thesis by (simp add: pad_split)
qed

lemma split_append_space: "split_on d (s @ [d]) = split_on d s @ [[]]"
  by (induction s) (auto split: list.split)

lemma class_names_Cons: "c = CHR '' '' \<or> html_ws c \<Longrightarrow> class_names (c # s) = class_names s"
  by (auto simp: class_names_def rclass_def)

lemma class_names_snoc: "c = CHR '' '' \<or> html_ws c \<Longrightarrow> class_names (s @ [c]) = class_names s"
  by (auto simp: class_names_def rclass_def split_append_space)

lemma plain_text_append [simp]: "plain_text (s @ t) \<longleftrightarrow> plain_text s \<and> plain_text t"
  by (induction s) auto

lemma class_names_drop: "plain_text s \<Longrightarrow> class_names (dropWhile is_ws s) = class_names s \<and> plain_text (dropWhile is_ws s)"
proof (induction s)
  case (Cons c s)
  then show ?case by (cases "is_ws c") (auto simp: class_names_Cons)
qed simp

lemma class_names_drop_end:
  "plain_text (rev s) \<Longrightarrow> class_names (rev (dropWhile is_ws s)) = class_names (rev s) \<and> plain_text (rev (dropWhile is_ws s))"
proof (induction s)
  case (Cons c s)
  then show ?case by (cases "is_ws c") (auto simp: class_names_snoc)
qed simp

lemma class_names_trim:
  assumes "plain_text s" shows "class_names (js_trim s) = class_names s \<and> plain_text (js_trim s)"
  using class_names_drop [OF assms] class_names_drop_end [of "rev (dropWhile is_ws s)"]
  by (simp add: js_trim_def)

lemma split_pad:
  "list_all no_space ws \<Longrightarrow> split_on (CHR '' '') (pad ws) = [] # ws @ [[]]"
proof (induction ws)
  case (Cons w ws)
  obtain r where r: "pad ws = CHR '' '' # r" using pad_Cons_space by blast
  have w: "CHR '' '' \<notin> set w" using Cons.prems by (induction w) auto
  have "split_on (CHR '' '') r = ws @ [[]]" using Cons by (simp add: r)
  with split_on_prefix [OF w, of r] show ?case by (simp add: r)
qed simp

text \<open>A class name holds no white space of any kind.\<close>

lemma word_no_space: "is_word w \<Longrightarrow> no_space w \<and> plain_text w \<and> rclass w = w \<and> w \<noteq> []"
proof -
  have "no_ws w \<Longrightarrow> no_space w \<and> plain_text w \<and> rclass w = w" for w
  proof (induction w)
    case (Cons c w)
    then have "\<not> is_ws c" by simp
    then have "c \<noteq> CHR '' ''" "\<not> html_ws c" using html_ws_is_ws by auto
    with Cons show ?case by (simp add: rclass_def)
  qed (simp add: rclass_def)
  then show "is_word w \<Longrightarrow> no_space w \<and> plain_text w \<and> rclass w = w \<and> w \<noteq> []" by (simp add: is_word_def)
qed

text \<open>The pieces the padded text is made of: names without white space, or nothing.\<close>

definition pieces :: "string list \<Rightarrow> bool" where
  "pieces ws \<longleftrightarrow> list_all (\<lambda>w. no_space w \<and> plain_text w \<and> rclass w = w) ws"

lemma rclass_append [simp]: "rclass (s @ t) = rclass s @ rclass t"
  by (simp add: rclass_def)

lemma rclass_pad: "pieces ws \<Longrightarrow> rclass (pad ws) = pad ws \<and> plain_text (pad ws)"
  by (induction ws) (auto simp: pieces_def rclass_def)

lemma class_names_pad: "pieces ws \<Longrightarrow> class_names (js_trim (pad ws)) = filter (\<lambda>w. w \<noteq> []) ws"
proof -
  assume p: "pieces ws"
  then have "list_all no_space ws" by (simp add: pieces_def list_all_iff)
  with p show ?thesis
    using class_names_trim [of "pad ws"] by (simp add: rclass_pad class_names_def split_pad)
qed

lemma pieces_split:
  assumes "plain_text s" shows "pieces (split_on (CHR '' '') (rclass s))"
proof -
  have "plain_text (rclass s) \<and> rclass (rclass s) = rclass s"
    using assms by (induction s) (auto simp: rclass_def)
  moreover have "pieces (split_on (CHR '' '') t)" if "plain_text t" "rclass t = t" for t
    using that
  proof (induction t)
    case (Cons c t)
    have t: "plain_text t" "rclass t = t" using Cons.prems by (simp_all add: rclass_def)
    obtain w ws where sp: "split_on (CHR '' '') t = w # ws" by (cases "split_on (CHR '' '') t") auto
    then show ?case using Cons.IH [OF t] Cons.prems by (auto simp: pieces_def rclass_def)
  qed (simp add: pieces_def rclass_def)
  ultimately show ?thesis by blast
qed

section \<open>What the methods do to the names\<close>

definition add_name :: "string \<Rightarrow> string list \<Rightarrow> string list" where
  "add_name w ws = (if w \<in> set ws then ws else ws @ [w])"

lemma add_fold_pad:
  "list_all is_word vs \<Longrightarrow> pieces ws \<Longrightarrow>
     \<exists>zs. fold add_one vs (pad ws) = pad zs \<and> pieces zs
       \<and> filter (\<lambda>w. w \<noteq> []) zs = fold add_name vs (filter (\<lambda>w. w \<noteq> []) ws)"
proof (induction vs arbitrary: ws)
  case (Cons v vs)
  have v: "no_space v" "plain_text v" "rclass v = v" "v \<noteq> []" using word_no_space [of v] Cons.prems(1) by auto
  have ns: "list_all no_space ws" using Cons.prems(2) by (simp add: pieces_def list_all_iff)
  let ?ws = "if v \<in> set ws then ws else ws @ [v]"
  have "pieces ?ws" using Cons.prems(2) v by (simp add: pieces_def)
  moreover have "filter (\<lambda>w. w \<noteq> []) ?ws = add_name v (filter (\<lambda>w. w \<noteq> []) ws)"
    using v(4) by (simp add: add_name_def)
  ultimately show ?case
    using Cons.IH [of ?ws] Cons.prems(1) add_one_pad [OF v(1) ns v(4)] by simp
qed auto

lemma remove_fold_pad:
  "list_all is_word vs \<Longrightarrow> pieces ws \<Longrightarrow>
     \<exists>zs. fold remove_one vs (pad ws) = pad zs \<and> pieces zs
       \<and> filter (\<lambda>w. w \<noteq> []) zs = filter (\<lambda>w. w \<notin> set vs) (filter (\<lambda>w. w \<noteq> []) ws)"
proof (induction vs arbitrary: ws)
  case (Cons v vs)
  have v: "no_space v" "v \<noteq> []" using word_no_space [of v] Cons.prems(1) by auto
  have ns: "list_all no_space ws" using Cons.prems(2) by (simp add: pieces_def list_all_iff)
  have p: "pieces (removeAll v ws)" using Cons.prems(2) by (simp add: pieces_def list_all_iff)
  have "filter (\<lambda>w. w \<notin> set vs) (filter (\<lambda>w. w \<noteq> []) (removeAll v ws))
      = filter (\<lambda>w. w \<notin> set (v # vs)) (filter (\<lambda>w. w \<noteq> []) ws)"
    by (induction ws) auto
  then show ?case using Cons.IH [OF _ p] Cons.prems(1) remove_one_pad [OF v(1) ns v(2)] by simp
qed auto

lemma add_to_elem_names:
  assumes "is_element elem" "plain_text (className elem)"
  shows "class_names (className (add_to_elem value elem)) = fold add_name (ws_words value) (class_names (className elem))
    \<and> plain_text (className (add_to_elem value elem))"
proof -
  obtain ws where ws: "(if className elem \<noteq> [] then spaced (className elem) else '' '') = pad ws" "pieces ws"
    "filter (\<lambda>w. w \<noteq> []) ws = class_names (className elem)"
  proof (cases "className elem = []")
    case True
    show thesis by (rule that [of "[]"]) (simp_all add: True pieces_def class_names_def rclass_def)
  next
    case False
    show thesis
      by (rule that [of "split_on (CHR '' '') (rclass (className elem))"])
        (simp_all add: False pieces_split [OF assms(2)] spaced_pad class_names_def)
  qed
  obtain zs where zs: "fold add_one (ws_words value) (pad ws) = pad zs" "pieces zs"
    "filter (\<lambda>w. w \<noteq> []) zs = fold add_name (ws_words value) (class_names (className elem))"
    using add_fold_pad [OF ws_words_all_words ws(2)] ws(3) by metis
  have "className (add_to_elem value elem) = js_trim (pad zs)"
    using assms(1) ws(1) zs(1) by (simp add: add_to_elem_def Let_def split: if_splits)
  then show ?thesis using class_names_pad [OF zs(2)] zs(3) class_names_trim [of "pad zs"] rclass_pad [OF zs(2)] by simp
qed

lemma remove_from_elem_names:
  assumes "is_element elem" "plain_text (className elem)"
  shows "class_names (className (remove_from_elem (Some value) elem)) =
      filter (\<lambda>w. w \<notin> set (ws_words value)) (class_names (className elem))
    \<and> plain_text (className (remove_from_elem (Some value) elem))"
proof (cases "className elem = []")
  case True
  then show ?thesis by (simp add: remove_from_elem_def class_names_def rclass_def)
next
  case False
  let ?ws = "split_on (CHR '' '') (rclass (className elem))"
  obtain zs where zs: "fold remove_one (ws_words value) (pad ?ws) = pad zs" "pieces zs"
    "filter (\<lambda>w. w \<noteq> []) zs = filter (\<lambda>w. w \<notin> set (ws_words value)) (filter (\<lambda>w. w \<noteq> []) ?ws)"
    using remove_fold_pad [OF ws_words_all_words pieces_split [OF assms(2)], of "value"] by blast
  have "className (remove_from_elem (Some value) elem) = js_trim (pad zs)"
    using assms(1) False zs(1) by (simp add: remove_from_elem_def spaced_pad)
  then show ?thesis using class_names_pad [OF zs(2)] zs(3) class_names_trim [of "pad zs"] rclass_pad [OF zs(2)]
    by (simp add: class_names_def)
qed

lemma elem_hasClass_names:
  assumes "is_element elem" "plain_text (className elem)" "is_word c"
  shows "elem_hasClass c elem \<longleftrightarrow> c \<in> set (class_names (className elem))"
proof -
  have c: "no_space c" "c \<noteq> []" using word_no_space [OF assms(3)] by auto
  have "contains (CHR '' '' # c @ '' '') (pad (split_on (CHR '' '') (rclass (className elem))))
      \<longleftrightarrow> c \<in> set (split_on (CHR '' '') (rclass (className elem)))"
    by (rule contains_pad [OF c(1) split_no_space c(2)])
  then show ?thesis using assms(1) c(2) by (simp add: elem_hasClass_def spaced_pad class_names_def)
qed

lemma fold_upd_elem:
  "distinct this \<Longrightarrow> fold (\<lambda>e. upd_elem e g) this p e = (if e \<in> set this then g (p e) else p e)"
  by (induction this arbitrary: p) (auto simp: upd_elem_def)

section \<open>Properties\<close>

text \<open>
  C22: addClass and removeClass change the list of class names of exactly the elements of the set: each
  name of the argument is appended unless it is there, or every occurrence of it is removed; the
  other names keep their order.
\<close>

theorem addClass_removeClass_names:
  assumes "distinct this" "is_element (p e)" "plain_text (className (p e))" "value \<noteq> []"
  shows "class_names (className (addClass (CStr value) this p e)) =
      (if e \<in> set this then fold add_name (ws_words value) (class_names (className (p e)))
       else class_names (className (p e)))
    \<and> class_names (className (removeClass (CStr value) this p e)) =
      (if e \<in> set this then filter (\<lambda>w. w \<notin> set (ws_words value)) (class_names (className (p e)))
       else class_names (className (p e)))"
  using assms by (simp add: fold_upd_elem add_to_elem_names remove_from_elem_names)

definition example_class_page :: class_page where
  "example_class_page = (\<lambda>e. \<lparr>is_element = True, className = ''btn active'', saved = []\<rparr>)"

theorem addClass_removeClass_names_witness:
  "class_names (className (addClass (CStr ''big btn'') [4, 5] example_class_page 5)) = [''btn'', ''active'', ''big'']
   \<and> class_names (className (removeClass (CStr ''btn x'') [4, 5] example_class_page 5)) = [''active'']"
proof -
  have n: "class_names ''btn active'' = [''btn'', ''active'']" "plain_text ''btn active''"
    "ws_words ''big btn'' = [''big'', ''btn'']" "ws_words ''btn x'' = [''btn'', ''x'']" by code_simp+
  have "plain_text (className (example_class_page 5))" using n(2) by (simp add: example_class_page_def)
  from addClass_removeClass_names [of "[4, 5]" example_class_page 5 "''big btn''", OF _ _ this]
    addClass_removeClass_names [of "[4, 5]" example_class_page 5 "''btn x''", OF _ _ this] n
  show ?thesis by (simp add: example_class_page_def add_name_def)
qed

text \<open>
  Toggling a name turns hasClass of that name over and changes hasClass of no other name.
\<close>

theorem toggleClass_flips:
  assumes "is_element (p e)" "plain_text (className (p e))" "is_word w" "is_word v"
  shows "hasClass v [e] (toggleClass (CStr w) None [e] p) =
     (if v = w then \<not> hasClass v [e] p else hasClass v [e] p)"
proof -
  have w: "ws_words w = [w]" "w \<noteq> []" using ws_words_word [OF assms(3)] word_no_space [OF assms(3)] by simp_all
  have h: "elem_hasClass u (p e) \<longleftrightarrow> u \<in> set (class_names (className (p e)))" if "is_word u" for u
    by (rule elem_hasClass_names [OF assms(1,2) that])
  have el: "is_element (add_to_elem w (p e))" "is_element (remove_from_elem (Some w) (p e))"
    using assms(1) by (simp_all add: add_to_elem_def remove_from_elem_def Let_def)
  note ad = add_to_elem_names [OF assms(1,2), of w] and rm = remove_from_elem_names [OF assms(1,2), of w]
  show ?thesis
    using h [OF assms(3)] h [OF assms(4)] elem_hasClass_names [OF el(1) conjunct2 [OF ad] assms(4)]
      elem_hasClass_names [OF el(2) conjunct2 [OF rm] assms(4)] ad rm w
    by (auto simp: hasClass_def toggle_name_def upd_elem_def add_name_def)
qed

theorem toggleClass_flips_witness:
  "hasClass ''active'' [1] (toggleClass (CStr ''active'') None [1] example_class_page)
     = (\<not> hasClass ''active'' [1] example_class_page)"
proof -
  have "plain_text (className (example_class_page 1))" "is_word ''active''" by code_simp+
  from toggleClass_flips [where p=example_class_page and e=1, OF _ this(1,2) this(2)] show ?thesis by (simp add: example_class_page_def)
qed

text \<open>Toggling the whole className twice brings it back.\<close>

lemma toggle_whole_twice: "className (toggle_whole False (toggle_whole False elem)) = className elem"
  by (simp add: toggle_whole_def Let_def)

text \<open>
  trim also strips a no-break space, which is not white space for HTML: adding a class to an element
  whose last class name ends with one renames that class.
\<close>

lemma addClass_renames_nbsp:
  "className (add_to_elem ''b'' \<lparr>is_element = True, className = CHR 0xA0 # ''a'', saved = []\<rparr>) = ''a b''"
  by code_simp

end
