(* ===== verification/Attributes.thy ===== *)
theory Attributes
  imports Core_Util
begin

text \<open>
  The attribute, property and value methods of jquery.js, and access, the function through which the
  setters of a matched set go. An element has its attributes, by lower case name in an HTML
  document, and its properties; the reflection of the one in the other by the browser is not modelled.
\<close>

section \<open>Elements\<close>

record attr_elem =
  node_type :: "int option"
  is_xml :: bool                \<comment> \<open>\<open>jQuery.isXMLDoc\<close>\<close>
  has_getAttribute :: bool
  node_name :: string
  attrs :: "string props"
  eprops :: "jsval props"

definition attr_key :: "attr_elem \<Rightarrow> string \<Rightarrow> string" where
  "attr_key e name = (if is_xml e then name else to_lower name)"

definition getAttribute :: "attr_elem \<Rightarrow> string \<Rightarrow> string option" where
  "getAttribute e name = map_of (attrs e) (attr_key e name)"

definition setAttribute :: "string \<Rightarrow> string \<Rightarrow> attr_elem \<Rightarrow> attr_elem" where
  "setAttribute name v e = e\<lparr>attrs := prop_set (attr_key e name) v (attrs e)\<rparr>"

definition removeAttribute :: "string \<Rightarrow> attr_elem \<Rightarrow> attr_elem" where
  "removeAttribute name e = e\<lparr>attrs := prop_del (attr_key e name) (attrs e)\<rparr>"

definition opt_str :: "string option \<Rightarrow> jsval" where
  "opt_str s = (case s of None \<Rightarrow> VNull | Some t \<Rightarrow> VStr t)"

section \<open>Attributes\<close>

definition booleans :: "string list" where
  "booleans = [''checked'', ''selected'', ''async'', ''autofocus'', ''autoplay'', ''controls'', ''defer'',
     ''disabled'', ''hidden'', ''ismap'', ''loop'', ''multiple'', ''open'', ''readonly'', ''required'', ''scoped'']"

definition match_bool :: "string \<Rightarrow> bool" where
  "match_bool name \<longleftrightarrow> to_lower name \<in> set booleans"

definition camel_props :: "string list" where
  "camel_props = [''tabIndex'', ''readOnly'', ''maxLength'', ''cellSpacing'', ''cellPadding'', ''rowSpan'',
     ''colSpan'', ''useMap'', ''frameBorder'', ''contentEditable'']"

definition propFix :: "(string \<times> string) list" where
  "propFix = [(''for'', ''htmlFor''), (''class'', ''className'')] @ map (\<lambda>p. (to_lower p, p)) camel_props"

definition fix_name :: "string \<Rightarrow> string" where
  "fix_name name = (case map_of propFix name of Some p \<Rightarrow> p | None \<Rightarrow> name)"

text \<open>
  The getter of a boolean attribute; jQuery.find.attr: the handle of the lower case name, outside
  XML, or getAttribute.
\<close>

definition bool_getter :: "attr_elem \<Rightarrow> string \<Rightarrow> string option" where
  "bool_getter e name = (if getAttribute e name \<noteq> None then Some (to_lower name) else None)"

definition find_attr :: "attr_elem \<Rightarrow> string \<Rightarrow> string option" where
  "find_attr e name =
     (if match_bool name \<and> \<not> is_xml e then bool_getter e name else getAttribute e name)"

definition jq_removeAttr_one :: "string \<Rightarrow> attr_elem \<Rightarrow> attr_elem" where
  "jq_removeAttr_one name e =
     removeAttribute name
       (if match_bool name then e\<lparr>eprops := prop_set (fix_name name) (VBool False) (eprops e)\<rparr> else e)"

definition jq_removeAttr :: "string \<Rightarrow> attr_elem \<Rightarrow> attr_elem" where
  "jq_removeAttr value e =
     (if value \<noteq> [] \<and> node_type e = Some 1 then fold jq_removeAttr_one (ws_words value) e else e)"

text \<open>The hooks: None is a hook without a set, or a set that returns undefined.\<close>

definition boolHook_set :: "jsval \<Rightarrow> string \<Rightarrow> attr_elem \<Rightarrow> jsval \<times> attr_elem" where
  "boolHook_set value name e =
     (VStr name, if value = VBool False then jq_removeAttr name e else setAttribute name name e)"

definition typeHook_set :: "bool \<Rightarrow> jsval \<Rightarrow> attr_elem \<Rightarrow> (jsval \<times> attr_elem) option" where
  "typeHook_set radioValue value e =
     (if \<not> radioValue \<and> value = VStr ''radio'' \<and> to_lower (node_name e) = ''input'' then
        (let val = prop_get (eprops e) ''value''; e1 = setAttribute ''type'' (js_str value) e in
         Some (value, if truthy val then e1\<lparr>eprops := prop_set ''value'' val (eprops e1)\<rparr> else e1))
      else None)"

definition attr_hook_set :: "bool \<Rightarrow> string \<Rightarrow> jsval \<Rightarrow> attr_elem \<Rightarrow> (jsval \<times> attr_elem) option" where
  "attr_hook_set radioValue name value e =
     (if name = ''type'' then typeHook_set radioValue value e
      else if match_bool name then Some (boolHook_set value name e)
      else None)"

definition no_attr_type :: "attr_elem \<Rightarrow> bool" where
  "no_attr_type e \<longleftrightarrow> node_type e = Some 3 \<or> node_type e = Some 8 \<or> node_type e = Some 2"

section \<open>Properties\<close>

definition rfocusable :: "string \<Rightarrow> bool" where
  "rfocusable s \<longleftrightarrow> to_lower s \<in> set [''input'', ''select'', ''textarea'', ''button'']"

definition tabIndex_get :: "attr_elem \<Rightarrow> jsval" where
  "tabIndex_get e =
     (if getAttribute e ''tabindex'' \<noteq> None \<or> rfocusable (node_name e) \<or> truthy (prop_get (eprops e) ''href'')
      then prop_get (eprops e) ''tabIndex'' else VNum (-1))"

text \<open>In an XML document neither the name is fixed nor a hook used.\<close>

definition jq_prop :: "attr_elem \<Rightarrow> string \<Rightarrow> jsval \<Rightarrow> jsval \<times> attr_elem" where
  "jq_prop e name value =
     (if no_attr_type e then (VUndef, e)
      else
        (let notxml = (node_type e \<noteq> Some 1 \<or> \<not> is_xml e);
             name = (if notxml then fix_name name else name) in
         if value \<noteq> VUndef then (value, e\<lparr>eprops := prop_set name value (eprops e)\<rparr>)
         else if notxml \<and> name = ''tabIndex'' \<and> tabIndex_get e \<noteq> VNull then (tabIndex_get e, e)
         else (prop_get (eprops e) name, e)))"

definition jq_removeProp :: "string \<Rightarrow> attr_elem \<Rightarrow> attr_elem" where
  "jq_removeProp name e = e\<lparr>eprops := prop_del (fix_name name) (eprops e)\<rparr>"

definition jq_attr :: "bool \<Rightarrow> attr_elem \<Rightarrow> string \<Rightarrow> jsval \<Rightarrow> jsval \<times> attr_elem" where
  "jq_attr radioValue e name value =
     (if no_attr_type e then (VUndef, e)
      else if \<not> has_getAttribute e then jq_prop e name value
      else
        (let hooked = (node_type e \<noteq> Some 1 \<or> \<not> is_xml e);
             name = (if hooked then to_lower name else name) in
         if value \<noteq> VUndef then
           (if value = VNull then (VUndef, jq_removeAttr name e)
            else case (if hooked then attr_hook_set radioValue name value e else None) of
                Some (ret, e') \<Rightarrow> (ret, e')
              | None \<Rightarrow> (value, setAttribute name (js_str value) e))
         else
           (case find_attr e name of Some s \<Rightarrow> (VStr s, e) | None \<Rightarrow> (VUndef, e))))"

section \<open>access\<close>

text \<open>
  \<open>fn\<close> reads an element when its value is undefined and writes it otherwise. The key is a string or
  an object of values; a value is given, undefined for none, or computed by a function from the
  index and the current value.
\<close>

datatype acc_value = Plain jsval | Computed "nat \<Rightarrow> jsval \<Rightarrow> jsval"

datatype acc_result = SameSet | Got jsval

fun no_value :: "acc_value \<Rightarrow> bool" where
  "no_value (Plain v) = (v = VUndef)"
| "no_value (Computed g) = False"

definition access_one :: "('s \<Rightarrow> nat \<Rightarrow> string \<Rightarrow> jsval \<Rightarrow> jsval \<times> 's) \<Rightarrow> nat list \<Rightarrow> string \<Rightarrow> acc_value \<Rightarrow> 's \<Rightarrow> 's" where
  "access_one fn es key val s =
     (if no_value val then s
      else case val of
        Plain v \<Rightarrow> fold (\<lambda>e s. snd (fn s e key v)) es s
      | Computed g \<Rightarrow>
          fold (\<lambda>(i, e) s. (case fn s e key VUndef of (cur, s1) \<Rightarrow> snd (fn s1 e key (g i cur)))) (enumerate 0 es) s)"

definition access_key :: "('s \<Rightarrow> nat \<Rightarrow> string \<Rightarrow> jsval \<Rightarrow> jsval \<times> 's) \<Rightarrow> nat list \<Rightarrow> string \<Rightarrow> acc_value \<Rightarrow> bool \<Rightarrow> jsval
    \<Rightarrow> 's \<Rightarrow> acc_result \<times> 's" where
  "access_key fn es key val chainable emptyGet s =
     (if chainable \<or> \<not> no_value val then (SameSet, access_one fn es key val s)
      else case es of
          e # _ \<Rightarrow> (case fn s e key VUndef of (r, s1) \<Rightarrow> (Got r, s1))
        | [] \<Rightarrow> (Got emptyGet, s))"

definition access_map :: "('s \<Rightarrow> nat \<Rightarrow> string \<Rightarrow> jsval \<Rightarrow> jsval \<times> 's) \<Rightarrow> nat list \<Rightarrow> (string \<times> acc_value) list
    \<Rightarrow> 's \<Rightarrow> acc_result \<times> 's" where
  "access_map fn es kvs s = (SameSet, fold (\<lambda>(k, v). access_one fn es k v) kvs s)"

text \<open>No key: the function works on the whole set, or on each element alone where values are computed.\<close>

definition access_bulk :: "(nat list \<Rightarrow> jsval \<Rightarrow> 's \<Rightarrow> jsval \<times> 's) \<Rightarrow> nat list \<Rightarrow> acc_value \<Rightarrow> bool
    \<Rightarrow> 's \<Rightarrow> acc_result \<times> 's" where
  "access_bulk fn es val chainable s =
     (if no_value val then (if chainable then (SameSet, s) else (case fn es VUndef s of (r, s1) \<Rightarrow> (Got r, s1)))
      else case val of
        Plain v \<Rightarrow> (SameSet, snd (fn es v s))
      | Computed g \<Rightarrow>
          (SameSet, fold (\<lambda>(i, e) s. (case fn [e] VUndef s of (cur, s1) \<Rightarrow> snd (fn [e] (g i cur) s1))) (enumerate 0 es) s))"

type_synonym attr_page = "nat \<Rightarrow> attr_elem"

definition on_page :: "(attr_elem \<Rightarrow> string \<Rightarrow> jsval \<Rightarrow> jsval \<times> attr_elem) \<Rightarrow> attr_page \<Rightarrow> nat \<Rightarrow> string \<Rightarrow> jsval
    \<Rightarrow> jsval \<times> attr_page" where
  "on_page fn p e key v = (case fn (p e) key v of (r, e') \<Rightarrow> (r, p(e := e')))"

definition fn_attr :: "bool \<Rightarrow> nat list \<Rightarrow> string \<Rightarrow> acc_value \<Rightarrow> bool \<Rightarrow> attr_page \<Rightarrow> acc_result \<times> attr_page" where
  "fn_attr radioValue this name val two_args = access_key (on_page (jq_attr radioValue)) this name val two_args VUndef"

definition fn_prop :: "nat list \<Rightarrow> string \<Rightarrow> acc_value \<Rightarrow> bool \<Rightarrow> attr_page \<Rightarrow> acc_result \<times> attr_page" where
  "fn_prop this name val two_args = access_key (on_page jq_prop) this name val two_args VUndef"

definition fn_removeAttr :: "nat list \<Rightarrow> string \<Rightarrow> attr_page \<Rightarrow> attr_page" where
  "fn_removeAttr this name p = fold (\<lambda>e p. p(e := jq_removeAttr name (p e))) this p"

definition fn_removeProp :: "nat list \<Rightarrow> string \<Rightarrow> attr_page \<Rightarrow> attr_page" where
  "fn_removeProp this name p = fold (\<lambda>e p. p(e := jq_removeProp name (p e))) this p"

section \<open>Values of form elements\<close>

record option_elem =
  ovalue :: string               \<comment> \<open>the property value\<close>
  oattr :: "string option"       \<comment> \<open>the attribute value\<close>
  otext :: string
  oselected :: bool
  odisabled :: bool
  odisabled_attr :: bool         \<comment> \<open>has the attribute disabled\<close>
  in_disabled_group :: bool

record val_elem =
  vnodeType :: int
  vtype :: string
  vnodeName :: string
  vvalue :: jsval
  vattr :: "string option"       \<comment> \<open>the attribute value\<close>
  vtext :: string
  vchecked :: bool
  voptions :: "option_elem list"

record val_support =
  checkOn :: bool
  optDisabled :: bool

text \<open>selectedIndex, as the HTML standard has it: the first selected option; setting it to -1 selects none.\<close>

fun first_selected :: "int \<Rightarrow> option_elem list \<Rightarrow> int" where
  "first_selected i [] = -1"
| "first_selected i (x # xs) = (if oselected x then i else first_selected (i + 1) xs)"

definition selectedIndex :: "val_elem \<Rightarrow> int" where
  "selectedIndex e = first_selected 0 (voptions e)"

definition select_none :: "val_elem \<Rightarrow> val_elem" where
  "select_none e = e\<lparr>voptions := map (\<lambda>x. x\<lparr>oselected := False\<rparr>) (voptions e)\<rparr>"

definition option_val :: "option_elem \<Rightarrow> string" where
  "option_val x = (case oattr x of Some v \<Rightarrow> v | None \<Rightarrow> js_trim (otext x))"

definition option_counts :: "val_support \<Rightarrow> int \<Rightarrow> int \<Rightarrow> option_elem \<Rightarrow> bool" where
  "option_counts spt index i x =
     ((oselected x \<or> i = index) \<and> (if optDisabled spt then \<not> odisabled x else \<not> odisabled_attr x)
      \<and> \<not> in_disabled_group x)"

text \<open>The loop of the getter over the options from \<open>i\<close> on.\<close>

fun select_loop :: "val_support \<Rightarrow> int \<Rightarrow> bool \<Rightarrow> int \<Rightarrow> int \<Rightarrow> option_elem list \<Rightarrow> jsval list \<Rightarrow> jsval" where
  "select_loop spt index one mx i [] values = (if one then VNull else VArr values)"
| "select_loop spt index one mx i (x # xs) values =
     (if \<not> i < mx then (if one then VNull else VArr values)
      else if option_counts spt index i x then
        (if one then VStr (option_val x)
         else select_loop spt index one mx (i + 1) xs (values @ [VStr (option_val x)]))
      else select_loop spt index one mx (i + 1) xs values)"

definition select_get :: "val_support \<Rightarrow> val_elem \<Rightarrow> jsval" where
  "select_get spt e =
     (let index = selectedIndex e;
          one = (vtype e = ''select-one'' \<or> index < 0);
          mx = (if one then index + 1 else int (length (voptions e)));
          i = (if index < 0 then mx else if one then index else 0) in
      select_loop spt index one mx i (drop (nat i) (voptions e)) [])"

text \<open>
  The setter goes from the last option to the first. \<open>dom_select\<close> is the browser's effect of
  assigning selected to one option, which in a list of one choice can change others.
\<close>

fun select_set_loop :: "(nat \<Rightarrow> bool \<Rightarrow> option_elem list \<Rightarrow> option_elem list) \<Rightarrow> jsval list \<Rightarrow> nat
    \<Rightarrow> option_elem list \<Rightarrow> bool \<Rightarrow> option_elem list \<times> bool" where
  "select_set_loop dom_select values 0 xs optionSet = (xs, optionSet)"
| "select_set_loop dom_select values (Suc i) xs optionSet =
     (let sel = (i < length xs \<and> 0 \<le> inArray (VStr (ovalue (xs ! i))) (Some values) 0) in
      select_set_loop dom_select values i (dom_select i sel xs) (optionSet \<or> sel))"

definition select_set :: "(nat \<Rightarrow> bool \<Rightarrow> option_elem list \<Rightarrow> option_elem list) \<Rightarrow> jsval \<Rightarrow> val_elem \<Rightarrow> val_elem" where
  "select_set dom_select val e =
     (let values = (case val of VArr vs \<Rightarrow> vs | v \<Rightarrow> [v]) in
      case select_set_loop dom_select values (length (voptions e)) (voptions e) False of
        (xs, optionSet) \<Rightarrow>
          (let e1 = e\<lparr>voptions := xs\<rparr> in if optionSet then e1 else select_none e1))"

datatype val_hook = NoHook | OptionHook | SelectHook | CheckHook

definition hook_named :: "string \<Rightarrow> val_hook" where
  "hook_named n = (if n = ''option'' then OptionHook else if n = ''select'' then SelectHook
     else if n = ''radio'' \<or> n = ''checkbox'' then CheckHook else NoHook)"

definition val_hook_of :: "val_elem \<Rightarrow> val_hook" where
  "val_hook_of e = (if hook_named (vtype e) \<noteq> NoHook then hook_named (vtype e) else hook_named (to_lower (vnodeName e)))"

definition plain_val :: "jsval \<Rightarrow> jsval" where
  "plain_val ret = (case ret of VStr s \<Rightarrow> VStr (filter (\<lambda>c. c \<noteq> CHR 0x0D) s)
     | VUndef \<Rightarrow> VStr [] | VNull \<Rightarrow> VStr [] | v \<Rightarrow> v)"

definition val_get :: "val_support \<Rightarrow> val_elem \<Rightarrow> jsval" where
  "val_get spt e =
     (case val_hook_of e of
        OptionHook \<Rightarrow> (case vattr e of Some v \<Rightarrow> VStr v | None \<Rightarrow> VStr (js_trim (vtext e)))
      | SelectHook \<Rightarrow> select_get spt e
      | CheckHook \<Rightarrow>
          (if \<not> checkOn spt then
             (let ret = (if vattr e = None then VStr ''on'' else vvalue e) in
              if ret \<noteq> VUndef then ret else plain_val (vvalue e))
           else plain_val (vvalue e))
      | NoHook \<Rightarrow> plain_val (vvalue e))"

definition norm_val :: "jsval \<Rightarrow> jsval" where
  "norm_val val =
     (case val of VUndef \<Rightarrow> VStr [] | VNull \<Rightarrow> VStr [] | VNum n \<Rightarrow> VStr (int_str n) | VNaN \<Rightarrow> VStr ''NaN''
      | VArr vs \<Rightarrow> VArr (jq_map vs (\<lambda>v i. if not_nullish v then VStr (js_str v) else VStr []))
      | v \<Rightarrow> v)"

definition val_set :: "val_support \<Rightarrow> (nat \<Rightarrow> bool \<Rightarrow> option_elem list \<Rightarrow> option_elem list) \<Rightarrow> jsval \<Rightarrow> val_elem \<Rightarrow> val_elem" where
  "val_set spt dom_select val0 e =
     (if vnodeType e \<noteq> 1 then e
      else
        (let val = norm_val val0 in
         case val_hook_of e of
           SelectHook \<Rightarrow> select_set dom_select val e
         | CheckHook \<Rightarrow>
             (case val of
                VArr vs \<Rightarrow> e\<lparr>vchecked := (0 \<le> inArray (val_get spt e) (Some vs) 0)\<rparr>
              | _ \<Rightarrow> e\<lparr>vvalue := val\<rparr>)
         | _ \<Rightarrow> e\<lparr>vvalue := val\<rparr>))"

definition fn_val_get :: "val_support \<Rightarrow> nat list \<Rightarrow> (nat \<Rightarrow> val_elem) \<Rightarrow> jsval" where
  "fn_val_get spt this p = (case this of [] \<Rightarrow> VUndef | e # _ \<Rightarrow> val_get spt (p e))"

definition fn_val_set :: "val_support \<Rightarrow> (nat \<Rightarrow> bool \<Rightarrow> option_elem list \<Rightarrow> option_elem list) \<Rightarrow> nat list \<Rightarrow> acc_value
    \<Rightarrow> (nat \<Rightarrow> val_elem) \<Rightarrow> nat \<Rightarrow> val_elem" where
  "fn_val_set spt dom_select this val p =
     fold (\<lambda>(i, e) p. p(e := val_set spt dom_select
         (case val of Plain v \<Rightarrow> v | Computed g \<Rightarrow> if vnodeType (p e) = 1 then g i (val_get spt (p e)) else VUndef) (p e)))
       (enumerate 0 this) p"

section \<open>Lemmas\<close>

lemma boolean_words: "match_bool name \<Longrightarrow> ws_words (to_lower name) = [to_lower name] \<and> to_lower name \<noteq> []"
proof -
  have "list_all (\<lambda>b. ws_words b = [b] \<and> b \<noteq> []) booleans" by code_simp
  then show "match_bool name \<Longrightarrow> ws_words (to_lower name) = [to_lower name] \<and> to_lower name \<noteq> []"
    by (simp add: match_bool_def list_all_iff)
qed

lemma match_bool_lower [simp]: "match_bool (to_lower name) = match_bool name"
  by (simp add: match_bool_def)

lemma lower_type [simp]: "to_lower ''type'' = ''type''"
  by code_simp

lemma type_not_bool [simp]: "\<not> match_bool ''type''"
  by code_simp

lemma removeAttr_bool:
  assumes "match_bool name" "node_type e = Some 1"
  shows "jq_removeAttr (to_lower name) e = jq_removeAttr_one (to_lower name) e"
  using boolean_words [OF assms(1)] assms(2) by (simp add: jq_removeAttr_def)

lemma getAttribute_set:
  "getAttribute (setAttribute n v e) m = (if attr_key e m = attr_key e n then Some v else getAttribute e m)"
  by (simp add: getAttribute_def setAttribute_def attr_key_def)

lemma getAttribute_remove:
  "getAttribute (removeAttribute n e) m = (if attr_key e m = attr_key e n then None else getAttribute e m)"
  by (simp add: getAttribute_def removeAttribute_def attr_key_def)

lemma getAttribute_props [simp]: "getAttribute (e\<lparr>eprops := ps\<rparr>) m = getAttribute e m"
  by (simp add: getAttribute_def attr_key_def)

lemma attr_frame [simp]:
  "is_xml (setAttribute n v e) = is_xml e" "is_xml (removeAttribute n e) = is_xml e"
  "node_type (setAttribute n v e) = node_type e" "node_type (removeAttribute n e) = node_type e"
  "has_getAttribute (setAttribute n v e) = has_getAttribute e" "has_getAttribute (removeAttribute n e) = has_getAttribute e"
  by (simp_all add: setAttribute_def removeAttribute_def)

text \<open>What the two forms of attr do on an HTML element.\<close>

definition html_elem :: "attr_elem \<Rightarrow> bool" where
  "html_elem e \<longleftrightarrow> node_type e = Some 1 \<and> \<not> is_xml e \<and> has_getAttribute e"

definition attr_read :: "attr_elem \<Rightarrow> string \<Rightarrow> jsval" where
  "attr_read e name = (case getAttribute e name of None \<Rightarrow> VUndef
     | Some s \<Rightarrow> if match_bool name then VStr (to_lower name) else VStr s)"

lemma attr_get: "html_elem e \<Longrightarrow> jq_attr rv e name VUndef = (attr_read e name, e)"
  by (auto simp: html_elem_def jq_attr_def no_attr_type_def Let_def find_attr_def bool_getter_def attr_read_def
      getAttribute_def attr_key_def split: option.split)

lemma attr_set:
  assumes "html_elem e" "v \<noteq> VUndef" "v \<noteq> VNull"
  shows "html_elem (snd (jq_attr rv e name v))
    \<and> getAttribute (snd (jq_attr rv e name v)) m =
        (if to_lower m = to_lower name then
           (if match_bool name then (if v = VBool False then None else Some (to_lower name)) else Some (js_str v))
         else getAttribute e m)"
proof -
  have e: "node_type e = Some 1" "\<not> is_xml e" "has_getAttribute e" "\<not> no_attr_type e"
    using assms(1) by (simp_all add: html_elem_def no_attr_type_def)
  show ?thesis
  proof (cases "match_bool name")
    case True
    then have nt: "to_lower name \<noteq> ''type''" using type_not_bool match_bool_lower [of name] by metis
    show ?thesis using e True nt assms(2,3) removeAttr_bool [OF True e(1)]
      by (auto simp: jq_attr_def Let_def attr_hook_set_def boolHook_set_def html_elem_def getAttribute_set
          getAttribute_remove jq_removeAttr_one_def attr_key_def)
  next
    case False
    show ?thesis using e False assms(2,3)
      by (auto simp: jq_attr_def Let_def attr_hook_set_def typeHook_set_def html_elem_def getAttribute_set attr_key_def)
  qed
qed

section \<open>Properties\<close>

text \<open>
  What attr(name, value) wrote on an HTML element is what attr(name) reads: the text of the value,
  or for a boolean attribute its own name unless the value is false; no other attribute changes.
\<close>

theorem attr_roundtrip:
  assumes "html_elem e" "v \<noteq> VUndef" "v \<noteq> VNull"
  shows "fst (jq_attr rv (snd (jq_attr rv e name v)) m VUndef) =
     (if to_lower m = to_lower name then
        (if match_bool name then (if v = VBool False then VUndef else VStr (to_lower name)) else VStr (js_str v))
      else fst (jq_attr rv e m VUndef))"
proof -
  have mb: "match_bool m = match_bool name" if "to_lower m = to_lower name" using that by (simp add: match_bool_def)
  show ?thesis
    using attr_set [OF assms, of rv name m] attr_get [of "snd (jq_attr rv e name v)" rv m] attr_get [OF assms(1), of rv m] mb
    by (simp add: attr_read_def split: option.split)
qed

theorem attr_roundtrip_witness:
  "fst (jq_attr True (snd (jq_attr True \<lparr>node_type = Some 1, is_xml = False, has_getAttribute = True, node_name = ''input'',
      attrs = [], eprops = []\<rparr> ''Checked'' (VStr ''x''))) ''checked'' VUndef) = VStr ''checked''"
proof -
  have "to_lower ''checked'' = ''checked''" "to_lower ''Checked'' = ''checked''" "match_bool ''Checked''" by code_simp+
  then show ?thesis
    using attr_roundtrip [where e="\<lparr>node_type = Some 1, is_xml = False, has_getAttribute = True, node_name = ''input'',
      attrs = [], eprops = []\<rparr>" and v="VStr ''x''" and rv=True and name="''Checked''" and m="''checked''"]
    by (simp add: html_elem_def)
qed

text \<open>Assigning selected in a list of several choices.\<close>

definition dom_select_multi :: "nat \<Rightarrow> bool \<Rightarrow> option_elem list \<Rightarrow> option_elem list" where
  "dom_select_multi i b xs = xs[i := (xs ! i)\<lparr>oselected := b\<rparr>]"

lemma index_of_found: "0 \<le> i \<Longrightarrow> 0 \<le> index_of i x ys \<longleftrightarrow> x \<in> set ys"
  by (induction i x ys rule: index_of.induct) auto

lemma inArray_found: "0 \<le> inArray x (Some ys) 0 \<longleftrightarrow> x \<in> set ys"
  by (simp add: inArray_def index_of_found)

definition reselect :: "jsval list \<Rightarrow> option_elem \<Rightarrow> option_elem" where
  "reselect values x = x\<lparr>oselected := (VStr (ovalue x) \<in> set values)\<rparr>"

lemma select_set_loop_multi:
  "n \<le> length xs \<Longrightarrow>
    select_set_loop dom_select_multi values n xs b =
      (map (reselect values) (take n xs) @ drop n xs, b \<or> list_ex (\<lambda>x. VStr (ovalue x) \<in> set values) (take n xs))"
proof (induction n arbitrary: xs b)
  case (Suc n)
  let ?x = "(xs ! n)\<lparr>oselected := (VStr (ovalue (xs ! n)) \<in> set values)\<rparr>"
  have n: "n < length xs" using Suc.prems by simp
  have t: "take (Suc n) xs = take n xs @ [xs ! n]" by (rule take_Suc_conv_app_nth [OF n])
  have d: "drop n (xs[n := ?x]) = ?x # drop (Suc n) xs" using n by (simp add: drop_update_swap Cons_nth_drop_Suc [symmetric])
  have dm: "dom_select_multi n (VStr (ovalue (xs ! n)) \<in> set values) xs = xs[n := ?x]"
    by (simp add: dom_select_multi_def)
  have rx: "reselect values (xs ! n) = ?x" by (simp add: reselect_def)
  show ?case using Suc.IH [of "xs[n := ?x]" for b] n by (auto simp: Let_def inArray_found dm t d rx)
qed simp

lemma first_selected_range: "0 \<le> i \<Longrightarrow> first_selected i xs = -1 \<and> \<not> list_ex oselected xs
    \<or> i \<le> first_selected i xs \<and> list_ex oselected xs"
proof (induction xs arbitrary: i)
  case (Cons x xs)
  from Cons.IH [of "i + 1"] Cons.prems show ?case by (cases "oselected x") auto
qed simp

lemma first_selected_is: "0 \<le> i \<Longrightarrow> first_selected i xs = k \<Longrightarrow> i \<le> k \<Longrightarrow>
    nat (k - i) < length xs \<and> oselected (xs ! nat (k - i))"
proof (induction xs arbitrary: i)
  case (Cons x xs)
  show ?case
  proof (cases "oselected x")
    case True
    then show ?thesis using Cons.prems by simp
  next
    case False
    then have f: "first_selected (i + 1) xs = k" using Cons.prems by simp
    then have "i + 1 \<le> k" using first_selected_range [of "i + 1" xs] Cons.prems by auto
    moreover from this have "nat (k - i) = Suc (nat (k - (i + 1)))" by simp
    ultimately show ?thesis using Cons.IH [of "i + 1"] Cons.prems f by simp
  qed
qed simp

text \<open>The options a list of several choices counts.\<close>

definition counted :: "val_support \<Rightarrow> option_elem \<Rightarrow> bool" where
  "counted spt x = ((if optDisabled spt then \<not> odisabled x else \<not> odisabled_attr x) \<and> \<not> in_disabled_group x)"

lemma select_loop_multi:
  assumes "\<And>j. j < length xs \<Longrightarrow> i + int j = index \<Longrightarrow> oselected (xs ! j)" "i + int (length xs) = mx"
  shows "select_loop spt index False mx i xs vs =
     VArr (vs @ map (\<lambda>x. VStr (option_val x)) (filter (\<lambda>x. oselected x \<and> counted spt x) xs))"
  using assms
proof (induction xs arbitrary: i vs)
  case (Cons x xs)
  have x: "i = index \<Longrightarrow> oselected x" using Cons.prems(1) [of 0] by simp
  have "\<And>j. j < length xs \<Longrightarrow> (i + 1) + int j = index \<Longrightarrow> oselected (xs ! j)"
    using Cons.prems(1) [of "Suc _"] by (simp add: algebra_simps)
  with Cons x show ?case by (auto simp: option_counts_def counted_def)
qed simp

lemma select_get_multi:
  assumes "vtype e \<noteq> ''select-one''"
  shows "select_get spt e =
     (if list_ex oselected (voptions e)
      then VArr (map (\<lambda>x. VStr (option_val x)) (filter (\<lambda>x. oselected x \<and> counted spt x) (voptions e)))
      else VNull)"
proof (cases "list_ex oselected (voptions e)")
  case True
  have i: "0 \<le> selectedIndex e" using first_selected_range [of 0 "voptions e"] True by (auto simp: selectedIndex_def)
  have "oselected (voptions e ! nat (selectedIndex e))"
    using first_selected_is [of 0 "voptions e" "selectedIndex e"] i by (simp add: selectedIndex_def)
  then have "select_loop spt (selectedIndex e) False (int (length (voptions e))) 0 (voptions e) [] =
      VArr ([] @ map (\<lambda>x. VStr (option_val x)) (filter (\<lambda>x. oselected x \<and> counted spt x) (voptions e)))"
    using i by (intro select_loop_multi) (metis add_0 nat_int, simp)
  then show ?thesis using True i assms by (simp add: select_get_def Let_def)
next
  case False
  then have i: "selectedIndex e = -1" using first_selected_range [of 0 "voptions e"] by (auto simp: selectedIndex_def)
  have "select_loop spt (-1) True 0 0 xs [] = VNull" for xs by (cases xs) simp_all
  then show ?thesis using False i by (simp add: select_get_def Let_def)
qed

lemma flatten1_strings: "flatten1 (map VStr ws) = map VStr ws"
  by (induction ws) (simp_all add: flatten1_def)

lemma jq_map_strings: "jq_map (map VStr ws) (\<lambda>v i. if not_nullish v then VStr (js_str v) else VStr []) = map VStr ws"
proof -
  let ?f = "\<lambda>v. if not_nullish v then VStr (js_str v) else VStr []"
  have z: "map (\<lambda>(v, i). ?f v) (zip es is) = map ?f es" if "length is = length es" for es :: "jsval list" and "is" :: "nat list"
    using that by (induction es "is" rule: list_induct2') simp_all
  have "map ?f (map VStr ws) = map VStr ws" "filter not_nullish (map VStr ws) = map VStr ws"
    by (induction ws) simp_all
  then show ?thesis by (simp add: jq_map_def map_from_eq z flatten1_strings del: map_map)
qed

lemma norm_val_strings [simp]: "norm_val (VArr (map VStr ws)) = VArr (map VStr ws)"
  by (simp add: norm_val_def jq_map_strings)

lemma list_ex_false_map: "\<not> list_ex oselected (map (\<lambda>x. x\<lparr>oselected := False\<rparr>) xs)"
  by (induction xs) simp_all

lemma reselect_fields [simp]:
  "oselected (reselect values x) = (VStr (ovalue x) \<in> set values)" "counted spt (reselect values x) = counted spt x"
  "option_val (reselect values x) = option_val x"
  by (simp_all add: reselect_def counted_def option_val_def split: option.split)

lemma filter_reselect:
  "map (\<lambda>x. VStr (option_val x)) (filter (\<lambda>x. oselected x \<and> counted spt x) (map (reselect values) xs)) =
   map (\<lambda>x. VStr (option_val x)) (filter (\<lambda>x. VStr (ovalue x) \<in> set values \<and> counted spt x) xs)"
  by (induction xs) (simp_all del: filter_map)

lemma select_set_multi:
  "select_set dom_select_multi (VArr values) e =
     (let e1 = e\<lparr>voptions := map (reselect values) (voptions e)\<rparr> in
      if list_ex (\<lambda>x. VStr (ovalue x) \<in> set values) (voptions e) then e1 else select_none e1)"
  by (simp add: select_set_def select_set_loop_multi Let_def)

text \<open>
  In a list of several choices, val(array) and then val() gives the values of exactly the options
  whose value is in the array and that count, in the order of the document and whatever was selected
  before; an array that names no option leaves nothing selected and val() null.
\<close>

theorem select_val_roundtrip:
  assumes "vnodeType e = 1" "vtype e = ''select-multiple''" "to_lower (vnodeName e) = ''select''"
  shows "val_get spt (val_set spt dom_select_multi (VArr (map VStr ws)) e) =
     (if list_ex (\<lambda>x. ovalue x \<in> set ws) (voptions e)
      then VArr (map (\<lambda>x. VStr (option_val x)) (filter (\<lambda>x. ovalue x \<in> set ws \<and> counted spt x) (voptions e)))
      else VNull)"
proof -
  have h: "val_hook_of x = SelectHook" if "vtype x = vtype e" "vnodeName x = vnodeName e" for x
    using that assms by (simp add: val_hook_of_def hook_named_def)
  have m: "VStr v \<in> set (map VStr ws) \<longleftrightarrow> v \<in> set ws" for v by auto
  have ex: "list_ex oselected (map (reselect (map VStr ws)) xs) = list_ex (\<lambda>x. ovalue x \<in> set ws) xs" for xs
    by (induction xs) (simp_all add: reselect_def m del: set_map)
  show ?thesis
    using assms h [of e] h [of "select_set dom_select_multi (VArr (map VStr ws)) e"]
    by (simp add: val_set_def val_get_def select_set_multi Let_def select_none_def select_get_multi m ex filter_reselect
        list_ex_false_map del: set_map map_map)
qed

definition example_select :: val_elem where
  "example_select = \<lparr>vnodeType = 1, vtype = ''select-multiple'', vnodeName = ''select'', vvalue = VUndef, vattr = None,
     vtext = [], vchecked = False,
     voptions = map (\<lambda>(v, s, d). \<lparr>ovalue = v, oattr = Some v, otext = [], oselected = s, odisabled = d,
        odisabled_attr = d, in_disabled_group = False\<rparr>)
       [(''a'', True, False), (''b'', False, False), (''c'', False, True), (''d'', False, False)]\<rparr>"

theorem select_val_roundtrip_witness:
  "val_get \<lparr>checkOn = True, optDisabled = True\<rparr> (val_set \<lparr>checkOn = True, optDisabled = True\<rparr> dom_select_multi
      (VArr (map VStr [''d'', ''c'', ''b''])) example_select) = VArr [VStr ''b'', VStr ''d'']"
proof -
  have l: "to_lower ''select'' = ''select''" by code_simp
  show ?thesis
    using select_val_roundtrip [of example_select "\<lparr>checkOn = True, optDisabled = True\<rparr>" "[''d'', ''c'', ''b'']"]
    by (simp add: example_select_def l counted_def option_val_def)
qed

end
