(* ===== verification/Serialize.thy ===== *)
theory Serialize
  imports Js_Prelude
begin

text \<open>
  jQuery.param, buildParams and serializeArray of jquery.js, with the encodeURIComponent of the
  language on 8-bit code units, and a reader of the form encoding as the specification.
\<close>

section \<open>Data\<close>

text \<open>
  What can be serialised: a primitive value by its text; an object that is neither plain nor an array
  (a date) by its text; a function by its source text and the value that it returns.
\<close>

datatype pdata =
    PUndef | PNull | PScalar string | POther string
  | PFun string pdata
  | PArr "pdata list"
  | PObj "(string \<times> pdata) list"

text \<open>\<open>String(v)\<close>.\<close>

fun pd_str :: "pdata \<Rightarrow> string" where
  "pd_str PUndef = ''undefined''"
| "pd_str PNull = ''null''"
| "pd_str (PScalar s) = s"
| "pd_str (POther s) = s"
| "pd_str (PFun src r) = src"
| "pd_str (PArr vs) = join_with '','' (map (\<lambda>v. if v = PUndef \<or> v = PNull then [] else pd_str v) vs)"
| "pd_str (PObj kvs) = ''[object Object]''"

fun typeof_object :: "pdata \<Rightarrow> bool" where
  "typeof_object PNull = True"
| "typeof_object (POther s) = True"
| "typeof_object (PArr vs) = True"
| "typeof_object (PObj kvs) = True"
| "typeof_object _ = False"

section \<open>encodeURIComponent\<close>

definition hex_char :: "nat \<Rightarrow> char" where
  "hex_char n = (if n < 10 then char_of (48 + n) else char_of (55 + n))"

definition pct :: "nat \<Rightarrow> string" where
  "pct b = [CHR ''%'', hex_char (b div 16), hex_char (b mod 16)]"

definition unreserved :: "char \<Rightarrow> bool" where
  "unreserved c \<longleftrightarrow>
     (let n = (of_char c :: nat) in
      (65 \<le> n \<and> n \<le> 90) \<or> (97 \<le> n \<and> n \<le> 122) \<or> (48 \<le> n \<and> n \<le> 57)
      \<or> n \<in> {45, 95, 46, 33, 126, 42, 39, 40, 41})"

definition encode_char :: "char \<Rightarrow> string" where
  "encode_char c =
     (let n = (of_char c :: nat) in
      if unreserved c then [c]
      else if n < 128 then pct n
      else pct (192 + n div 64) @ pct (128 + n mod 64))"

definition encodeURIComponent :: "string \<Rightarrow> string" where
  "encodeURIComponent s = concat (map encode_char s)"

section \<open>param\<close>

text \<open>\<open>/\[\]$/\<close>\<close>

definition rbracket :: "string \<Rightarrow> bool" where
  "rbracket s \<longleftrightarrow> starts_with '']['' (rev s)"

text \<open>The calls of add that buildParams makes, in order.\<close>

definition add_pair :: "string \<Rightarrow> pdata \<Rightarrow> string \<times> string" where
  "add_pair key val =
     (key, case val of PFun src r \<Rightarrow> pd_str r | PUndef \<Rightarrow> [] | PNull \<Rightarrow> [] | v \<Rightarrow> pd_str v)"

fun buildParams :: "bool \<Rightarrow> string \<Rightarrow> pdata \<Rightarrow> (string \<times> string) list"
and build_items :: "bool \<Rightarrow> string \<Rightarrow> nat \<Rightarrow> pdata list \<Rightarrow> (string \<times> string) list"
and build_props :: "bool \<Rightarrow> string \<Rightarrow> (string \<times> pdata) list \<Rightarrow> (string \<times> string) list" where
  "buildParams traditional prefix (PArr vs) = build_items traditional prefix 0 vs"
| "buildParams traditional prefix (PObj kvs) =
     (if traditional then [add_pair prefix (PObj kvs)] else build_props traditional prefix kvs)"
| "buildParams traditional prefix v = [add_pair prefix v]"
| "build_items traditional prefix i [] = []"
| "build_items traditional prefix i (v # vs) =
     (if traditional \<or> rbracket prefix then [add_pair prefix v]
      else buildParams traditional (prefix @ ''['' @ (if typeof_object v then nat_str i else []) @ '']'') v)
     @ build_items traditional prefix (Suc i) vs"
| "build_props traditional prefix [] = []"
| "build_props traditional prefix ((name, v) # kvs) =
     buildParams traditional (prefix @ ''['' @ name @ '']'') v @ build_props traditional prefix kvs"

text \<open>An array (or a matched set) of name and value pairs, or an object.\<close>

datatype param_arg = Elements "(pdata \<times> pdata) list" | Object "(string \<times> pdata) list"

definition param_pairs :: "param_arg \<Rightarrow> bool \<Rightarrow> (string \<times> string) list" where
  "param_pairs a traditional =
     (case a of
        Elements es \<Rightarrow> map (\<lambda>(name, val). add_pair (pd_str name) val) es
      | Object kvs \<Rightarrow> concat (map (\<lambda>(prefix, v). buildParams traditional prefix v) kvs))"

definition encode_pair :: "string \<times> string \<Rightarrow> string" where
  "encode_pair kv = encodeURIComponent (fst kv) @ ''='' @ encodeURIComponent (snd kv)"

text \<open>\<open>replace( /%20/g, "+" )\<close>\<close>

fun r20 :: "string \<Rightarrow> string" where
  "r20 [] = []"
| "r20 (c # s) = (if starts_with ''%20'' (c # s) then CHR ''+'' # r20 (drop 2 s) else c # r20 s)"

definition param :: "param_arg \<Rightarrow> bool option \<Rightarrow> bool \<Rightarrow> string" where
  "param a traditional default_traditional =
     r20 (join_with ''&'' (map encode_pair
       (param_pairs a (case traditional of Some t \<Rightarrow> t | None \<Rightarrow> default_traditional))))"

section \<open>serializeArray\<close>

record form_elem =
  fname :: string
  ftype :: string
  fnodeName :: string
  fdisabled :: bool
  fchecked :: bool
  fval :: jsval          \<comment> \<open>the result of val()\<close>

datatype form_source = WithElements "form_elem list" | Itself form_elem

fun crlf :: "string \<Rightarrow> string" where
  "crlf [] = []"
| "crlf (c # s) =
     (if c = CHR 0x0A then [CHR 0x0D, CHR 0x0A] @ crlf s
      else if c = CHR 0x0D \<and> starts_with [CHR 0x0A] s then [CHR 0x0D, CHR 0x0A] @ crlf (drop 1 s)
      else c # crlf s)"

definition submittable :: "form_elem \<Rightarrow> bool" where
  "submittable e \<longleftrightarrow>
     fname e \<noteq> [] \<and> \<not> fdisabled e
     \<and> list_ex (\<lambda>p. starts_with p (to_lower (fnodeName e))) [''input'', ''select'', ''textarea'', ''keygen'']
     \<and> to_lower (ftype e) \<notin> set [''submit'', ''button'', ''image'', ''reset'', ''file'']
     \<and> (fchecked e \<or> to_lower (ftype e) \<notin> set [''checkbox'', ''radio''])"

fun val_text :: "jsval \<Rightarrow> string" where
  "val_text (VStr s) = s"
| "val_text _ = []"

definition elem_pairs :: "form_elem \<Rightarrow> (string \<times> string) list" where
  "elem_pairs e =
     (if \<not> not_nullish (fval e) then []
      else case fval e of
        VArr vs \<Rightarrow> map (\<lambda>v. (fname e, crlf (val_text v))) vs
      | v \<Rightarrow> [(fname e, crlf (val_text v))])"

definition serializeArray :: "form_source list \<Rightarrow> (string \<times> string) list" where
  "serializeArray this =
     concat (map elem_pairs (filter submittable
       (concat (map (\<lambda>x. case x of WithElements es \<Rightarrow> es | Itself e \<Rightarrow> [e]) this))))"

definition serialize :: "form_source list \<Rightarrow> bool \<Rightarrow> string" where
  "serialize this default_traditional =
     param (Elements (map (\<lambda>(n, v). (PScalar n, PScalar v)) (serializeArray this))) None default_traditional"

section \<open>Reading the form encoding\<close>

definition hex_val :: "char \<Rightarrow> nat" where
  "hex_val c = (let n = (of_char c :: nat) in if n < 58 then n - 48 else n - 55)"

function form_decode :: "string \<Rightarrow> string" where
  "form_decode [] = []"
| "form_decode (c # s) =
     (if c = CHR ''+'' then CHR '' '' # form_decode s
      else if c = CHR ''%'' then
        (let b = 16 * hex_val (s ! 0) + hex_val (s ! 1) in
         if b < 128 then char_of b # form_decode (drop 2 s)
         else char_of ((b - 192) * 64 + (16 * hex_val (s ! 3) + hex_val (s ! 4) - 128)) # form_decode (drop 5 s))
      else c # form_decode s)"
  by pat_completeness auto
termination by (relation "measure length") auto

definition read_pair :: "string \<Rightarrow> string \<times> string" where
  "read_pair s = (form_decode (takeWhile (\<lambda>c. c \<noteq> CHR ''='') s), form_decode (drop 1 (dropWhile (\<lambda>c. c \<noteq> CHR ''='') s)))"

definition form_parse :: "string \<Rightarrow> (string \<times> string) list" where
  "form_parse s = (if s = [] then [] else map read_pair (split_on (CHR ''&'') s))"

section \<open>Lemmas\<close>

declare form_decode.simps [simp del] r20.simps [simp del]

lemma form_decode_Nil [simp]: "form_decode [] = []"
  by (simp add: form_decode.simps)

lemma hex_val_char [simp]: "n < 16 \<Longrightarrow> hex_val (hex_char n) = n"
  by (simp add: hex_val_def hex_char_def Let_def)

lemma form_decode_plain: "c \<noteq> CHR ''+'' \<Longrightarrow> c \<noteq> CHR ''%'' \<Longrightarrow> form_decode (c # s) = c # form_decode s"
  by (simp add: form_decode.simps)

lemma hex_pair [simp]: "b < 256 \<Longrightarrow> 16 * hex_val (hex_char (b div 16)) + hex_val (hex_char (b mod 16)) = b"
  by (simp add: less_mult_imp_div_less)

lemma form_decode_pct1: "b < 128 \<Longrightarrow> form_decode (pct b @ s) = char_of b # form_decode s"
  by (subst pct_def, simp add: form_decode.simps(2) [of "CHR ''%''"] Let_def)

lemma form_decode_pct2:
  assumes "192 \<le> b" "b < 196" "128 \<le> d" "d < 192"
  shows "form_decode (pct b @ pct d @ s) = char_of ((b - 192) * 64 + (d - 128)) # form_decode s"
proof -
  have "b < 256" "d < 256" using assms by simp_all
  then show ?thesis using assms by (simp add: pct_def form_decode.simps(2) [of "CHR ''%''"] Let_def)
qed

text \<open>The encoding with a plus for a space.\<close>

definition encode_plus :: "char \<Rightarrow> string" where
  "encode_plus c = (if c = CHR '' '' then ''+'' else encode_char c)"

lemma unreserved_chars: "unreserved c \<Longrightarrow> c \<noteq> CHR ''+'' \<and> c \<noteq> CHR ''%'' \<and> c \<noteq> CHR ''&'' \<and> c \<noteq> CHR ''='' \<and> c \<noteq> CHR '' ''"
  by (auto simp: unreserved_def Let_def)

lemma form_decode_char: "form_decode (encode_plus c @ s) = c # form_decode s"
proof -
  have n: "(of_char c :: nat) < 256" by simp
  have c: "char_of (of_char c :: nat) = c" by simp
  show ?thesis
  proof (cases "c = CHR '' '' \<or> unreserved c")
    case True
    then show ?thesis
      using unreserved_chars [of c] by (auto simp: encode_plus_def encode_char_def Let_def form_decode.simps(2) [of c]
        form_decode.simps(2) [of "CHR ''+''"])
  next
    case False
    let ?n = "of_char c :: nat"
    show ?thesis
    proof (cases "?n < 128")
      case True
      then show ?thesis using False by (simp add: encode_plus_def encode_char_def Let_def form_decode_pct1)
    next
      case big: False
      have "?n div 64 < 4" "?n mod 64 < 64" using n by (simp_all add: less_mult_imp_div_less)
      moreover have "?n div 64 * 64 + ?n mod 64 = ?n" by simp
      ultimately have "form_decode (pct (192 + ?n div 64) @ pct (128 + ?n mod 64) @ s) = c # form_decode s"
        using form_decode_pct2 [of "192 + ?n div 64" "128 + ?n mod 64" s] c by simp
      then show ?thesis using big False by (simp add: encode_plus_def encode_char_def Let_def)
    qed
  qed
qed

lemma form_decode_text: "form_decode (concat (map encode_plus s)) = s"
  by (induction s) (simp_all add: form_decode_char)

lemma hex_char_range: "n < 16 \<Longrightarrow> (48 \<le> (of_char (hex_char n) :: nat) \<and> (of_char (hex_char n) :: nat) \<le> 57) \<or>
    (65 \<le> (of_char (hex_char n) :: nat) \<and> (of_char (hex_char n) :: nat) \<le> 70)"
  by (auto simp: hex_char_def)

lemma hex_char_not: "n < 16 \<Longrightarrow> hex_char n \<notin> {CHR ''%'', CHR ''&'', CHR ''='', CHR ''+''}"
  using hex_char_range [of n] by auto

lemma r20_plain: "c \<noteq> CHR ''%'' \<Longrightarrow> r20 (c # s) = c # r20 s"
  by (simp add: r20.simps)

lemma r20_Nil [simp]: "r20 [] = []"
  by (simp add: r20.simps)

lemma r20_pct:
  assumes "b < 256" "b \<noteq> 32"
  shows "r20 (pct b @ s) = pct b @ r20 s"
proof -
  let ?x = "hex_char (b div 16)" and ?y = "hex_char (b mod 16)"
  have d: "b div 16 < 16" "b mod 16 < 16" using assms(1) by (simp_all add: less_mult_imp_div_less)
  have "\<not> (?x = CHR ''2'' \<and> ?y = CHR ''0'')"
  proof
    assume "?x = CHR ''2'' \<and> ?y = CHR ''0''"
    then have "hex_val ?x = 2" "hex_val ?y = 0" by (simp_all add: hex_val_def)
    then have "b div 16 = 2" "b mod 16 = 0" using d by simp_all
    then show False using assms(2) by presburger
  qed
  moreover have "?x \<noteq> CHR ''%''" "?y \<noteq> CHR ''%''" using hex_char_not d by blast+
  ultimately show ?thesis by (auto simp: pct_def r20_plain r20.simps(2) [of "CHR ''%''"])
qed

lemma r20_char: "r20 (encode_char c @ s) = encode_plus c @ r20 s"
proof -
  let ?n = "of_char c :: nat"
  have n: "?n < 256" by simp
  consider "unreserved c" | "c = CHR '' ''" | "\<not> unreserved c" "c \<noteq> CHR '' ''" "?n < 128"
    | "\<not> unreserved c" "c \<noteq> CHR '' ''" "\<not> ?n < 128" by blast
  then show ?thesis
  proof cases
    case 1
    then show ?thesis using unreserved_chars [of c] by (simp add: encode_plus_def encode_char_def Let_def r20_plain)
  next
    case 2
    have "encode_char (CHR '' '') = ''%20''" by code_simp
    then show ?thesis using 2 by (simp add: encode_plus_def r20.simps(2) [of "CHR ''%''"])
  next
    case 3
    have "?n \<noteq> 32"
    proof
      assume "?n = 32"
      moreover have "(of_char (CHR '' '') :: nat) = 32" by simp
      ultimately have "(of_char c :: nat) = of_char (CHR '' '')" by simp
      then show False using 3(2) of_char_eq_iff by blast
    qed
    then show ?thesis using 3 by (simp add: encode_plus_def encode_char_def Let_def r20_pct)
  next
    case 4
    have "?n div 64 < 4" "?n mod 64 < 64" using n by (simp_all add: less_mult_imp_div_less)
    then have "192 + ?n div 64 < 256" "128 + ?n mod 64 < 256" by simp_all
    then show ?thesis using 4 by (simp add: encode_plus_def encode_char_def Let_def r20_pct)
  qed
qed

definition plus_text :: "string \<Rightarrow> string" where
  "plus_text s = concat (map encode_plus s)"

definition plus_pair :: "string \<times> string \<Rightarrow> string" where
  "plus_pair kv = plus_text (fst kv) @ ''='' @ plus_text (snd kv)"

lemma r20_text: "r20 (encodeURIComponent s @ t) = plus_text s @ r20 t"
  by (induction s) (simp_all add: encodeURIComponent_def plus_text_def r20_char)

lemma r20_pair: "r20 (encode_pair kv @ t) = plus_pair kv @ r20 t"
  by (simp add: encode_pair_def plus_pair_def r20_text r20_plain)

lemma r20_join: "r20 (join_with ''&'' (map encode_pair ps)) = join_with ''&'' (map plus_pair ps)"
proof (induction ps rule: induct_list012)
  case (2 p)
  show ?case using r20_pair [of p "[]"] by simp
next
  case (3 p q ps)
  then show ?case using r20_plain [of "CHR ''&''"] by (simp add: r20_pair)
qed simp

lemma pct_clean: "b < 256 \<Longrightarrow> CHR ''&'' \<notin> set (pct b) \<and> CHR ''='' \<notin> set (pct b)"
  using hex_char_not [of "b div 16"] hex_char_not [of "b mod 16"] by (auto simp: pct_def less_mult_imp_div_less)

lemma encode_plus_clean: "CHR ''&'' \<notin> set (encode_plus c) \<and> CHR ''='' \<notin> set (encode_plus c)"
proof -
  have n: "(of_char c :: nat) < 256" by simp
  then have "(of_char c :: nat) div 64 < 4" "(of_char c :: nat) mod 64 < 64" by (simp_all add: less_mult_imp_div_less)
  then have "192 + (of_char c :: nat) div 64 < 256" "128 + (of_char c :: nat) mod 64 < 256" by simp_all
  from this [THEN pct_clean] show ?thesis
    using n pct_clean [OF n] unreserved_chars [of c] by (auto simp: encode_plus_def encode_char_def Let_def)
qed

lemma plus_text_clean: "CHR ''&'' \<notin> set (plus_text s) \<and> CHR ''='' \<notin> set (plus_text s)"
  using encode_plus_clean by (auto simp: plus_text_def)

lemma read_plus_pair: "read_pair (plus_pair kv) = kv"
proof -
  have k: "\<forall>c\<in>set (plus_text (fst kv)). c \<noteq> CHR ''=''" using plus_text_clean [of "fst kv"] by blast
  have "form_decode (plus_text s) = s" for s by (simp add: plus_text_def form_decode_text)
  then show ?thesis using k by (simp add: read_pair_def plus_pair_def takeWhile_append2 dropWhile_append2)
qed

lemma form_parse_pairs: "form_parse (r20 (join_with ''&'' (map encode_pair ps))) = ps"
proof (cases "ps = []")
  case False
  then obtain p qs where "ps = p # qs" by (cases ps) auto
  then have "join_with ''&'' (map plus_pair ps) \<noteq> []" by (cases qs) (simp_all add: plus_pair_def)
  moreover have "\<forall>w\<in>set (map plus_pair ps). CHR ''&'' \<notin> set w"
    using plus_text_clean by (auto simp: plus_pair_def)
  ultimately have "form_parse (join_with ''&'' (map plus_pair ps)) = map read_pair (map plus_pair ps)"
    using False by (simp add: form_parse_def split_join_with)
  then show ?thesis by (simp add: r20_join read_plus_pair comp_def)
qed (simp add: form_parse_def)

section \<open>Properties\<close>


text \<open>The line ends of a submitted value: every one is the pair, and normalising again changes nothing.\<close>

lemma crlf_idem: "crlf (crlf s) = crlf s"
proof (induction s rule: crlf.induct)
  case (2 c s)
  then show ?case by (cases "c = CHR 0x0A"; cases "c = CHR 0x0D \<and> starts_with [CHR 0x0A] s"; cases s) auto
qed simp

text \<open>What a form submits reads back as the pairs of its successful controls.\<close>

lemma serialize_roundtrip: "form_parse (serialize this d) = serializeArray this"
proof -
  have "map ((\<lambda>(name, val). add_pair (pd_str name) val) \<circ> (\<lambda>(n, v). (PScalar n, PScalar v))) ps = ps" for ps
    by (induction ps) (auto simp: add_pair_def)
  then show ?thesis by (simp add: serialize_def param_def form_parse_pairs param_pairs_def)
qed

text \<open>
  An array of one empty array, or an object without properties, leaves no trace in the query; the
  index is written for null but not for a number.
\<close>

lemma param_drops_empty: "param (Object [(''a'', PArr []), (''b'', PObj [])]) (Some False) False = []"
  by (simp add: param_def param_pairs_def)

lemma param_null_index:
  "param_pairs (Object [(''a'', PArr [PNull, PScalar ''1'', PArr [PScalar ''2'']])]) False =
     [(''a[0]'', []), (''a[]'', ''1''), (''a[2][]'', ''2'')]"
  by code_simp

end
