(* ===== verification/Ajax_Types.thy ===== *)
theory Ajax_Types
  imports Core_Util
begin

text \<open>
  The parts of jquery.js that an ajax request is assembled from: the registry of prefilters and
  transports and its inspection, ajaxExtend, the choice of the response (ajaxHandleResponses), the
  chain of conversions (ajaxConvert), and the reading of URLs and of response headers.
\<close>

section \<open>Prefilters and transports\<close>

text \<open>A registered function works on the state of the request and returns a data type, a transport, or nothing.\<close>

datatype 't pf_result = PfType string | PfTransport 't | PfNone

fun pf_truthy :: "'t pf_result \<Rightarrow> bool" where
  "pf_truthy (PfType s) = (s \<noteq> [])"
| "pf_truthy (PfTransport t) = True"
| "pf_truthy PfNone = False"

type_synonym ('s, 't) registry = "('s \<Rightarrow> 't pf_result \<times> 's) list props"

definition funs_of :: "('s, 't) registry \<Rightarrow> string \<Rightarrow> ('s \<Rightarrow> 't pf_result \<times> 's) list" where
  "funs_of reg dt = (case map_of reg dt of None \<Rightarrow> [] | Some fs \<Rightarrow> fs)"

definition add_type :: "('s \<Rightarrow> 't pf_result \<times> 's) \<Rightarrow> string \<Rightarrow> ('s, 't) registry \<Rightarrow> ('s, 't) registry" where
  "add_type func dataType reg =
     (if starts_with ''+'' dataType then
        (let dt = (if drop 1 dataType = [] then ''*'' else drop 1 dataType) in
         prop_set dt (func # funs_of reg dt) reg)
      else prop_set dataType (funs_of reg dataType @ [func]) reg)"

text \<open>The expression is optional and defaults to the catchall; without a function nothing is added.\<close>

definition addToPrefiltersOrTransports :: "string option \<Rightarrow> ('s \<Rightarrow> 't pf_result \<times> 's) option \<Rightarrow> ('s, 't) registry \<Rightarrow> ('s, 't) registry" where
  "addToPrefiltersOrTransports dataTypeExpression func reg =
     (case func of None \<Rightarrow> reg
      | Some f \<Rightarrow> fold (add_type f)
          (ws_words (to_lower (case dataTypeExpression of None \<Rightarrow> ''*'' | Some e \<Rightarrow> e))) reg)"

text \<open>
  The functions of the data type under inspection, one by one; \<open>unshift\<close> puts a data type in front
  of those of the request. A prefilter that names a new data type ends the loop and starts its own.
\<close>

function inspect_funs :: "('s, 't) registry \<Rightarrow> bool \<Rightarrow> (string \<Rightarrow> 's \<Rightarrow> 's) \<Rightarrow> ('s \<Rightarrow> 't pf_result \<times> 's) list \<Rightarrow> string list
    \<Rightarrow> 's \<Rightarrow> 't pf_result \<times> string list \<times> 's" where
  "inspect_funs reg seeking unshift [] inspected s = (PfNone, inspected, s)"
| "inspect_funs reg seeking unshift (f # fs) inspected s =
     (case f s of (r, s1) \<Rightarrow>
        (case r of
           PfType dt \<Rightarrow>
             (if \<not> seeking \<and> dt \<notin> set inspected
              then inspect_funs reg seeking unshift (funs_of reg dt) (dt # inspected) (unshift dt s1)
              else if seeking \<and> dt \<noteq> [] then (PfType dt, inspected, s1)
              else inspect_funs reg seeking unshift fs inspected s1)
         | PfTransport t \<Rightarrow>
             (if seeking then (PfTransport t, inspected, s1)
              else inspect_funs reg seeking unshift fs inspected s1)
         | PfNone \<Rightarrow> inspect_funs reg seeking unshift fs inspected s1))"
  by pat_completeness auto
termination
proof -
  have *: "card (fst ` set reg - insert dt (set inspected)) < card (fst ` set reg - set inspected)
      \<or> fst ` set reg - insert dt (set inspected) = fst ` set reg - set inspected \<and> funs_of reg dt = []"
    if "dt \<notin> set inspected" for dt :: string and reg :: "('s, 't) registry" and inspected
  proof (cases "dt \<in> fst ` set reg")
    case True
    with that have "card (fst ` set reg - insert dt (set inspected)) < card (fst ` set reg - set inspected)"
      by (intro psubset_card_mono) auto
    then show ?thesis by simp
  next
    case False
    then have "map_of reg dt = None" by (simp add: map_of_eq_None_iff)
    with False show ?thesis by (auto simp: funs_of_def)
  qed
  show ?thesis
    using * by (relation "measures [\<lambda>(reg, seeking, unshift, fs, inspected, s). card (fst ` set reg - set inspected),
      \<lambda>(reg, seeking, unshift, fs, inspected, s). length fs]") fastforce+
qed

definition inspectPrefiltersOrTransports :: "('s, 't) registry \<Rightarrow> bool \<Rightarrow> (string \<Rightarrow> 's \<Rightarrow> 's) \<Rightarrow> string \<Rightarrow> 's \<Rightarrow> 't pf_result \<times> 's" where
  "inspectPrefiltersOrTransports reg seeking unshift dataType0 s =
     (case inspect_funs reg seeking unshift (funs_of reg dataType0) [dataType0] s of
        (selected, inspected, s1) \<Rightarrow>
          if pf_truthy selected then (selected, s1)
          else if ''*'' \<notin> set inspected
          then (case inspect_funs reg seeking unshift (funs_of reg ''*'') (''*'' # inspected) s1 of
                  (selected2, _, s2) \<Rightarrow> (selected2, s2))
          else (PfNone, s1))"

section \<open>ajaxExtend\<close>

text \<open>
  A flat option is assigned to the target, any other goes through an object that is merged deeply
  afterwards. The fuel is the one of \<open>jQuery.extend\<close>.
\<close>

definition extend_key :: "(string \<Rightarrow> bool) \<Rightarrow> nat \<Rightarrow> jsval \<Rightarrow> string \<Rightarrow> nat option \<times> heap \<Rightarrow> nat option \<times> heap" where
  "extend_key flatOptions target src key dh =
     (case dh of (deep, h) \<Rightarrow>
        (let v = get_prop h src key in
         if v = VUndef then (deep, h)
         else if flatOptions key then (deep, put target key v h)
         else (case deep of
             Some d \<Rightarrow> (Some d, put d key v h)
           | None \<Rightarrow> (case alloc new_object h of (d, h1) \<Rightarrow> (Some d, put d key v h1)))))"

definition ajaxExtend :: "nat \<Rightarrow> (string \<Rightarrow> bool) \<Rightarrow> nat \<Rightarrow> jsval \<Rightarrow> heap \<Rightarrow> heap option" where
  "ajaxExtend n flatOptions target src h =
     (case fold (extend_key flatOptions target src) (for_in h src) (None, h) of
        (None, h1) \<Rightarrow> Some h1
      | (Some d, h1) \<Rightarrow> map_option snd (jq_extend n target [VBool True, VObj target, VObj d] h1))"

text \<open>With settings the target becomes a full options object; without, the defaults are extended.\<close>

definition ajaxSetup :: "nat \<Rightarrow> (string \<Rightarrow> bool) \<Rightarrow> nat \<Rightarrow> nat \<Rightarrow> jsval \<Rightarrow> heap \<Rightarrow> (nat \<times> heap) option" where
  "ajaxSetup n flatOptions ajaxSettings target settings h =
     (if truthy settings then
        (case ajaxExtend n flatOptions target (VObj ajaxSettings) h of
           None \<Rightarrow> None
         | Some h1 \<Rightarrow> map_option (\<lambda>h2. (target, h2)) (ajaxExtend n flatOptions target settings h1))
      else map_option (\<lambda>h1. (ajaxSettings, h1)) (ajaxExtend n flatOptions ajaxSettings (VObj target) h))"

section \<open>Converters\<close>

text \<open>A converter is true (the formats are the same), a function that may throw, or missing.\<close>

datatype conv = Same | Conv "jsval \<Rightarrow> jsval + jsval" | NoConv

fun is_conv :: "conv \<Rightarrow> bool" where
  "is_conv NoConv = False"
| "is_conv _ = True"

fun is_same :: "conv \<Rightarrow> bool" where
  "is_same Same = True"
| "is_same _ = False"

definition conv_at :: "conv props \<Rightarrow> string \<Rightarrow> string \<Rightarrow> conv" where
  "conv_at cs src dst = (case map_of cs (src @ '' '' @ dst) of Some c \<Rightarrow> c | None \<Rightarrow> NoConv)"

definition conv_from :: "conv props \<Rightarrow> string \<Rightarrow> string \<Rightarrow> conv" where
  "conv_from cs src dst = (if is_conv (conv_at cs src dst) then conv_at cs src dst else conv_at cs ''*'' dst)"

record conv_settings =
  c_dataTypes :: "string list"
  c_converters :: "conv props"
  c_responseFields :: "string props"
  c_dataFilter :: "(jsval \<Rightarrow> jsval) option"
  c_throws :: bool
  c_contents :: "(string \<Rightarrow> bool) option props"
  c_mimeType :: string

section \<open>ajaxHandleResponses\<close>

fun find_content :: "(string \<Rightarrow> bool) option props \<Rightarrow> string \<Rightarrow> string option" where
  "find_content [] ct = None"
| "find_content ((t, test) # cs) ct =
     (case test of Some f \<Rightarrow> if f ct then Some t else find_content cs ct | None \<Rightarrow> find_content cs ct)"

text \<open>The first response that can be converted to the expected type, or else the first of all.\<close>

fun find_convertible :: "conv props \<Rightarrow> string \<Rightarrow> string list \<Rightarrow> string \<Rightarrow> string" where
  "find_convertible cs d0 [] firstDataType = firstDataType"
| "find_convertible cs d0 (t # ts) firstDataType =
     (if (d0 = [] \<or> is_conv (conv_at cs t d0)) \<and> t \<noteq> [] then t
      else if d0 = [] \<or> is_conv (conv_at cs t d0) then firstDataType
      else find_convertible cs d0 ts (if firstDataType = [] then t else firstDataType))"

definition ajaxHandleResponses :: "conv_settings \<Rightarrow> string option \<Rightarrow> jsval props \<Rightarrow> string list \<times> jsval" where
  "ajaxHandleResponses s content_type responses =
     (let dts = dropWhile (\<lambda>d. d = ''*'') (c_dataTypes s);
          ct = (if dts = c_dataTypes s then None
                else if c_mimeType s \<noteq> [] then Some (c_mimeType s) else content_type);
          dts1 = (case ct of None \<Rightarrow> dts
                  | Some c \<Rightarrow> if c = [] then dts
                      else (case find_content (c_contents s) c of Some t \<Rightarrow> t # dts | None \<Rightarrow> dts));
          d0 = (case dts1 of [] \<Rightarrow> [] | d # _ \<Rightarrow> d);
          final = (if prop_has (if dts1 = [] then ''undefined'' else d0) responses then d0
                   else find_convertible (c_converters s) d0 (map fst responses) []) in
      if final \<noteq> []
      then ((if dts1 = [] \<or> final \<noteq> d0 then final # dts1 else dts1), prop_get responses final)
      else (dts1, VUndef))"

section \<open>ajaxConvert\<close>

datatype conv_result = ConvSuccess jsval | ParserError jsval | Uncaught jsval

definition lower_keys :: "conv props \<Rightarrow> conv props" where
  "lower_keys cs = fold (\<lambda>(k, c). prop_set (to_lower k) c) cs []"

text \<open>
  The search for a pair of converters through an intermediate type. The result is the converter to
  apply now and, unless the two are condensed to one, the intermediate type.
\<close>

fun seek_pair :: "conv props \<Rightarrow> string \<Rightarrow> string \<Rightarrow> conv props \<Rightarrow> conv \<times> string option" where
  "seek_pair cs prev current [] = (NoConv, None)"
| "seek_pair cs prev current ((conv2, c2) # rest) =
     (let tmp = split_on (CHR '' '') conv2;
          conv = conv_from cs prev (tmp ! 0) in
      if 1 < length tmp \<and> tmp ! 1 = current \<and> is_conv conv then
        (if is_same conv then (c2, None)
         else if \<not> is_same c2 then (conv, Some (tmp ! 0))
         else (conv, None))
      else seek_pair cs prev current rest)"

text \<open>
  One turn of the loop, on the previous and the current type, the types left, the response and the
  fields of the jqXHR object; a type that has run out is the empty string, which ends the loop like
  undefined does.
\<close>

type_synonym conv_state = "string \<times> string \<times> string list \<times> jsval \<times> jsval props"

fun apply_conv :: "bool \<Rightarrow> conv \<Rightarrow> string \<Rightarrow> string \<Rightarrow> string list \<Rightarrow> jsval \<Rightarrow> jsval props
    \<Rightarrow> (conv_result \<times> jsval props) + conv_state" where
  "apply_conv throws Same prev current dts response xhr = Inr (prev, current, dts, response, xhr)"
| "apply_conv throws (Conv f) prev current dts response xhr =
     (case f response of
        Inr v \<Rightarrow> Inr (prev, current, dts, v, xhr)
      | Inl e \<Rightarrow> Inl (if throws then Uncaught e else ParserError e, xhr))"
| "apply_conv throws NoConv prev current dts response xhr =
     Inl (ParserError (VStr (''No conversion from '' @ prev @ '' to '' @ current)), xhr)"

fun conv_step :: "conv_settings \<Rightarrow> conv props \<Rightarrow> bool \<Rightarrow> conv_state \<Rightarrow> (conv_result \<times> jsval props) + conv_state" where
  "conv_step s cs isSuccess (prev0, current0, dts, response0, xhr0) =
     (if current0 = [] then Inl (ConvSuccess response0, xhr0)
      else
        (let xhr = (case map_of (c_responseFields s) current0 of
               Some f \<Rightarrow> if f \<noteq> [] then prop_set f response0 xhr0 else xhr0 | None \<Rightarrow> xhr0);
             response = (case c_dataFilter s of
               Some f \<Rightarrow> if prev0 = [] \<and> isSuccess then f response0 else response0 | None \<Rightarrow> response0);
             prev = current0;
             current = (case dts of [] \<Rightarrow> [] | d # _ \<Rightarrow> d);
             rest = drop 1 dts in
         if current = [] then Inr (prev, current, rest, response, xhr)
         else if current = ''*'' then Inr (prev, prev, rest, response, xhr)
         else if prev \<noteq> ''*'' \<and> prev \<noteq> current then
           (case (if is_conv (conv_from cs prev current) then (conv_from cs prev current, None)
                  else seek_pair cs prev current cs) of
              (conv, None) \<Rightarrow> apply_conv (c_throws s) conv prev current rest response xhr
            | (conv, Some mid) \<Rightarrow> apply_conv (c_throws s) conv prev mid (current # rest) response xhr)
         else Inr (prev, current, rest, response, xhr)))"

text \<open>The loop need not end, so its result is optional: None is a loop that runs forever.\<close>

partial_function (option) conv_loop :: "conv_settings \<Rightarrow> conv props \<Rightarrow> bool \<Rightarrow> conv_state \<Rightarrow> (conv_result \<times> jsval props) option" where
  "conv_loop s cs isSuccess st =
     (case conv_step s cs isSuccess st of Inl r \<Rightarrow> Some r | Inr st1 \<Rightarrow> conv_loop s cs isSuccess st1)"

declare conv_loop.simps [code]

definition ajaxConvert :: "conv_settings \<Rightarrow> jsval \<Rightarrow> jsval props \<Rightarrow> bool \<Rightarrow> (conv_result \<times> jsval props) option" where
  "ajaxConvert s response xhr isSuccess =
     (let dts = c_dataTypes s;
          cs = (if 1 < length dts \<and> dts ! 1 \<noteq> [] then lower_keys (c_converters s) else []) in
      conv_loop s cs isSuccess ([], case dts of [] \<Rightarrow> [] | d # _ \<Rightarrow> d, drop 1 dts, response, xhr))"

section \<open>Headers and URLs\<close>

text \<open>\<open>rheaders\<close>: lines with a colon; the value follows the first one and blanks.\<close>

fun header_lines :: "string \<Rightarrow> string list" where
  "header_lines [] = [[]]"
| "header_lines (c # s) =
     (if c = CHR 0x0A \<or> c = CHR 0x0D then [] # header_lines s
      else (case header_lines s of [] \<Rightarrow> [[c]] | w # ws \<Rightarrow> (c # w) # ws))"

definition header_pair :: "string \<Rightarrow> (string \<times> string) option" where
  "header_pair line =
     (case dropWhile (\<lambda>c. c \<noteq> CHR '':'') line of
        [] \<Rightarrow> None
      | _ # v \<Rightarrow> Some (takeWhile (\<lambda>c. c \<noteq> CHR '':'') line, dropWhile (\<lambda>c. c = CHR '' '' \<or> c = CHR 0x09) v))"

definition read_headers :: "string \<Rightarrow> string props" where
  "read_headers s = fold (\<lambda>line hs. case header_pair line of None \<Rightarrow> hs
      | Some (name, v) \<Rightarrow> prop_set (to_lower name) v hs) (header_lines s) []"

text \<open>\<open>rurl\<close> applied to a URL: the protocol with its colon, and host and port if there is an authority.\<close>

definition proto_char :: "char \<Rightarrow> bool" where
  "proto_char c \<longleftrightarrow>
     (let n = (of_char c :: nat) in
      (65 \<le> n \<and> n \<le> 90) \<or> (97 \<le> n \<and> n \<le> 122) \<or> (48 \<le> n \<and> n \<le> 57) \<or> n \<in> {95, 46, 43, 45})"

definition is_digit :: "char \<Rightarrow> bool" where
  "is_digit c \<longleftrightarrow> 48 \<le> (of_char c :: nat) \<and> (of_char c :: nat) \<le> 57"

definition after_userinfo :: "string \<Rightarrow> string" where
  "after_userinfo s =
     (let auth = takeWhile (\<lambda>c. c \<notin> {CHR ''/'', CHR ''?'', CHR ''#''}) s;
          tail = takeWhile (\<lambda>c. c \<noteq> CHR ''@'') (rev auth) in
      if CHR ''@'' \<in> set auth then drop (length auth - length tail) s else s)"

definition rurl :: "string \<Rightarrow> (string \<times> string option \<times> string option) option" where
  "rurl s =
     (let p = takeWhile proto_char s; r = drop (length p) s in
      if p = [] \<or> \<not> starts_with '':'' r then None
      else if starts_with ''://'' r then
        (let a = after_userinfo (drop 3 r);
             host = takeWhile (\<lambda>c. c \<notin> {CHR ''/'', CHR ''?'', CHR ''#'', CHR '':''}) a;
             after = drop (length host) a;
             port = (if starts_with '':'' after then takeWhile is_digit (drop 1 after) else []) in
         Some (p @ '':'', Some host, if port = [] then None else Some port))
      else Some (p @ '':'', None, None))"

definition port_of :: "string \<Rightarrow> string option \<Rightarrow> string" where
  "port_of proto port = (case port of Some p \<Rightarrow> p | None \<Rightarrow> if proto = ''http:'' then ''80'' else ''443'')"

text \<open>The location of the page may have no parts (rurl did not match); then every URL with parts is foreign.\<close>

definition crossDomain :: "string \<Rightarrow> string \<Rightarrow> bool" where
  "crossDomain ajaxLocation url =
     (case rurl (to_lower url) of
        None \<Rightarrow> False
      | Some (p1, p2, p3) \<Rightarrow>
          (case rurl (to_lower ajaxLocation) of
             None \<Rightarrow> True
           | Some (l1, l2, l3) \<Rightarrow> p1 \<noteq> l1 \<or> p2 \<noteq> l2 \<or> port_of p1 p3 \<noteq> port_of l1 l3))"

text \<open>The anti-cache parameter: \<open>rts\<close> finds the first parameter named with an underscore.\<close>

definition rquery :: "string \<Rightarrow> bool" where
  "rquery url \<longleftrightarrow> CHR ''?'' \<in> set url"

fun replace_rts :: "string \<Rightarrow> string \<Rightarrow> string option" where
  "replace_rts new [] = None"
| "replace_rts new (c # s) =
     (if (c = CHR ''?'' \<or> c = CHR ''&'') \<and> starts_with ''_='' s
      then Some (c # ''_='' @ new @ dropWhile (\<lambda>x. x \<noteq> CHR ''&'') (drop 2 s))
      else map_option ((#) c) (replace_rts new s))"

definition join_query :: "string \<Rightarrow> string \<Rightarrow> string" where
  "join_query url q = url @ (if rquery url then ''&'' else ''?'') @ q"

definition anti_cache :: "string \<Rightarrow> nat \<Rightarrow> string" where
  "anti_cache cacheURL nonce =
     (case replace_rts (nat_str nonce) cacheURL of
        Some u \<Rightarrow> u
      | None \<Rightarrow> join_query cacheURL (''_='' @ nat_str nonce))"

text \<open>The fragment is cut off, and a URL that starts with two slashes gets the protocol of the page.\<close>

definition page_protocol :: "string \<Rightarrow> string" where
  "page_protocol ajaxLocation = (case rurl (to_lower ajaxLocation) of Some (p, _) \<Rightarrow> p | None \<Rightarrow> ''undefined'')"

definition request_url :: "string \<Rightarrow> string \<Rightarrow> string \<Rightarrow> string" where
  "request_url ajaxLocation url s_url =
     (let u = takeWhile (\<lambda>c. c \<noteq> CHR ''#'') (if url \<noteq> [] then url else if s_url \<noteq> [] then s_url else ajaxLocation) in
      if starts_with ''//'' u then page_protocol ajaxLocation @ u else u)"

section \<open>Lemmas\<close>

text \<open>The conversion loop ends when every converter is there and is named by two types.\<close>

definition conv_good :: "conv props \<Rightarrow> bool" where
  "conv_good cs \<longleftrightarrow> list_all (\<lambda>(k, c). is_conv c \<and> length (split_on (CHR '' '') k) = 2) cs"

lemma lower_space [simp]: "lower_char c = CHR '' '' \<longleftrightarrow> c = CHR '' ''"
proof -
  have "char_of ((of_char c :: nat) + 32) \<noteq> CHR '' ''" if "65 \<le> (of_char c :: nat)" "(of_char c :: nat) \<le> 90"
  proof
    assume "char_of ((of_char c :: nat) + 32) = CHR '' ''"
    then have "(of_char (char_of ((of_char c :: nat) + 32) :: char) :: nat) = of_char (CHR '' '')" by (rule arg_cong)
    then show False using that by simp
  qed
  moreover have "lower_char (CHR '' '') = CHR '' ''" by code_simp
  ultimately show ?thesis by (auto simp: lower_char_def)
qed

lemma split_lower: "split_on (CHR '' '') (to_lower s) = map to_lower (split_on (CHR '' '') s)"
  by (induction s) (auto simp: to_lower_def split: list.split)

lemma set_prop_set: "set (prop_set k v ps) \<subseteq> insert (k, v) (set ps)"
  by (induction k v ps rule: prop_set.induct) auto

lemma conv_good_set: "conv_good cs \<Longrightarrow> is_conv c \<Longrightarrow> length (split_on (CHR '' '') k) = 2 \<Longrightarrow> conv_good (prop_set k c cs)"
  using set_prop_set [of k c cs] by (fastforce simp: conv_good_def list_all_iff)

lemma conv_good_lower: "conv_good cs \<Longrightarrow> conv_good (lower_keys cs)"
proof -
  have "conv_good cs \<Longrightarrow> conv_good ds \<Longrightarrow> conv_good (fold (\<lambda>(k, c). prop_set (to_lower k) c) cs ds)" for ds
  proof (induction cs arbitrary: ds)
    case (Cons x cs)
    obtain k c where x: "x = (k, c)" by (cases x)
    with Cons.prems have "conv_good cs" "is_conv c" "length (split_on (CHR '' '') (to_lower k)) = 2"
      by (simp_all add: conv_good_def split_lower)
    with Cons.IH Cons.prems(2) x conv_good_set show ?case by simp
  qed simp
  then show "conv_good cs \<Longrightarrow> conv_good (lower_keys cs)" by (simp add: lower_keys_def conv_good_def)
qed

lemma conv_good_at: "conv_good cs \<Longrightarrow> (src @ '' '' @ dst, c) \<in> set cs \<Longrightarrow> is_conv (conv_at cs src dst)"
proof -
  assume g: "conv_good cs" and "(src @ '' '' @ dst, c) \<in> set cs"
  then obtain d where d: "map_of cs (src @ '' '' @ dst) = Some d"
    by (metis weak_map_of_SomeI)
  then have "is_conv d" using g map_of_SomeD [OF d] by (auto simp: conv_good_def list_all_iff)
  with d show "is_conv (conv_at cs src dst)" by (simp add: conv_at_def)
qed

lemma seek_pair_mid:
  assumes "conv_good cs" "set rest \<subseteq> set cs" "seek_pair cs prev current rest = (conv, Some mid)"
  shows "is_conv (conv_at cs mid current)"
  using assms(2,3)
proof (induction rest)
  case (Cons x rest)
  obtain k c2 where x: "x = (k, c2)" by (cases x)
  let ?tmp = "split_on (CHR '' '') k"
  show ?case
  proof (cases "1 < length ?tmp \<and> ?tmp ! 1 = current \<and> is_conv (conv_from cs prev (?tmp ! 0))")
    case True
    then have m: "?tmp ! 0 = mid" using Cons.prems x by (auto simp: Let_def split: if_splits)
    have "length ?tmp = 2" using assms(1) Cons.prems(1) x by (auto simp: conv_good_def list_all_iff)
    then have "?tmp = [mid, current]" using True m by (auto simp: length_Suc_conv numeral_2_eq_2)
    then have "k = mid @ '' '' @ current" using join_split_on [of "CHR '' ''" k] by simp
    then show ?thesis using conv_good_at [OF assms(1)] Cons.prems(1) x by auto
  next
    case False
    then show ?thesis using Cons x by (auto simp: Let_def)
  qed
qed simp

definition direct :: "conv props \<Rightarrow> string \<Rightarrow> string list \<Rightarrow> bool" where
  "direct cs current dts \<longleftrightarrow>
     (case dts of [] \<Rightarrow> True
      | d # _ \<Rightarrow> d = [] \<or> d = ''*'' \<or> current = ''*'' \<or> current = d \<or> is_conv (conv_from cs current d))"

fun conv_measure :: "conv props \<Rightarrow> conv_state \<Rightarrow> nat" where
  "conv_measure cs (prev, current, dts, response, xhr) =
     3 * length dts + (if current = [] then 0 else if direct cs current dts then 1 else 2)"

lemma conv_measure_bound: "conv_measure cs (prev, current, dts, response, xhr) \<le> 3 * length dts + 2"
  by simp

lemma apply_conv_state:
  "apply_conv th conv prev current dts response xhr = Inr st \<Longrightarrow> \<exists>v. st = (prev, current, dts, v, xhr)"
  by (cases conv) (auto split: sum.splits)

lemma conv_step_decreases:
  assumes "conv_good cs" "conv_step s cs b st = Inr st1"
  shows "conv_measure cs st1 < conv_measure cs st"
proof -
  obtain prev0 cur dts r x where st: "st = (prev0, cur, dts, r, x)" by (metis prod_cases5)
  have cur: "cur \<noteq> []" using assms(2) st by (auto split: if_splits)
  have consumed: "conv_measure cs (p, c, drop 1 dts, v, y) < conv_measure cs st" if "dts \<noteq> []" for p c v y
    using that cur st by (cases dts) auto
  show ?thesis
  proof (cases dts)
    case Nil
    then show ?thesis using assms(2) st cur by (auto simp: Let_def direct_def)
  next
    case (Cons d rest)
    show ?thesis
    proof (cases "direct cs cur dts")
      case True
      have "\<exists>p c v y. st1 = (p, c, drop 1 dts, v, y)"
        using assms(2) st cur Cons True
        by (auto simp: Let_def direct_def split: if_splits dest!: apply_conv_state)
      then show ?thesis using consumed Cons by blast
    next
      case False
      then have d: "d \<noteq> []" "d \<noteq> ''*''" "cur \<noteq> ''*''" "cur \<noteq> d" "\<not> is_conv (conv_from cs cur d)"
        using Cons by (auto simp: direct_def)
      obtain conv m where sp: "seek_pair cs cur d cs = (conv, m)" by (metis surj_pair)
      show ?thesis
      proof (cases m)
        case None
        then have "\<exists>p c v y. st1 = (p, c, drop 1 dts, v, y)"
          using assms(2) st cur Cons d sp by (auto simp: Let_def dest!: apply_conv_state)
        then show ?thesis using consumed Cons by blast
      next
        case (Some mid)
        then have "\<exists>p v y. st1 = (p, mid, dts, v, y)"
          using assms(2) st cur Cons d sp by (auto simp: Let_def dest!: apply_conv_state)
        moreover have "is_conv (conv_at cs mid d)" using seek_pair_mid [OF assms(1) subset_refl] sp Some by blast
        then have "direct cs mid dts" using Cons by (simp add: direct_def conv_from_def)
        ultimately show ?thesis using st cur False by auto
      qed
    qed
  qed
qed

lemma conv_loop_ends: "conv_good cs \<Longrightarrow> \<exists>r. conv_loop s cs b st = Some r"
proof (induction "conv_measure cs st" arbitrary: st rule: less_induct)
  case less
  show ?case
  proof (cases "conv_step s cs b st")
    case (Inl r)
    then show ?thesis by (subst conv_loop.simps) simp
  next
    case (Inr st1)
    then show ?thesis using less conv_step_decreases [OF less.prems Inr] by (subst conv_loop.simps) simp
  qed
qed

section \<open>Properties\<close>

text \<open>
  C17: The conversion of a response comes to an end, with success or an error, when no converter is
  switched off and each is named by two types.
\<close>

theorem ajaxConvert_ends:
  assumes "list_all (\<lambda>(k, c). is_conv c \<and> length (split_on (CHR '' '') k) = 2) (c_converters s)"
  shows "\<exists>r. ajaxConvert s response xhr isSuccess = Some r"
proof -
  have "conv_good (lower_keys (c_converters s))" "conv_good []"
    using assms conv_good_lower by (simp_all add: conv_good_def)
  then show ?thesis using conv_loop_ends by (simp add: ajaxConvert_def Let_def)
qed

text \<open>The converters of ajaxSettings; the parsers belong to the browser.\<close>

definition default_converters :: "(jsval \<Rightarrow> jsval + jsval) \<Rightarrow> (jsval \<Rightarrow> jsval + jsval) \<Rightarrow> conv props" where
  "default_converters parseJSON parseXML =
     [(''* text'', Conv (\<lambda>v. Inr (VStr (js_str v)))), (''text html'', Same), (''text json'', Conv parseJSON),
      (''text xml'', Conv parseXML)]"

definition json_settings :: "conv props \<Rightarrow> conv_settings" where
  "json_settings cs =
     \<lparr>c_dataTypes = [''json''], c_converters = cs, c_responseFields = [(''xml'', ''responseXML''), (''text'', ''responseText''),
        (''json'', ''responseJSON'')], c_dataFilter = None, c_throws = False, c_contents = [], c_mimeType = []\<rparr>"

theorem ajaxConvert_ends_witness:
  "\<exists>r. ajaxConvert (json_settings (default_converters Inr Inr)) (VStr ''1'') [] True = Some r"
  by (rule ajaxConvert_ends) (simp add: json_settings_def default_converters_def)

text \<open>
  With the converter from text to json switched off, as the settings allow for any key, a text
  response to a request for json converts to text and back to the same state without end.
\<close>

lemma conv_loop_stuck:
  assumes "\<And>st. I st \<Longrightarrow> \<exists>st1. conv_step s cs b st = Inr st1 \<and> I st1" "I st"
  shows "conv_loop s cs b st = None"
proof -
  have "s' = s \<longrightarrow> cs' = cs \<longrightarrow> b' = b \<longrightarrow> \<not> I st" if "conv_loop s' cs' b' st = Some r" for s' cs' b' st r
  proof (rule conv_loop.raw_induct [OF _ that], intro impI notI)
    fix loop s2 cs2 b2 st r
    assume ih: "\<And>s1 cs1 b1 st y. loop s1 cs1 b1 st = Some y \<Longrightarrow> s1 = s \<longrightarrow> cs1 = cs \<longrightarrow> b1 = b \<longrightarrow> \<not> I st"
      and body: "(case conv_step s2 cs2 b2 st of Inl r \<Rightarrow> Some r | Inr st1 \<Rightarrow> loop s2 cs2 b2 st1) = Some r"
      and eqs: "s2 = s" "cs2 = cs" "b2 = b" and "I st"
    then obtain st1 where "conv_step s cs b st = Inr st1" "I st1" using assms(1) by blast
    then show False using ih body eqs by auto
  qed
  then show ?thesis using assms(2) by (cases "conv_loop s cs b st") auto
qed

definition without_text_json :: "(jsval \<Rightarrow> jsval + jsval) \<Rightarrow> (jsval \<Rightarrow> jsval + jsval) \<Rightarrow> conv_settings" where
  "without_text_json parseJSON parseXML =
     json_settings (prop_set ''text json'' NoConv (default_converters parseJSON parseXML))"

text \<open>
  With the converter from text to json switched off (its entry set to false), the text response
  to a request for json puts the conversion into an endless loop: it neither succeeds nor reports the
  missing conversion.
\<close>

theorem disabled_converter_hangs:
  "case ajaxHandleResponses (without_text_json parseJSON parseXML) None [(''text'', VStr body)] of
     (dts, response) \<Rightarrow>
       dts = [''text'', ''json''] \<and> response = VStr body
       \<and> ajaxConvert ((without_text_json parseJSON parseXML)\<lparr>c_dataTypes := dts\<rparr>) response xhr True = None"
proof -
  let ?s = "(without_text_json parseJSON parseXML)\<lparr>c_dataTypes := [''text'', ''json'']\<rparr>"
  let ?cs = "lower_keys (c_converters ?s)"
  have h: "ajaxHandleResponses (without_text_json parseJSON parseXML) None [(''text'', VStr body)] = ([''text'', ''json''], VStr body)"
    by (simp add: ajaxHandleResponses_def without_text_json_def json_settings_def default_converters_def conv_at_def
        prop_has_def prop_get_def Let_def)
  have l: "to_lower ''* text'' = ''* text''" "to_lower ''text html'' = ''text html''" "to_lower ''text json'' = ''text json''"
    "to_lower ''text xml'' = ''text xml''" by code_simp+
  have cs: "?cs = prop_set ''text json'' NoConv (default_converters parseJSON parseXML)"
    by (simp add: lower_keys_def without_text_json_def json_settings_def default_converters_def l)
  have step: "\<exists>st1. conv_step ?s ?cs True st = Inr st1 \<and> (\<exists>p r x. st1 = (p, ''text'', [''json''], r, x))"
    if "\<exists>p r x. st = (p, ''text'', [''json''], r, x)" for st
    using that unfolding cs
    by (auto simp: default_converters_def conv_from_def conv_at_def without_text_json_def json_settings_def Let_def)
  have "conv_loop ?s ?cs True ([], ''text'', [''json''], VStr body, xhr) = None"
    by (rule conv_loop_stuck [where I="\<lambda>st. \<exists>p r x. st = (p, ''text'', [''json''], r, x)", OF step]) auto
  then show ?thesis by (simp add: h ajaxConvert_def Let_def)
qed

end
