(* ===== verification/Ajax.thy ===== *)
theory Ajax
  imports Ajax_Types Serialize
begin

text \<open>
  One request of jQuery.ajax: the settings, the jqXHR object and its methods, the preparation of the
  request, the dispatch to a transport and the function done. The deferred and the complete list are
  the ones of the theories on callbacks; here a settlement is an event of the trace, once. Prefilters,
  transports, beforeSend and the handlers of ajaxSend are arbitrary: they return the calls that they
  make of the jqXHR object. The listeners run when the request is over, where such calls do nothing.
\<close>

section \<open>State\<close>

datatype adata = NoData | DataStr string | DataObj param_arg

record aset =
  a_url :: string
  a_type :: string
  a_conv :: conv_settings
  a_data :: adata
  a_traditional :: bool
  a_processData :: bool
  a_hasContent :: bool
  a_global :: bool
  a_async :: bool
  a_ifModified :: bool
  a_cache :: "bool option"
  a_contentType :: "string option"   \<comment> \<open>None is false\<close>
  a_headers :: "string props"
  a_accepts :: "string props"
  a_timeout :: int
  a_crossDomain :: "bool option"

text \<open>A call of done by the transport: status, status text, responses and headers.\<close>

datatype done_call = DoneCall int jsval "jsval props option" string

text \<open>A transport: the calls of done that send makes at once and the exception it then throws; the calls that abort makes.\<close>

record atransport =
  t_send :: "string props \<Rightarrow> done_call list \<times> jsval option"
  t_abort :: "done_call list"

datatype aevent =
    Trigger string
  | Resolved jsval jsval                 \<comment> \<open>data and status text\<close>
  | Rejected jsval jsval                 \<comment> \<open>status text and error\<close>
  | StatusCallbacks "nat list"
  | Completed jsval
  | SentRequest "string props"
  | AbortedTransport jsval

record areq =
  opts :: aset
  rstate :: nat
  readyState :: nat
  requestHeaders :: "string props"
  requestHeadersNames :: "string props"
  responseHeadersString :: string
  responseHeaders :: "string props option"
  transport :: "atransport option"
  timeoutTimer :: bool
  fireGlobals :: bool
  strAbort :: string
  statusCode :: "(int \<times> nat list) list option"
  cacheURL :: string
  xhrFields :: "jsval props"
  jstatus :: int
  jstatusText :: string
  settled :: bool
  completed :: bool
  active :: int
  lastModified :: "string props"
  etag :: "string props"
  nonce :: nat
  trace :: "aevent list"

text \<open>A piece of code returns, throws, or does not come back.\<close>

datatype aresult = Returns areq | Throws jsval areq | Diverges

fun and_then :: "aresult \<Rightarrow> (areq \<Rightarrow> aresult) \<Rightarrow> aresult" where
  "and_then (Returns q) f = f q"
| "and_then r f = r"

definition emit :: "aevent \<Rightarrow> areq \<Rightarrow> areq" where
  "emit e q = q\<lparr>trace := trace q @ [e]\<rparr>"

section \<open>Methods of the jqXHR object\<close>

definition getResponseHeader :: "string \<Rightarrow> areq \<Rightarrow> string option \<times> areq" where
  "getResponseHeader key q =
     (if rstate q = 2 then
        (let hs = (case responseHeaders q of None \<Rightarrow> read_headers (responseHeadersString q) | Some hs \<Rightarrow> hs) in
         (map_of hs (to_lower key), q\<lparr>responseHeaders := Some hs\<rparr>))
      else (None, q))"

definition getAllResponseHeaders :: "areq \<Rightarrow> string option" where
  "getAllResponseHeaders q = (if rstate q = 2 then Some (responseHeadersString q) else None)"

definition setRequestHeader :: "string \<Rightarrow> string \<Rightarrow> areq \<Rightarrow> areq" where
  "setRequestHeader name v q =
     (let lname = to_lower name in
      if rstate q = 0 then
        (let name1 = (case map_of (requestHeadersNames q) lname of
               Some n \<Rightarrow> if n \<noteq> [] then n else name | None \<Rightarrow> name) in
         q\<lparr>requestHeadersNames := prop_set lname name1 (requestHeadersNames q),
           requestHeaders := prop_set name1 v (requestHeaders q)\<rparr>)
      else q)"

definition overrideMimeType :: "string \<Rightarrow> areq \<Rightarrow> areq" where
  "overrideMimeType t q =
     (if rstate q = 0 then q\<lparr>opts := (opts q)\<lparr>a_conv := (a_conv (opts q))\<lparr>c_mimeType := t\<rparr>\<rparr>\<rparr> else q)"

fun add_code :: "int \<times> nat \<Rightarrow> (int \<times> nat list) list \<Rightarrow> (int \<times> nat list) list" where
  "add_code (code, f) [] = [(code, [f])]"
| "add_code (code, f) ((c, fs) # m) = (if c = code then (c, fs @ [f]) # m else (c, fs) # add_code (code, f) m)"

definition run_status :: "(int \<times> nat list) list \<Rightarrow> areq \<Rightarrow> areq" where
  "run_status m q = (case map_of m (jstatus q) of Some fs \<Rightarrow> emit (StatusCallbacks fs) q | None \<Rightarrow> q)"

definition add_statusCode :: "(int \<times> nat) list \<Rightarrow> areq \<Rightarrow> areq" where
  "add_statusCode m q =
     (if rstate q < 2 then q\<lparr>statusCode := map_option (\<lambda>sc. fold add_code m sc) (statusCode q)\<rparr>
      else run_status (map (\<lambda>(c, f). (c, [f])) m) q)"

section \<open>done\<close>

definition resolveWith :: "jsval \<Rightarrow> jsval \<Rightarrow> areq \<Rightarrow> areq" where
  "resolveWith data text q = (if settled q then q else emit (Resolved data text) (q\<lparr>settled := True\<rparr>))"

definition rejectWith :: "jsval \<Rightarrow> jsval \<Rightarrow> areq \<Rightarrow> areq" where
  "rejectWith text error q = (if settled q then q else emit (Rejected text error) (q\<lparr>settled := True\<rparr>))"

definition fire_complete :: "jsval \<Rightarrow> areq \<Rightarrow> areq" where
  "fire_complete text q = (if completed q then q else emit (Completed text) (q\<lparr>completed := True\<rparr>))"

definition ok_status :: "int \<Rightarrow> bool" where
  "ok_status status \<longleftrightarrow> 200 \<le> status \<and> status < 300 \<or> status = 304"

definition store_modified :: "areq \<Rightarrow> areq" where
  "store_modified q =
     (if a_ifModified (opts q) then
        (case getResponseHeader ''Last-Modified'' q of (m, q1) \<Rightarrow>
           (let q2 = (case m of Some v \<Rightarrow> if v \<noteq> [] then q1\<lparr>lastModified := prop_set (cacheURL q1) v (lastModified q1)\<rparr> else q1
                      | None \<Rightarrow> q1) in
            case getResponseHeader ''etag'' q2 of (m2, q3) \<Rightarrow>
              (case m2 of Some v \<Rightarrow> if v \<noteq> [] then q3\<lparr>etag := prop_set (cacheURL q3) v (etag q3)\<rparr> else q3 | None \<Rightarrow> q3)))
      else q)"

text \<open>The outcome: whether it is a success, the status, the status text, the data and the error.\<close>

definition outcome :: "int \<Rightarrow> jsval \<Rightarrow> string \<Rightarrow> conv_result \<Rightarrow> bool \<times> int \<times> jsval \<times> jsval \<times> jsval" where
  "outcome status native type response =
     (if ok_status status then
        (if status = 204 \<or> type = ''HEAD'' then (True, status, VStr ''nocontent'', VUndef, VUndef)
         else if status = 304 then (True, status, VStr ''notmodified'', VUndef, VUndef)
         else case response of
           ConvSuccess d \<Rightarrow> (True, status, VStr ''success'', d, VUndef)
         | ParserError e \<Rightarrow> (\<not> truthy e, status, VStr ''parsererror'', VUndef, e)
         | Uncaught e \<Rightarrow> (False, status, native, VUndef, e))
      else if status \<noteq> 0 \<or> \<not> truthy native then (False, if status < 0 then 0 else status, VStr ''error'', VUndef, native)
      else (False, status, native, VUndef, native))"

definition fire_globals_end :: "bool \<Rightarrow> areq \<Rightarrow> areq" where
  "fire_globals_end ok q = (if fireGlobals q then emit (Trigger (if ok then ''ajaxSuccess'' else ''ajaxError'')) q else q)"

definition global_complete :: "areq \<Rightarrow> areq" where
  "global_complete q =
     (if fireGlobals q then
        (let q1 = emit (Trigger ''ajaxComplete'') q; q2 = q1\<lparr>active := active q1 - 1\<rparr> in
         if active q2 = 0 then emit (Trigger ''ajaxStop'') q2 else q2)
      else q)"

definition settle :: "int \<Rightarrow> jsval \<Rightarrow> conv_result \<Rightarrow> areq \<Rightarrow> areq" where
  "settle status0 native response q =
     (let q1 = (if ok_status status0 then store_modified q else q) in
      case outcome status0 native (a_type (opts q)) response of
        (ok, status, text, success, error) \<Rightarrow>
          (let q2 = q1\<lparr>jstatus := status, jstatusText := js_str (if truthy native then native else text)\<rparr>;
               q3 = (if ok then resolveWith success text q2 else rejectWith text error q2);
               q4 = (case statusCode q3 of Some m \<Rightarrow> run_status m q3 | None \<Rightarrow> q3);
               q5 = q4\<lparr>statusCode := None\<rparr> in
           global_complete (fire_complete text (fire_globals_end ok q5))))"

definition done_fn :: "done_call \<Rightarrow> areq \<Rightarrow> aresult" where
  "done_fn call q =
     (case call of DoneCall status native responses headers \<Rightarrow>
        if rstate q = 2 then Returns q
        else
          (let q1 = q\<lparr>rstate := 2, timeoutTimer := False, transport := None, responseHeadersString := headers,
                  readyState := (if status > 0 then 4 else 0)\<rparr>;
               (response, q2) =
                 (case responses of
                    None \<Rightarrow> (VUndef, q1)
                  | Some rs \<Rightarrow>
                      (case (if take 1 (c_dataTypes (a_conv (opts q1))) = [''*''] \<and> c_mimeType (a_conv (opts q1)) = []
                             then getResponseHeader ''Content-Type'' q1 else (None, q1)) of (ct, q1a) \<Rightarrow>
                       (case ajaxHandleResponses (a_conv (opts q1a)) ct rs of (dts, r) \<Rightarrow>
                         (r, q1a\<lparr>opts := (opts q1a)\<lparr>a_conv := (a_conv (opts q1a))\<lparr>c_dataTypes := dts\<rparr>\<rparr>\<rparr>)))) in
           case ajaxConvert (a_conv (opts q2)) response (xhrFields q2) (ok_status status) of
             None \<Rightarrow> Diverges
           | Some (Uncaught e, fs) \<Rightarrow> Throws e (q2\<lparr>xhrFields := fs\<rparr>)
           | Some (r, fs) \<Rightarrow> Returns (settle status native r (q2\<lparr>xhrFields := fs\<rparr>))))"

fun dones :: "done_call list \<Rightarrow> areq \<Rightarrow> aresult" where
  "dones [] q = Returns q"
| "dones (c # cs) q = and_then (done_fn c q) (dones cs)"

definition abort :: "string option \<Rightarrow> areq \<Rightarrow> aresult" where
  "abort statusText q =
     (let finalText = VStr (case statusText of Some t \<Rightarrow> if t \<noteq> [] then t else strAbort q | None \<Rightarrow> strAbort q) in
      and_then (case transport q of
           Some t \<Rightarrow> dones (t_abort t) (emit (AbortedTransport finalText) q)
         | None \<Rightarrow> Returns q)
        (done_fn (DoneCall 0 finalText None [])))"

section \<open>Calls of the jqXHR object by hooks\<close>

text \<open>A hook is given the settings and can change them; everything else goes through the methods.\<close>

datatype xcall =
    SetHeader string string
  | OverrideMime string
  | StatusCode "(int \<times> nat) list"
  | Abort "string option"
  | SetOptions "aset \<Rightarrow> aset"

fun run_call :: "xcall \<Rightarrow> areq \<Rightarrow> aresult" where
  "run_call (SetHeader name v) q = Returns (setRequestHeader name v q)"
| "run_call (OverrideMime t) q = Returns (overrideMimeType t q)"
| "run_call (StatusCode m) q = Returns (add_statusCode m q)"
| "run_call (Abort t) q = abort t q"
| "run_call (SetOptions f) q = Returns (q\<lparr>opts := f (opts q)\<rparr>)"

fun run_calls :: "xcall list \<Rightarrow> areq \<Rightarrow> aresult" where
  "run_calls [] q = Returns q"
| "run_calls (c # cs) q = and_then (run_call c q) (run_calls cs)"

type_synonym hook = "areq \<Rightarrow> atransport pf_result \<times> xcall list"

text \<open>A hook in the registry: it is run unless a call before it has not returned.\<close>

definition lift_hook :: "hook \<Rightarrow> aresult \<Rightarrow> atransport pf_result \<times> aresult" where
  "lift_hook h st =
     (case st of
        Returns q \<Rightarrow> (case h q of (r, calls) \<Rightarrow> (case run_calls calls q of Returns q1 \<Rightarrow> (r, Returns q1) | st1 \<Rightarrow> (PfNone, st1)))
      | st \<Rightarrow> (PfNone, st))"

definition unshift_type :: "string \<Rightarrow> aresult \<Rightarrow> aresult" where
  "unshift_type dt st =
     and_then st (\<lambda>q. Returns (q\<lparr>opts := (opts q)\<lparr>a_conv := (a_conv (opts q))\<lparr>c_dataTypes := dt # c_dataTypes (a_conv (opts q))\<rparr>\<rparr>\<rparr>))"

definition first_type :: "areq \<Rightarrow> string" where
  "first_type q = (case c_dataTypes (a_conv (opts q)) of [] \<Rightarrow> ''undefined'' | d # _ \<Rightarrow> d)"

definition inspect :: "hook list props \<Rightarrow> bool \<Rightarrow> areq \<Rightarrow> atransport pf_result \<times> aresult" where
  "inspect reg seeking q =
     inspectPrefiltersOrTransports (map (\<lambda>(k, hs). (k, map lift_hook hs)) reg) seeking unshift_type (first_type q) (Returns q)"

record ajax_env =
  e_location :: string
  e_prefilters :: "hook list props"
  e_transports :: "hook list props"
  e_beforeSend :: "(areq \<Rightarrow> xcall list \<times> bool) option"   \<comment> \<open>its calls, and whether it returns false\<close>
  e_ajaxSend :: "areq \<Rightarrow> xcall list"                        \<comment> \<open>what the handlers of ajaxSend call\<close>
  e_defaultTraditional :: bool

text \<open>The options that the caller gives and that are read apart from the merged settings.\<close>

record ajax_options =
  o_url :: string
  o_method :: string
  o_type :: string
  o_dataType :: string
  o_contentType :: bool
  s_method :: string

section \<open>Preparing the request\<close>

definition data_types :: "string \<Rightarrow> string list" where
  "data_types dataType =
     (let ws = ws_words (to_lower (js_trim (if dataType \<noteq> [] then dataType else ''*''))) in if ws = [] then [[]] else ws)"

definition prepare :: "ajax_env \<Rightarrow> ajax_options \<Rightarrow> aset \<Rightarrow> aset" where
  "prepare env op s =
     (let url = request_url (e_location env) (o_url op) (a_url s) in
      s\<lparr>a_url := url,
        a_type := (if o_method op \<noteq> [] then o_method op else if o_type op \<noteq> [] then o_type op
                   else if s_method op \<noteq> [] then s_method op else a_type s),
        a_conv := (a_conv s)\<lparr>c_dataTypes := data_types (o_dataType op)\<rparr>,
        a_crossDomain := (case a_crossDomain s of None \<Rightarrow> Some (crossDomain (e_location env) url) | b \<Rightarrow> b),
        a_data := (case a_data s of
            DataObj a \<Rightarrow> if a_processData s then DataStr (param a (Some (a_traditional s)) (e_defaultTraditional env)) else DataObj a
          | d \<Rightarrow> d)\<rparr>)"

definition start_globals :: "areq \<Rightarrow> areq" where
  "start_globals q =
     (let q1 = q\<lparr>fireGlobals := a_global (opts q)\<rparr> in
      if fireGlobals q1 then
        (let q2 = (if active q1 = 0 then emit (Trigger ''ajaxStart'') q1 else q1) in q2\<lparr>active := active q1 + 1\<rparr>)
      else q1)"

definition has_data :: "adata \<Rightarrow> bool" where
  "has_data d = (case d of NoData \<Rightarrow> False | DataStr s \<Rightarrow> s \<noteq> [] | DataObj a \<Rightarrow> True)"

definition data_text :: "adata \<Rightarrow> string" where
  "data_text d = (case d of DataStr s \<Rightarrow> s | DataObj a \<Rightarrow> ''[object Object]'' | NoData \<Rightarrow> ''undefined'')"

text \<open>The URL of a request without content carries the data and the anti-cache parameter.\<close>

definition build_url :: "areq \<Rightarrow> areq" where
  "build_url q0 =
     (let t = to_upper (a_type (opts q0));
          q = q0\<lparr>opts := (opts q0)\<lparr>a_type := t, a_hasContent := (t \<noteq> ''GET'' \<and> t \<noteq> ''HEAD'')\<rparr>, cacheURL := a_url (opts q0)\<rparr> in
      if a_hasContent (opts q) then q
      else
        (let q1 = (if has_data (a_data (opts q)) then
               (let u = join_query (cacheURL q) (data_text (a_data (opts q))) in
                q\<lparr>cacheURL := u, opts := (opts q)\<lparr>a_url := u, a_data := NoData\<rparr>\<rparr>)
             else q) in
         if a_cache (opts q1) = Some False
         then q1\<lparr>opts := (opts q1)\<lparr>a_url := anti_cache (cacheURL q1) (nonce q1)\<rparr>, nonce := nonce q1 + 1\<rparr>
         else q1))"

definition conditional_headers :: "areq \<Rightarrow> areq" where
  "conditional_headers q =
     (if a_ifModified (opts q) then
        (let q1 = (case map_of (lastModified q) (cacheURL q) of
               Some v \<Rightarrow> if v \<noteq> [] then setRequestHeader ''If-Modified-Since'' v q else q | None \<Rightarrow> q) in
         (case map_of (etag q1) (cacheURL q1) of
               Some v \<Rightarrow> if v \<noteq> [] then setRequestHeader ''If-None-Match'' v q1 else q1 | None \<Rightarrow> q1))
      else q)"

definition content_header :: "bool \<Rightarrow> areq \<Rightarrow> areq" where
  "content_header given q =
     (if has_data (a_data (opts q)) \<and> a_hasContent (opts q) \<and> a_contentType (opts q) \<noteq> None \<or> given
      then setRequestHeader ''Content-Type'' (case a_contentType (opts q) of Some c \<Rightarrow> c | None \<Rightarrow> ''false'') q else q)"

definition accept_header :: "areq \<Rightarrow> areq" where
  "accept_header q =
     (let d0 = first_type q;
          acc = (case map_of (a_accepts (opts q)) d0 of Some a \<Rightarrow> a | None \<Rightarrow> []);
          any = (case map_of (a_accepts (opts q)) ''*'' of Some a \<Rightarrow> a | None \<Rightarrow> ''undefined'') in
      setRequestHeader ''Accept''
        (if c_dataTypes (a_conv (opts q)) \<noteq> [] \<and> d0 \<noteq> [] \<and> acc \<noteq> []
         then acc @ (if d0 \<noteq> ''*'' then '', */*; q=0.01'' else []) else any) q)"

definition build_request :: "bool \<Rightarrow> areq \<Rightarrow> areq" where
  "build_request given q0 =
     (let q = accept_header (content_header given (conditional_headers (build_url q0))) in
      fold (\<lambda>(name, v). setRequestHeader name v) (a_headers (opts q)) q)"

section \<open>Dispatch\<close>

text \<open>
  state = 1; transport.send( requestHeaders, done ). The transport is read again after the handlers of
  ajaxSend have run; when one of them has aborted the request it is undefined, and the call throws
  a TypeError, here the string of its name.
\<close>

definition send :: "areq \<Rightarrow> aresult" where
  "send q0 =
     (let q = q0\<lparr>rstate := 1\<rparr>;
          caught = (\<lambda>e q. if rstate q < 2 then done_fn (DoneCall (-1) e None []) q else Throws e q) in
      case transport q of
        None \<Rightarrow> caught (VStr ''TypeError'') q
      | Some t \<Rightarrow>
          (case t_send t (requestHeaders q) of (calls, thrown) \<Rightarrow>
            (case dones calls (emit (SentRequest (requestHeaders q)) q) of
               Throws e q1 \<Rightarrow> caught e q1
             | Diverges \<Rightarrow> Diverges
             | Returns q1 \<Rightarrow> (case thrown of None \<Rightarrow> Returns q1 | Some e \<Rightarrow> caught e q1))))"

text \<open>A factory that returns a string: the string has no method send, so the call throws.\<close>

definition transport_of :: "atransport pf_result \<Rightarrow> atransport option" where
  "transport_of found =
     (case found of
        PfTransport t \<Rightarrow> Some t
      | PfType s \<Rightarrow> Some \<lparr>t_send = (\<lambda>hs. ([], Some (VStr ''TypeError''))), t_abort = []\<rparr>
      | PfNone \<Rightarrow> None)"

definition with_transport :: "ajax_env \<Rightarrow> atransport \<Rightarrow> areq \<Rightarrow> aresult" where
  "with_transport env t q =
     (let q1 = q\<lparr>transport := Some t, readyState := 1\<rparr>;
          st1 = (if fireGlobals q1
                 then and_then (Returns (emit (Trigger ''ajaxSend'') q1)) (run_calls (e_ajaxSend env q1)) else Returns q1) in
      and_then st1 (\<lambda>q2.
        send (if a_async (opts q2) \<and> 0 < a_timeout (opts q2) then q2\<lparr>timeoutTimer := True\<rparr> else q2)))"

definition dispatch :: "ajax_env \<Rightarrow> areq \<Rightarrow> aresult" where
  "dispatch env q0 =
     (case inspect (e_transports env) True q0 of
        (found, st) \<Rightarrow>
          and_then st (\<lambda>q.
            (case transport_of found of
               Some t \<Rightarrow> with_transport env t q
             | None \<Rightarrow> done_fn (DoneCall (-1) (VStr ''No Transport'') None []) q)))"

definition before_send :: "ajax_env \<Rightarrow> areq \<Rightarrow> aresult \<times> bool" where
  "before_send env q =
     (case e_beforeSend env of
        None \<Rightarrow> (Returns q, False)
      | Some h \<Rightarrow> (case h q of (calls, returns_false) \<Rightarrow>
          (case run_calls calls q of
             Returns q1 \<Rightarrow> if returns_false \<or> rstate q1 = 2 then (abort None q1, True) else (Returns q1, False)
           | st \<Rightarrow> (st, True))))"

definition ajax :: "ajax_env \<Rightarrow> ajax_options \<Rightarrow> areq \<Rightarrow> aresult" where
  "ajax env op q0 =
     (let q = q0\<lparr>opts := prepare env op (opts q0)\<rparr> in
      and_then (snd (inspect (e_prefilters env) False q)) (\<lambda>q1.
        if rstate q1 = 2 then Returns q1
        else
          (case before_send env (build_request (o_contentType op) (start_globals q1)) of
             (st, stop) \<Rightarrow>
               if stop then st
               else and_then st (\<lambda>q2. dispatch env (q2\<lparr>strAbort := ''abort''\<rparr>)))))"

text \<open>The request object before the call, in the world that earlier requests have left.\<close>

definition new_request :: "aset \<Rightarrow> (int \<times> nat list) list \<Rightarrow> int \<Rightarrow> string props \<Rightarrow> string props \<Rightarrow> nat \<Rightarrow> areq" where
  "new_request s codes n lm et nc =
     \<lparr>opts = s, rstate = 0, readyState = 0, requestHeaders = [], requestHeadersNames = [], responseHeadersString = [],
      responseHeaders = None, transport = None, timeoutTimer = False, fireGlobals = False, strAbort = ''canceled'',
      statusCode = Some codes, cacheURL = [], xhrFields = [], jstatus = 0, jstatusText = [], settled = False, completed = False,
      active = n, lastModified = lm, etag = et, nonce = nc, trace = []\<rparr>"

section \<open>What happens after the call\<close>

datatype later = Answer done_call | TimeoutFires | UserCall xcall

fun later_step :: "later \<Rightarrow> areq \<Rightarrow> aresult" where
  "later_step (Answer c) q = done_fn c q"
| "later_step TimeoutFires q = (if timeoutTimer q then abort (Some ''timeout'') (q\<lparr>timeoutTimer := False\<rparr>) else Returns q)"
| "later_step (UserCall c) q = run_call c q"

fun later_steps :: "later list \<Rightarrow> areq \<Rightarrow> aresult" where
  "later_steps [] q = Returns q"
| "later_steps (l # ls) q = and_then (later_step l q) (later_steps ls)"

section \<open>Lemmas\<close>

fun is_settle :: "aevent \<Rightarrow> bool" where
  "is_settle (Resolved d t) = True"
| "is_settle (Rejected t e) = True"
| "is_settle _ = False"

fun is_complete :: "aevent \<Rightarrow> bool" where
  "is_complete (Completed t) = True"
| "is_complete _ = False"

fun is_trigger :: "string \<Rightarrow> aevent \<Rightarrow> bool" where
  "is_trigger s (Trigger t) = (s = t)"
| "is_trigger s _ = False"

definition events :: "(aevent \<Rightarrow> bool) \<Rightarrow> areq \<Rightarrow> nat" where
  "events P q = length (filter P (trace q))"

text \<open>
  The state of a request whose world had \<open>n\<close> active requests: it counts as active until it is done,
  and it has been settled, completed and reported exactly when it is done.
\<close>

definition balanced :: "int \<Rightarrow> bool \<Rightarrow> areq \<Rightarrow> bool" where
  "balanced n g q \<longleftrightarrow>
     fireGlobals q = g \<and> rstate q \<le> 2
     \<and> active q = n + (if g \<and> rstate q < 2 then 1 else 0)
     \<and> settled q = (rstate q = 2) \<and> completed q = (rstate q = 2)
     \<and> events is_settle q = (if rstate q = 2 then 1 else 0)
     \<and> events is_complete q = (if rstate q = 2 then 1 else 0)
     \<and> events (is_trigger ''ajaxComplete'') q = (if g \<and> rstate q = 2 then 1 else 0)"

text \<open>What the invariant reads.\<close>

definition acore :: "areq \<Rightarrow> bool \<times> nat \<times> int \<times> bool \<times> bool \<times> aevent list" where
  "acore q = (fireGlobals q, rstate q, active q, settled q, completed q, trace q)"

lemma balanced_core: "acore q' = acore q \<Longrightarrow> balanced n g q \<Longrightarrow> balanced n g q'"
  by (simp add: balanced_def acore_def events_def)

lemma acore_setRequestHeader [simp]: "acore (setRequestHeader a b q) = acore q"
  by (simp add: setRequestHeader_def acore_def Let_def)

lemma acore_getResponseHeader: "getResponseHeader k q = (v, q') \<Longrightarrow> acore q' = acore q"
  by (auto simp: getResponseHeader_def acore_def Let_def split: if_splits)

lemma acore_snd_getResponseHeader [simp]: "acore (snd (getResponseHeader k q)) = acore q"
  by (simp add: getResponseHeader_def acore_def Let_def)

lemma acore_fold_headers [simp]: "acore (fold (\<lambda>(name, v). setRequestHeader name v) hs q) = acore q"
  by (induction hs arbitrary: q) (simp_all add: case_prod_beta)

lemma acore_store_modified [simp]: "acore (store_modified q) = acore q"
proof -
  obtain m q1 where m: "getResponseHeader ''Last-Modified'' q = (m, q1)" by (cases "getResponseHeader ''Last-Modified'' q")
  let ?q2 = "case m of Some v \<Rightarrow> if v \<noteq> [] then q1\<lparr>lastModified := prop_set (cacheURL q1) v (lastModified q1)\<rparr> else q1 | None \<Rightarrow> q1"
  have q2: "acore ?q2 = acore q" using acore_getResponseHeader [OF m] by (auto simp: acore_def split: option.split)
  obtain m2 q3 where m2: "getResponseHeader ''etag'' ?q2 = (m2, q3)" by (cases "getResponseHeader ''etag'' ?q2")
  have "acore q3 = acore q" using acore_getResponseHeader [OF m2] q2 by simp
  then show ?thesis using m m2 by (auto simp: store_modified_def acore_def Let_def split: option.split)
qed

lemma acore_build_url [simp]: "acore (build_url q) = acore q"
  by (simp add: build_url_def acore_def Let_def)

lemma acore_build_request [simp]: "acore (build_request b q) = acore q"
proof -
  have "acore (conditional_headers q) = acore q" for q
    by (auto simp: conditional_headers_def Let_def split: option.split)
  moreover have "acore (content_header b q) = acore q" for q by (simp add: content_header_def)
  moreover have "acore (accept_header q) = acore q" for q by (simp add: accept_header_def Let_def)
  ultimately show ?thesis by (simp add: build_request_def Let_def)
qed

text \<open>
  The end of a request, stage by stage: how often it has been settled (\<open>a\<close>), completed (\<open>b\<close>) and
  reported to the global handlers (\<open>c\<close>).
\<close>

definition stage :: "bool \<Rightarrow> int \<Rightarrow> nat \<Rightarrow> nat \<Rightarrow> nat \<Rightarrow> areq \<Rightarrow> bool" where
  "stage g m a b c q \<longleftrightarrow>
     fireGlobals q = g \<and> rstate q = 2 \<and> active q = m \<and> settled q = (a = 1) \<and> completed q = (b = 1)
     \<and> events is_settle q = a \<and> events is_complete q = b \<and> events (is_trigger ''ajaxComplete'') q = c"

lemma stage_core: "acore q' = acore q \<Longrightarrow> stage g m a b c q \<Longrightarrow> stage g m a b c q'"
  by (simp add: stage_def acore_def events_def)

lemma stage_resolve: "stage g m 0 b c q \<Longrightarrow> stage g m 1 b c (resolveWith d t q)"
  by (simp add: stage_def resolveWith_def events_def emit_def)

lemma stage_reject: "stage g m 0 b c q \<Longrightarrow> stage g m 1 b c (rejectWith t e q)"
  by (simp add: stage_def rejectWith_def events_def emit_def)

lemma stage_status: "stage g m a b c q \<Longrightarrow> stage g m a b c (run_status sc q)"
  by (simp add: stage_def run_status_def events_def emit_def split: option.split)

lemma stage_globals: "stage g m a b c q \<Longrightarrow> stage g m a b c (fire_globals_end ok q)"
  by (simp add: stage_def fire_globals_end_def events_def emit_def)

lemma stage_complete: "stage g m a 0 c q \<Longrightarrow> stage g m a 1 c (fire_complete t q)"
  by (simp add: stage_def fire_complete_def events_def emit_def)

lemma stage_global_complete:
  "stage g m a b 0 q \<Longrightarrow> stage g (m - (if g then 1 else 0)) a b (if g then 1 else 0) (global_complete q)"
  by (simp add: stage_def global_complete_def events_def emit_def Let_def)

lemma stage_balanced: "stage g n 1 1 (if g then 1 else 0) q \<Longrightarrow> balanced n g q \<and> rstate q = 2"
  by (simp add: stage_def balanced_def)

lemma settle_balanced:
  assumes "stage g (n + (if g then 1 else 0)) 0 0 0 q"
  shows "balanced n g (settle status native r q) \<and> rstate (settle status native r q) = 2"
proof -
  let ?m = "n + (if g then 1 else 0)"
  obtain a1 a2 a3 a4 a5 where res: "outcome status native (a_type (opts q)) r = (a1, a2, a3, a4, a5)"
    by (metis prod_cases5)
  obtain q1 where q1: "q1 = (if ok_status status then store_modified q else q)" by simp
  obtain q2 where q2: "q2 = q1\<lparr>jstatus := a2, jstatusText := js_str (if truthy native then native else a3)\<rparr>" by simp
  obtain q3 where q3: "q3 = (if a1 then resolveWith a4 a3 q2 else rejectWith a3 a5 q2)" by simp
  obtain q4 where q4: "q4 = (case statusCode q3 of Some m \<Rightarrow> run_status m q3 | None \<Rightarrow> q3)" by simp
  have "acore q2 = acore q" using acore_store_modified [of q] by (simp add: acore_def q2 q1)
  then have "stage g ?m 0 0 0 q2" using assms stage_core by blast
  then have "stage g ?m 1 0 0 q3" unfolding q3 using stage_resolve stage_reject by (cases a1) (simp_all only: if_True if_False)
  then have "stage g ?m 1 0 0 q4" unfolding q4 by (cases "statusCode q3") (simp_all only: option.case stage_status)
  then have "stage g ?m 1 0 0 (q4\<lparr>statusCode := None\<rparr>)" by (simp add: stage_def events_def)
  then have "stage g ?m 1 1 0 (fire_complete a3 (fire_globals_end a1 (q4\<lparr>statusCode := None\<rparr>)))"
    by (intro stage_complete stage_globals)
  from stage_global_complete [OF this]
  have "stage g (?m - (if g then 1 else 0)) 1 1 (if g then 1 else 0) (settle status native r q)"
    unfolding settle_def res prod.case Let_def q4 q3 q2 q1 .
  then have "stage g n 1 1 (if g then 1 else 0) (settle status native r q)" by (cases g) simp_all
  then show ?thesis by (rule stage_balanced)
qed

lemma balanced_stage:
  "balanced n g q \<Longrightarrow> rstate q \<noteq> 2 \<Longrightarrow> stage g (n + (if g then 1 else 0)) 0 0 0 (q\<lparr>rstate := 2\<rparr>)"
  by (auto simp: balanced_def stage_def events_def)

text \<open>A result is safe when a normal one satisfies \<open>P\<close> and an exception leaves a request that is done.\<close>

fun safe :: "(areq \<Rightarrow> bool) \<Rightarrow> aresult \<Rightarrow> bool" where
  "safe P (Returns q) = P q"
| "safe P (Throws e q) = (rstate q = 2)"
| "safe P Diverges = True"

lemma safe_and_then: "safe P r \<Longrightarrow> (\<And>q. P q \<Longrightarrow> safe Q (f q)) \<Longrightarrow> safe Q (and_then r f)"
  by (cases r) simp_all

lemma safe_mono: "safe P r \<Longrightarrow> (\<And>q. P q \<Longrightarrow> Q q) \<Longrightarrow> safe Q r"
  by (cases r) simp_all

lemma done_balanced: "balanced n g q \<Longrightarrow> safe (\<lambda>q'. balanced n g q' \<and> rstate q' = 2) (done_fn c q)"
proof (cases c)
  case (DoneCall status native responses headers)
  assume b: "balanced n g q"
  show ?thesis
  proof (cases "rstate q = 2")
    case True
    then show ?thesis using b by (simp add: done_fn_def DoneCall)
  next
    case False
    let ?q1 = "q\<lparr>rstate := 2, timeoutTimer := False, transport := None, responseHeadersString := headers,
      readyState := (if status > 0 then 4 else 0)\<rparr>"
    have "acore ?q1 = acore (q\<lparr>rstate := 2\<rparr>)" by (simp add: acore_def)
    then have q1: "stage g (n + (if g then 1 else 0)) 0 0 0 ?q1" using balanced_stage [OF b False] stage_core by blast
    have settle: "balanced n g (settle status native r q') \<and> rstate (settle status native r q') = 2"
      if "acore q' = acore ?q1" for r q'
      by (rule settle_balanced) (rule stage_core [OF that q1])
    have fs: "acore (p\<lparr>xhrFields := x\<rparr>) = acore p" "acore (p\<lparr>opts := y\<rparr>) = acore p" for p x y by (simp_all add: acore_def)
    have r2: "rstate p = 2" if "acore p = acore ?q1" for p using that by (simp add: acore_def)
    have fin: "safe (\<lambda>q'. balanced n g q' \<and> rstate q' = 2)
        (case ajaxConvert (a_conv (opts q2)) response (xhrFields q2) (ok_status status) of
             None \<Rightarrow> Diverges
           | Some (Uncaught e, fs) \<Rightarrow> Throws e (q2\<lparr>xhrFields := fs\<rparr>)
           | Some (r, fs) \<Rightarrow> Returns (settle status native r (q2\<lparr>xhrFields := fs\<rparr>)))"
      if q2: "acore q2 = acore ?q1" for q2 response
      using settle [OF trans [OF fs(1) q2]] r2 [OF trans [OF fs(1) q2]]
      by (auto split: option.split prod.split conv_result.split)
    show ?thesis
    proof (cases responses)
      case None
      then show ?thesis using fin [OF refl, of VUndef] False by (simp add: done_fn_def DoneCall Let_def)
    next
      case (Some rs)
      let ?h = "if take 1 (c_dataTypes (a_conv (opts ?q1))) = [''*''] \<and> c_mimeType (a_conv (opts ?q1)) = []
                then getResponseHeader ''Content-Type'' ?q1 else (None, ?q1)"
      obtain ct q1a where h: "?h = (ct, q1a)" by (cases ?h)
      then have c: "acore q1a = acore ?q1" using acore_getResponseHeader [of _ ?q1 ct q1a] by (auto split: if_splits)
      obtain dts r where d: "ajaxHandleResponses (a_conv (opts q1a)) ct rs = (dts, r)" by (metis surj_pair)
      show ?thesis
        using fin [OF trans [OF fs(2) c], of "(opts q1a)\<lparr>a_conv := (a_conv (opts q1a))\<lparr>c_dataTypes := dts\<rparr>\<rparr>" r] False
        unfolding done_fn_def DoneCall Some by (simp only: Let_def h d if_False done_call.case option.case prod.case)
    qed
  qed
qed

lemma dones_balanced: "balanced n g q \<Longrightarrow> safe (balanced n g) (dones cs q)"
proof (induction cs arbitrary: q)
  case (Cons c cs)
  have "safe (\<lambda>q'. balanced n g q' \<and> rstate q' = 2) (done_fn c q)" by (rule done_balanced [OF Cons.prems])
  then have "safe (balanced n g) (and_then (done_fn c q) (dones cs))" by (rule safe_and_then) (simp add: Cons.IH)
  then show ?case by simp
qed simp

lemma abort_balanced: "balanced n g q \<Longrightarrow> safe (\<lambda>q'. balanced n g q' \<and> rstate q' = 2) (abort t q)"
proof -
  assume b: "balanced n g q"
  have "balanced n g (emit (AbortedTransport x) q)" for x using b by (simp add: balanced_def events_def emit_def)
  then have "safe (balanced n g) (case transport q of Some t \<Rightarrow> dones (t_abort t) (emit (AbortedTransport x) q) | None \<Rightarrow> Returns q)"
    for x using b by (auto intro: dones_balanced split: option.split)
  then show ?thesis unfolding abort_def Let_def by (rule safe_and_then) (rule done_balanced)
qed

lemma add_statusCode_balanced: "balanced n g q \<Longrightarrow> balanced n g (add_statusCode m q) \<and> rstate (add_statusCode m q) = rstate q"
  by (auto simp: add_statusCode_def run_status_def balanced_def events_def emit_def split: option.split)

lemma call_balanced: "balanced n g q \<Longrightarrow> safe (balanced n g) (run_call c q)"
proof (cases c)
  case (Abort t)
  assume "balanced n g q"
  then show ?thesis using Abort abort_balanced safe_mono by fastforce
next
  case (OverrideMime t)
  assume b: "balanced n g q"
  have "acore (overrideMimeType t q) = acore q" by (simp add: overrideMimeType_def acore_def)
  then show ?thesis using OverrideMime b balanced_core by simp
next
  case (SetOptions f)
  assume b: "balanced n g q"
  have "acore (q\<lparr>opts := f (opts q)\<rparr>) = acore q" by (simp add: acore_def)
  then show ?thesis using SetOptions b balanced_core by simp
next
  case (SetHeader a v)
  assume "balanced n g q"
  then show ?thesis using SetHeader balanced_core [OF acore_setRequestHeader] by simp
next
  case (StatusCode m)
  assume "balanced n g q"
  then show ?thesis using StatusCode add_statusCode_balanced by simp
qed

fun no_abort :: "xcall \<Rightarrow> bool" where
  "no_abort (Abort t) = False"
| "no_abort _ = True"

lemma call_state: "no_abort c \<Longrightarrow> balanced n g q \<Longrightarrow> safe (\<lambda>q'. balanced n g q' \<and> rstate q' = rstate q) (run_call c q)"
proof (cases c)
  case (StatusCode m)
  assume "balanced n g q"
  then show ?thesis using StatusCode add_statusCode_balanced by simp
qed (use call_balanced [of n g q c] in \<open>auto simp: setRequestHeader_def overrideMimeType_def Let_def\<close>)

lemma calls_balanced: "balanced n g q \<Longrightarrow> safe (balanced n g) (run_calls cs q)"
  by (induction cs arbitrary: q) (auto intro: safe_and_then call_balanced)

lemma calls_state:
  "list_all no_abort cs \<Longrightarrow> balanced n g q \<and> rstate q = k \<Longrightarrow> safe (\<lambda>q'. balanced n g q' \<and> rstate q' = k) (run_calls cs q)"
proof (induction cs arbitrary: q)
  case (Cons c cs)
  then show ?case using call_state [of c n g q] by (auto intro: safe_and_then)
qed simp

lemma funs_of_member: "f \<in> set (funs_of reg dt) \<Longrightarrow> \<exists>gs. (dt, gs) \<in> set reg \<and> f \<in> set gs"
  by (cases "map_of reg dt") (auto simp: funs_of_def dest!: map_of_SomeD)

text \<open>The inspection of a registry keeps what its functions keep.\<close>

lemma inspect_funs_keeps:
  assumes "\<And>st. I st \<Longrightarrow> \<forall>f\<in>set fs. I (snd (f st))"
    "\<And>st k gs. I st \<Longrightarrow> (k, gs) \<in> set reg \<Longrightarrow> \<forall>f\<in>set gs. I (snd (f st))"
    "\<And>dt st. I st \<Longrightarrow> I (unshift dt st)" "I st"
  shows "I (snd (snd (inspect_funs reg seeking unshift fs inspected st)))"
  using assms
proof (induction reg seeking unshift fs inspected st rule: inspect_funs.induct)
  case (2 reg seeking unshift f fs inspected st)
  obtain r st1 where f: "f st = (r, st1)" by (cases "f st")
  have st1: "I st1" using 2(5) [of st] 2(8) f by (metis list.set_intros(1) snd_conv)
  have fs: "\<And>st. I st \<Longrightarrow> \<forall>f\<in>set fs. I (snd (f st))" using 2(5) by (meson list.set_intros(2))
  have loop: "I (snd (snd (inspect_funs reg seeking unshift fs inspected st1)))" if "\<not> (\<exists>dt. r = PfType dt \<and> \<not> seeking \<and> dt \<notin> set inspected)"
      "\<not> (seeking \<and> pf_truthy r)"
    using that f 2(2-4) 2(6,7) fs st1 by (cases r) (auto split: if_splits)
  show ?case
  proof (cases "\<exists>dt. r = PfType dt \<and> \<not> seeking \<and> dt \<notin> set inspected")
    case True
    then obtain dt where dt: "r = PfType dt" "\<not> seeking" "dt \<notin> set inspected" by blast
    have gs: "\<And>st. I st \<Longrightarrow> \<forall>f\<in>set (funs_of reg dt). I (snd (f st))"
      using 2(6) by (meson funs_of_member)
    have "I (snd (snd (inspect_funs reg seeking unshift (funs_of reg dt) (dt # inspected) (unshift dt st1))))"
      using 2(1) [OF f [symmetric] dt(1)] dt gs 2(6,7) st1 by blast
    then show ?thesis using f dt by simp
  next
    case False
    then show ?thesis using loop f st1 by (cases r) (auto split: if_splits)
  qed
qed simp

lemma inspect_keeps:
  assumes "\<And>st k gs. I st \<Longrightarrow> (k, gs) \<in> set reg \<Longrightarrow> \<forall>f\<in>set gs. I (snd (f st))"
    "\<And>dt st. I st \<Longrightarrow> I (unshift dt st)" "I st"
  shows "I (snd (inspectPrefiltersOrTransports reg seeking unshift dt0 st))"
proof -
  have fs: "\<And>st. I st \<Longrightarrow> \<forall>f\<in>set (funs_of reg dt). I (snd (f st))" for dt
    using assms(1) by (meson funs_of_member)
  have keeps: "I (snd (snd (inspect_funs reg seeking unshift (funs_of reg dt) insp st)))" if "I st" for dt insp st
    by (rule inspect_funs_keeps [OF fs assms(1,2) that])
  obtain sel insp st1 where i: "inspect_funs reg seeking unshift (funs_of reg dt0) [dt0] st = (sel, insp, st1)" by (metis prod_cases3)
  have st1: "I st1" using keeps [OF assms(3), of dt0 "[dt0]"] i by simp
  obtain sel2 insp2 st2 where i2: "inspect_funs reg seeking unshift (funs_of reg ''*'') (''*'' # insp) st1 = (sel2, insp2, st2)"
    by (metis prod_cases3)
  have "I st2" using keeps [OF st1, of "''*''" "''*'' # insp"] i2 by simp
  then show ?thesis using i i2 st1 by (simp add: inspectPrefiltersOrTransports_def)
qed

lemma lift_hook_balanced: "safe (balanced n g) st \<Longrightarrow> safe (balanced n g) (snd (lift_hook h st))"
proof (cases st)
  case (Returns q)
  assume "safe (balanced n g) st"
  then have "safe (balanced n g) (run_calls (snd (h q)) q)" using Returns calls_balanced by simp
  then show ?thesis using Returns by (cases "h q"; cases "run_calls (snd (h q)) q") (simp_all add: lift_hook_def)
qed (simp_all add: lift_hook_def)

lemma lift_hook_state:
  "(\<And>q. list_all no_abort (snd (h q))) \<Longrightarrow> safe (\<lambda>q. balanced n g q \<and> rstate q = k) st
    \<Longrightarrow> safe (\<lambda>q. balanced n g q \<and> rstate q = k) (snd (lift_hook h st))"
proof (cases st)
  case (Returns q)
  assume h: "\<And>q. list_all no_abort (snd (h q))" and "safe (\<lambda>q. balanced n g q \<and> rstate q = k) st"
  then have "safe (\<lambda>q. balanced n g q \<and> rstate q = k) (run_calls (snd (h q)) q)"
    using Returns calls_state [OF h, of n g q k] by simp
  then show ?thesis using Returns by (cases "h q"; cases "run_calls (snd (h q)) q") (simp_all add: lift_hook_def)
qed (simp_all add: lift_hook_def)

lemma unshift_safe: "(\<And>q s. P q \<Longrightarrow> P (q\<lparr>opts := s\<rparr>)) \<Longrightarrow> safe P st \<Longrightarrow> safe P (unshift_type dt st)"
  by (cases st) (simp_all add: unshift_type_def)

lemma balanced_opts: "balanced n g q \<Longrightarrow> balanced n g (q\<lparr>opts := s\<rparr>)"
  by (simp add: balanced_def events_def)

lemma inspect_balanced: "balanced n g q \<Longrightarrow> safe (balanced n g) (snd (inspect reg seeking q))"
  unfolding inspect_def
  by (rule inspect_keeps [where I="safe (balanced n g)"])
    (auto intro: lift_hook_balanced unshift_safe balanced_opts)

text \<open>Hooks that make no call of abort.\<close>

definition polite :: "hook list props \<Rightarrow> bool" where
  "polite reg \<longleftrightarrow> (\<forall>(k, hs)\<in>set reg. \<forall>h\<in>set hs. \<forall>q. list_all no_abort (snd (h q)))"

lemma inspect_state:
  assumes "polite reg" "balanced n g q" "rstate q = k"
  shows "safe (\<lambda>q. balanced n g q \<and> rstate q = k) (snd (inspect reg seeking q))"
  unfolding inspect_def
proof (rule inspect_keeps [where I="safe (\<lambda>q. balanced n g q \<and> rstate q = k)"])
  fix st k' gs
  assume "safe (\<lambda>q. balanced n g q \<and> rstate q = k) st" "(k', gs) \<in> set (map (\<lambda>(k, hs). (k, map lift_hook hs)) reg)"
  then show "\<forall>f\<in>set gs. safe (\<lambda>q. balanced n g q \<and> rstate q = k) (snd (f st))"
    using assms(1) by (fastforce intro!: lift_hook_state simp: polite_def)
qed (use assms in \<open>auto intro!: unshift_safe balanced_opts\<close>)

lemma done_safe: "balanced n g q \<Longrightarrow> safe (balanced n g) (done_fn c q)"
  by (rule safe_mono [OF done_balanced]) auto

lemma send_balanced:
  assumes "balanced n g q0" "rstate q0 < 2"
  shows "safe (balanced n g) (send q0)"
proof -
  let ?q = "q0\<lparr>rstate := 1\<rparr>"
  have q: "balanced n g ?q" using assms by (simp add: balanced_def events_def)
  have caught: "safe (balanced n g) (if rstate q1 < 2 then done_fn (DoneCall (-1) e None []) q1 else Throws e q1)"
    if "balanced n g q1 \<or> rstate q1 = 2" for q1 e
  proof (cases "rstate q1 < 2")
    case True
    then have "balanced n g q1" using that by auto
    then show ?thesis using True done_safe by simp
  next
    case False
    then show ?thesis using that by (auto simp: balanced_def)
  qed
  show ?thesis
  proof (cases "transport ?q")
    case None
    then show ?thesis using caught [OF disjI1 [OF q]] by (simp add: send_def)
  next
    case (Some t)
    obtain cs th where t: "t_send t (requestHeaders ?q) = (cs, th)" by (metis surj_pair)
    have "balanced n g (emit (SentRequest (requestHeaders ?q)) ?q)" using q by (simp add: balanced_def events_def emit_def)
    then have d: "safe (balanced n g) (dones cs (emit (SentRequest (requestHeaders ?q)) ?q))" by (rule dones_balanced)
    show ?thesis
    proof (cases "dones cs (emit (SentRequest (requestHeaders ?q)) ?q)")
      case (Returns q1)
      then show ?thesis using d Some t caught [of q1] by (cases th) (simp_all add: send_def Let_def)
    next
      case (Throws e q1)
      then show ?thesis using d Some t caught [of q1 e] by (simp add: send_def Let_def)
    next
      case Diverges
      then show ?thesis using Some t by (simp add: send_def Let_def)
    qed
  qed
qed

lemma with_transport_balanced:
  assumes "\<And>q. list_all no_abort (e_ajaxSend env q)" "balanced n g q" "rstate q < 2"
  shows "safe (balanced n g) (with_transport env t q)"
proof -
  let ?k = "rstate q"
  let ?P = "\<lambda>q. balanced n g q \<and> rstate q = ?k"
  let ?q1 = "q\<lparr>transport := Some t, readyState := 1\<rparr>"
  have q1: "?P ?q1" "?P (emit (Trigger ''ajaxSend'') ?q1)" using assms(2) by (simp_all add: balanced_def events_def emit_def)
  have "safe ?P (if fireGlobals ?q1 then and_then (Returns (emit (Trigger ''ajaxSend'') ?q1)) (run_calls (e_ajaxSend env ?q1)) else Returns ?q1)"
    using calls_state [OF assms(1) q1(2)] q1(1) by simp
  then show ?thesis
    unfolding with_transport_def Let_def
  proof (rule safe_and_then)
    fix q2 assume "?P q2"
    then have "balanced n g (if c then q2\<lparr>timeoutTimer := True\<rparr> else q2)" "rstate (if c then q2\<lparr>timeoutTimer := True\<rparr> else q2) < 2" for c
      using assms(3) by (auto simp: balanced_def events_def)
    then show "safe (balanced n g) (send (if a_async (opts q2) \<and> 0 < a_timeout (opts q2) then q2\<lparr>timeoutTimer := True\<rparr> else q2))"
      by (rule send_balanced)
  qed
qed

lemma dispatch_balanced:
  assumes "polite (e_transports env)" "\<And>q. list_all no_abort (e_ajaxSend env q)" "balanced n g q" "rstate q < 2"
  shows "safe (balanced n g) (dispatch env q)"
proof -
  obtain found st where i: "inspect (e_transports env) True q = (found, st)" by (metis surj_pair)
  have s: "safe (\<lambda>q'. balanced n g q' \<and> rstate q' = rstate q) st" using inspect_state [OF assms(1,3) refl, of True] i by simp
  have "safe (balanced n g) (case transport_of found of Some t \<Rightarrow> with_transport env t q'
      | None \<Rightarrow> done_fn (DoneCall (-1) (VStr ''No Transport'') None []) q')" if "balanced n g q' \<and> rstate q' = rstate q" for q'
    using that with_transport_balanced [OF assms(2), of n g q'] assms(4) done_safe [of n g q']
    by (cases "transport_of found") simp_all
  with s show ?thesis unfolding dispatch_def i prod.case by (rule safe_and_then)
qed

lemma before_send_balanced:
  assumes "balanced n g q" "rstate q < 2" "before_send env q = (st, stop)"
  shows "safe (\<lambda>q'. balanced n g q' \<and> (\<not> stop \<longrightarrow> rstate q' < 2)) st"
proof (cases "e_beforeSend env")
  case None
  then show ?thesis using assms by (auto simp: before_send_def)
next
  case (Some h)
  obtain cs rf where h: "h q = (cs, rf)" by (metis surj_pair)
  have c: "safe (balanced n g) (run_calls cs q)" by (rule calls_balanced [OF assms(1)])
  show ?thesis
  proof (cases "run_calls cs q")
    case (Returns q1)
    then have q1: "balanced n g q1" using c by simp
    show ?thesis
    proof (cases "rf \<or> rstate q1 = 2")
      case True
      then have "st = abort None q1" "stop" using Some h Returns assms(3) by (auto simp: before_send_def)
      then show ?thesis using safe_mono [OF abort_balanced [OF q1, of None]] by auto
    next
      case False
      then have "st = Returns q1" "rstate q1 < 2" using Some h Returns assms(3) q1 by (auto simp: before_send_def balanced_def)
      then show ?thesis using q1 by simp
    qed
  qed (use Some h assms(3) c in \<open>auto simp: before_send_def\<close>)
qed

lemma start_globals_balanced:
  "balanced n False q \<Longrightarrow> rstate q < 2 \<Longrightarrow> balanced n (a_global (opts q)) (start_globals q) \<and> rstate (start_globals q) < 2"
  by (simp add: start_globals_def balanced_def events_def emit_def Let_def)

lemma ajax_balanced:
  assumes "polite (e_transports env)" "\<And>q. list_all no_abort (e_ajaxSend env q)" "balanced n False q0"
  shows "safe (\<lambda>q. \<exists>g. balanced n g q) (ajax env op q0)"
proof -
  let ?q = "q0\<lparr>opts := prepare env op (opts q0)\<rparr>"
  have "safe (balanced n False) (snd (inspect (e_prefilters env) False ?q))"
    by (rule inspect_balanced [OF balanced_opts [OF assms(3)]])
  then show ?thesis
    unfolding ajax_def Let_def
  proof (rule safe_and_then)
    fix q1 assume q1: "balanced n False q1"
    show "safe (\<lambda>q. \<exists>g. balanced n g q) (if rstate q1 = 2 then Returns q1
        else case before_send env (build_request (o_contentType op) (start_globals q1)) of (st, stop) \<Rightarrow>
          if stop then st else and_then st (\<lambda>q2. dispatch env (q2\<lparr>strAbort := ''abort''\<rparr>)))"
    proof (cases "rstate q1 = 2")
      case False
      then have r: "rstate q1 < 2" using q1 by (simp add: balanced_def)
      let ?g = "a_global (opts q1)"
      let ?b = "build_request (o_contentType op) (start_globals q1)"
      have b: "balanced n ?g ?b" "rstate ?b < 2"
        using start_globals_balanced [OF q1 r] balanced_core [OF acore_build_request] acore_build_request [of "o_contentType op" "start_globals q1"]
        by (simp_all add: acore_def)
      obtain st stop where bs: "before_send env ?b = (st, stop)" by (metis surj_pair)
      have s: "safe (\<lambda>q'. balanced n ?g q' \<and> (\<not> stop \<longrightarrow> rstate q' < 2)) st" by (rule before_send_balanced [OF b bs])
      have "safe (balanced n ?g) (and_then st (\<lambda>q2. dispatch env (q2\<lparr>strAbort := ''abort''\<rparr>)))" if "\<not> stop"
        using s
      proof (rule safe_and_then)
        fix q2 assume "balanced n ?g q2 \<and> (\<not> stop \<longrightarrow> rstate q2 < 2)"
        then have "balanced n ?g (q2\<lparr>strAbort := ''abort''\<rparr>)" "rstate (q2\<lparr>strAbort := ''abort''\<rparr>) < 2"
          using that by (auto simp: balanced_def events_def)
        then show "safe (balanced n ?g) (dispatch env (q2\<lparr>strAbort := ''abort''\<rparr>))"
          by (rule dispatch_balanced [OF assms(1,2)])
      qed
      then show ?thesis using False bs safe_mono [OF s, of "\<lambda>q. \<exists>g. balanced n g q"] safe_mono [of "balanced n ?g" _ "\<lambda>q. \<exists>g. balanced n g q"]
        by (cases stop) auto
    qed (use q1 in auto)
  qed
qed

lemma later_balanced: "balanced n g q \<Longrightarrow> safe (balanced n g) (later_step l q)"
proof (cases l)
  case (Answer c)
  assume "balanced n g q"
  then show ?thesis using Answer safe_mono [OF done_balanced] by fastforce
next
  case TimeoutFires
  assume b: "balanced n g q"
  then have "balanced n g (q\<lparr>timeoutTimer := False\<rparr>)" by (simp add: balanced_def events_def)
  then show ?thesis using TimeoutFires b safe_mono [OF abort_balanced] by fastforce
next
  case (UserCall c)
  assume "balanced n g q"
  then show ?thesis using UserCall call_balanced by simp
qed

lemma laters_balanced: "balanced n g q \<Longrightarrow> safe (balanced n g) (later_steps ls q)"
  by (induction ls arbitrary: q) (auto intro: safe_and_then later_balanced)

lemma new_request_balanced: "balanced n False (new_request s codes n lm et nc)"
  by (simp add: new_request_def balanced_def events_def)

text \<open>Request headers: one spelling for each name.\<close>

definition headers_ok :: "areq \<Rightarrow> bool" where
  "headers_ok q \<longleftrightarrow>
     (\<forall>l n. map_of (requestHeadersNames q) l = Some n \<longrightarrow> to_lower n = l)
     \<and> (\<forall>k v. map_of (requestHeaders q) k = Some v \<longrightarrow> map_of (requestHeadersNames q) (to_lower k) = Some k)
     \<and> props_wf (requestHeaders q)"

lemma lower_Nil [simp]: "to_lower s = [] \<longleftrightarrow> s = []"
  by (simp add: to_lower_def)

lemma setRequestHeader_ok:
  assumes "headers_ok q"
  shows "headers_ok (setRequestHeader name v q)"
proof -
  let ?l = "to_lower name"
  let ?n = "case map_of (requestHeadersNames q) ?l of Some n \<Rightarrow> if n \<noteq> [] then n else name | None \<Rightarrow> name"
  have a: "\<And>l n. map_of (requestHeadersNames q) l = Some n \<Longrightarrow> to_lower n = l"
    and b: "\<And>k v. map_of (requestHeaders q) k = Some v \<Longrightarrow> map_of (requestHeadersNames q) (to_lower k) = Some k"
    and c: "props_wf (requestHeaders q)" using assms by (auto simp: headers_ok_def)
  have n: "to_lower ?n = ?l" using a by (auto split: option.split)
  have same: "k = ?n" if "map_of (requestHeaders q) k = Some w" "to_lower k = ?l" for k w
  proof -
    have m: "map_of (requestHeadersNames q) ?l = Some k" using b [OF that(1)] that(2) by simp
    show ?thesis
    proof (cases "k = []")
      case True
      then have "name = []" using that(2) by (metis lower_Nil)
      then show ?thesis using m True by simp
    next
      case False
      then show ?thesis using m by simp
    qed
  qed
  show ?thesis
  proof (cases "rstate q = 0")
    case True
    obtain n' where n': "n' = ?n" by simp
    have q': "setRequestHeader name v q =
        q\<lparr>requestHeadersNames := prop_set ?l n' (requestHeadersNames q), requestHeaders := prop_set n' v (requestHeaders q)\<rparr>"
      using True by (simp add: setRequestHeader_def Let_def n')
    have "to_lower n2 = l2" if "((map_of (requestHeadersNames q))(?l \<mapsto> n')) l2 = Some n2" for l2 n2
    proof (cases "l2 = ?l")
      case True
      then have "n2 = n'" using that by simp
      then show ?thesis using n n' True by (simp only:)
    next
      case False
      then show ?thesis using that a [of l2 n2] by (simp only: fun_upd_apply if_False)
    qed
    moreover have "((map_of (requestHeadersNames q))(?l \<mapsto> n')) (to_lower k) = Some k"
      if "((map_of (requestHeaders q))(n' \<mapsto> v)) k = Some w" for k w
    proof (cases "k = n'")
      case True
      then have "to_lower k = ?l" using n n' by (simp only:)
      then show ?thesis using True by simp
    next
      case False
      then have k: "map_of (requestHeaders q) k = Some w" using that by simp
      then have "to_lower k \<noteq> ?l" using same [OF k] n' False by blast
      then show ?thesis using b [OF k] by (simp only: fun_upd_apply if_False)
    qed
    moreover have "props_wf (prop_set n' v (requestHeaders q))" by (rule props_wf_set [OF c])
    ultimately show ?thesis unfolding q' headers_ok_def by (simp del: fun_upd_apply)
  next
    case False
    then show ?thesis using assms by (simp add: setRequestHeader_def)
  qed
qed

lemma headers_fold: "headers_ok q \<Longrightarrow> headers_ok (fold (\<lambda>(n, v). setRequestHeader n v) hs q)
    \<and> rstate (fold (\<lambda>(n, v). setRequestHeader n v) hs q) = rstate q"
proof (induction hs arbitrary: q)
  case (Cons x hs)
  then show ?case using setRequestHeader_ok by (cases x) (simp add: setRequestHeader_def Let_def)
qed simp

lemma headers_distinct: "headers_ok q \<Longrightarrow> distinct (map (to_lower \<circ> fst) (requestHeaders q))"
proof -
  assume ok: "headers_ok q"
  have "inj_on to_lower (set (map fst (requestHeaders q)))"
  proof (rule inj_onI)
    fix k k' assume "k \<in> set (map fst (requestHeaders q))" "k' \<in> set (map fst (requestHeaders q))" "to_lower k = to_lower k'"
    moreover from this obtain v v' where "map_of (requestHeaders q) k = Some v" "map_of (requestHeaders q) k' = Some v'"
      by (metis list.set_map map_of_eq_None_iff not_Some_eq)
    ultimately show "k = k'" using ok unfolding headers_ok_def by (metis option.inject)
  qed
  then have "distinct (map to_lower (map fst (requestHeaders q)))"
    using ok by (simp add: headers_ok_def props_wf_def distinct_map del: map_map set_map)
  then show ?thesis by simp
qed

section \<open>Properties\<close>


definition example_settings :: aset where
  "example_settings = \<lparr>a_url = ''/token'', a_type = ''GET'', a_conv = json_settings (default_converters Inr Inr), a_data = NoData,
     a_traditional = False, a_processData = True, a_hasContent = False, a_global = True, a_async = True, a_ifModified = False,
     a_cache = None, a_contentType = None, a_headers = [], a_accepts = [], a_timeout = 0, a_crossDomain = None\<rparr>"

definition example_env :: "xcall list \<Rightarrow> ajax_env" where
  "example_env calls = \<lparr>e_location = ''https://host/'', e_prefilters = [],
     e_transports = [(''*'', [\<lambda>q. (PfTransport \<lparr>t_send = (\<lambda>hs. ([], None)), t_abort = []\<rparr>, [])])],
     e_beforeSend = None, e_ajaxSend = (\<lambda>q. calls), e_defaultTraditional = False\<rparr>"

definition example_options :: ajax_options where
  "example_options = \<lparr>o_url = [], o_method = [], o_type = [], o_dataType = ''json'', o_contentType = False, s_method = []\<rparr>"

definition example_answer :: done_call where
  "example_answer = DoneCall 200 (VStr ''OK'') (Some [(''text'', VStr ''1'')]) []"


text \<open>
  When a handler of ajaxSend aborts the request, the request is sent anyway with an undefined
  transport, fails a second time, and is reported twice: ajaxComplete fires twice and jQuery.active ends
  below zero, so that no later request fires ajaxStart.
\<close>

theorem abort_in_ajaxSend_completes_twice:
  "case ajax (example_env [Abort None]) example_options (new_request example_settings [] 0 [] [] 1) of
     Returns q \<Rightarrow> active q = -1 \<and> events (is_trigger ''ajaxComplete'') q = 2 \<and> events is_settle q = 1
       \<and> events (is_trigger ''ajaxStart'')
           (case ajax (example_env []) example_options (new_request example_settings [] (active q) [] [] 1) of Returns q2 \<Rightarrow> q2 | _ \<Rightarrow> q) = 0
   | _ \<Rightarrow> False"
  by code_simp

text \<open>
  However the headers of a request are spelled by the calls that set them, each name is sent once,
  and with the value that was set last.
\<close>

theorem request_headers_once:
  "let q = setRequestHeader name v (fold (\<lambda>(n, v). setRequestHeader n v) hs (new_request s codes k lm et nc)) in
   distinct (map (to_lower \<circ> fst) (requestHeaders q))
   \<and> (\<exists>spelled. to_lower spelled = to_lower name \<and> map_of (requestHeaders q) spelled = Some v)"
proof -
  let ?q0 = "new_request s codes k lm et nc"
  let ?q1 = "fold (\<lambda>(n, v). setRequestHeader n v) hs ?q0"
  have "headers_ok ?q0" "rstate ?q0 = 0" by (simp_all add: headers_ok_def new_request_def)
  with headers_fold have q1: "headers_ok ?q1" "rstate ?q1 = 0" by metis+
  have "\<exists>spelled. to_lower spelled = to_lower name \<and> map_of (requestHeaders (setRequestHeader name v ?q1)) spelled = Some v"
    using q1 by (auto simp: setRequestHeader_def Let_def headers_ok_def split: option.split)
  then show ?thesis using headers_distinct [OF setRequestHeader_ok [OF q1(1)]] by (simp add: Let_def)
qed

end
