(* ===== verification/Event_Store.thy ===== *)
theory Event_Store
  imports Js_Prelude "HOL-Library.List_Lexorder" "HOL-Library.Char_ord"
begin

text \<open>
  The registration of event handlers in jquery.js: \<open>jQuery.event.add\<close> and \<open>remove\<close> on the private data
  of an element, with namespaces, delegation and the special events of the library, and the argument
  handling of on, one and off. Handlers and elements are numbers; the functions themselves belong to
  the theory on dispatch. A namespace is taken literally: characters that a regular expression
  interprets do not occur in it. There is one document.
\<close>

section \<open>State\<close>

record handle_obj =
  h_type :: string
  h_origType :: string
  h_data :: jsval
  h_handler :: nat
  h_guid :: nat
  h_selector :: string          \<comment> \<open>empty for none\<close>
  h_needsContext :: bool
  h_namespace :: string

record hlist =
  hobjs :: "handle_obj list"
  delegateCount :: nat

text \<open>
  \<open>evs\<close> is the property events of the private data, \<open>has_handle\<close> whether it has the property handle,
  \<open>natives\<close> the types for which that function is registered with the browser; \<open>attaches\<close> and
  \<open>captures\<close> are the counters and the capturing handlers of focusin and focusout on the document.
\<close>

record ev_world =
  evs :: "nat \<Rightarrow> hlist props option"
  has_handle :: "nat \<Rightarrow> bool"
  natives :: "nat \<Rightarrow> string list"
  guid_of :: "nat \<Rightarrow> nat"
  next_guid :: nat
  attaches :: "nat props"
  captures :: "string list"
  used :: "string list"          \<comment> \<open>\<open>jQuery.event.global\<close>\<close>
  once_of :: "nat \<Rightarrow> nat option"  \<comment> \<open>the function that a wrapper made by one calls\<close>
  next_handler :: nat

section \<open>Special events\<close>

record special =
  delegateType :: string
  bindType :: string
  noBubble :: bool
  counted_setup :: bool

definition no_special :: special where
  "no_special = \<lparr>delegateType = [], bindType = [], noBubble = False, counted_setup = False\<rparr>"

definition enter_leave :: "string props" where
  "enter_leave = [(''mouseenter'', ''mouseover''), (''mouseleave'', ''mouseout''),
     (''pointerenter'', ''pointerover''), (''pointerleave'', ''pointerout'')]"

definition focus_fix :: "string props" where
  "focus_fix = [(''focus'', ''focusin''), (''blur'', ''focusout'')]"

text \<open>The argument is \<open>support.focusinBubbles\<close>.\<close>

definition special_of :: "bool \<Rightarrow> string \<Rightarrow> special" where
  "special_of bubbles t =
     (case map_of enter_leave t of
        Some fix_type \<Rightarrow> no_special\<lparr>delegateType := fix_type, bindType := fix_type\<rparr>
      | None \<Rightarrow>
          (case map_of focus_fix t of
             Some fix_type \<Rightarrow> no_special\<lparr>delegateType := fix_type\<rparr>
           | None \<Rightarrow>
               (if t = ''load'' then no_special\<lparr>noBubble := True\<rparr>
                else if \<not> bubbles \<and> t \<in> snd ` set focus_fix then no_special\<lparr>counted_setup := True\<rparr>
                else no_special)))"

definition or_type :: "string \<Rightarrow> string \<Rightarrow> string" where
  "or_type a b = (if a \<noteq> [] then a else b)"

definition actual_type :: "bool \<Rightarrow> string \<Rightarrow> string \<Rightarrow> string" where
  "actual_type bubbles selector t =
     or_type (if selector \<noteq> [] then delegateType (special_of bubbles t) else bindType (special_of bubbles t)) t"

text \<open>The capturing handler of the document stays while someone wants the event.\<close>

definition orig_of :: "string \<Rightarrow> string" where
  "orig_of t = (if t = ''focusin'' then ''focus'' else ''blur'')"

definition focus_setup :: "string \<Rightarrow> ev_world \<Rightarrow> ev_world" where
  "focus_setup t w =
     (let n = (case map_of (attaches w) t of Some n \<Rightarrow> n | None \<Rightarrow> 0);
          w1 = (if n = 0 then w\<lparr>captures := captures w @ [orig_of t]\<rparr> else w) in
      w1\<lparr>attaches := prop_set t (n + 1) (attaches w1)\<rparr>)"

definition focus_teardown :: "string \<Rightarrow> ev_world \<Rightarrow> ev_world" where
  "focus_teardown t w =
     (let n = (case map_of (attaches w) t of Some n \<Rightarrow> n | None \<Rightarrow> 0) in
      if n = 1 then w\<lparr>captures := filter (\<lambda>c. c \<noteq> orig_of t) (captures w), attaches := prop_del t (attaches w)\<rparr>
      else w\<lparr>attaches := prop_set t (n - 1) (attaches w)\<rparr>)"

section \<open>Types and namespaces\<close>

text \<open>\<open>rtypenamespace\<close>: None when a dot has nothing behind it.\<close>

definition rtypenamespace :: "string \<Rightarrow> (string \<times> string) option" where
  "rtypenamespace s =
     (let t = takeWhile (\<lambda>c. c \<noteq> CHR ''.'') s; r = drop (length t) s in
      if r = [] then Some (t, []) else if drop 1 r = [] then None else Some (t, drop 1 r))"

definition sorted_names :: "string \<Rightarrow> string list" where
  "sorted_names ns = sort (split_on (CHR ''.'') ns)"

text \<open>The pattern built from the sorted names: they occur in this order among the parts of a namespace.\<close>

fun has_names :: "string list \<Rightarrow> string list \<Rightarrow> bool" where
  "has_names [] parts = True"
| "has_names (n # ns) [] = False"
| "has_names (n # ns) (p # parts) = (if n = p then has_names ns parts else has_names (n # ns) parts)"

definition names_match :: "string \<Rightarrow> string \<Rightarrow> bool" where
  "names_match ns h_ns \<longleftrightarrow> has_names (sorted_names ns) (split_on (CHR ''.'') h_ns)"

definition type_list :: "string \<Rightarrow> string list" where
  "type_list types = (if ws_words types = [] then [[]] else ws_words types)"

section \<open>add\<close>

record ev_env =
  focusinBubbles :: bool
  accepts_data :: "nat \<Rightarrow> bool"
  needs_context :: "string \<Rightarrow> bool"

definition add_obj :: "handle_obj \<Rightarrow> hlist \<Rightarrow> hlist" where
  "add_obj h hl =
     (if h_selector h \<noteq> []
      then \<lparr>hobjs = take (delegateCount hl) (hobjs hl) @ h # drop (delegateCount hl) (hobjs hl),
            delegateCount = delegateCount hl + 1\<rparr>
      else hl\<lparr>hobjs := hobjs hl @ [h]\<rparr>)"

definition events_of :: "nat \<Rightarrow> ev_world \<Rightarrow> hlist props" where
  "events_of elem w = (case evs w elem of Some es \<Rightarrow> es | None \<Rightarrow> [])"

definition put_events :: "nat \<Rightarrow> hlist props \<Rightarrow> ev_world \<Rightarrow> ev_world" where
  "put_events elem es w = w\<lparr>evs := (evs w)(elem := Some es)\<rparr>"

text \<open>The first handler of a type: a counted setup, or a listener of the browser (registered once).\<close>

definition listen :: "ev_env \<Rightarrow> nat \<Rightarrow> string \<Rightarrow> ev_world \<Rightarrow> ev_world" where
  "listen env elem t w =
     (if counted_setup (special_of (focusinBubbles env) t) then focus_setup t w
      else if t \<in> set (natives w elem) then w
      else w\<lparr>natives := (natives w)(elem := natives w elem @ [t])\<rparr>)"

definition add_one_type :: "ev_env \<Rightarrow> nat \<Rightarrow> (handle_obj \<Rightarrow> handle_obj) \<Rightarrow> nat \<Rightarrow> jsval \<Rightarrow> string \<Rightarrow> string
    \<Rightarrow> ev_world \<Rightarrow> ev_world" where
  "add_one_type env elem custom handler data selector tn w =
     (case rtypenamespace tn of
        None \<Rightarrow> w
      | Some (origType, ns) \<Rightarrow>
          if origType = [] then w
          else
            (let t = actual_type (focusinBubbles env) selector origType;
                 h = custom \<lparr>h_type = t, h_origType = origType, h_data = data, h_handler = handler,
                       h_guid = guid_of w handler, h_selector = selector,
                       h_needsContext = (selector \<noteq> [] \<and> needs_context env selector),
                       h_namespace = join_with ''.'' (sorted_names ns)\<rparr>;
                 fresh = (map_of (events_of elem w) t = None);
                 hl = (case map_of (events_of elem w) t of Some hl \<Rightarrow> hl | None \<Rightarrow> \<lparr>hobjs = [], delegateCount = 0\<rparr>);
                 w1 = (if fresh then listen env elem t w else w);
                 w2 = put_events elem (prop_set t (add_obj h hl) (events_of elem w1)) w1 in
             w2\<lparr>used := (if t \<in> set (used w2) then used w2 else used w2 @ [t])\<rparr>))"

text \<open>
  A handler, or an object with a handler of its own that overrides the fields of the new entry. The
  data of a node that accepts none is an object that nobody else sees.
\<close>

datatype handler_arg = PlainHandler nat | CustomHandler nat string "handle_obj \<Rightarrow> handle_obj"

definition assign_guid :: "nat \<Rightarrow> ev_world \<Rightarrow> ev_world" where
  "assign_guid handler w =
     (if guid_of w handler = 0 then w\<lparr>guid_of := (guid_of w)(handler := next_guid w), next_guid := next_guid w + 1\<rparr> else w)"

definition event_add :: "ev_env \<Rightarrow> nat \<Rightarrow> string \<Rightarrow> handler_arg \<Rightarrow> jsval \<Rightarrow> string \<Rightarrow> ev_world \<Rightarrow> ev_world" where
  "event_add env elem types arg data selector0 w =
     (case (case arg of PlainHandler h \<Rightarrow> (h, selector0, id) | CustomHandler h s c \<Rightarrow> (h, s, c)) of
        (handler, selector, custom) \<Rightarrow>
          (let w0 = assign_guid handler w;
               w1 = put_events elem (events_of elem w0) w0;
               w2 = w1\<lparr>has_handle := (has_handle w1)(elem := True)\<rparr>;
               w3 = fold (add_one_type env elem custom handler data selector) (rev (type_list types)) w2 in
           if accepts_data env elem then w3
           else w3\<lparr>evs := (evs w3)(elem := None), has_handle := (has_handle w3)(elem := False)\<rparr>))"

section \<open>remove\<close>

definition matches_obj :: "bool \<Rightarrow> string \<Rightarrow> string \<Rightarrow> nat option \<Rightarrow> string \<Rightarrow> handle_obj \<Rightarrow> bool" where
  "matches_obj mapped origType ns guid selector h \<longleftrightarrow>
     (mapped \<or> origType = h_origType h)
     \<and> (case guid of None \<Rightarrow> True | Some g \<Rightarrow> g = h_guid h)
     \<and> (ns = [] \<or> names_match ns (h_namespace h))
     \<and> (selector = [] \<or> selector = h_selector h \<or> selector = ''**'' \<and> h_selector h \<noteq> [])"

text \<open>The loop \<open>while ( j-- )\<close> over the handlers of a type.\<close>

fun remove_loop :: "(handle_obj \<Rightarrow> bool) \<Rightarrow> nat \<Rightarrow> hlist \<Rightarrow> hlist" where
  "remove_loop P 0 hl = hl"
| "remove_loop P (Suc j) hl =
     (let h = hobjs hl ! j in
      if P h then
        remove_loop P j \<lparr>hobjs = take j (hobjs hl) @ drop (Suc j) (hobjs hl),
          delegateCount = (if h_selector h \<noteq> [] then delegateCount hl - 1 else delegateCount hl)\<rparr>
      else remove_loop P j hl)"

definition unlisten :: "ev_env \<Rightarrow> nat \<Rightarrow> string \<Rightarrow> string \<Rightarrow> ev_world \<Rightarrow> ev_world" where
  "unlisten env elem sp t w =
     (if counted_setup (special_of (focusinBubbles env) sp) then focus_teardown sp w
      else w\<lparr>natives := (natives w)(elem := filter (\<lambda>x. x \<noteq> t) (natives w elem))\<rparr>)"

definition remove_one_type :: "ev_env \<Rightarrow> nat \<Rightarrow> bool \<Rightarrow> string \<Rightarrow> string \<Rightarrow> nat option \<Rightarrow> string \<Rightarrow> ev_world \<Rightarrow> ev_world" where
  "remove_one_type env elem mapped origType ns guid selector w =
     (let t = actual_type (focusinBubbles env) selector origType in
      case map_of (events_of elem w) t of
        None \<Rightarrow> w
      | Some hl \<Rightarrow>
          (let hl1 = remove_loop (matches_obj mapped origType ns guid selector) (length (hobjs hl)) hl in
           if hobjs hl \<noteq> [] \<and> hobjs hl1 = []
           then put_events elem (prop_del t (events_of elem (unlisten env elem origType t w))) (unlisten env elem origType t w)
           else put_events elem (prop_set t hl1 (events_of elem w)) w))"

text \<open>The end of remove: without handlers the data is taken away.\<close>

definition drop_empty :: "nat \<Rightarrow> ev_world \<Rightarrow> ev_world" where
  "drop_empty elem w =
     (if events_of elem w = [] then w\<lparr>evs := (evs w)(elem := None), has_handle := (has_handle w)(elem := False)\<rparr> else w)"

fun seq_opt :: "('a \<Rightarrow> 'w \<Rightarrow> 'w option) \<Rightarrow> 'a list \<Rightarrow> 'w \<Rightarrow> 'w option" where
  "seq_opt f [] w = Some w"
| "seq_opt f (x # xs) w = (case f x w of None \<Rightarrow> None | Some w1 \<Rightarrow> seq_opt f xs w1)"

text \<open>
  Without a type the function calls itself for every type of the element. The first argument bounds
  the depth of these calls; None is a call that exceeds it.
\<close>

definition remove_entry :: "(string \<Rightarrow> ev_world \<Rightarrow> ev_world option) \<Rightarrow> ev_env \<Rightarrow> nat \<Rightarrow> nat option \<Rightarrow> string \<Rightarrow> bool
    \<Rightarrow> string \<Rightarrow> ev_world \<Rightarrow> ev_world option" where
  "remove_entry remove_mapped env elem guid selector mapped tn w =
     (case rtypenamespace tn of
        Some (c # origType, ns) \<Rightarrow> Some (remove_one_type env elem mapped (c # origType) ns guid selector w)
      | _ \<Rightarrow> seq_opt (\<lambda>t. remove_mapped (t @ tn)) (map fst (events_of elem w)) w)"

fun event_remove :: "nat \<Rightarrow> ev_env \<Rightarrow> nat \<Rightarrow> string \<Rightarrow> nat option \<Rightarrow> string \<Rightarrow> bool \<Rightarrow> ev_world \<Rightarrow> ev_world option" where
  "event_remove 0 env elem types guid selector mapped w = None"
| "event_remove (Suc n) env elem types guid selector mapped w =
     (if evs w elem = None then Some w
      else map_option (drop_empty elem)
        (seq_opt (remove_entry (\<lambda>tn. event_remove n env elem tn guid selector True) env elem guid selector mapped)
          (rev (type_list types)) w))"

section \<open>on, one and off\<close>

text \<open>What can stand for the selector, the data and the function.\<close>

datatype arg = ANone | AStr string | AFun nat | AFalse | AOther jsval

definition arg_data :: "arg \<Rightarrow> jsval" where
  "arg_data a = (case a of ANone \<Rightarrow> VUndef | AStr s \<Rightarrow> VStr s | AFun f \<Rightarrow> VFun f | AFalse \<Rightarrow> VBool False | AOther v \<Rightarrow> v)"

definition shift_args :: "arg \<Rightarrow> arg \<Rightarrow> arg \<Rightarrow> arg \<times> arg \<times> arg" where
  "shift_args selector data fn =
     (if data = ANone \<and> fn = ANone then (ANone, ANone, selector)
      else if fn = ANone then
        (case selector of AStr s \<Rightarrow> (selector, ANone, data) | _ \<Rightarrow> (ANone, selector, data))
      else (selector, data, fn))"

text \<open>\<open>returnFalse\<close> is the handler with the number 0.\<close>

definition the_fn :: "arg \<Rightarrow> nat option" where
  "the_fn fn = (case fn of AFun f \<Rightarrow> Some f | AFalse \<Rightarrow> Some 0 | _ \<Rightarrow> None)"

definition sel_str :: "arg \<Rightarrow> string" where
  "sel_str a = (case a of AStr s \<Rightarrow> s | _ \<Rightarrow> [])"

definition wrap_once :: "nat \<Rightarrow> ev_world \<Rightarrow> nat \<times> ev_world" where
  "wrap_once f w0 =
     (let w = assign_guid f w0; k = next_handler w in
      (k, w\<lparr>guid_of := (guid_of w)(k := guid_of w f), once_of := (once_of w)(k := Some f), next_handler := k + 1\<rparr>))"

definition fn_on :: "ev_env \<Rightarrow> nat list \<Rightarrow> string \<Rightarrow> arg \<Rightarrow> arg \<Rightarrow> arg \<Rightarrow> bool \<Rightarrow> ev_world \<Rightarrow> ev_world" where
  "fn_on env this types selector data fn one w =
     (case shift_args selector data fn of
        (sel, dat, fn1) \<Rightarrow>
          (case the_fn fn1 of
             None \<Rightarrow> w
           | Some f \<Rightarrow>
               (case (if one then wrap_once f w else (f, w)) of
                  (g, w1) \<Rightarrow> fold (\<lambda>e. event_add env e types (PlainHandler g) (arg_data dat) (sel_str sel)) this w1)))"

text \<open>A map of types to functions; without a selector its second argument is the data.\<close>

definition fn_on_map :: "ev_env \<Rightarrow> nat list \<Rightarrow> (string \<times> arg) list \<Rightarrow> arg \<Rightarrow> arg \<Rightarrow> bool \<Rightarrow> ev_world \<Rightarrow> ev_world" where
  "fn_on_map env this types selector data one w =
     (case (case selector of AStr s \<Rightarrow> (selector, data) | _ \<Rightarrow> (ANone, if data = ANone then selector else data)) of
        (sel, dat) \<Rightarrow> fold (\<lambda>(t, fn). fn_on env this t sel dat fn one) types w)"

definition remove_fuel :: nat where
  "remove_fuel = 3"

definition fn_off :: "ev_env \<Rightarrow> nat list \<Rightarrow> string \<Rightarrow> arg \<Rightarrow> arg \<Rightarrow> ev_world \<Rightarrow> ev_world option" where
  "fn_off env this types selector fn w =
     (case (case selector of AFalse \<Rightarrow> (ANone, selector) | AFun f \<Rightarrow> (ANone, selector) | _ \<Rightarrow> (selector, fn)) of
        (sel, fn1) \<Rightarrow>
          seq_opt (\<lambda>e w. event_remove remove_fuel env e types (map_option (guid_of w) (the_fn fn1)) (sel_str sel) False w) this w)"

definition fn_off_map :: "ev_env \<Rightarrow> nat list \<Rightarrow> (string \<times> arg) list \<Rightarrow> arg \<Rightarrow> ev_world \<Rightarrow> ev_world option" where
  "fn_off_map env this types selector w = seq_opt (\<lambda>(t, fn) w. fn_off env this t selector fn w) types w"

text \<open>The argument is a dispatched event: its delegate target and the entry that is being run.\<close>

definition fn_off_event :: "ev_env \<Rightarrow> nat \<Rightarrow> handle_obj \<Rightarrow> ev_world \<Rightarrow> ev_world option" where
  "fn_off_event env delegateTarget h w =
     fn_off env [delegateTarget] (if h_namespace h \<noteq> [] then h_origType h @ ''.'' @ h_namespace h else h_origType h)
       (if h_selector h = [] then ANone else AStr (h_selector h)) (AFun (h_handler h)) w"

section \<open>Lemmas\<close>

definition hl_wf :: "hlist \<Rightarrow> bool" where
  "hl_wf hl \<longleftrightarrow> delegateCount hl \<le> length (hobjs hl)
     \<and> list_all (\<lambda>h. h_selector h \<noteq> []) (take (delegateCount hl) (hobjs hl))
     \<and> list_all (\<lambda>h. h_selector h = []) (drop (delegateCount hl) (hobjs hl))"

lemma hl_wf_split: "hl_wf \<lparr>hobjs = ds @ rs, delegateCount = length ds\<rparr> \<longleftrightarrow>
    list_all (\<lambda>h. h_selector h \<noteq> []) ds \<and> list_all (\<lambda>h. h_selector h = []) rs"
  by (simp add: hl_wf_def)

lemma hl_wf_cases:
  assumes "hl_wf hl"
  obtains ds rs where "hl = \<lparr>hobjs = ds @ rs, delegateCount = length ds\<rparr>"
    "list_all (\<lambda>h. h_selector h \<noteq> []) ds" "list_all (\<lambda>h. h_selector h = []) rs"
proof (rule that [of "take (delegateCount hl) (hobjs hl)" "drop (delegateCount hl) (hobjs hl)"])
  show "hl = \<lparr>hobjs = take (delegateCount hl) (hobjs hl) @ drop (delegateCount hl) (hobjs hl),
      delegateCount = length (take (delegateCount hl) (hobjs hl))\<rparr>"
    using assms by (cases hl) (simp add: hl_wf_def)
qed (use assms in \<open>simp_all add: hl_wf_def\<close>)

lemma hl_wf_add: "hl_wf hl \<Longrightarrow> hl_wf (add_obj h hl)"
proof (erule hl_wf_cases)
  fix ds rs
  assume hl: "hl = \<lparr>hobjs = ds @ rs, delegateCount = length ds\<rparr>"
    "list_all (\<lambda>h. h_selector h \<noteq> []) ds" "list_all (\<lambda>h. h_selector h = []) rs"
  show ?thesis
  proof (cases "h_selector h = []")
    case True
    then have "add_obj h hl = \<lparr>hobjs = ds @ (rs @ [h]), delegateCount = length ds\<rparr>" using hl(1) by (simp add: add_obj_def)
    then show ?thesis using hl(2,3) True by (simp only: hl_wf_split) simp
  next
    case False
    then have "add_obj h hl = \<lparr>hobjs = (ds @ [h]) @ rs, delegateCount = length (ds @ [h])\<rparr>" using hl(1) by (simp add: add_obj_def)
    then show ?thesis using hl(2,3) False by (simp only: hl_wf_split) simp
  qed
qed

text \<open>The removing loop is a filter, on both parts of the list.\<close>

lemma remove_loop_tail:
  "n \<le> length as \<Longrightarrow> remove_loop P n \<lparr>hobjs = as @ bs, delegateCount = k\<rparr> =
    (case remove_loop P n \<lparr>hobjs = as, delegateCount = k\<rparr> of hl \<Rightarrow> hl\<lparr>hobjs := hobjs hl @ bs\<rparr>)"
proof (induction n arbitrary: as k)
  case (Suc n)
  have "n \<le> length (take n as @ drop (Suc n) as)" using Suc.prems by simp
  note ih = Suc.IH [OF this, simplified append_assoc]
  show ?case using Suc.prems Suc.IH [of as] ih by (simp add: nth_append Let_def)
qed simp

lemma remove_loop_spec:
  "remove_loop P (length as) \<lparr>hobjs = as, delegateCount = k\<rparr> =
     \<lparr>hobjs = filter (\<lambda>h. \<not> P h) as, delegateCount = k - length (filter (\<lambda>h. P h \<and> h_selector h \<noteq> []) as)\<rparr>"
proof (induction as arbitrary: k rule: rev_induct)
  case (snoc a as)
  have drop: "remove_loop P (length as) \<lparr>hobjs = as @ bs, delegateCount = j\<rparr> =
      \<lparr>hobjs = filter (\<lambda>h. \<not> P h) as @ bs, delegateCount = j - length (filter (\<lambda>h. P h \<and> h_selector h \<noteq> []) as)\<rparr>" for bs j
    using snoc [of j] by (simp add: remove_loop_tail)
  show ?case using drop [of "[a]" k] drop [of "[]" k] drop [of "[]" "k - 1"] by (simp add: Let_def)
qed simp

lemma remove_loop_wf:
  assumes "hl_wf hl"
  shows "hobjs (remove_loop P (length (hobjs hl)) hl) = filter (\<lambda>h. \<not> P h) (hobjs hl)
    \<and> hl_wf (remove_loop P (length (hobjs hl)) hl)"
  using assms
proof (rule hl_wf_cases)
  fix ds rs
  assume hl: "hl = \<lparr>hobjs = ds @ rs, delegateCount = length ds\<rparr>"
    "list_all (\<lambda>h. h_selector h \<noteq> []) ds" "list_all (\<lambda>h. h_selector h = []) rs"
  have "filter (\<lambda>h. P h \<and> h_selector h \<noteq> []) rs = []" using hl(3) by (induction rs) auto
  moreover have "filter (\<lambda>h. P h \<and> h_selector h \<noteq> []) ds = filter P ds" using hl(2) by (induction ds) auto
  moreover have "length ds - length (filter P ds) = length (filter (\<lambda>h. \<not> P h) ds)"
    using sum_length_filter_compl [of P ds] by simp
  ultimately have r: "remove_loop P (length (hobjs hl)) hl =
      \<lparr>hobjs = filter (\<lambda>h. \<not> P h) ds @ filter (\<lambda>h. \<not> P h) rs, delegateCount = length (filter (\<lambda>h. \<not> P h) ds)\<rparr>"
    using remove_loop_spec [of P "ds @ rs" "length ds"] hl(1) by simp
  show ?thesis unfolding r hl_wf_split using hl by (auto simp: list_all_iff)
qed

text \<open>
  What the private data of an element looks like: delegated handlers first and counted, no empty list,
  and a listener of the browser for exactly the types that have handlers and no setup of their own.
\<close>

definition ev_wf :: "ev_env \<Rightarrow> nat \<Rightarrow> ev_world \<Rightarrow> bool" where
  "ev_wf env elem w \<longleftrightarrow>
     props_wf (events_of elem w)
     \<and> (\<forall>t hl. map_of (events_of elem w) t = Some hl \<longrightarrow> hl_wf hl \<and> hobjs hl \<noteq> [])
     \<and> (\<forall>t. t \<in> set (natives w elem) \<longleftrightarrow>
          map_of (events_of elem w) t \<noteq> None \<and> \<not> counted_setup (special_of (focusinBubbles env) t))"

lemma events_put [simp]: "events_of e (put_events elem es w) = (if e = elem then es else events_of e w)"
  by (simp add: events_of_def put_events_def)

lemma natives_put [simp]: "natives (put_events elem es w) = natives w"
  by (simp add: put_events_def)

lemma focus_frame [simp]:
  "evs (focus_setup t w) = evs w" "natives (focus_setup t w) = natives w"
  "evs (focus_teardown t w) = evs w" "natives (focus_teardown t w) = natives w"
  by (simp_all add: focus_setup_def focus_teardown_def Let_def)

lemma listen_frame: "events_of e (listen env elem t w) = events_of e w"
  "set (natives (listen env elem t w) elem) =
     (if counted_setup (special_of (focusinBubbles env) t) then set (natives w elem) else insert t (set (natives w elem)))"
  by (auto simp: listen_def events_of_def)

lemma unlisten_frame: "events_of e (unlisten env elem sp t w) = events_of e w"
  "set (natives (unlisten env elem sp t w) elem) =
     (if counted_setup (special_of (focusinBubbles env) sp) then set (natives w elem) else set (natives w elem) - {t})"
  by (auto simp: unlisten_def events_of_def)

lemma counted_actual: "counted_setup (special_of b t) \<Longrightarrow> actual_type b s t = t"
  by (auto simp: special_of_def actual_type_def or_type_def no_special_def split: option.splits if_splits)

lemma add_obj_nonempty [simp]: "hobjs (add_obj h hl) \<noteq> []"
  by (simp add: add_obj_def)

lemma used_frame [simp]: "events_of e (w\<lparr>used := u\<rparr>) = events_of e w"
  by (simp add: events_of_def)

definition list_at :: "nat \<Rightarrow> string \<Rightarrow> ev_world \<Rightarrow> hlist" where
  "list_at elem t w = (case map_of (events_of elem w) t of Some hl \<Rightarrow> hl | None \<Rightarrow> \<lparr>hobjs = [], delegateCount = 0\<rparr>)"

definition new_obj :: "ev_env \<Rightarrow> nat \<Rightarrow> jsval \<Rightarrow> string \<Rightarrow> string \<Rightarrow> string \<Rightarrow> ev_world \<Rightarrow> handle_obj" where
  "new_obj env handler data selector origType ns w =
     \<lparr>h_type = actual_type (focusinBubbles env) selector origType, h_origType = origType, h_data = data, h_handler = handler,
      h_guid = guid_of w handler, h_selector = selector, h_needsContext = (selector \<noteq> [] \<and> needs_context env selector),
      h_namespace = join_with ''.'' (sorted_names ns)\<rparr>"

lemma add_one_type_result:
  assumes "rtypenamespace tn = Some (origType, ns)" "origType \<noteq> []" "t = actual_type (focusinBubbles env) selector origType"
  shows "events_of e (add_one_type env elem id handler data selector tn w) =
      (if e = elem then prop_set t (add_obj (new_obj env handler data selector origType ns w) (list_at elem t w)) (events_of elem w)
       else events_of e w)"
    "natives (add_one_type env elem id handler data selector tn w) =
      (if map_of (events_of elem w) t = None then natives (listen env elem t w) else natives w)"
  using assms by (simp_all add: add_one_type_def Let_def listen_frame list_at_def new_obj_def)

lemma add_one_type_wf:
  assumes wf: "ev_wf env elem w"
  shows "ev_wf env elem (add_one_type env elem id handler data selector tn w)"
proof (cases "\<exists>origType ns. rtypenamespace tn = Some (origType, ns) \<and> origType \<noteq> []")
  case False
  then have "add_one_type env elem id handler data selector tn w = w"
    by (auto simp: add_one_type_def split: option.split)
  then show ?thesis using wf by simp
next
  case True
  then obtain origType ns where p: "rtypenamespace tn = Some (origType, ns)" "origType \<noteq> []" by blast
  let ?t = "actual_type (focusinBubbles env) selector origType"
  obtain h w' where w': "add_one_type env elem id handler data selector tn w = w'"
    "events_of elem w' = prop_set ?t (add_obj h (list_at elem ?t w)) (events_of elem w)"
    "natives w' = (if map_of (events_of elem w) ?t = None then natives (listen env elem ?t w) else natives w)"
    using add_one_type_result [OF p refl, where env=env and elem=elem and w=w] by (metis (full_types))
  have hl: "hl_wf (list_at elem ?t w)" using wf by (auto simp: ev_wf_def hl_wf_def list_at_def split: option.split)
  have "set (natives w' elem) = (if counted_setup (special_of (focusinBubbles env) ?t) then set (natives w elem)
      else insert ?t (set (natives w elem)))"
    using wf w'(3) by (auto simp: listen_frame ev_wf_def)
  then show ?thesis
    using wf w'(1,2) hl_wf_add [OF hl, of h] props_wf_set [of "events_of elem w"] unfolding ev_wf_def by auto
qed

lemma remove_one_type_result:
  assumes "ev_wf env elem w" "t = actual_type (focusinBubbles env) selector origType"
  shows "map_of (events_of elem (remove_one_type env elem mapped origType ns guid selector w)) u =
      (if u = t \<and> map_of (events_of elem w) t \<noteq> None then
         (if filter (\<lambda>h. \<not> matches_obj mapped origType ns guid selector h) (hobjs (list_at elem t w)) = [] then None
          else Some (remove_loop (matches_obj mapped origType ns guid selector) (length (hobjs (list_at elem t w))) (list_at elem t w)))
       else map_of (events_of elem w) u)"
    "set (natives (remove_one_type env elem mapped origType ns guid selector w) elem) =
      (if map_of (events_of elem (remove_one_type env elem mapped origType ns guid selector w)) t = None
       then set (natives w elem) - {t} else set (natives w elem))"
proof -
  let ?P = "matches_obj mapped origType ns guid selector"
  have nat: "t \<notin> set (natives w elem)" if "map_of (events_of elem w) t = None \<or> counted_setup (special_of (focusinBubbles env) t)"
    using assms(1) that by (auto simp: ev_wf_def)
  show "map_of (events_of elem (remove_one_type env elem mapped origType ns guid selector w)) u =
      (if u = t \<and> map_of (events_of elem w) t \<noteq> None then
         (if filter (\<lambda>h. \<not> ?P h) (hobjs (list_at elem t w)) = [] then None
          else Some (remove_loop ?P (length (hobjs (list_at elem t w))) (list_at elem t w)))
       else map_of (events_of elem w) u)"
  proof (cases "map_of (events_of elem w) t")
    case None
    then show ?thesis using assms(2) by (simp add: remove_one_type_def Let_def)
  next
    case (Some hl)
    then have "hl_wf hl" "hobjs hl \<noteq> []" using assms(1) by (auto simp: ev_wf_def)
    then show ?thesis using Some assms(2) remove_loop_wf [of hl ?P]
      by (simp add: remove_one_type_def Let_def list_at_def unlisten_frame)
  qed
  show "set (natives (remove_one_type env elem mapped origType ns guid selector w) elem) =
      (if map_of (events_of elem (remove_one_type env elem mapped origType ns guid selector w)) t = None
       then set (natives w elem) - {t} else set (natives w elem))"
  proof (cases "map_of (events_of elem w) t")
    case None
    then show ?thesis using assms(2) nat by (simp add: remove_one_type_def Let_def)
  next
    case (Some hl)
    have c: "t \<notin> set (natives w elem)" if "counted_setup (special_of (focusinBubbles env) origType)"
      using that nat counted_actual assms(2) by metis
    have "hl_wf hl" "hobjs hl \<noteq> []" using Some assms(1) by (auto simp: ev_wf_def)
    then show ?thesis using Some assms(2) remove_loop_wf [of hl ?P] c
      by (simp add: remove_one_type_def Let_def unlisten_frame)
  qed
qed

lemma remove_one_type_wf:
  assumes wf: "ev_wf env elem w"
  shows "ev_wf env elem (remove_one_type env elem mapped origType ns guid selector w)"
proof -
  let ?t = "actual_type (focusinBubbles env) selector origType"
  let ?w' = "remove_one_type env elem mapped origType ns guid selector w"
  let ?P = "matches_obj mapped origType ns guid selector"
  have "props_wf (events_of elem ?w')"
    using wf by (simp add: remove_one_type_def Let_def ev_wf_def unlisten_frame props_wf_set props_wf_del split: option.split)
  moreover have "hl_wf hl \<and> hobjs hl \<noteq> []" if "map_of (events_of elem ?w') u = Some hl" for u hl
  proof (cases "u = ?t \<and> map_of (events_of elem w) ?t \<noteq> None")
    case True
    then have l: "hl_wf (list_at elem ?t w)" using wf by (auto simp: ev_wf_def list_at_def)
    show ?thesis using that True remove_loop_wf [OF l, of ?P] remove_one_type_result(1) [OF wf refl, where selector=selector and origType=origType and mapped=mapped and ns=ns and guid=guid and u=u]
      by (auto split: if_splits)
  next
    case False
    then have "map_of (events_of elem w) u = Some hl"
      using that remove_one_type_result(1) [OF wf refl, where selector=selector and origType=origType and mapped=mapped and ns=ns and guid=guid and u=u] by (simp only: if_False)
    then show ?thesis using wf by (simp add: ev_wf_def)
  qed
  moreover have "u \<in> set (natives ?w' elem) \<longleftrightarrow>
      map_of (events_of elem ?w') u \<noteq> None \<and> \<not> counted_setup (special_of (focusinBubbles env) u)" for u
  proof -
    have n: "u \<in> set (natives w elem) \<longleftrightarrow> map_of (events_of elem w) u \<noteq> None \<and> \<not> counted_setup (special_of (focusinBubbles env) u)"
      using wf by (simp add: ev_wf_def)
    show ?thesis
      unfolding remove_one_type_result(2) [OF wf refl]
      using n remove_one_type_result(1) [OF wf refl, where selector=selector and origType=origType and mapped=mapped and ns=ns and guid=guid] by (cases "u = ?t") auto
  qed
  ultimately show ?thesis by (simp add: ev_wf_def)
qed

lemma seq_opt_keeps:
  "(\<And>x w w'. x \<in> set xs \<Longrightarrow> I w \<Longrightarrow> f x w = Some w' \<Longrightarrow> I w') \<Longrightarrow> I w \<Longrightarrow> seq_opt f xs w = Some w' \<Longrightarrow> I w'"
proof (induction xs arbitrary: w)
  case (Cons x xs)
  then obtain w1 where "f x w = Some w1" "seq_opt f xs w1 = Some w'" by (auto split: option.splits)
  then show ?case using Cons by (meson list.set_intros)
qed simp

lemma drop_empty_frame [simp]: "events_of e (drop_empty elem w) = events_of e w" "natives (drop_empty elem w) = natives w"
  by (auto simp: drop_empty_def events_of_def)

lemma drop_empty_wf: "ev_wf env elem w \<Longrightarrow> ev_wf env elem (drop_empty elem w)"
  by (simp add: ev_wf_def)

lemma remove_entry_wf:
  assumes "\<And>t w w'. ev_wf env elem w \<Longrightarrow> rm t w = Some w' \<Longrightarrow> ev_wf env elem w'" "ev_wf env elem w"
    "remove_entry rm env elem guid selector mapped tn w = Some w'"
  shows "ev_wf env elem w'"
proof -
  have all: "ev_wf env elem w'" if "seq_opt (\<lambda>t. rm (t @ tn)) ts w = Some w'" for ts
    by (rule seq_opt_keeps [where I="ev_wf env elem", OF _ assms(2) that]) (use assms(1) in blast)
  show ?thesis using assms(2,3) all remove_one_type_wf by (auto simp: remove_entry_def split: option.splits list.splits)
qed

lemma event_remove_wf:
  "ev_wf env elem w \<Longrightarrow> event_remove n env elem types guid selector mapped w = Some w' \<Longrightarrow> ev_wf env elem w'"
proof (induction n arbitrary: types mapped w w')
  case (Suc n)
  show ?case
  proof (cases "evs w elem = None")
    case True
    then show ?thesis using Suc.prems by simp
  next
    case False
    then obtain w2 where w2: "w' = drop_empty elem w2"
      "seq_opt (remove_entry (\<lambda>tn. event_remove n env elem tn guid selector True) env elem guid selector mapped)
          (rev (type_list types)) w = Some w2"
      using Suc.prems(2) by auto
    have entry: "ev_wf env elem b"
      if "ev_wf env elem a" "remove_entry (\<lambda>tn. event_remove n env elem tn guid selector True) env elem guid selector mapped tn a = Some b"
      for tn a b
      by (rule remove_entry_wf [OF _ that]) (rule Suc.IH)
    have "ev_wf env elem w2"
      by (rule seq_opt_keeps [where I="ev_wf env elem", OF _ Suc.prems(1) w2(2)]) (rule entry)
    then show ?thesis using w2(1) drop_empty_wf by simp
  qed
qed simp

lemma event_add_wf:
  assumes "accepts_data env elem" "ev_wf env elem w"
  shows "ev_wf env elem (event_add env elem types (PlainHandler h) data selector w)"
proof -
  have f: "ev_wf env elem (fold (add_one_type env elem id h data selector) tns w)" if "ev_wf env elem w" for tns w
    using that by (induction tns arbitrary: w) (simp_all add: add_one_type_wf)
  have "ev_wf env elem ((put_events elem (events_of elem (assign_guid h w)) (assign_guid h w))\<lparr>has_handle := b\<rparr>)" for b
    using assms(2) by (simp add: ev_wf_def assign_guid_def put_events_def events_of_def Let_def)
  from f [OF this] show ?thesis using assms(1) by (simp add: event_add_def Let_def)
qed

text \<open>What one remove does to the handlers of a type.\<close>

lemma remove_single:
  assumes "is_word tn" "rtypenamespace tn = Some (origType, ns)" "origType \<noteq> []" "evs w elem \<noteq> None"
  shows "event_remove (Suc n) env elem tn guid selector mapped w =
    Some (drop_empty elem (remove_one_type env elem mapped origType ns guid selector w))"
proof -
  obtain c cs where "origType = c # cs" using assms(3) by (cases origType) auto
  moreover have "type_list tn = [tn]" using assms(1) by (simp add: type_list_def ws_words_word)
  moreover obtain es where "evs w elem = Some es" using assms(4) by blast
  ultimately show ?thesis using assms(2) by (simp add: remove_entry_def)
qed

lemma list_at_drop_empty [simp]: "list_at elem t (drop_empty elem w) = list_at elem t w"
  by (simp add: list_at_def)

lemma remove_handlers:
  assumes "ev_wf env elem w" "is_word tn" "rtypenamespace tn = Some (origType, ns)" "origType \<noteq> []"
    "event_remove (Suc n) env elem tn guid selector mapped w = Some w'"
  shows "hobjs (list_at elem t w') =
    (if t = actual_type (focusinBubbles env) selector origType
     then filter (\<lambda>h. \<not> matches_obj mapped origType ns guid selector h) (hobjs (list_at elem t w))
     else hobjs (list_at elem t w))"
proof (cases "evs w elem")
  case None
  then have "w' = w" "hobjs (list_at elem u w) = []" for u using assms(5) by (simp_all add: list_at_def events_of_def)
  then show ?thesis by simp
next
  case (Some es)
  then have w': "w' = drop_empty elem (remove_one_type env elem mapped origType ns guid selector w)"
    using remove_single [OF assms(2-4), of w elem n env guid selector mapped] assms(5) Some by (simp del: event_remove.simps)
  obtain u where u: "u = actual_type (focusinBubbles env) selector origType" by simp
  let ?P = "matches_obj mapped origType ns guid selector"
  let ?w2 = "remove_one_type env elem mapped origType ns guid selector w"
  note r = remove_one_type_result(1) [OF assms(1) u, of mapped ns guid]
  have l: "list_at elem t w' = (case map_of (events_of elem ?w2) t of Some hl \<Rightarrow> hl | None \<Rightarrow> \<lparr>hobjs = [], delegateCount = 0\<rparr>)" for t
    unfolding w' list_at_drop_empty by (rule list_at_def)
  show ?thesis
  proof (cases "t = u \<and> map_of (events_of elem w) u \<noteq> None")
    case True
    then have "hl_wf (list_at elem u w)" using assms(1) by (auto simp: ev_wf_def list_at_def)
    note f = remove_loop_wf [OF this, of ?P]
    have "map_of (events_of elem ?w2) u =
        (if filter (\<lambda>h. \<not> ?P h) (hobjs (list_at elem u w)) = [] then None
         else Some (remove_loop ?P (length (hobjs (list_at elem u w))) (list_at elem u w)))"
      using r [of u] True by (simp only: simp_thms if_True)
    then have "hobjs (list_at elem u w') = filter (\<lambda>h. \<not> ?P h) (hobjs (list_at elem u w))"
      using l [of u] conjunct1 [OF f] by (cases "filter (\<lambda>h. \<not> ?P h) (hobjs (list_at elem u w)) = []") simp_all
    then show ?thesis using True u by (simp only: if_True simp_thms)
  next
    case False
    have "map_of (events_of elem ?w2) t = map_of (events_of elem w) t" using r [of t] False by (simp only: if_False)
    then have "list_at elem t w' = list_at elem t w" using l [of t] by (simp add: list_at_def)
    moreover have "hobjs (list_at elem u w) = []" if "t = u" using that False by (simp add: list_at_def)
    ultimately show ?thesis using u by (cases "t = u") (simp_all del: split_paired_All)
  qed
qed

text \<open>A name with a dot and nothing behind it names no type; put behind a type it still does not.\<close>

lemma rtypenamespace_append:
  assumes "rtypenamespace tn = None" "CHR ''.'' \<notin> set t"
  shows "rtypenamespace (t @ tn) = None"
proof -
  have "takeWhile (\<lambda>c. c \<noteq> CHR ''.'') (t @ tn) = t @ takeWhile (\<lambda>c. c \<noteq> CHR ''.'') tn"
    using assms(2) by (intro takeWhile_append2) auto
  then show ?thesis using assms(1) by (simp add: rtypenamespace_def Let_def split: if_splits)
qed

fun plain_type :: "string \<Rightarrow> bool" where
  "plain_type t = (no_ws t \<and> CHR ''.'' \<notin> set t)"

lemma remove_malformed:
  assumes "list_all plain_type (map fst (events_of elem w))" "events_of elem w \<noteq> []"
  shows "is_word tn \<Longrightarrow> rtypenamespace tn = None \<Longrightarrow> event_remove n env elem tn guid selector mapped w = None"
proof (induction n arbitrary: tn mapped)
  case (Suc n)
  obtain t ts where ts: "map fst (events_of elem w) = t # ts" using assms(2) by (cases "events_of elem w") auto
  then have t: "no_ws t" "CHR ''.'' \<notin> set t" using assms(1) by simp_all
  have "is_word (t @ tn)" using Suc.prems(1) t(1) by (simp add: is_word_def)
  then have "event_remove n env elem (t @ tn) guid selector True w = None"
    using Suc.IH rtypenamespace_append [OF Suc.prems(2) t(2)] by blast
  then have "remove_entry (\<lambda>tn. event_remove n env elem tn guid selector True) env elem guid selector mapped tn w = None"
    using Suc.prems(2) ts by (simp add: remove_entry_def)
  moreover have "evs w elem \<noteq> None" using assms(2) by (cases "evs w elem") (simp_all add: events_of_def)
  ultimately show ?case using Suc.prems(1) by (simp add: type_list_def ws_words_word)
qed simp

section \<open>Properties\<close>

datatype ev_op = AddOp string nat jsval string | RemoveOp string "nat option" string

fun ev_run :: "nat \<Rightarrow> ev_env \<Rightarrow> nat \<Rightarrow> ev_op list \<Rightarrow> ev_world \<Rightarrow> ev_world option" where
  "ev_run n env elem [] w = Some w"
| "ev_run n env elem (AddOp types h data selector # ops) w =
     ev_run n env elem ops (event_add env elem types (PlainHandler h) data selector w)"
| "ev_run n env elem (RemoveOp types guid selector # ops) w =
     (case event_remove n env elem types guid selector False w of None \<Rightarrow> None | Some w1 \<Rightarrow> ev_run n env elem ops w1)"

text \<open>
  C7: Whatever handlers are added to and removed from an element, with any types, namespaces and
  selectors: in the list of every type the delegated handlers come first and are counted by
  delegateCount, no list is empty, and the browser calls the element for exactly the types that have
  handlers (focusin and focusout apart, which are captured on the document).
\<close>

theorem event_store_well_formed:
  assumes "accepts_data env elem" "ev_wf env elem w" "ev_run n env elem ops w = Some w'"
  shows "(\<forall>t hl. map_of (events_of elem w') t = Some hl \<longrightarrow>
      hobjs hl \<noteq> [] \<and> delegateCount hl \<le> length (hobjs hl)
      \<and> list_all (\<lambda>h. h_selector h \<noteq> []) (take (delegateCount hl) (hobjs hl))
      \<and> list_all (\<lambda>h. h_selector h = []) (drop (delegateCount hl) (hobjs hl)))
    \<and> (\<forall>t. t \<in> set (natives w' elem) \<longleftrightarrow>
        map_of (events_of elem w') t \<noteq> None \<and> \<not> counted_setup (special_of (focusinBubbles env) t))"
proof -
  have "ev_wf env elem w'"
    using assms
  proof (induction n env elem ops w rule: ev_run.induct)
    case (2 n env elem types h data selector ops w)
    have "ev_wf env elem (event_add env elem types (PlainHandler h) data selector w)" by (rule event_add_wf) (use 2 in auto)
    then show ?case using 2 by simp
  qed (auto split: option.splits intro: event_remove_wf)
  then show ?thesis by (simp add: ev_wf_def hl_wf_def)
qed

definition new_world :: ev_world where
  "new_world = \<lparr>evs = (\<lambda>e. None), has_handle = (\<lambda>e. False), natives = (\<lambda>e. []), guid_of = (\<lambda>h. 0), next_guid = 1,
     attaches = [], captures = [], used = [], once_of = (\<lambda>h. None), next_handler = 100\<rparr>"

definition plain_env :: ev_env where
  "plain_env = \<lparr>focusinBubbles = False, accepts_data = (\<lambda>e. True), needs_context = (\<lambda>s. False)\<rparr>"

lemma new_world_wf: "ev_wf env elem new_world"
  by (simp add: ev_wf_def new_world_def events_of_def)

definition example_ops :: "ev_op list" where
  "example_ops = [AddOp ''click'' 1 VUndef [], AddOp ''keyup.ns'' 2 VUndef ''a'', RemoveOp ''click'' None []]"

lemma example_ops_run:
  "case ev_run 3 plain_env 7 example_ops new_world of Some w \<Rightarrow> natives w 7 = [''keyup''] | None \<Rightarrow> False"
  by code_simp

theorem event_store_well_formed_witness:
  "\<exists>w. ev_run 3 plain_env 7 example_ops new_world = Some w \<and> natives w 7 = [''keyup'']
     \<and> map_of (events_of 7 w) ''keyup'' \<noteq> None"
proof -
  obtain w where w: "ev_run 3 plain_env 7 example_ops new_world = Some w" "natives w 7 = [''keyup'']"
    using example_ops_run by (cases "ev_run 3 plain_env 7 example_ops new_world") simp_all
  have "accepts_data plain_env 7" by (simp add: plain_env_def)
  from event_store_well_formed [OF this new_world_wf w(1)]
  have "\<forall>t. t \<in> set (natives w 7) \<longrightarrow> map_of (events_of 7 w) t \<noteq> None" by blast
  then have "map_of (events_of 7 w) ''keyup'' \<noteq> None" using w(2) by (metis list.set_intros)
  then show ?thesis using w by blast
qed

text \<open>
  remove with a type takes away exactly the handlers that it names - by their original type, all the
  given namespaces, the identity of the function and the selector - and leaves every other handler of
  the element in its place.
\<close>

theorem remove_takes_the_named:
  assumes "ev_wf env elem w" "is_word tn" "rtypenamespace tn = Some (origType, ns)" "origType \<noteq> []"
    "event_remove (Suc n) env elem tn guid selector False w = Some w'"
  shows "hobjs (list_at elem t w') =
    (if t = actual_type (focusinBubbles env) selector origType
     then filter (\<lambda>h. \<not> (origType = h_origType h \<and> (guid = None \<or> guid = Some (h_guid h))
            \<and> (ns = [] \<or> names_match ns (h_namespace h))
            \<and> (selector = [] \<or> selector = h_selector h \<or> selector = ''**'' \<and> h_selector h \<noteq> []))) (hobjs (list_at elem t w))
     else hobjs (list_at elem t w))"
proof -
  have "matches_obj False origType ns guid selector = (\<lambda>h. origType = h_origType h \<and> (guid = None \<or> guid = Some (h_guid h))
            \<and> (ns = [] \<or> names_match ns (h_namespace h))
            \<and> (selector = [] \<or> selector = h_selector h \<or> selector = ''**'' \<and> h_selector h \<noteq> []))"
    by (rule ext) (auto simp: matches_obj_def split: option.split)
  then show ?thesis using remove_handlers [OF assms, of t] by simp
qed

theorem remove_takes_the_named_witness:
  "let w = event_add plain_env 7 ''click.b.a'' (PlainHandler 1) VUndef [] new_world in
   map_option (\<lambda>w'. hobjs (list_at 7 ''click'' w')) (event_remove 1 plain_env 7 ''click.a'' None [] False w) = Some []"
proof -
  let ?w = "event_add plain_env 7 ''click.b.a'' (PlainHandler 1) VUndef [] new_world"
  have "case event_remove (Suc 0) plain_env 7 ''click.a'' None [] False ?w of Some w' \<Rightarrow> True | None \<Rightarrow> False" by code_simp
  then obtain w' where w': "event_remove (Suc 0) plain_env 7 ''click.a'' None [] False ?w = Some w'"
    by (cases "event_remove (Suc 0) plain_env 7 ''click.a'' None [] False ?w") auto
  have wf: "ev_wf plain_env 7 ?w" by (rule event_add_wf [OF _ new_world_wf]) (simp add: plain_env_def)
  have t: "is_word ''click.a''" "rtypenamespace ''click.a'' = Some (''click'', ''a'')" "(''click'' :: string) \<noteq> []"
    "actual_type (focusinBubbles plain_env) [] ''click'' = ''click''" by code_simp+
  have "list_all (\<lambda>h. h_origType h = ''click'' \<and> names_match ''a'' (h_namespace h)) (hobjs (list_at 7 ''click'' ?w))" by code_simp
  then have "hobjs (list_at 7 ''click'' w') = []"
    using remove_takes_the_named [OF wf t(1-3) w', of "''click''"] t(4) by (simp add: list_all_iff)
  then show ?thesis using w' by (simp add: Let_def)
qed

text \<open>
  A name that ends in a dot sends remove into a recursion without end: no depth of calls is enough
  as soon as the element has handlers.
\<close>

theorem off_trailing_dot_never_returns:
  "event_remove n plain_env 7 ''click.'' guid selector False (event_add plain_env 7 ''click keyup.ns'' (PlainHandler 1) VUndef [] new_world) = None"
proof -
  have "list_all plain_type (map fst (events_of 7 (event_add plain_env 7 ''click keyup.ns'' (PlainHandler 1) VUndef [] new_world)))"
    by code_simp
  moreover have "events_of 7 (event_add plain_env 7 ''click keyup.ns'' (PlainHandler 1) VUndef [] new_world) \<noteq> []" by code_simp
  moreover have "is_word ''click.''" "rtypenamespace ''click.'' = None" by code_simp+
  ultimately show ?thesis by (rule remove_malformed)
qed

text \<open>
  A delegated focus handler leaves its trace when it is removed: the capturing handler stays on the
  document and its counter at one, because remove looks up the special event before it maps the type.
\<close>

theorem delegated_focus_leaks:
  "map_option (\<lambda>w. (captures w, attaches w, events_of 7 w))
     (fn_off plain_env [7] ''focus'' (AStr ''input'') (AFun 1)
       (fn_on plain_env [7] ''focus'' (AStr ''input'') (AFun 1) ANone False new_world)) =
   Some ([''focus''], [(''focusin'', 1)], [])"
  by code_simp

end
