(* ===== verification/Event_Dispatch.thy ===== *)
theory Event_Dispatch
  imports Event_Store
begin

text \<open>
  The other half of the events of jquery.js: the event object, the queue of handlers for an event
  (\<open>jQuery.event.handlers\<close>), dispatch, and trigger with its path and its default action. What a
  handler does is arbitrary: it calls the methods of the event object, changes the registered handlers
  and returns a value. The nodes of the document are numbered so that a parent comes before its children.
\<close>

section \<open>Document and event object\<close>

record dom =
  dparent :: "nat \<Rightarrow> nat option"
  dnodeType :: "nat \<Rightarrow> int option"
  ddisabled :: "nat \<Rightarrow> bool"
  dname :: "nat \<Rightarrow> string"
  dtype :: "nat \<Rightarrow> string"
  dcontains :: "nat \<Rightarrow> nat \<Rightarrow> bool"
  dselects :: "string \<Rightarrow> nat \<Rightarrow> nat \<Rightarrow> bool"      \<comment> \<open>selector, root, node\<close>
  dmethods :: "nat \<Rightarrow> string list"                \<comment> \<open>native methods such as click and focus\<close>
  dactive :: nat
  ddocument :: nat
  dwindow :: nat

definition parent_of :: "dom \<Rightarrow> nat \<Rightarrow> nat option" where
  "parent_of d n = (case dparent d n of Some p \<Rightarrow> if p < n then Some p else None | None \<Rightarrow> None)"

record event =
  e_type :: string
  e_namespace :: string
  e_target :: nat
  e_currentTarget :: nat
  e_delegateTarget :: nat
  e_relatedTarget :: "nat option"
  e_button :: nat
  e_result :: jsval
  e_isTrigger :: nat
  defaultPrevented :: bool
  propagationStopped :: bool
  immediateStopped :: bool

definition preventDefault :: "event \<Rightarrow> event" where
  "preventDefault e = e\<lparr>defaultPrevented := True\<rparr>"

definition stopPropagation :: "event \<Rightarrow> event" where
  "stopPropagation e = e\<lparr>propagationStopped := True\<rparr>"

definition stopImmediatePropagation :: "event \<Rightarrow> event" where
  "stopImmediatePropagation e = stopPropagation (e\<lparr>immediateStopped := True\<rparr>)"

text \<open>The constructor, from a type or from an event of the browser that may have been prevented.\<close>

definition new_event :: "string \<Rightarrow> nat \<Rightarrow> bool \<Rightarrow> event" where
  "new_event t target prevented =
     \<lparr>e_type = t, e_namespace = [], e_target = target, e_currentTarget = 0, e_delegateTarget = 0, e_relatedTarget = None,
      e_button = 0, e_result = VUndef, e_isTrigger = 0, defaultPrevented = prevented, propagationStopped = False,
      immediateStopped = False\<rparr>"

text \<open>fix: an event of the browser gets a target, and not a text node. The button gives which.\<close>

definition fix_target :: "dom \<Rightarrow> nat option \<Rightarrow> nat" where
  "fix_target d target =
     (let t = (case target of None \<Rightarrow> ddocument d | Some t \<Rightarrow> t) in
      if dnodeType d t = Some 3 then (case parent_of d t of Some p \<Rightarrow> p | None \<Rightarrow> t) else t)"

definition which_button :: "nat \<Rightarrow> nat" where
  "which_button button =
     (if odd button then 1 else if odd (button div 2) then 3 else if odd (button div 4) then 2 else 0)"

section \<open>What handlers do\<close>

datatype haction = PreventDefault | StopPropagation | StopImmediate | ChangeHandlers "ev_world \<Rightarrow> ev_world"

type_synonym behaviour = "nat \<Rightarrow> nat \<Rightarrow> event \<Rightarrow> ev_world \<Rightarrow> haction list \<times> jsval"

text \<open>The state of a dispatch; \<open>calls\<close> records the entries that were run, with their elements.\<close>

record dstate =
  world :: ev_world
  ev :: event
  calls :: "(nat \<times> handle_obj) list"

fun act :: "haction \<Rightarrow> dstate \<Rightarrow> dstate" where
  "act PreventDefault s = s\<lparr>ev := preventDefault (ev s)\<rparr>"
| "act StopPropagation s = s\<lparr>ev := stopPropagation (ev s)\<rparr>"
| "act StopImmediate s = s\<lparr>ev := stopImmediatePropagation (ev s)\<rparr>"
| "act (ChangeHandlers f) s = s\<lparr>world := f (world s)\<rparr>"

text \<open>A function that was bound with one first takes itself away.\<close>

definition run_fn :: "ev_env \<Rightarrow> behaviour \<Rightarrow> handle_obj \<Rightarrow> nat \<Rightarrow> dstate \<Rightarrow> jsval \<times> dstate" where
  "run_fn env beh h elem s =
     (let s1 = (case once_of (world s) (h_handler h) of
            None \<Rightarrow> s
          | Some f \<Rightarrow> (case fn_off_event env (e_delegateTarget (ev s)) h (world s) of
              Some w \<Rightarrow> s\<lparr>world := w\<rparr> | None \<Rightarrow> s));
          f = (case once_of (world s) (h_handler h) of None \<Rightarrow> h_handler h | Some f \<Rightarrow> f) in
      case beh f elem (ev s1) (world s1) of (acts, ret) \<Rightarrow> (ret, fold act acts s1))"

text \<open>
  \<open>( special.handle || handler ).apply\<close>: the enter and leave events run the function only when the
  pointer comes from or goes to somewhere outside the element.
\<close>

definition call_handler :: "ev_env \<Rightarrow> dom \<Rightarrow> behaviour \<Rightarrow> handle_obj \<Rightarrow> nat \<Rightarrow> dstate \<Rightarrow> jsval \<times> dstate" where
  "call_handler env d beh h elem s =
     (case map_of enter_leave (h_origType h) of
        None \<Rightarrow> run_fn env beh h elem s
      | Some fix_type \<Rightarrow>
          (if (case e_relatedTarget (ev s) of None \<Rightarrow> True | Some r \<Rightarrow> r \<noteq> elem \<and> \<not> dcontains d elem r)
           then (case run_fn env beh h elem (s\<lparr>ev := (ev s)\<lparr>e_type := h_origType h\<rparr>\<rparr>) of
                   (ret, s1) \<Rightarrow> (ret, s1\<lparr>ev := (ev s1)\<lparr>e_type := fix_type\<rparr>\<rparr>))
           else (VUndef, s)))"

section \<open>The queue\<close>

text \<open>The elements from the target up to, and without, the one that dispatches.\<close>

function delegate_path :: "dom \<Rightarrow> nat \<Rightarrow> nat \<Rightarrow> nat list" where
  "delegate_path d this cur =
     (if cur = this then []
      else cur # (case parent_of d cur of None \<Rightarrow> [] | Some p \<Rightarrow> delegate_path d this p))"
  by pat_completeness auto
termination
  by (relation "measure (\<lambda>(d, this, cur). cur)") (auto simp: parent_of_def split: option.splits if_splits)

declare delegate_path.simps [simp del]

definition delegates_at :: "dom \<Rightarrow> nat \<Rightarrow> event \<Rightarrow> handle_obj list \<Rightarrow> nat \<Rightarrow> (nat \<times> handle_obj list) list" where
  "delegates_at d this e ds cur =
     (if \<not> ddisabled d cur \<or> e_type e \<noteq> ''click'' then
        (let matches = filter (\<lambda>h. dselects d (h_selector h) this cur) ds in
         if matches \<noteq> [] then [(cur, matches)] else [])
      else [])"

definition handlers :: "dom \<Rightarrow> nat \<Rightarrow> event \<Rightarrow> hlist \<Rightarrow> (nat \<times> handle_obj list) list" where
  "handlers d this e hl =
     (if delegateCount hl \<noteq> 0 \<and> dnodeType d (e_target e) \<noteq> None \<and> (e_button e = 0 \<or> e_type e \<noteq> ''click'')
      then concat (map (delegates_at d this e (take (delegateCount hl) (hobjs hl))) (delegate_path d this (e_target e)))
      else [])
     @ (if delegateCount hl < length (hobjs hl) then [(this, drop (delegateCount hl) (hobjs hl))] else [])"

section \<open>dispatch\<close>

definition ns_allows :: "event \<Rightarrow> handle_obj \<Rightarrow> bool" where
  "ns_allows e h \<longleftrightarrow> e_namespace e = [] \<or> names_match (e_namespace e) (h_namespace h)"

definition keep_result :: "jsval \<Rightarrow> dstate \<Rightarrow> dstate" where
  "keep_result ret s =
     (if ret = VUndef then s
      else
        (let s1 = s\<lparr>ev := (ev s)\<lparr>e_result := ret\<rparr>\<rparr> in
         if ret = VBool False then s1\<lparr>ev := stopPropagation (preventDefault (ev s1))\<rparr> else s1))"

definition run_entry :: "ev_env \<Rightarrow> dom \<Rightarrow> behaviour \<Rightarrow> nat \<Rightarrow> handle_obj \<Rightarrow> dstate \<Rightarrow> dstate" where
  "run_entry env d beh elem h s =
     (if ns_allows (ev s) h
      then (case call_handler env d beh h elem (s\<lparr>calls := calls s @ [(elem, h)]\<rparr>) of (ret, s1) \<Rightarrow> keep_result ret s1)
      else s)"

fun run_group :: "ev_env \<Rightarrow> dom \<Rightarrow> behaviour \<Rightarrow> nat \<Rightarrow> handle_obj list \<Rightarrow> dstate \<Rightarrow> dstate" where
  "run_group env d beh elem [] s = s"
| "run_group env d beh elem (h # hs) s =
     (if immediateStopped (ev s) then s else run_group env d beh elem hs (run_entry env d beh elem h s))"

fun run_queue :: "ev_env \<Rightarrow> dom \<Rightarrow> behaviour \<Rightarrow> (nat \<times> handle_obj list) list \<Rightarrow> dstate \<Rightarrow> dstate" where
  "run_queue env d beh [] s = s"
| "run_queue env d beh ((elem, hs) # q) s =
     (if propagationStopped (ev s) then s
      else run_queue env d beh q (run_group env d beh elem hs (s\<lparr>ev := (ev s)\<lparr>e_currentTarget := elem\<rparr>\<rparr>)))"

definition dispatch :: "ev_env \<Rightarrow> dom \<Rightarrow> behaviour \<Rightarrow> nat \<Rightarrow> dstate \<Rightarrow> dstate" where
  "dispatch env d beh this s =
     (let e = (ev s)\<lparr>e_delegateTarget := this\<rparr> in
      run_queue env d beh (handlers d this e (list_at this (e_type e) (world s))) (s\<lparr>ev := e\<rparr>))"

section \<open>trigger\<close>

definition rfocusMorph :: "string \<Rightarrow> bool" where
  "rfocusMorph s \<longleftrightarrow> s = ''focusinfocus'' \<or> s = ''focusoutblur''"

function up_path :: "dom \<Rightarrow> nat \<Rightarrow> nat list" where
  "up_path d cur = cur # (case parent_of d cur of None \<Rightarrow> [] | Some p \<Rightarrow> up_path d p)"
  by pat_completeness auto
termination
  by (relation "measure (\<lambda>(d, cur). cur)") (auto simp: parent_of_def split: option.splits if_splits)

declare up_path.simps [simp del]

text \<open>
  The event path: the element, its ancestors, and the window behind the document. When the type bubbles
  under another name (focus as focusin) the element itself comes a second time.
\<close>

definition event_path :: "dom \<Rightarrow> bool \<Rightarrow> special \<Rightarrow> string \<Rightarrow> nat \<Rightarrow> nat list" where
  "event_path d onlyHandlers sp t elem =
     (if onlyHandlers \<or> noBubble sp \<or> elem = dwindow d then [elem]
      else
        (let bubbleType = or_type (delegateType sp) t;
             ups = (if rfocusMorph (bubbleType @ t) then up_path d elem
                    else case parent_of d elem of None \<Rightarrow> [] | Some p \<Rightarrow> up_path d p);
             top = (if ups = [] then elem else last ups) in
         elem # ups @ (if top = ddocument d then [dwindow d] else [])))"

text \<open>The handlers of the browser that are properties of an element (onclick and the like), as behaviours.\<close>

type_synonym on_handlers = "nat \<Rightarrow> string \<Rightarrow> (event \<Rightarrow> ev_world \<Rightarrow> haction list \<times> jsval) option"

definition native_step :: "(event \<Rightarrow> ev_world \<Rightarrow> haction list \<times> jsval) option \<Rightarrow> dstate \<Rightarrow> dstate" where
  "native_step h s =
     (case h of
        None \<Rightarrow> s
      | Some f \<Rightarrow>
          (case f (ev s) (world s) of (acts, ret) \<Rightarrow>
            (let s1 = fold act acts s; s2 = s1\<lparr>ev := (ev s1)\<lparr>e_result := ret\<rparr>\<rparr> in
             if ret = VBool False then s2\<lparr>ev := preventDefault (ev s2)\<rparr> else s2)))"

definition path_step :: "ev_env \<Rightarrow> dom \<Rightarrow> behaviour \<Rightarrow> on_handlers \<Rightarrow> string \<Rightarrow> string \<Rightarrow> string \<Rightarrow> nat \<Rightarrow> dstate \<Rightarrow> dstate" where
  "path_step env d beh on triggered etype t cur s0 =
     (let s = s0\<lparr>ev := (ev s0)\<lparr>e_type := etype\<rparr>\<rparr>;
          s1 = (if map_of (events_of cur (world s)) etype \<noteq> None \<and> has_handle (world s) cur \<and> triggered \<noteq> etype
                then dispatch env d beh cur s else s) in
      native_step (if CHR '':'' \<in> set t \<or> \<not> accepts_data env cur then None else on cur (''on'' @ t)) s1)"

fun fire_path :: "ev_env \<Rightarrow> dom \<Rightarrow> behaviour \<Rightarrow> on_handlers \<Rightarrow> string \<Rightarrow> string \<Rightarrow> string \<Rightarrow> string \<Rightarrow> nat list \<Rightarrow> dstate \<Rightarrow> dstate" where
  "fire_path env d beh on triggered etype bubbleType t [] s = s"
| "fire_path env d beh on triggered etype bubbleType t (cur # path) s =
     (if propagationStopped (ev s) then s
      else fire_path env d beh on triggered bubbleType bubbleType t path
        (path_step env d beh on triggered etype t cur s))"

text \<open>The special events with a trigger of their own: the browser does it all.\<close>

definition native_trigger :: "dom \<Rightarrow> string \<Rightarrow> nat \<Rightarrow> bool" where
  "native_trigger d t elem \<longleftrightarrow>
     t = ''focus'' \<and> elem \<noteq> dactive d \<and> ''focus'' \<in> set (dmethods d elem)
     \<or> t = ''blur'' \<and> elem = dactive d \<and> ''blur'' \<in> set (dmethods d elem)
     \<or> t = ''click'' \<and> dtype d elem = ''checkbox'' \<and> ''click'' \<in> set (dmethods d elem) \<and> to_lower (dname d elem) = ''input''"

text \<open>The default action: a method of the element with the name of the event, links apart.\<close>

definition default_method :: "ev_env \<Rightarrow> dom \<Rightarrow> bool \<Rightarrow> string \<Rightarrow> nat \<Rightarrow> event \<Rightarrow> bool" where
  "default_method env d onlyHandlers t elem e \<longleftrightarrow>
     \<not> onlyHandlers \<and> \<not> defaultPrevented e
     \<and> (t \<noteq> ''click'' \<or> to_lower (dname d (e_target e)) \<noteq> ''a'')
     \<and> accepts_data env elem \<and> CHR '':'' \<notin> set t \<and> t \<in> set (dmethods d elem) \<and> elem \<noteq> dwindow d"

definition split_type :: "string \<Rightarrow> string \<times> string" where
  "split_type t =
     (case split_on (CHR ''.'') t of
        [] \<Rightarrow> ([], []) | [x] \<Rightarrow> (x, []) | x # ns \<Rightarrow> (x, join_with ''.'' (sort ns)))"

text \<open>
  The result: the state, and the native method that is called at the end, if any. \<open>triggered\<close> is the
  type whose native method is being called right now, or undefined.
\<close>

definition trigger :: "ev_env \<Rightarrow> dom \<Rightarrow> behaviour \<Rightarrow> on_handlers \<Rightarrow> string \<Rightarrow> string \<Rightarrow> nat \<Rightarrow> bool \<Rightarrow> ev_world
    \<Rightarrow> dstate \<times> string option" where
  "trigger env d beh on triggered type0 elem onlyHandlers w =
     (let s0 = \<lparr>world = w, ev = new_event type0 elem False, calls = []\<rparr> in
      if dnodeType d elem = Some 3 \<or> dnodeType d elem = Some 8 \<or> rfocusMorph (type0 @ triggered) then (s0, None)
      else
        (case split_type type0 of (t, ns) \<Rightarrow>
           (let sp = special_of (focusinBubbles env) t;
                e = (new_event t elem False)\<lparr>e_isTrigger := (if onlyHandlers then 2 else 3), e_namespace := ns\<rparr> in
            if \<not> onlyHandlers \<and> native_trigger d t elem then (s0\<lparr>ev := e\<rparr>, Some t)
            else
              (let s1 = fire_path env d beh on triggered (or_type (bindType sp) t) (or_type (delegateType sp) t) t
                     (event_path d onlyHandlers sp t elem) (s0\<lparr>ev := e\<rparr>);
                   s2 = s1\<lparr>ev := (ev s1)\<lparr>e_type := t\<rparr>\<rparr> in
               (s2, if default_method env d onlyHandlers t elem (ev s2) then Some t else None)))))"

definition fn_trigger :: "ev_env \<Rightarrow> dom \<Rightarrow> behaviour \<Rightarrow> on_handlers \<Rightarrow> string \<Rightarrow> nat list \<Rightarrow> ev_world \<Rightarrow> ev_world" where
  "fn_trigger env d beh on t this w = fold (\<lambda>e w. world (fst (trigger env d beh on ''undefined'' t e False w))) this w"

definition fn_triggerHandler :: "ev_env \<Rightarrow> dom \<Rightarrow> behaviour \<Rightarrow> on_handlers \<Rightarrow> string \<Rightarrow> nat list \<Rightarrow> ev_world \<Rightarrow> jsval \<times> ev_world" where
  "fn_triggerHandler env d beh on t this w =
     (case this of [] \<Rightarrow> (VUndef, w)
      | e # _ \<Rightarrow> (case trigger env d beh on ''undefined'' t e True w of (s, _) \<Rightarrow> (e_result (ev s), world s)))"

section \<open>Lemmas\<close>

text \<open>A handler leaves the record of the calls and the namespace of the event alone, and stops at once only if it stops.\<close>

definition stop_ok :: "dstate \<Rightarrow> bool" where
  "stop_ok s \<longleftrightarrow> (immediateStopped (ev s) \<longrightarrow> propagationStopped (ev s))"

definition same_record :: "dstate \<Rightarrow> dstate \<Rightarrow> bool" where
  "same_record s s' \<longleftrightarrow> calls s' = calls s \<and> e_namespace (ev s') = e_namespace (ev s) \<and> (stop_ok s \<longrightarrow> stop_ok s')"

lemma same_record_refl [simp]: "same_record s s"
  by (simp add: same_record_def)

lemma same_record_trans: "same_record s s' \<Longrightarrow> same_record s' s'' \<Longrightarrow> same_record s s''"
  by (simp add: same_record_def)

lemma act_same: "same_record s (act a s)"
  by (cases a) (auto simp: same_record_def stop_ok_def preventDefault_def stopPropagation_def stopImmediatePropagation_def)

lemma acts_same: "same_record s (fold act acts s)"
  by (induction acts arbitrary: s) (auto intro: same_record_trans act_same)

lemma run_fn_same: "run_fn env beh h elem s = (ret, s') \<Longrightarrow> same_record s s'"
proof -
  assume r: "run_fn env beh h elem s = (ret, s')"
  obtain w where w: "s' = fold act (fst (beh (case once_of (world s) (h_handler h) of None \<Rightarrow> h_handler h | Some f \<Rightarrow> f) elem
      (ev (s\<lparr>world := w\<rparr>)) (world (s\<lparr>world := w\<rparr>)))) (s\<lparr>world := w\<rparr>)"
  proof (cases "once_of (world s) (h_handler h)")
    case None
    then show ?thesis using r that [of "world s"] by (auto simp: run_fn_def case_prod_beta Let_def)
  next
    case (Some f)
    show ?thesis
    proof (cases "fn_off_event env (e_delegateTarget (ev s)) h (world s)")
      case None
      then show ?thesis using r Some that [of "world s"] by (auto simp: run_fn_def case_prod_beta Let_def)
    next
      case (Some w)
      then show ?thesis using r \<open>once_of (world s) (h_handler h) = Some f\<close> that [of w] by (auto simp: run_fn_def case_prod_beta Let_def)
    qed
  qed
  have "same_record s (s\<lparr>world := w\<rparr>)" by (simp add: same_record_def stop_ok_def)
  then show ?thesis unfolding w by (rule same_record_trans) (rule acts_same)
qed

lemma type_same: "same_record s (s\<lparr>ev := (ev s)\<lparr>e_type := t\<rparr>\<rparr>)"
  by (simp add: same_record_def stop_ok_def)

lemma call_handler_same: "call_handler env d beh h elem s = (ret, s') \<Longrightarrow> same_record s s'"
proof (cases "map_of enter_leave (h_origType h)")
  case None
  assume "call_handler env d beh h elem s = (ret, s')"
  then show ?thesis using None run_fn_same by (simp add: call_handler_def)
next
  case (Some fix_type)
  assume c: "call_handler env d beh h elem s = (ret, s')"
  obtain r1 s1 where s1: "run_fn env beh h elem (s\<lparr>ev := (ev s)\<lparr>e_type := h_origType h\<rparr>\<rparr>) = (r1, s1)" by (metis surj_pair)
  have "same_record s s1" by (rule same_record_trans [OF type_same run_fn_same [OF s1]])
  then have "same_record s (s1\<lparr>ev := (ev s1)\<lparr>e_type := fix_type\<rparr>\<rparr>)" by (rule same_record_trans) (rule type_same)
  then show ?thesis using c Some s1 by (auto simp: call_handler_def split: if_splits)
qed

lemma keep_result_same: "same_record s (keep_result ret s)"
  by (auto simp: keep_result_def same_record_def stop_ok_def Let_def preventDefault_def stopPropagation_def)

lemma run_entry_calls:
  "calls (run_entry env d beh elem h s) = calls s @ (if ns_allows (ev s) h then [(elem, h)] else [])
   \<and> e_namespace (ev (run_entry env d beh elem h s)) = e_namespace (ev s)
   \<and> (stop_ok s \<longrightarrow> stop_ok (run_entry env d beh elem h s))"
proof (cases "ns_allows (ev s) h")
  case True
  let ?s = "s\<lparr>calls := calls s @ [(elem, h)]\<rparr>"
  obtain ret s1 where c: "call_handler env d beh h elem ?s = (ret, s1)" by (metis surj_pair)
  have "same_record ?s (keep_result ret s1)" by (rule same_record_trans [OF call_handler_same [OF c] keep_result_same])
  then show ?thesis using True c by (simp add: run_entry_def same_record_def stop_ok_def)
qed (simp add: run_entry_def)

lemma ns_allows_same: "e_namespace e' = e_namespace e \<Longrightarrow> ns_allows e' h = ns_allows e h"
  by (simp add: ns_allows_def)

lemma run_group_calls:
  "\<exists>n. calls (run_group env d beh elem hs s) = calls s @ take n (map (Pair elem) (filter (ns_allows (ev s)) hs))
     \<and> (n < length (filter (ns_allows (ev s)) hs) \<longrightarrow> immediateStopped (ev (run_group env d beh elem hs s)))
     \<and> e_namespace (ev (run_group env d beh elem hs s)) = e_namespace (ev s)
     \<and> (stop_ok s \<longrightarrow> stop_ok (run_group env d beh elem hs s))"
proof (induction hs arbitrary: s)
  case (Cons h hs)
  show ?case
  proof (cases "immediateStopped (ev s)")
    case True
    then show ?thesis by (intro exI [of _ 0]) simp
  next
    case False
    let ?s1 = "run_entry env d beh elem h s"
    note e = run_entry_calls [of env d beh elem h s]
    have f: "ns_allows (ev ?s1) = ns_allows (ev s)" using e ns_allows_same by blast
    obtain n where n: "calls (run_group env d beh elem hs ?s1) = calls ?s1 @ take n (map (Pair elem) (filter (ns_allows (ev s)) hs))"
      "n < length (filter (ns_allows (ev s)) hs) \<longrightarrow> immediateStopped (ev (run_group env d beh elem hs ?s1))"
      "e_namespace (ev (run_group env d beh elem hs ?s1)) = e_namespace (ev ?s1)"
      "stop_ok ?s1 \<longrightarrow> stop_ok (run_group env d beh elem hs ?s1)"
      using Cons.IH [of ?s1] unfolding f by blast
    show ?thesis
      by (rule exI [of _ "if ns_allows (ev s) h then Suc n else n"]) (use n e False in auto)
  qed
qed simp

definition plan :: "event \<Rightarrow> (nat \<times> handle_obj list) list \<Rightarrow> (nat \<times> handle_obj) list" where
  "plan e q = concat (map (\<lambda>(elem, hs). map (Pair elem) (filter (ns_allows e) hs)) q)"

lemma plan_same: "e_namespace e' = e_namespace e \<Longrightarrow> plan e' q = plan e q"
proof -
  assume "e_namespace e' = e_namespace e"
  then have "ns_allows e' = ns_allows e" by (intro ext) (rule ns_allows_same)
  then show "plan e' q = plan e q" by (simp add: plan_def)
qed

lemma run_queue_calls:
  "stop_ok s \<Longrightarrow> \<exists>n. calls (run_queue env d beh q s) = calls s @ take n (plan (ev s) q)
     \<and> (n < length (plan (ev s) q) \<longrightarrow> propagationStopped (ev (run_queue env d beh q s)))"
proof (induction q arbitrary: s)
  case (Cons x q)
  obtain elem hs where x: "x = (elem, hs)" by (cases x)
  show ?case
  proof (cases "propagationStopped (ev s)")
    case True
    then show ?thesis using x by (intro exI [of _ 0]) simp
  next
    case False
    let ?s0 = "s\<lparr>ev := (ev s)\<lparr>e_currentTarget := elem\<rparr>\<rparr>"
    let ?s1 = "run_group env d beh elem hs ?s0"
    let ?g = "map (Pair elem) (filter (ns_allows (ev s)) hs)"
    have ns0: "ns_allows (ev ?s0) = ns_allows (ev s)" by (rule ext) (simp add: ns_allows_def)
    obtain n where n: "calls ?s1 = calls s @ take n ?g" "n < length ?g \<longrightarrow> immediateStopped (ev ?s1)"
      "e_namespace (ev ?s1) = e_namespace (ev s)" "stop_ok ?s0 \<longrightarrow> stop_ok ?s1"
      using run_group_calls [of env d beh elem hs ?s0] unfolding ns0 by auto
    have ok: "stop_ok ?s1" using n(4) Cons.prems by (simp add: stop_ok_def)
    have p: "plan (ev s) (x # q) = ?g @ plan (ev s) q" using x by (simp add: plan_def)
    have r: "run_queue env d beh (x # q) s = run_queue env d beh q ?s1" using False x by simp
    show ?thesis
    proof (cases "propagationStopped (ev ?s1)")
      case True
      then have "run_queue env d beh q ?s1 = ?s1" by (cases q) auto
      moreover have "take n ?g = take (min n (length ?g)) (?g @ plan (ev s) q)" by (cases "n \<le> length ?g") (simp_all add: min_def)
      ultimately show ?thesis unfolding r p using n(1) True by (intro exI [of _ "min n (length ?g)"]) simp
    next
      case False
      then have "length ?g \<le> n" using n(2) ok by (auto simp: stop_ok_def)
      obtain m where m: "calls (run_queue env d beh q ?s1) = calls ?s1 @ take m (plan (ev s) q)"
        "m < length (plan (ev s) q) \<longrightarrow> propagationStopped (ev (run_queue env d beh q ?s1))"
        using Cons.IH [OF ok] plan_same [OF n(3)] by auto
      show ?thesis unfolding r p using n(1) m \<open>length ?g \<le> n\<close> by (intro exI [of _ "length ?g + m"]) simp
    qed
  qed
qed (simp add: plan_def)

text \<open>The delegated part of the queue goes up from the target, one parent at a time.\<close>

lemma delegate_path_head: "delegate_path d this cur = a # rest \<Longrightarrow> a = cur"
  by (subst (asm) delegate_path.simps) (simp split: if_splits)

lemma delegate_path_chain:
  assumes "delegate_path d this cur = a # b # rest"
  shows "parent_of d a = Some b"
proof -
  have a: "a = cur" by (rule delegate_path_head [OF assms])
  then obtain p where p: "parent_of d cur = Some p" "delegate_path d this p = b # rest"
    using assms by (subst (asm) delegate_path.simps) (auto split: if_splits option.splits)
  then show ?thesis using a delegate_path_head by metis
qed

text \<open>Handlers that stop nothing.\<close>

fun no_stop :: "haction \<Rightarrow> bool" where
  "no_stop StopPropagation = False"
| "no_stop StopImmediate = False"
| "no_stop _ = True"

definition unstopping :: "behaviour \<Rightarrow> bool" where
  "unstopping beh \<longleftrightarrow> (\<forall>f elem e w. list_all no_stop (fst (beh f elem e w)) \<and> snd (beh f elem e w) \<noteq> VBool False)"

definition goes_on :: "dstate \<Rightarrow> bool" where
  "goes_on s \<longleftrightarrow> \<not> propagationStopped (ev s)"

lemma acts_go_on: "list_all no_stop acts \<Longrightarrow> goes_on s \<Longrightarrow> goes_on (fold act acts s)"
proof (induction acts arbitrary: s)
  case (Cons a acts)
  then have "goes_on (act a s)" by (cases a) (simp_all add: goes_on_def preventDefault_def)
  then show ?case using Cons by simp
qed simp

lemma run_fn_goes_on: "unstopping beh \<Longrightarrow> goes_on s \<Longrightarrow> run_fn env beh h elem s = (ret, s') \<Longrightarrow> goes_on s' \<and> ret \<noteq> VBool False"
proof -
  assume u: "unstopping beh" and g: "goes_on s" and r: "run_fn env beh h elem s = (ret, s')"
  obtain s1 f where s1: "goes_on s1" "ret = snd (beh f elem (ev s1) (world s1))" "s' = fold act (fst (beh f elem (ev s1) (world s1))) s1"
  proof (rule that)
    show "goes_on (case once_of (world s) (h_handler h) of None \<Rightarrow> s
          | Some f \<Rightarrow> (case fn_off_event env (e_delegateTarget (ev s)) h (world s) of Some w \<Rightarrow> s\<lparr>world := w\<rparr> | None \<Rightarrow> s))"
      using g by (auto simp: goes_on_def split: option.split)
  qed (use r in \<open>auto simp: run_fn_def case_prod_beta Let_def\<close>)
  then show ?thesis using u acts_go_on unfolding unstopping_def by metis
qed

lemma call_handler_goes_on:
  assumes "unstopping beh" "goes_on s" "call_handler env d beh h elem s = (ret, s')"
  shows "goes_on s' \<and> ret \<noteq> VBool False"
proof (cases "map_of enter_leave (h_origType h)")
  case None
  then show ?thesis using assms run_fn_goes_on by (simp add: call_handler_def)
next
  case (Some fix_type)
  obtain r1 s1 where s1: "run_fn env beh h elem (s\<lparr>ev := (ev s)\<lparr>e_type := h_origType h\<rparr>\<rparr>) = (r1, s1)" by (metis surj_pair)
  have "goes_on (s\<lparr>ev := (ev s)\<lparr>e_type := h_origType h\<rparr>\<rparr>)" using assms(2) by (simp add: goes_on_def)
  from run_fn_goes_on [OF assms(1) this s1] show ?thesis
    using assms(2,3) Some s1 by (auto simp: call_handler_def goes_on_def split: if_splits)
qed

lemma run_entry_goes_on: "unstopping beh \<Longrightarrow> goes_on s \<Longrightarrow> goes_on (run_entry env d beh elem h s)"
proof -
  assume u: "unstopping beh" and g: "goes_on s"
  have g1: "goes_on (s\<lparr>calls := calls s @ [(elem, h)]\<rparr>)" using g by (simp add: goes_on_def)
  obtain ret s1 where c: "call_handler env d beh h elem (s\<lparr>calls := calls s @ [(elem, h)]\<rparr>) = (ret, s1)" by (metis surj_pair)
  show ?thesis using call_handler_goes_on [OF u g1 c] g c by (simp add: run_entry_def keep_result_def goes_on_def)
qed

lemma run_group_goes_on: "unstopping beh \<Longrightarrow> goes_on s \<Longrightarrow> goes_on (run_group env d beh elem hs s)"
  by (induction hs arbitrary: s) (simp_all add: run_entry_goes_on)

lemma run_queue_goes_on: "unstopping beh \<Longrightarrow> goes_on s \<Longrightarrow> goes_on (run_queue env d beh q s)"
proof (induction q arbitrary: s)
  case (Cons x q)
  obtain elem hs where x: "x = (elem, hs)" by (cases x)
  have "goes_on (s\<lparr>ev := (ev s)\<lparr>e_currentTarget := elem\<rparr>\<rparr>)" using Cons.prems(2) by (simp add: goes_on_def)
  then show ?case using Cons x run_group_goes_on by (simp add: goes_on_def [of s])
qed simp

section \<open>Properties\<close>

text \<open>
  C10: dispatch runs the entries of its queue - the delegated ones from the target upwards, then the
  direct ones, each list in the order of registration, those that the namespace of the event excludes
  left out - in this order and without a gap; it leaves the rest out only when the propagation has been
  stopped, whatever the handlers do, also when they add or remove handlers.
\<close>

theorem dispatch_in_order:
  assumes "\<not> immediateStopped (ev s)"
  shows "\<exists>n. let e = (ev s)\<lparr>e_delegateTarget := this\<rparr>;
            full = plan e (handlers d this e (list_at this (e_type e) (world s))) in
     calls (dispatch env d beh this s) = calls s @ take n full
     \<and> (n < length full \<longrightarrow> propagationStopped (ev (dispatch env d beh this s)))"
  using run_queue_calls [of "s\<lparr>ev := (ev s)\<lparr>e_delegateTarget := this\<rparr>\<rparr>" env d beh
      "handlers d this ((ev s)\<lparr>e_delegateTarget := this\<rparr>) (list_at this (e_type (ev s)) (world s))"] assms
  by (simp add: dispatch_def Let_def stop_ok_def)

definition example_dom :: dom where
  "example_dom = \<lparr>dparent = (\<lambda>n. if n = 0 then None else Some (n - 1)), dnodeType = (\<lambda>n. Some 1), ddisabled = (\<lambda>n. False),
     dname = (\<lambda>n. ''div''), dtype = (\<lambda>n. []), dcontains = (\<lambda>a b. a < b), dselects = (\<lambda>s root n. True),
     dmethods = (\<lambda>n. []), dactive = 0, ddocument = 0, dwindow = 99\<rparr>"

definition example_world :: ev_world where
  "example_world = event_add plain_env 7 ''click'' (PlainHandler 1) VUndef []
     (event_add plain_env 7 ''click'' (PlainHandler 2) VUndef ''a'' new_world)"

definition example_dispatch :: "behaviour \<Rightarrow> dstate" where
  "example_dispatch beh = dispatch plain_env example_dom beh 7 \<lparr>world = example_world, ev = new_event ''click'' 9 False, calls = []\<rparr>"

definition example_full :: "(nat \<times> handle_obj) list" where
  "example_full = (let e = (new_event ''click'' 9 False)\<lparr>e_delegateTarget := 7\<rparr> in
     plan e (handlers example_dom 7 e (list_at 7 (e_type e) example_world)))"

lemma example_plan: "map (\<lambda>(e, h). (e, h_handler h)) example_full = [(9, 2), (8, 2), (7, 1)]"
  by code_simp

theorem dispatch_in_order_witness:
  "\<forall>beh. \<exists>n. map (\<lambda>(e, h). (e, h_handler h)) (calls (example_dispatch beh)) = take n [(9, 2), (8, 2), (7, 1)]"
proof
  fix beh
  let ?s = "\<lparr>world = example_world, ev = new_event ''click'' 9 False, calls = []\<rparr>"
  have "\<not> immediateStopped (ev ?s)" by (simp add: new_event_def)
  from dispatch_in_order [OF this, where this=7 and env=plain_env and d=example_dom and beh=beh] obtain n where
    "calls (example_dispatch beh) = take n example_full"
    by (auto simp: example_dispatch_def example_full_def Let_def)
  then have "map (\<lambda>(e, h). (e, h_handler h)) (calls (example_dispatch beh)) = take n [(9, 2), (8, 2), (7, 1)]"
    by (metis take_map example_plan)
  then show "\<exists>n. map (\<lambda>(e, h). (e, h_handler h)) (calls (example_dispatch beh)) = take n [(9, 2), (8, 2), (7, 1)]" by blast
qed

text \<open>
  C16: When no handler stops the propagation, every entry of the queue is run: the delegated ones of all
  elements on the way up and then the direct ones, none of them twice for the same element.
\<close>

theorem dispatch_runs_all:
  assumes "unstopping beh" "\<not> propagationStopped (ev s)" "\<not> immediateStopped (ev s)"
  shows "let e = (ev s)\<lparr>e_delegateTarget := this\<rparr> in
     calls (dispatch env d beh this s) = calls s @ plan e (handlers d this e (list_at this (e_type e) (world s)))"
proof -
  let ?e = "(ev s)\<lparr>e_delegateTarget := this\<rparr>"
  let ?q = "handlers d this ?e (list_at this (e_type ?e) (world s))"
  have "stop_ok (s\<lparr>ev := ?e\<rparr>)" using assms(3) by (simp add: stop_ok_def)
  from run_queue_calls [OF this, of env d beh ?q] obtain n where n:
    "calls (dispatch env d beh this s) = calls s @ take n (plan ?e ?q)"
    "n < length (plan ?e ?q) \<longrightarrow> propagationStopped (ev (dispatch env d beh this s))"
    by (auto simp: dispatch_def Let_def)
  have "goes_on (dispatch env d beh this s)"
    unfolding dispatch_def Let_def by (rule run_queue_goes_on [OF assms(1)]) (use assms(2) in \<open>simp add: goes_on_def\<close>)
  then have "length (plan ?e ?q) \<le> n" using n(2) by (auto simp: goes_on_def)
  then show ?thesis using n(1) by (simp add: Let_def)
qed

theorem dispatch_runs_all_witness:
  "map (\<lambda>(e, h). (e, h_handler h)) (calls (example_dispatch (\<lambda>f elem e w. ([PreventDefault], VUndef)))) = [(9, 2), (8, 2), (7, 1)]"
proof -
  let ?s = "\<lparr>world = example_world, ev = new_event ''click'' 9 False, calls = []\<rparr>"
  let ?beh = "(\<lambda>f elem e w. ([PreventDefault], VUndef)) :: behaviour"
  have "unstopping ?beh" "\<not> propagationStopped (ev ?s)" "\<not> immediateStopped (ev ?s)" by (simp_all add: unstopping_def new_event_def)
  from dispatch_runs_all [OF this, where this=7 and env=plain_env and d=example_dom]
  have "calls (example_dispatch ?beh) = example_full"
    by (simp add: example_dispatch_def example_full_def Let_def)
  then show ?thesis using example_plan by simp
qed

end
