(* ===== verification/Fx_Tween.thy ===== *)
theory Fx_Tween
  imports Core_Util Complex_Main
begin

text \<open>
  The stateless half of the effects module of jquery.js: easing, the tween of one property, the
  options of a call to animate, the parameters of the standard animations, and the pass over the
  animated properties. Positions are real numbers where the code has doubles, so that rounding is
  not modelled; durations and the clock are whole milliseconds. Only tweens without a unit
  conversion are modelled: the measuring loop of tweeners["*"] asks the browser.
\<close>

section \<open>Easing\<close>

definition easing_linear :: "real \<Rightarrow> real" where
  "easing_linear p = p"

text \<open>Math.cos of a multiple of Math.PI; the reals do not compute it.\<close>

definition cos_pi :: "real \<Rightarrow> real" where
  "cos_pi p = cos (p * pi)"

declare cos_pi_def [code del]

definition easing_swing :: "real \<Rightarrow> real" where
  "easing_swing p = 1 / 2 - cos_pi p / 2"

text \<open>jQuery.easing by name; calling a missing one raises.\<close>

definition jq_easing :: "string \<Rightarrow> (real \<Rightarrow> real) option" where
  "jq_easing name =
     (if name = ''linear'' then Some easing_linear
      else if name = ''swing'' then Some easing_swing else None)"

section \<open>A tween\<close>

record tween =
  tw_prop :: string
  tw_easing :: string
  tw_start :: real
  tw_end :: real
  tw_pos :: real
  tw_now :: real

text \<open>The value animated to: a number, or a number behind a += or -= token.\<close>

datatype tvalue = To real | PlusEq real | MinusEq real

text \<open>
  The constructor: \<open>cur\<close> is what the property holds. The position is written by the first run.
\<close>

definition tween_init :: "string \<Rightarrow> string \<Rightarrow> real \<Rightarrow> real \<Rightarrow> tween" where
  "tween_init prop easing cur end_value =
     \<lparr>tw_prop = prop, tw_easing = (if easing = [] then ''swing'' else easing),
      tw_start = cur, tw_end = end_value, tw_pos = 0, tw_now = cur\<rparr>"

text \<open>The end of tweeners["*"], for a property whose unit needs no conversion.\<close>

definition tween_target :: "tvalue \<Rightarrow> real \<Rightarrow> tween \<Rightarrow> tween" where
  "tween_target v target t =
     (let start = target in
      t\<lparr>tw_start := start,
        tw_end := (case v of PlusEq x \<Rightarrow> start + 1 * x | MinusEq x \<Rightarrow> start + (- 1) * x | To x \<Rightarrow> x)\<rparr>)"

text \<open>run up to the assignment of now; None is the call of an unknown easing function.\<close>

definition tween_run :: "int \<Rightarrow> real \<Rightarrow> tween \<Rightarrow> tween option" where
  "tween_run duration percent t =
     (let result = (\<lambda>eased. t\<lparr>tw_pos := eased, tw_now := (tw_end t - tw_start t) * eased + tw_start t\<rparr>) in
      if duration \<noteq> 0 then map_option (\<lambda>f. result (f percent)) (jq_easing (tw_easing t))
      else Some (result percent))"

section \<open>The standard animations\<close>

definition cssExpand :: "string list" where
  "cssExpand = [''Top'', ''Right'', ''Bottom'', ''Left'']"

text \<open>The loop of genFx; \<open>fuel\<close> bounds its four rounds.\<close>

fun genFx_loop :: "nat \<Rightarrow> nat \<Rightarrow> nat \<Rightarrow> string \<Rightarrow> string props \<Rightarrow> string props" where
  "genFx_loop 0 i w type attrs = attrs"
| "genFx_loop (Suc fuel) i w type attrs =
     (if i < 4 then
        genFx_loop fuel (i + (2 - w)) w type
          (prop_set (''margin'' @ cssExpand ! i) type (prop_set (''padding'' @ cssExpand ! i) type attrs))
      else attrs)"

definition genFx :: "string \<Rightarrow> bool \<Rightarrow> string props" where
  "genFx type includeWidth =
     (let w = (if includeWidth then 1 else 0);
          attrs = genFx_loop 4 0 w type [(''height'', type)] in
      if w = 1 then prop_set ''opacity'' type (prop_set ''width'' type attrs) else attrs)"

text \<open>The parameters of slideDown, slideUp, slideToggle, fadeIn, fadeOut and fadeToggle.\<close>

definition fx_shortcuts :: "(string \<times> string props) list" where
  "fx_shortcuts =
     [(''slideDown'', genFx ''show'' False), (''slideUp'', genFx ''hide'' False),
      (''slideToggle'', genFx ''toggle'' False),
      (''fadeIn'', [(''opacity'', ''show'')]), (''fadeOut'', [(''opacity'', ''hide'')]),
      (''fadeToggle'', [(''opacity'', ''toggle'')])]"

section \<open>The options of animate\<close>

record speed_opts =
  so_complete :: jsval
  so_duration :: jsval
  so_easing :: jsval
  so_queue :: jsval
  so_old :: jsval

datatype speed_arg = SObj speed_opts | SVal jsval

definition fx_speeds :: "(string \<times> int) list" where
  "fx_speeds = [(''slow'', 600), (''fast'', 200), (''_default'', 400)]"

definition is_function :: "jsval \<Rightarrow> bool" where
  "is_function v = (case v of VFun _ \<Rightarrow> True | _ \<Rightarrow> False)"

text \<open>\<open>a || b\<close> and \<open>a && b\<close> on values.\<close>

definition js_or :: "jsval \<Rightarrow> jsval \<Rightarrow> jsval" where
  "js_or a b = (if truthy a then a else b)"

definition js_and :: "jsval \<Rightarrow> jsval \<Rightarrow> jsval" where
  "js_and a b = (if truthy a then b else a)"

text \<open>
  \<open>off\<close> is jQuery.fx.off. The complete function that the code installs calls \<open>so_old\<close> and
  then dequeues \<open>so_queue\<close>; it has the number \<open>wrapper\<close>.
\<close>

definition speed_duration :: "bool \<Rightarrow> jsval \<Rightarrow> int option" where
  "speed_duration off d =
     (if off then Some 0
      else case d of
        VNum n \<Rightarrow> Some n
      | VNaN \<Rightarrow> None
      | _ \<Rightarrow> (case map_of fx_speeds (js_str d) of Some n \<Rightarrow> Some n | None \<Rightarrow> map_of fx_speeds ''_default''))"

definition jq_speed :: "nat \<Rightarrow> bool \<Rightarrow> speed_arg \<Rightarrow> jsval \<Rightarrow> jsval \<Rightarrow> speed_opts" where
  "jq_speed wrapper off speed easing fn =
     (let opt = (case speed of
            SObj o' \<Rightarrow> o'
          | SVal v \<Rightarrow>
              \<lparr>so_complete = js_or fn (js_or (js_and (VBool (\<not> truthy fn)) easing) (js_and (VBool (is_function v)) v)),
               so_duration = v,
               so_easing = js_or (js_and fn easing) (js_and easing (js_and (VBool (\<not> is_function easing)) easing)),
               so_queue = VUndef, so_old = VUndef\<rparr>);
          opt = opt\<lparr>so_duration := (case speed_duration off (so_duration opt) of Some n \<Rightarrow> VNum n | None \<Rightarrow> VNaN)\<rparr>;
          opt = (if \<not> not_nullish (so_queue opt) \<or> so_queue opt = VBool True then opt\<lparr>so_queue := VStr ''fx''\<rparr> else opt) in
      opt\<lparr>so_old := so_complete opt, so_complete := VFun wrapper\<rparr>)"

section \<open>The pass over the animated properties\<close>

text \<open>
  The expand hooks of margin, padding and border: \<open>parts[i] || parts[i - 2] || parts[0]\<close>.
\<close>

definition part_at :: "jsval list \<Rightarrow> int \<Rightarrow> jsval" where
  "part_at parts i = (if 0 \<le> i \<and> i < int (length parts) then parts ! nat i else VUndef)"

definition expand_parts :: "jsval \<Rightarrow> jsval list" where
  "expand_parts v = (case v of VStr s \<Rightarrow> map VStr (split_on (CHR '' '') s) | _ \<Rightarrow> [v])"

definition css_expand :: "string \<Rightarrow> string \<Rightarrow> jsval \<Rightarrow> jsval props" where
  "css_expand prefix suffix v =
     (let parts = expand_parts v in
      map (\<lambda>i. (prefix @ cssExpand ! i @ suffix,
             js_or (part_at parts (int i)) (js_or (part_at parts (int i - 2)) (part_at parts 0)))) [0, 1, 2, 3])"

definition expand_hook :: "string \<Rightarrow> (string \<times> string) option" where
  "expand_hook name =
     map_of [(''margin'', (''margin'', [])), (''padding'', (''padding'', [])), (''borderWidth'', (''border'', ''Width''))] name"

text \<open>The inner loop: existing keys are not overwritten.\<close>

fun merge_expanded :: "jsval \<Rightarrow> jsval props \<Rightarrow> jsval props \<times> jsval props \<Rightarrow> jsval props \<times> jsval props" where
  "merge_expanded easing [] pe = pe"
| "merge_expanded easing ((index, v) # ps) (props, se) =
     merge_expanded easing ps
       (if prop_has index props then (props, se) else (prop_set index v props, prop_set index easing se))"

definition filter_prop :: "string \<Rightarrow> jsval props \<times> jsval props \<Rightarrow> jsval props \<times> jsval props" where
  "filter_prop index pe =
     (let (props, specialEasing) = pe;
          name = camelCase index;
          easing = prop_get specialEasing name;
          v = prop_get props index;
          (easing, v, props) =
            (case v of VArr vs \<Rightarrow> (part_at vs 1, part_at vs 0, prop_set index (part_at vs 0) props)
             | _ \<Rightarrow> (easing, v, props));
          props = (if index \<noteq> name then prop_del index (prop_set name v props) else props) in
      case expand_hook name of
        Some (prefix, suffix) \<Rightarrow> merge_expanded easing (css_expand prefix suffix v) (prop_del name props, specialEasing)
      | None \<Rightarrow> (props, prop_set name easing specialEasing))"

text \<open>
  The loop visits the names present when it starts, without those deleted since; a name added by
  the loop is not visited.
\<close>

fun propFilter_loop :: "string list \<Rightarrow> jsval props \<times> jsval props \<Rightarrow> jsval props \<times> jsval props" where
  "propFilter_loop [] pe = pe"
| "propFilter_loop (index # ks) pe =
     propFilter_loop ks (if prop_has index (fst pe) then filter_prop index pe else pe)"

definition propFilter :: "jsval props \<Rightarrow> jsval props \<Rightarrow> jsval props \<times> jsval props" where
  "propFilter props specialEasing = propFilter_loop (map fst props) (props, specialEasing)"

section \<open>Facts\<close>

lemma easing_at_ends: "jq_easing n = Some f \<Longrightarrow> f 0 = 0 \<and> f 1 = 1"
  by (auto simp: jq_easing_def easing_linear_def easing_swing_def cos_pi_def split: if_splits)

lemma swing_in_unit: "0 \<le> easing_swing p \<and> easing_swing p \<le> 1"
proof -
  have "- 1 \<le> cos (p * pi)" "cos (p * pi) \<le> 1" by (rule cos_ge_minus_one cos_le_one)+
  then show ?thesis unfolding easing_swing_def cos_pi_def by (simp only: field_simps) linarith
qed

lemma easing_in_unit: "jq_easing n = Some f \<Longrightarrow> 0 \<le> p \<Longrightarrow> p \<le> 1 \<Longrightarrow> 0 \<le> f p \<and> f p \<le> 1"
  using swing_in_unit by (auto simp: jq_easing_def easing_linear_def split: if_splits)

lemma scaled_in_unit: "0 \<le> x \<Longrightarrow> x \<le> 1 \<Longrightarrow> 0 \<le> c \<Longrightarrow> 0 \<le> c * x \<and> c * x \<le> (c :: real)"
  using mult_left_mono [of x 1 c] by simp

lemma between_scaled:
  fixes a b x :: real
  assumes "0 \<le> x" "x \<le> 1"
  shows "min a b \<le> (b - a) * x + a \<and> (b - a) * x + a \<le> max a b"
proof (cases "a \<le> b")
  case True
  with scaled_in_unit [OF assms, of "b - a"] show ?thesis by simp
next
  case False
  with scaled_in_unit [OF assms, of "a - b"] show ?thesis by (simp add: algebra_simps)
qed

lemma prop_has_iff: "prop_has k ps \<longleftrightarrow> k \<in> fst ` set ps"
  by (auto simp: prop_has_def map_of_eq_None_iff)

lemma merge_expanded_keeps:
  "prop_has k props \<Longrightarrow> map_of (fst (merge_expanded e ps (props, se))) k = map_of props k"
  by (induction e ps "(props, se)" arbitrary: props se rule: merge_expanded.induct) (auto simp: prop_has_def)

text \<open>The names that the expand hooks produce are not shorthands.\<close>

lemma expand_hook_cases: "expand_hook n = Some pf \<longleftrightarrow>
    n = ''margin'' \<and> pf = (''margin'', []) \<or> n = ''padding'' \<and> pf = (''padding'', [])
    \<or> n = ''borderWidth'' \<and> pf = (''border'', ''Width'')"
  by (auto simp: expand_hook_def)

text \<open>A visit to another name keeps a longhand that is there.\<close>

lemma filter_prop_keeps:
  assumes "prop_has k (fst pe)" "expand_hook k = None" "camelCase i \<noteq> k" "i \<noteq> k"
  shows "prop_has k (fst (filter_prop i pe)) \<and> map_of (fst (filter_prop i pe)) k = map_of (fst pe) k"
proof -
  obtain props se where pe: "pe = (props, se)" by (cases pe)
  show ?thesis
    using assms unfolding pe filter_prop_def
    by (cases "prop_get props i"; cases "expand_hook (camelCase i)")
      (simp_all add: Let_def prop_has_def merge_expanded_keeps case_prod_unfold)
qed

text \<open>The visit of a longhand that is no array leaves the properties alone.\<close>

lemma filter_prop_self:
  assumes "prop_get (fst pe) k = v" "\<forall>vs. v \<noteq> VArr vs" "camelCase k = k" "expand_hook k = None"
  shows "fst (filter_prop k pe) = fst pe"
  using assms by (cases pe) (auto simp: filter_prop_def Let_def split: jsval.split)

lemma propFilter_loop_keeps:
  assumes "prop_has k (fst pe)" "expand_hook k = None" "camelCase k = k"
    "\<forall>vs. prop_get (fst pe) k \<noteq> VArr vs" "\<forall>i\<in>set ks. i \<noteq> k \<longrightarrow> camelCase i \<noteq> k"
  shows "map_of (fst (propFilter_loop ks pe)) k = map_of (fst pe) k"
  using assms
proof (induction ks arbitrary: pe)
  case (Cons i ks)
  let ?pe = "if prop_has i (fst pe) then filter_prop i pe else pe"
  have same: "prop_has k (fst ?pe) \<and> map_of (fst ?pe) k = map_of (fst pe) k"
  proof (cases "i = k")
    case True
    with Cons.prems filter_prop_self [OF refl Cons.prems(4,3,2)] show ?thesis by simp
  next
    case False
    with Cons.prems show ?thesis by (simp add: filter_prop_keeps)
  qed
  then have "prop_get (fst ?pe) k = prop_get (fst pe) k" by (simp add: prop_get_def)
  with Cons.IH [of ?pe] Cons.prems same show ?case by simp
qed simp

section \<open>Properties\<close>



text \<open>
  In the properties to animate an explicit side wins over a shorthand, in either order: a name
  that no other name camelCases to keeps its value through the pass.
\<close>

theorem propFilter_longhand_wins:
  assumes "map_of props k = Some v" "\<forall>vs. v \<noteq> VArr vs" "camelCase k = k" "expand_hook k = None"
    "\<forall>i\<in>fst ` set props. i \<noteq> k \<longrightarrow> camelCase i \<noteq> k"
  shows "map_of (fst (propFilter props specialEasing)) k = Some v"
  using propFilter_loop_keeps [of k "(props, specialEasing)" "map fst props"] assms
  by (simp add: propFilter_def prop_has_def prop_get_def)

theorem propFilter_longhand_wins_witness:
  "map_of (fst (propFilter [(''marginTop'', VNum 5), (''margin'', VStr ''1 2'')] [])) ''marginTop'' = Some (VNum 5)
   \<and> map_of (fst (propFilter [(''marginTop'', VNum 5), (''margin'', VStr ''1 2'')] [])) ''marginLeft'' = Some (VStr ''2'')"
proof -
  have "camelCase ''marginTop'' = ''marginTop''" "camelCase ''margin'' = ''margin''" by code_simp+
  moreover have "expand_hook ''marginTop'' = None" by (simp add: expand_hook_def)
  moreover have "map_of (fst (propFilter [(''marginTop'', VNum 5), (''margin'', VStr ''1 2'')] [])) ''marginLeft''
      = Some (VStr ''2'')" by code_simp
  ultimately show ?thesis
    using propFilter_longhand_wins [of "[(''marginTop'', VNum 5), (''margin'', VStr ''1 2'')]" "''marginTop''" "VNum 5" "[]"]
    by simp
qed

text \<open>genFx sets every side of margin and padding when the width is included, and only two of them else.\<close>

lemma genFx_names:
  "map fst (genFx t True) = [''height'', ''paddingTop'', ''marginTop'', ''paddingRight'', ''marginRight'',
     ''paddingBottom'', ''marginBottom'', ''paddingLeft'', ''marginLeft'', ''width'', ''opacity'']"
  "map fst (genFx t False) = [''height'', ''paddingTop'', ''marginTop'', ''paddingBottom'', ''marginBottom'']"
  "map_of (genFx t w) k = Some u \<Longrightarrow> u = t"
  by (cases w; auto simp: genFx_def cssExpand_def numeral_eq_Suc split: if_splits)+

end
