(* ===== verification/Fx_Timers.thy ===== *)
theory Fx_Timers
  imports Fx_Tween Fx_Queue
begin

text \<open>
  The timers of the effects module of jquery.js: Animation with its tick and stop functions, the
  loop of jQuery.fx.tick over the list of timers, fx.timer, fx.start and fx.stop, and the methods
  animate, stop, finish and delay, over the queues of the theory of the fx queue. What a callback
  of an animation does is a list of acts. Calls are a stack of tasks, as for the queues; the
  register \<open>ret\<close> holds whether the tick function called last returned a true value. Time passes only
  between events and through the act \<open>AElapse\<close>, and never runs backwards. A task that raises
  ends the run.
\<close>

section \<open>State\<close>

datatype dstate = Pending | Resolved | Rejected

text \<open>
  The queue option that speed normalizes: a name, or false. In a call of finish the type may be
  false as well.
\<close>

datatype qopt = QName string | QFalse

datatype fxact =
    AAnimate "nat list" nat
  | AStop "nat list" "string option" bool bool
  | AFinish "nat list" qopt
  | AQueueFn "nat list" nat string
  | AElapse nat

text \<open>The arguments of a call to animate, after speed and the pass over the properties.\<close>

record aspec =
  as_props :: "(string \<times> tvalue \<times> string) list"   \<comment> \<open>name, value and easing, from specialEasing or the options\<close>
  as_duration :: int
  as_queue :: qopt
  as_start :: "fxact list"
  as_step :: "fxact list"
  as_progress :: "fxact list"
  as_done :: "fxact list"
  as_complete :: "fxact list"
  as_fail :: "fxact list"
  as_always :: "fxact list"

text \<open>
  An animation object with its Deferred and the elem property of its tick function. Progress
  callbacks added later see the last notification, and done and fail callbacks a settled state.
\<close>

record animation =
  an_elem :: nat
  an_spec :: aspec
  an_startTime :: int
  an_tweens :: "tween list"
  an_stopped :: bool
  an_state :: dstate
  an_notified :: bool
  an_attached :: bool
  tick_elem :: "nat option"

record fxstate =
  clock :: nat
  fxNow :: "nat option"
  timerId :: "nat option"
  next_interval :: nat
  timers :: "nat list"
  anims :: "nat \<Rightarrow> animation option"
  next_anim :: nat
  pvals :: "nat \<Rightarrow> string \<Rightarrow> real"        \<comment> \<open>the animated properties of the elements\<close>
  queues :: qstate
  finishing :: "nat \<Rightarrow> bool"              \<comment> \<open>the flag finish of the private data\<close>
  timeouts :: "(nat \<times> nat \<times> nat \<times> string) list" \<comment> \<open>next functions with setTimeout: number, due time, element, queue\<close>
  next_timeout :: nat
  ret :: bool
  completed :: "nat list"                 \<comment> \<open>ghost: the animations whose done callbacks ran, in order\<close>

text \<open>
  A queued function, by its number: doAnimation of a call to animate, or the function of delay with
  its time.
\<close>

datatype qfun = DoAnimation aspec | Delay nat

datatype fxtask =
    XTick | XLoop nat | XLoopRet nat nat | XTickDone
  | XCall nat | XTween nat nat real | XSet nat nat | XNotify nat | XTickEnd nat real nat int | XRet bool
  | XTimer nat | XTimerRet | XAnimation nat aspec | XAttach nat | XAttachDone nat | XAfterNew nat
  | XStopAnim nat bool | XSettle nat bool
  | XQ qtask | XCallFn nat string nat nat
  | XFnStop nat "string option" bool | XStopLoop nat nat "string option" bool bool
  | XStopSplice nat nat "string option" bool
  | XFinish nat qopt | XFinLoop nat nat qopt | XFinSplice nat nat qopt | XFinQueue nat "qentry list" | XFinEnd nat
  | XAct fxact

section \<open>The clock and the interval\<close>

definition createFxNow :: "fxstate \<Rightarrow> nat \<times> fxstate" where
  "createFxNow s = (clock s, s\<lparr>fxNow := Some (clock s)\<rparr>)"

text \<open>\<open>fxNow || createFxNow()\<close>: a time of 0 is false.\<close>

definition fx_now :: "fxstate \<Rightarrow> nat \<times> fxstate" where
  "fx_now s = (case fxNow s of Some t \<Rightarrow> (if t \<noteq> 0 then (t, s) else createFxNow s) | None \<Rightarrow> createFxNow s)"

definition fx_start :: "fxstate \<Rightarrow> fxstate" where
  "fx_start s =
     (if timerId s = None then s\<lparr>timerId := Some (next_interval s), next_interval := Suc (next_interval s)\<rparr> else s)"

definition fx_stop :: "fxstate \<Rightarrow> fxstate" where
  "fx_stop s = s\<lparr>timerId := None\<rparr>"

section \<open>Animations\<close>

definition upd_anim :: "nat \<Rightarrow> (animation \<Rightarrow> animation) \<Rightarrow> fxstate \<Rightarrow> fxstate" where
  "upd_anim k f s = s\<lparr>anims := (anims s)(k := map_option f (anims s k))\<rparr>"

text \<open>The acts of a list of callbacks; complete is the wrapper of speed.\<close>

definition run_acts :: "fxact list \<Rightarrow> fxtask list" where
  "run_acts as = map XAct as"

definition complete_tasks :: "animation \<Rightarrow> fxtask list" where
  "complete_tasks a =
     run_acts (as_complete (an_spec a))
     @ (case as_queue (an_spec a) of
          QName q \<Rightarrow> if q \<noteq> [] then [XQ (TDequeue (an_elem a) q)] else []
        | QFalse \<Rightarrow> [])"

definition done_tasks :: "animation \<Rightarrow> fxtask list" where
  "done_tasks a = run_acts (as_done (an_spec a)) @ complete_tasks a @ run_acts (as_always (an_spec a))"

definition fail_tasks :: "animation \<Rightarrow> fxtask list" where
  "fail_tasks a = run_acts (as_fail (an_spec a)) @ run_acts (as_always (an_spec a))"

text \<open>
  resolveWith and rejectWith: the first settlement deletes the elem of the tick function, then calls
  the callbacks added so far.
\<close>

definition settle :: "nat \<Rightarrow> bool \<Rightarrow> fxstate \<Rightarrow> fxtask list \<times> fxstate" where
  "settle k ok s =
     (case anims s k of
        None \<Rightarrow> ([], s)
      | Some a \<Rightarrow>
          if an_state a \<noteq> Pending then ([], s)
          else
            (let s = upd_anim k (\<lambda>a. a\<lparr>an_state := (if ok then Resolved else Rejected), tick_elem := None\<rparr>) s in
             if \<not> an_attached a then ([], s)
             else if ok then (done_tasks a, s\<lparr>completed := completed s @ [k]\<rparr>)
             else (fail_tasks a, s)))"

text \<open>
  The return of Animation adds the callbacks of the options, progress first: those of what happened
  already are called at once. The always callbacks are added last to both lists.
\<close>

definition attach_progress :: "nat \<Rightarrow> fxstate \<Rightarrow> fxtask list" where
  "attach_progress k s =
     (case anims s k of
        Some a \<Rightarrow> if an_notified a then run_acts (as_progress (an_spec a)) else []
      | None \<Rightarrow> [])"

definition attach_done :: "nat \<Rightarrow> fxstate \<Rightarrow> fxtask list \<times> fxstate" where
  "attach_done k s =
     (case anims s k of
        None \<Rightarrow> ([], s)
      | Some a \<Rightarrow>
          (let s = upd_anim k (\<lambda>a. a\<lparr>an_attached := True\<rparr>) s in
           case an_state a of
             Pending \<Rightarrow> ([], s)
           | Resolved \<Rightarrow> (done_tasks a, s\<lparr>completed := completed s @ [k]\<rparr>)
           | Rejected \<Rightarrow> (fail_tasks a, s)))"

text \<open>notifyWith: nothing after a settlement.\<close>

definition notify :: "nat \<Rightarrow> fxstate \<Rightarrow> fxtask list \<times> fxstate" where
  "notify k s =
     (case anims s k of
        None \<Rightarrow> ([], s)
      | Some a \<Rightarrow>
          if an_state a \<noteq> Pending then ([], s)
          else (if an_attached a then run_acts (as_progress (an_spec a)) else [],
                upd_anim k (\<lambda>a. a\<lparr>an_notified := True\<rparr>) s))"

text \<open>
  Animation up to its timer: the object and a tween per property. The start callback and the
  timer follow.
\<close>

definition make_tween :: "nat \<Rightarrow> fxstate \<Rightarrow> string \<times> tvalue \<times> string \<Rightarrow> tween" where
  "make_tween elem s pve =
     (case pve of (prop, v, easing) \<Rightarrow>
        tween_target v (pvals s elem prop) (tween_init prop easing (pvals s elem prop) 0))"

definition new_animation :: "nat \<Rightarrow> aspec \<Rightarrow> fxstate \<Rightarrow> fxtask list \<times> fxstate" where
  "new_animation elem sp s =
     (let (now, s) = fx_now s;
          k = next_anim s in
      (run_acts (as_start sp) @ [XTimer k, XAttach k, XAfterNew k],
       s\<lparr>next_anim := Suc k,
         anims := (anims s)(k := Some \<lparr>an_elem = elem, an_spec = sp, an_startTime = int now,
           an_tweens = map (make_tween elem s) (as_props sp), an_stopped = False, an_state = Pending,
           an_notified = False, an_attached = False, tick_elem = None\<rparr>)\<rparr>))"

text \<open>
  The tick function up to the tweens. A duration of 0 leaves no remaining time, since the clock does
  not run backwards: \<open>0 / 0 || 0\<close> is then 0, as in HOL.
\<close>

definition tick_call :: "nat \<Rightarrow> fxstate \<Rightarrow> fxtask list \<times> fxstate" where
  "tick_call k s =
     (case anims s k of
        None \<Rightarrow> ([XRet False], s)
      | Some a \<Rightarrow>
          if an_stopped a then ([XRet False], s)
          else
            (let (currentTime, s) = fx_now s;
                 duration = as_duration (an_spec a);
                 remaining = max 0 (an_startTime a + duration - int currentTime);
                 temp = real_of_int remaining / real_of_int duration;
                 percent = 1 - temp;
                 len = length (an_tweens a) in
             (map (\<lambda>i. XTween k i percent) [0..<len] @ [XNotify k, XTickEnd k percent len remaining], s)))"

definition tween_step :: "nat \<Rightarrow> nat \<Rightarrow> real \<Rightarrow> fxstate \<Rightarrow> (fxtask list \<times> fxstate) option" where
  "tween_step k i percent s =
     (case anims s k of
        None \<Rightarrow> None
      | Some a \<Rightarrow>
          (case tween_run (as_duration (an_spec a)) percent (an_tweens a ! i) of
             None \<Rightarrow> None
           | Some t \<Rightarrow>
               Some (run_acts (as_step (an_spec a)) @ [XSet k i],
                 upd_anim k (\<lambda>a. a\<lparr>an_tweens := (an_tweens a)[i := t]\<rparr>) s)))"

definition tween_set :: "nat \<Rightarrow> nat \<Rightarrow> fxstate \<Rightarrow> fxstate" where
  "tween_set k i s =
     (case anims s k of
        None \<Rightarrow> s
      | Some a \<Rightarrow>
          (let t = an_tweens a ! i; e = an_elem a in
           s\<lparr>pvals := (pvals s)(e := (pvals s e)(tw_prop t := tw_now t))\<rparr>))"

definition tick_end :: "nat \<Rightarrow> real \<Rightarrow> nat \<Rightarrow> int \<Rightarrow> fxstate \<Rightarrow> fxtask list \<times> fxstate" where
  "tick_end k percent len remaining s =
     (if percent < 1 \<and> len \<noteq> 0 then ([XRet (remaining \<noteq> 0)], s)
      else (case settle k True s of (us, s') \<Rightarrow> (us @ [XRet False], s')))"

text \<open>animation.stop(gotoEnd).\<close>

definition stop_anim :: "nat \<Rightarrow> bool \<Rightarrow> fxstate \<Rightarrow> fxtask list \<times> fxstate" where
  "stop_anim k gotoEnd s =
     (case anims s k of
        None \<Rightarrow> ([], s)
      | Some a \<Rightarrow>
          if an_stopped a then ([], s)
          else ((if gotoEnd then map (\<lambda>i. XTween k i 1) [0..<length (an_tweens a)] else []) @ [XSettle k gotoEnd],
                upd_anim k (\<lambda>a. a\<lparr>an_stopped := True\<rparr>) s))"

section \<open>The list of timers\<close>

text \<open>\<open>timers.splice(i, 1)\<close>.\<close>

definition splice1 :: "nat \<Rightarrow> nat list \<Rightarrow> nat list" where
  "splice1 i xs = take i xs @ drop (Suc i) xs"

definition loop_step :: "nat \<Rightarrow> fxstate \<Rightarrow> fxtask list" where
  "loop_step i s =
     (if i < length (timers s) then [XCall (timers s ! i), XLoopRet i (timers s ! i)] else [XTickDone])"

definition loop_ret :: "nat \<Rightarrow> nat \<Rightarrow> fxstate \<Rightarrow> fxtask list \<times> fxstate" where
  "loop_ret i timer s =
     (if \<not> ret s \<and> i < length (timers s) \<and> timers s ! i = timer
      then ([XLoop i], s\<lparr>timers := splice1 i (timers s)\<rparr>)
      else ([XLoop (Suc i)], s))"

definition tick_done :: "fxstate \<Rightarrow> fxstate" where
  "tick_done s = (if timers s = [] then fx_stop s else s)\<lparr>fxNow := None\<rparr>"

text \<open>The tick function gets its elem when it is handed to fx.timer.\<close>

definition fx_timer :: "nat \<Rightarrow> fxstate \<Rightarrow> fxtask list \<times> fxstate" where
  "fx_timer k s =
     ([XCall k, XTimerRet],
      (upd_anim k (\<lambda>a. a\<lparr>tick_elem := Some (an_elem a)\<rparr>) s)\<lparr>timers := timers s @ [k]\<rparr>)"

definition timer_ret :: "fxstate \<Rightarrow> fxstate" where
  "timer_ret s = (if ret s then fx_start s else s\<lparr>timers := butlast (timers s)\<rparr>)"

section \<open>The methods\<close>

text \<open>Functions that a queue operation started are called before what follows it.\<close>

definition queue_step :: "qtask \<Rightarrow> fxstate \<Rightarrow> (fxtask list \<times> fxstate) option" where
  "queue_step t s =
     (case qstep (\<lambda>_. []) t (queues s) of
        None \<Rightarrow> None
      | Some (us, q) \<Rightarrow>
          Some (map (\<lambda>(e, type, f). XCallFn e type f (case cells q e (hooks_key type) of CHooks h \<Rightarrow> h | _ \<Rightarrow> 0))
                  (drop (length (started (queues s))) (started q)) @ map XQ us,
                s\<lparr>queues := q\<rparr>))"

definition call_fn :: "(nat \<Rightarrow> qfun) \<Rightarrow> nat \<Rightarrow> string \<Rightarrow> nat \<Rightarrow> nat \<Rightarrow> fxstate \<Rightarrow> fxtask list \<times> fxstate" where
  "call_fn F e type f h s =
     (case F f of
        DoAnimation sp \<Rightarrow> ([XAnimation e sp], s)
      | Delay time \<Rightarrow>
          (let tid = next_timeout s in
           ([], s\<lparr>next_timeout := Suc tid, timeouts := timeouts s @ [(tid, clock s + time, e, type)],
                  queues := snd (do_act e type h (ASetStop tid) (queues s))\<rparr>)))"

text \<open>doAnimation behind the call of Animation: an empty animation, or one of finish, ends at once.\<close>

definition after_new :: "nat \<Rightarrow> fxstate \<Rightarrow> fxtask list" where
  "after_new k s =
     (case anims s k of
        None \<Rightarrow> []
      | Some a \<Rightarrow> if as_props (an_spec a) = [] \<or> finishing s (an_elem a) then [XStopAnim k True] else [])"

definition fn_animate :: "(nat \<Rightarrow> qfun) \<Rightarrow> nat list \<Rightarrow> nat \<Rightarrow> fxtask list" where
  "fn_animate F this n =
     (case F n of
        Delay _ \<Rightarrow> []
      | DoAnimation sp \<Rightarrow>
          (case as_queue sp of
             QFalse \<Rightarrow> map (\<lambda>e. XAnimation e sp) this
           | QName q \<Rightarrow>
               if as_props sp = [] then map (\<lambda>e. XAnimation e sp) this
               else map XQ (fn_queue this q (Push n))))"

definition fn_delay :: "nat list \<Rightarrow> nat \<Rightarrow> string \<Rightarrow> fxtask list" where
  "fn_delay this n type = map XQ (fn_queue this (if type = [] then ''fx'' else type) (Push n))"

definition or_fx :: "string option \<Rightarrow> string" where
  "or_fx type = (case type of Some t \<Rightarrow> if t = [] then ''fx'' else t | None \<Rightarrow> ''fx'')"

definition fn_stop :: "nat list \<Rightarrow> string option \<Rightarrow> bool \<Rightarrow> bool \<Rightarrow> fxtask list" where
  "fn_stop this type clearQueue gotoEnd =
     (if clearQueue then map XQ (fn_queue this (or_fx type) (Replace [])) else [])
     @ map (\<lambda>e. XFnStop e type gotoEnd) this"

text \<open>stopQueue: the stop functions that delay installs are clearTimeout.\<close>

definition stopQueue :: "nat \<Rightarrow> fxstate \<Rightarrow> fxstate" where
  "stopQueue h s =
     (case stop_fn (hookobj (queues s) h) of
        None \<Rightarrow> s
      | Some tid \<Rightarrow> s\<lparr>queues := delete_stop h (queues s), timeouts := filter (\<lambda>t. fst t \<noteq> tid) (timeouts s)\<rparr>)"

definition stop_hooks :: "nat \<Rightarrow> string option \<Rightarrow> fxstate \<Rightarrow> fxstate" where
  "stop_hooks e type s =
     (case type of
        Some t \<Rightarrow> (case cells (queues s) e (hooks_key t) of CHooks h \<Rightarrow> stopQueue h s | _ \<Rightarrow> s)
      | None \<Rightarrow>
          fold (\<lambda>h s. if owner (hookobj (queues s) h) = e
                   \<and> cells (queues s) e (hooks_key (qtype (hookobj (queues s) h))) = CHooks h
                 then stopQueue h s else s) [0..<next_hook (queues s)] s)"

definition queue_matches :: "nat \<Rightarrow> (qopt \<Rightarrow> bool) \<Rightarrow> nat \<Rightarrow> fxstate \<Rightarrow> bool" where
  "queue_matches e p k s =
     (case anims s k of Some a \<Rightarrow> tick_elem a = Some e \<and> p (as_queue (an_spec a)) | None \<Rightarrow> False)"

text \<open>
  The loops from the end of the list: reading an element of an index past the end raises. A call
  of stop may have shortened the list meanwhile.
\<close>

definition stop_loop :: "nat \<Rightarrow> nat \<Rightarrow> string option \<Rightarrow> bool \<Rightarrow> bool \<Rightarrow> fxstate \<Rightarrow> fxtask list option" where
  "stop_loop e index type gotoEnd dq s =
     (case index of
        0 \<Rightarrow> Some (if dq \<or> \<not> gotoEnd then [XQ (TDequeue e (or_fx type))] else [])
      | Suc i \<Rightarrow>
          if i < length (timers s) then
            Some (if queue_matches e (\<lambda>q. type = None \<or> (\<exists>t\<in>set_option type. q = QName t)) (timers s ! i) s
                  then [XStopAnim (timers s ! i) gotoEnd, XStopSplice e i type gotoEnd]
                  else [XStopLoop e i type gotoEnd dq])
          else None)"

definition norm_ftype :: "qopt \<Rightarrow> qopt" where
  "norm_ftype ft = (case ft of QFalse \<Rightarrow> QFalse | QName t \<Rightarrow> QName (if t = [] then ''fx'' else t))"

definition ftype_key :: "qopt \<Rightarrow> string" where
  "ftype_key ft = (case ft of QFalse \<Rightarrow> ''false'' | QName t \<Rightarrow> t)"

definition fn_finish :: "nat \<Rightarrow> qopt \<Rightarrow> fxstate \<Rightarrow> fxtask list \<times> fxstate" where
  "fn_finish e ft0 s =
     (let ft = norm_ftype ft0;
          queue = (case cells (queues s) e (ftype_key ft @ ''queue'') of CQueue q \<Rightarrow> q | _ \<Rightarrow> []);
          stop = (case cells (queues s) e (hooks_key (ftype_key ft)) of
                    CHooks h \<Rightarrow> stop_fn (hookobj (queues s) h) | _ \<Rightarrow> None);
          s = s\<lparr>finishing := (finishing s)(e := True),
                queues := jq_queue e (case ft of QFalse \<Rightarrow> [] | QName t \<Rightarrow> t) (Replace []) (queues s)\<rparr>;
          s = (case stop of None \<Rightarrow> s | Some tid \<Rightarrow> s\<lparr>timeouts := filter (\<lambda>t. fst t \<noteq> tid) (timeouts s)\<rparr>) in
      ([XFinLoop e (length (timers s)) ft, XFinQueue e queue, XFinEnd e], s))"

definition finish_loop :: "nat \<Rightarrow> nat \<Rightarrow> qopt \<Rightarrow> fxstate \<Rightarrow> fxtask list option" where
  "finish_loop e index ft s =
     (case index of
        0 \<Rightarrow> Some []
      | Suc i \<Rightarrow>
          if i < length (timers s) then
            Some (if queue_matches e (\<lambda>q. q = ft) (timers s ! i) s
                  then [XStopAnim (timers s ! i) True, XFinSplice e i ft]
                  else [XFinLoop e i ft])
          else None)"

text \<open>Only the functions of animate have a finish.\<close>

fun finish_queue :: "(nat \<Rightarrow> qfun) \<Rightarrow> nat \<Rightarrow> qentry list \<Rightarrow> fxtask list" where
  "finish_queue F e [] = []"
| "finish_queue F e (InProgress # q) = finish_queue F e q"
| "finish_queue F e (QFn f # q) =
     (case F f of DoAnimation sp \<Rightarrow> [XAnimation e sp] | Delay _ \<Rightarrow> []) @ finish_queue F e q"

section \<open>Runs\<close>

definition act_step :: "(nat \<Rightarrow> qfun) \<Rightarrow> fxact \<Rightarrow> fxstate \<Rightarrow> fxtask list \<times> fxstate" where
  "act_step F a s =
     (case a of
        AAnimate this n \<Rightarrow> (fn_animate F this n, s)
      | AStop this type clearQueue gotoEnd \<Rightarrow> (fn_stop this type clearQueue gotoEnd, s)
      | AFinish this ft \<Rightarrow> (map (\<lambda>e. XFinish e ft) this, s)
      | AQueueFn this n type \<Rightarrow> (fn_delay this n type, s)
      | AElapse n \<Rightarrow> ([], s\<lparr>clock := clock s + n\<rparr>))"

fun fxstep :: "(nat \<Rightarrow> qfun) \<Rightarrow> fxtask \<Rightarrow> fxstate \<Rightarrow> (fxtask list \<times> fxstate) option" where
  "fxstep F XTick s = Some ([XLoop 0], s\<lparr>fxNow := Some (clock s)\<rparr>)"
| "fxstep F (XLoop i) s = Some (loop_step i s, s)"
| "fxstep F (XLoopRet i timer) s = Some (loop_ret i timer s)"
| "fxstep F XTickDone s = Some ([], tick_done s)"
| "fxstep F (XCall k) s = Some (tick_call k s)"
| "fxstep F (XTween k i p) s = tween_step k i p s"
| "fxstep F (XSet k i) s = Some ([], tween_set k i s)"
| "fxstep F (XNotify k) s = Some (notify k s)"
| "fxstep F (XTickEnd k p len r) s = Some (tick_end k p len r s)"
| "fxstep F (XRet b) s = Some ([], s\<lparr>ret := b\<rparr>)"
| "fxstep F (XTimer k) s = Some (fx_timer k s)"
| "fxstep F XTimerRet s = Some ([], timer_ret s)"
| "fxstep F (XAnimation e sp) s = Some (new_animation e sp s)"
| "fxstep F (XAttach k) s = Some (attach_progress k s @ [XAttachDone k], s)"
| "fxstep F (XAttachDone k) s = Some (attach_done k s)"
| "fxstep F (XAfterNew k) s = Some (after_new k s, s)"
| "fxstep F (XStopAnim k g) s = Some (stop_anim k g s)"
| "fxstep F (XSettle k g) s = Some (settle k g s)"
| "fxstep F (XQ t) s = queue_step t s"
| "fxstep F (XCallFn e type f h) s = Some (call_fn F e type f h s)"
| "fxstep F (XFnStop e type g) s =
     (let s = stop_hooks e type s in Some ([XStopLoop e (length (timers s)) type g True], s))"
| "fxstep F (XStopLoop e i type g dq) s = map_option (\<lambda>us. (us, s)) (stop_loop e i type g dq s)"
| "fxstep F (XStopSplice e i type g) s =
     Some ([XStopLoop e i type g False], s\<lparr>timers := splice1 i (timers s)\<rparr>)"
| "fxstep F (XFinish e ft) s = Some (fn_finish e ft s)"
| "fxstep F (XFinLoop e i ft) s = map_option (\<lambda>us. (us, s)) (finish_loop e i ft s)"
| "fxstep F (XFinSplice e i ft) s = Some ([XFinLoop e i ft], s\<lparr>timers := splice1 i (timers s)\<rparr>)"
| "fxstep F (XFinQueue e q) s = Some (finish_queue F e q, s)"
| "fxstep F (XFinEnd e) s = Some ([], s\<lparr>finishing := (finishing s)(e := False)\<rparr>)"
| "fxstep F (XAct a) s = Some (act_step F a s)"

datatype fxresult = XOut | XErr | XFin fxstate

fun fxrun :: "nat \<Rightarrow> (nat \<Rightarrow> qfun) \<Rightarrow> fxtask list \<Rightarrow> fxstate \<Rightarrow> fxresult" where
  "fxrun n F [] s = XFin s"
| "fxrun 0 F (t # ts) s = XOut"
| "fxrun (Suc n) F (t # ts) s =
     (case fxstep F t s of None \<Rightarrow> XErr | Some (us, s') \<Rightarrow> fxrun n F (us @ ts) s')"

text \<open>
  What the environment does: calls of the methods, the interval, a timeout that is due, and the
  timeout of createFxNow.
\<close>

datatype fxevent = EvAct fxact | EvInterval | EvTimeout nat | EvReset

definition event_tasks :: "fxevent \<Rightarrow> fxstate \<Rightarrow> fxtask list \<times> fxstate" where
  "event_tasks ev s =
     (case ev of
        EvAct a \<Rightarrow> ([XAct a], s)
      | EvInterval \<Rightarrow> (if timerId s = None then [] else [XTick], s)
      | EvReset \<Rightarrow> ([], s\<lparr>fxNow := None\<rparr>)
      | EvTimeout tid \<Rightarrow>
          (case map_of (timeouts s) tid of
             Some (due, e, type) \<Rightarrow>
               if due \<le> clock s
               then ([XQ (TDequeue e type)], s\<lparr>timeouts := filter (\<lambda>t. fst t \<noteq> tid) (timeouts s)\<rparr>)
               else ([], s)
           | None \<Rightarrow> ([], s)))"

fun fx_session :: "nat \<Rightarrow> (nat \<Rightarrow> qfun) \<Rightarrow> fxevent list \<Rightarrow> fxstate \<Rightarrow> fxresult" where
  "fx_session n F [] s = XFin s"
| "fx_session n F (ev # evs) s =
     (case event_tasks ev s of (ts, s') \<Rightarrow>
        (case fxrun n F ts s' of XFin s'' \<Rightarrow> fx_session n F evs s'' | r \<Rightarrow> r))"

definition fxinit :: "nat \<Rightarrow> (nat \<Rightarrow> string \<Rightarrow> real) \<Rightarrow> fxstate" where
  "fxinit t vals =
     \<lparr>clock = t, fxNow = None, timerId = None, next_interval = 1, timers = [], anims = (\<lambda>_. None), next_anim = 0,
       pvals = vals, queues = qinit, finishing = (\<lambda>_. False), timeouts = [], next_timeout = 1, ret = False,
       completed = []\<rparr>"

end
