(* ===== verification/Fx_Play.thy ===== *)
theory Fx_Play
  imports Fx_Timers
begin

text \<open>
  What the animation machine keeps: a contract for predicates on the stack of calls and the state that
  every step preserves, instantiated for the interval that drives the timers and for the
  bookkeeping of the callbacks.
\<close>

section \<open>Invariants of runs\<close>

locale fx_invariant =
  fixes I :: "fxtask list \<Rightarrow> fxstate \<Rightarrow> bool"
  assumes step: "I (t # ts) s \<Longrightarrow> fxstep F t s = Some (us, s') \<Longrightarrow> I (us @ ts) s'"
    and event: "I [] s \<Longrightarrow> event_tasks ev s = (ts, s') \<Longrightarrow> I ts s'"
begin

lemma run: "I ts s \<Longrightarrow> fxrun n F ts s = XFin s' \<Longrightarrow> I [] s'"
proof (induction n F ts s rule: fxrun.induct)
  case (3 n F t ts s)
  then show ?case by (auto split: option.splits dest: step)
qed auto

lemma session: "I [] s \<Longrightarrow> fx_session n F evs s = XFin s' \<Longrightarrow> I [] s'"
proof (induction evs arbitrary: s)
  case (Cons ev evs)
  obtain ts s1 where e: "event_tasks ev s = (ts, s1)" by (cases "event_tasks ev s")
  with Cons.prems obtain s2 where r: "fxrun n F ts s1 = XFin s2" "fx_session n F evs s2 = XFin s'"
    by (auto split: fxresult.splits)
  from Cons.IH [OF run [OF event [OF Cons.prems(1) e] r(1)] r(2)] show ?case .
qed simp

end

lemma fxrun_mono: "fxrun n F ts s = XFin s' \<Longrightarrow> fxrun (n + m) F ts s = XFin s'"
  by (induction n F ts s rule: fxrun.induct) (auto split: option.splits)

section \<open>What the operations leave alone\<close>

text \<open>The list of timers with the interval, and the bookkeeping of an animation's callbacks.\<close>

definition heart :: "fxstate \<Rightarrow> nat list \<times> nat option" where
  "heart s = (timers s, timerId s)"

definition att :: "fxstate \<Rightarrow> nat \<Rightarrow> (bool \<times> dstate) option" where
  "att s k = map_option (\<lambda>a. (an_attached a, an_state a)) (anims s k)"

definition book :: "fxstate \<Rightarrow> nat \<times> nat list \<times> (nat \<Rightarrow> (bool \<times> dstate) option)" where
  "book s = (next_anim s, completed s, att s)"

fun attach_ids :: "fxtask list \<Rightarrow> nat list" where
  "attach_ids [] = []"
| "attach_ids (XAttach k # ts) = k # attach_ids ts"
| "attach_ids (XAttachDone k # ts) = k # attach_ids ts"
| "attach_ids (t # ts) = attach_ids ts"

fun pushed :: "fxtask list \<Rightarrow> nat" where
  "pushed [] = 0"
| "pushed (XTimerRet # ts) = Suc (pushed ts)"
| "pushed (t # ts) = pushed ts"

lemma heart_upd_anim [simp]: "heart (upd_anim k f s) = heart s"
  by (simp add: heart_def upd_anim_def)

lemma book_upd_anim [simp]:
  "(\<And>a. an_attached (f a) = an_attached a \<and> an_state (f a) = an_state a) \<Longrightarrow> book (upd_anim k f s) = book s"
  by (auto simp: book_def att_def upd_anim_def fun_eq_iff option.map_comp comp_def)

lemma upd_anim_simps [simp]:
  "next_anim (upd_anim k f s) = next_anim s" "completed (upd_anim k f s) = completed s"
  "timers (upd_anim k f s) = timers s" "timerId (upd_anim k f s) = timerId s"
  by (simp_all add: upd_anim_def)

lemma att_upd_anim: "att (upd_anim k f s) = (att s)(k := map_option (\<lambda>a. (an_attached (f a), an_state (f a))) (anims s k))"
  by (auto simp: att_def upd_anim_def option.map_comp comp_def)

lemma attach_ids_append [simp]: "attach_ids (ts @ us) = attach_ids ts @ attach_ids us"
  by (induction ts rule: attach_ids.induct) simp_all

lemma pushed_append [simp]: "pushed (ts @ us) = pushed ts + pushed us"
  by (induction ts rule: pushed.induct) simp_all

text \<open>A task that neither adds callbacks nor waits for a first tick.\<close>

fun plain_task :: "fxtask \<Rightarrow> bool" where
  "plain_task (XAttach _) = False"
| "plain_task (XAttachDone _) = False"
| "plain_task XTimerRet = False"
| "plain_task _ = True"

lemma plain_tasks: "list_all plain_task ts \<Longrightarrow> attach_ids ts = [] \<and> pushed ts = 0"
proof (induction ts)
  case (Cons t ts)
  then show ?case by (cases t) simp_all
qed simp

lemma plain_run_acts [simp]: "list_all plain_task (run_acts as)"
  by (simp add: run_acts_def list_all_iff)

lemma plain_map [simp]:
  "(\<And>x. plain_task (g x)) \<Longrightarrow> list_all plain_task (map g xs)"
  by (simp add: list_all_iff)

lemma plain_finish_queue [simp]: "list_all plain_task (finish_queue F e q)"
  by (induction F e q rule: finish_queue.induct) (auto split: qfun.split)

lemma plain_done [simp]: "list_all plain_task (done_tasks a)" "list_all plain_task (fail_tasks a)"
  by (simp_all add: done_tasks_def fail_tasks_def complete_tasks_def split: qopt.split)

text \<open>Every other step keeps the book, and the timers but for splices.\<close>

definition quiet_step :: "fxstate \<Rightarrow> fxtask list \<times> fxstate \<Rightarrow> bool" where
  "quiet_step s r \<longleftrightarrow> list_all plain_task (fst r) \<and> book (snd r) = book s
     \<and> timerId (snd r) = timerId s \<and> length (timers (snd r)) \<le> length (timers s)"

lemma quiet_simps:
  "quiet_step s (us, s') \<longleftrightarrow> list_all plain_task us \<and> book s' = book s
     \<and> timerId s' = timerId s \<and> length (timers s') \<le> length (timers s)"
  by (simp add: quiet_step_def)

lemma book_cong:
  "next_anim s' = next_anim s \<Longrightarrow> completed s' = completed s \<Longrightarrow> anims s' = anims s \<Longrightarrow> book s' = book s"
  by (simp add: book_def att_def fun_eq_iff)

lemma fx_now_simps [simp]:
  "book (snd (fx_now s)) = book s" "timerId (snd (fx_now s)) = timerId s" "timers (snd (fx_now s)) = timers s"
  "anims (snd (fx_now s)) = anims s" "next_anim (snd (fx_now s)) = next_anim s" "completed (snd (fx_now s)) = completed s"
  "pvals (snd (fx_now s)) = pvals s" "queues (snd (fx_now s)) = queues s" "finishing (snd (fx_now s)) = finishing s"
  "clock (snd (fx_now s)) = clock s" "ret (snd (fx_now s)) = ret s"
  by (auto simp: fx_now_def createFxNow_def book_def att_def fun_eq_iff split: option.split)

lemma length_splice1 [simp]: "length (splice1 i xs) \<le> length xs"
  by (simp add: splice1_def)

lemma quiet_notify: "quiet_step s (notify k s)"
  by (auto simp: notify_def quiet_simps split: option.split)

lemma quiet_tick_call: "quiet_step s (tick_call k s)"
  by (auto simp: tick_call_def quiet_simps Let_def case_prod_unfold split: option.split)

lemma quiet_tween_step: "tween_step k i p s = Some r \<Longrightarrow> quiet_step s r"
  by (auto simp: tween_step_def quiet_simps split: option.splits)

lemma quiet_tween_set: "quiet_step s ([], tween_set k i s)"
  by (auto simp: tween_set_def quiet_simps Let_def intro!: book_cong split: option.split)

lemma quiet_stop_anim: "quiet_step s (stop_anim k g s)"
  by (auto simp: stop_anim_def quiet_simps split: option.split)

lemma quiet_queue_step: "queue_step t s = Some r \<Longrightarrow> quiet_step s r"
  by (auto simp: queue_step_def quiet_simps case_prod_unfold intro!: book_cong split: option.splits prod.splits)

lemma quiet_call_fn: "quiet_step s (call_fn F e type f h s)"
  by (auto simp: call_fn_def quiet_simps Let_def intro!: book_cong split: qfun.split)

lemma quiet_stopQueue: "quiet_step s ([], stopQueue h s)"
  by (auto simp: stopQueue_def quiet_simps intro!: book_cong split: option.split)

lemma quiet_trans: "quiet_step s ([], s1) \<Longrightarrow> quiet_step s1 (us, s2) \<Longrightarrow> quiet_step s (us, s2)"
  by (auto simp: quiet_simps)

lemma quiet_fold: "(\<And>x s. quiet_step s ([], f x s)) \<Longrightarrow> quiet_step s ([], fold f xs s)"
proof (induction xs arbitrary: s)
  case Nil
  show ?case by (simp add: quiet_simps)
next
  case (Cons x xs)
  from quiet_trans [OF Cons.prems Cons.IH] Cons.prems show ?case by simp
qed

lemma quiet_stop_hooks: "quiet_step s ([], stop_hooks e type s)"
proof (cases type)
  case None
  have "quiet_step s ([], fold (\<lambda>h s. if owner (hookobj (queues s) h) = e
            \<and> cells (queues s) e (hooks_key (qtype (hookobj (queues s) h))) = CHooks h
          then stopQueue h s else s) hs s)" for hs
    by (rule quiet_fold) (use quiet_stopQueue in \<open>auto simp: quiet_simps\<close>)
  with None show ?thesis by (simp add: stop_hooks_def)
next
  case (Some t)
  then show ?thesis using quiet_stopQueue by (auto simp: stop_hooks_def quiet_simps split: qcell.split)
qed

lemma quiet_fn_finish: "quiet_step s (fn_finish e ft s)"
  by (auto simp: fn_finish_def quiet_simps Let_def intro!: book_cong split: option.split)

lemma plain_fn_stop [simp]: "list_all plain_task (fn_stop this type c g)" "list_all plain_task (fn_animate F this n)"
    "list_all plain_task (fn_delay this n t)"
  by (auto simp: fn_stop_def fn_animate_def fn_delay_def split: qfun.split qopt.split)

lemma quiet_act_step: "quiet_step s (act_step F a s)"
  by (auto simp: act_step_def quiet_simps intro!: book_cong split: fxact.split)

text \<open>The tasks with a part of their own in one of the invariants.\<close>

fun loud_task :: "fxtask \<Rightarrow> bool" where
  "loud_task XTickDone = True"
| "loud_task (XTickEnd _ _ _ _) = True"
| "loud_task (XTimer _) = True"
| "loud_task XTimerRet = True"
| "loud_task (XAnimation _ _) = True"
| "loud_task (XAttach _) = True"
| "loud_task (XAttachDone _) = True"
| "loud_task (XSettle _ _) = True"
| "loud_task _ = False"

lemma quiet_fxstep: "fxstep F t s = Some r \<Longrightarrow> \<not> loud_task t \<Longrightarrow> quiet_step s r"
proof (cases t)
  case (XFnStop e type g)
  assume "fxstep F t s = Some r"
  with XFnStop show ?thesis using quiet_stop_hooks [of s e type] by (auto simp: quiet_simps Let_def)
next
  case (XSet k i)
  assume "fxstep F t s = Some r"
  with XSet show ?thesis using quiet_tween_set by auto
next
  case (XLoopRet i k)
  assume "fxstep F t s = Some r"
  with XLoopRet show ?thesis by (auto simp: quiet_simps loop_ret_def intro!: book_cong)
next
  case (XStopLoop e i type g d)
  assume "fxstep F t s = Some r"
  with XStopLoop show ?thesis by (auto simp: quiet_simps stop_loop_def split: nat.splits if_splits)
next
  case (XFinLoop e i ft)
  assume "fxstep F t s = Some r"
  with XFinLoop show ?thesis by (auto simp: quiet_simps finish_loop_def split: nat.splits if_splits)
qed (auto simp: quiet_notify quiet_tick_call quiet_tween_step quiet_tween_set quiet_stop_anim quiet_queue_step quiet_call_fn
    quiet_fn_finish quiet_act_step quiet_simps loop_step_def after_new_def intro!: book_cong split: option.split)

section \<open>The interval\<close>

text \<open>
  While no interval is set, the list of timers holds at most the timers whose first tick has not
  returned.
\<close>

definition interval_inv :: "fxtask list \<Rightarrow> fxstate \<Rightarrow> bool" where
  "interval_inv ts s \<longleftrightarrow> (timerId s = None \<longrightarrow> length (timers s) \<le> pushed ts)"

lemma settle_heart: "settle k ok s = (us, s') \<Longrightarrow> list_all plain_task us \<and> timers s' = timers s \<and> timerId s' = timerId s"
  by (auto simp: settle_def Let_def split: option.splits if_splits)

lemma attach_done_heart:
  "attach_done k s = (us, s') \<Longrightarrow> list_all plain_task us \<and> timers s' = timers s \<and> timerId s' = timerId s"
  by (auto simp: attach_done_def Let_def split: option.splits dstate.splits)

lemma interval_keep:
  "interval_inv (t # ts) s \<Longrightarrow> t \<noteq> XTimerRet \<Longrightarrow> timerId s' = timerId s \<Longrightarrow> length (timers s') \<le> length (timers s)
    \<Longrightarrow> interval_inv (us @ ts) s'"
  by (cases t) (auto simp: interval_inv_def)

lemma interval_step:
  assumes "interval_inv (t # ts) s" "fxstep F t s = Some (us, s')"
  shows "interval_inv (us @ ts) s'"
proof (cases "loud_task t")
  case False
  with quiet_fxstep [OF assms(2)] have "t \<noteq> XTimerRet" "timerId s' = timerId s" "length (timers s') \<le> length (timers s)"
    by (auto simp: quiet_simps)
  with interval_keep assms(1) show ?thesis by blast
next
  case True
  then show ?thesis
  proof (cases t)
    case XTickDone
    with assms show ?thesis by (auto simp: interval_inv_def tick_done_def fx_stop_def)
  next
    case (XTickEnd k p len r)
    with assms have "timerId s' = timerId s \<and> timers s' = timers s"
      by (auto simp: tick_end_def split: if_splits prod.splits dest: settle_heart)
    with interval_keep [OF assms(1), of s'] XTickEnd show ?thesis by simp
  next
    case (XTimer k)
    with assms show ?thesis by (auto simp: interval_inv_def fx_timer_def)
  next
    case XTimerRet
    with assms show ?thesis by (auto simp: interval_inv_def timer_ret_def fx_start_def)
  next
    case (XAnimation e sp)
    with assms have "timerId s' = timerId s \<and> timers s' = timers s"
      by (auto simp: new_animation_def Let_def case_prod_unfold)
    with interval_keep [OF assms(1), of s'] XAnimation show ?thesis by simp
  next
    case (XAttach k)
    with assms interval_keep [OF assms(1), of s'] show ?thesis by simp
  next
    case (XAttachDone k)
    with assms have "timerId s' = timerId s \<and> timers s' = timers s"
      by (auto dest: attach_done_heart)
    with interval_keep [OF assms(1), of s'] XAttachDone show ?thesis by simp
  next
    case (XSettle k g)
    with assms have "timerId s' = timerId s \<and> timers s' = timers s"
      by (auto dest: settle_heart)
    with interval_keep [OF assms(1), of s'] XSettle show ?thesis by simp
  qed simp_all
qed

lemma event_tasks_keeps:
  "event_tasks ev s = (ts, s') \<Longrightarrow> book s' = book s \<and> timers s' = timers s \<and> timerId s' = timerId s \<and> list_all plain_task ts"
  by (auto simp: event_tasks_def intro!: book_cong split: fxevent.splits option.splits if_splits)

interpretation beat: fx_invariant interval_inv
proof unfold_locales
  fix ts s s' ev
  assume "interval_inv [] s" "event_tasks ev s = (ts, s')"
  then show "interval_inv ts s'" using event_tasks_keeps by (fastforce simp: interval_inv_def)
qed (rule interval_step)

section \<open>The callbacks of an animation\<close>

text \<open>
  The animations whose callbacks are not added yet are those whose creation is on the stack; the done
  callbacks ran for those that are resolved and have them.
\<close>

definition once_inv :: "fxtask list \<Rightarrow> fxstate \<Rightarrow> bool" where
  "once_inv ts s \<longleftrightarrow> distinct (attach_ids ts) \<and> distinct (completed s)
     \<and> (\<forall>k. k < next_anim s \<longleftrightarrow> att s k \<noteq> None)
     \<and> (\<forall>k. k \<in> set (attach_ids ts) \<longleftrightarrow> (\<exists>d. att s k = Some (False, d)))
     \<and> (\<forall>k. k \<in> set (completed s) \<longleftrightarrow> att s k = Some (True, Resolved))"

lemma once_keep:
  "once_inv (t # ts) s \<Longrightarrow> book s' = book s \<Longrightarrow> attach_ids us = attach_ids [t] \<Longrightarrow> once_inv (us @ ts) s'"
  by (cases t) (auto simp: once_inv_def book_def)

lemma att_completed [simp]: "att (s\<lparr>completed := c\<rparr>) = att s"
  by (simp add: att_def fun_eq_iff)

lemma settle_book:
  assumes "settle k ok s = (us, s')"
  shows "book s' = book s \<or>
    (\<exists>b. att s k = Some (b, Pending) \<and> next_anim s' = next_anim s
      \<and> att s' = (att s)(k \<mapsto> (b, if ok then Resolved else Rejected))
      \<and> completed s' = completed s @ (if b \<and> ok then [k] else []))"
proof (cases "anims s k")
  case None
  with assms show ?thesis by (simp add: settle_def)
next
  case (Some a)
  show ?thesis
  proof (cases "an_state a = Pending")
    case False
    with assms Some show ?thesis by (simp add: settle_def)
  next
    case True
    define s1 where "s1 = upd_anim k (\<lambda>a. a\<lparr>an_state := (if ok then Resolved else Rejected), tick_elem := None\<rparr>) s"
    have at: "att s k = Some (an_attached a, Pending)" using Some True by (simp add: att_def)
    have s1: "att s1 = (att s)(k \<mapsto> (an_attached a, if ok then Resolved else Rejected))"
        "next_anim s1 = next_anim s" "completed s1 = completed s"
      using Some by (simp_all add: s1_def att_upd_anim)
    have "s' = (if an_attached a \<and> ok then s1\<lparr>completed := completed s1 @ [k]\<rparr> else s1)"
      using assms Some True by (simp add: settle_def Let_def s1_def split: if_splits)
    with s1 at show ?thesis by (intro disjI2 exI [of _ "an_attached a"]) simp
  qed
qed

lemma once_settle:
  assumes "once_inv ts s" "settle k ok s = (us, s')" "list_all plain_task vs"
  shows "once_inv ((us @ vs) @ ts) s'"
proof -
  have u: "attach_ids us = []" "attach_ids vs = []"
    using settle_heart [OF assms(2)] assms(3) plain_tasks by blast+
  from settle_book [OF assms(2)] show ?thesis
  proof
    assume "book s' = book s"
    with assms(1) u show ?thesis by (auto simp: once_inv_def book_def)
  next
    assume "\<exists>b. att s k = Some (b, Pending) \<and> next_anim s' = next_anim s
      \<and> att s' = (att s)(k \<mapsto> (b, if ok then Resolved else Rejected))
      \<and> completed s' = completed s @ (if b \<and> ok then [k] else [])"
    then obtain b where b: "att s k = Some (b, Pending)" "next_anim s' = next_anim s"
      "att s' = (att s)(k \<mapsto> (b, if ok then Resolved else Rejected))"
      "completed s' = completed s @ (if b \<and> ok then [k] else [])" by blast
    have "k \<notin> set (completed s)" using assms(1) b(1) by (simp add: once_inv_def)
    with assms(1) b u show ?thesis by (auto simp: once_inv_def)
  qed
qed

lemma once_attach_done:
  assumes "once_inv (XAttachDone k # ts) s" "attach_done k s = (us, s')"
  shows "once_inv (us @ ts) s'"
proof -
  have "k \<in> set (attach_ids (XAttachDone k # ts))" by simp
  then have "\<exists>d. att s k = Some (False, d)" using assms(1) unfolding once_inv_def by blast
  then obtain a where a: "anims s k = Some a" "\<not> an_attached a" by (auto simp: att_def)
  have u: "attach_ids us = []" using attach_done_heart [OF assms(2)] plain_tasks by blast
  have at: "att (s'\<lparr>completed := c\<rparr>) = att s'" for c s' by (simp add: att_def fun_eq_iff)
  have s': "next_anim s' = next_anim s" "att s' = (att s)(k \<mapsto> (True, an_state a))"
      "completed s' = completed s @ (if an_state a = Resolved then [k] else [])"
    using assms(2) a at by (auto simp: attach_done_def Let_def att_upd_anim split: dstate.splits)
  have "att s k = Some (False, an_state a)" using a by (simp add: att_def)
  moreover from this have "k \<notin> set (completed s)" using assms(1) by (auto simp: once_inv_def)
  moreover have "k \<notin> set (attach_ids ts)" using assms(1) by (simp add: once_inv_def)
  ultimately show ?thesis using assms(1) u s' by (auto simp: once_inv_def)
qed

lemma once_new:
  assumes "once_inv (XAnimation e sp # ts) s" "new_animation e sp s = (us, s')"
  shows "once_inv (us @ ts) s'"
proof -
  let ?k = "next_anim s"
  have "attach_ids us = [?k]" using assms(2) plain_tasks [OF plain_run_acts, of "as_start sp"]
    by (auto simp: new_animation_def Let_def case_prod_unfold)
  moreover have "next_anim s' = Suc ?k" "completed s' = completed s" "att s' = (att s)(?k \<mapsto> (False, Pending))"
    using assms(2) by (auto simp: new_animation_def Let_def case_prod_unfold att_def)
  moreover have "att s ?k = None" using assms(1) less_irrefl unfolding once_inv_def by blast
  moreover from this have "?k \<notin> set (attach_ids ts)" "?k \<notin> set (completed s)"
    using assms(1) by (auto simp: once_inv_def)
  ultimately show ?thesis using assms(1) by (auto simp: once_inv_def less_Suc_eq)
qed

lemma once_step:
  assumes "once_inv (t # ts) s" "fxstep F t s = Some (us, s')"
  shows "once_inv (us @ ts) s'"
proof (cases "loud_task t")
  case False
  with quiet_fxstep [OF assms(2)] have "book s' = book s" "list_all plain_task us" by (auto simp: quiet_simps)
  with once_keep [OF assms(1)] False plain_tasks show ?thesis by (cases t) auto
next
  case True
  then show ?thesis
  proof (cases t)
    case XTickDone
    then have "book s' = book s" "us = []"
      using assms(2) by (auto simp: tick_done_def fx_stop_def intro!: book_cong)
    with once_keep [OF assms(1), of s' us] XTickDone show ?thesis by simp
  next
    case (XTickEnd k p len r)
    then have i: "once_inv ts s" using assms(1) by (simp add: once_inv_def)
    obtain vs s1 where "settle k True s = (vs, s1)" by (cases "settle k True s")
    note st = this
    show ?thesis
    proof (cases "p < 1 \<and> len \<noteq> 0")
      case True
      with assms(2) XTickEnd have "us = [XRet (r \<noteq> 0)]" "s' = s" by (simp_all add: tick_end_def)
      with i show ?thesis by (simp add: once_inv_def)
    next
      case False
      with assms(2) XTickEnd st have "us = vs @ [XRet False]" "s' = s1" by (auto simp: tick_end_def)
      with once_settle [OF i st, of "[XRet False]"] show ?thesis by simp
    qed
  next
    case (XTimer k)
    have "book (s1\<lparr>timers := x\<rparr>) = book s1" for s1 x by (rule book_cong) simp_all
    then have "book s' = book s" "attach_ids us = []"
      using XTimer assms(2) by (auto simp: fx_timer_def)
    with once_keep [OF assms(1), of s' us] XTimer show ?thesis by simp
  next
    case XTimerRet
    then have "book s' = book s" "us = []"
      using assms(2) by (auto simp: timer_ret_def fx_start_def intro!: book_cong)
    with once_keep [OF assms(1), of s' us] XTimerRet show ?thesis by simp
  next
    case (XAnimation e sp)
    with assms once_new show ?thesis by simp
  next
    case (XAttach k)
    with assms once_keep [OF assms(1), of s' us] plain_tasks [OF plain_run_acts] show ?thesis
      by (auto simp: attach_progress_def split: option.split)
  next
    case (XAttachDone k)
    with assms once_attach_done show ?thesis by simp
  next
    case (XSettle k g)
    then have "once_inv ts s" using assms(1) by (simp add: once_inv_def)
    from once_settle [OF this, of k g us s' "[]"] XSettle assms show ?thesis by simp
  qed simp_all
qed

interpretation once: fx_invariant once_inv
proof unfold_locales
  fix ts s s' ev
  assume "once_inv [] s" "event_tasks ev s = (ts, s')"
  then show "once_inv ts s'"
    using event_tasks_keeps plain_tasks by (fastforce simp: once_inv_def book_def)
qed (rule once_step)

section \<open>Lost animations\<close>

text \<open>
  The animation that a task acts on. One that is pending and in neither the list of timers nor a
  task on the stack cannot be reached by any method.
\<close>

fun task_anim :: "fxtask \<Rightarrow> nat option" where
  "task_anim (XCall k) = Some k"
| "task_anim (XTween k _ _) = Some k"
| "task_anim (XSet k _) = Some k"
| "task_anim (XNotify k) = Some k"
| "task_anim (XTickEnd k _ _ _) = Some k"
| "task_anim (XTimer k) = Some k"
| "task_anim (XAttach k) = Some k"
| "task_anim (XAttachDone k) = Some k"
| "task_anim (XAfterNew k) = Some k"
| "task_anim (XStopAnim k _) = Some k"
| "task_anim (XSettle k _) = Some k"
| "task_anim _ = None"

definition lost :: "nat \<Rightarrow> fxtask list \<Rightarrow> fxstate \<Rightarrow> bool" where
  "lost k ts s \<longleftrightarrow> (\<exists>a. anims s k = Some a \<and> an_state a = Pending) \<and> k < next_anim s \<and> k \<notin> set (timers s)
     \<and> list_all (\<lambda>t. task_anim t \<noteq> Some k) ts"

text \<open>A step keeps an animation out of reach.\<close>

definition unreached :: "nat \<Rightarrow> fxstate \<Rightarrow> fxtask list \<times> fxstate \<Rightarrow> bool" where
  "unreached k s r \<longleftrightarrow> anims (snd r) k = anims s k \<and> next_anim s \<le> next_anim (snd r) \<and> set (timers (snd r)) \<subseteq> set (timers s)
     \<and> list_all (\<lambda>t. task_anim t \<noteq> Some k) (fst r)"

lemma unreached_simps:
  "unreached k s (us, s') \<longleftrightarrow> anims s' k = anims s k \<and> next_anim s \<le> next_anim s' \<and> set (timers s') \<subseteq> set (timers s)
     \<and> list_all (\<lambda>t. task_anim t \<noteq> Some k) us"
  by (simp add: unreached_def)

lemma anims_upd_other [simp]: "j \<noteq> k \<Longrightarrow> anims (upd_anim j f s) k = anims s k"
  by (simp add: upd_anim_def)

lemma task_anim_lists [simp]:
  "list_all (\<lambda>t. task_anim t \<noteq> Some k) (run_acts as)"
  "list_all (\<lambda>t. task_anim t \<noteq> Some k) (done_tasks a)" "list_all (\<lambda>t. task_anim t \<noteq> Some k) (fail_tasks a)"
  "list_all (\<lambda>t. task_anim t \<noteq> Some k) (finish_queue F e q)"
proof -
  show r: "list_all (\<lambda>t. task_anim t \<noteq> Some k) (run_acts as)" for as by (simp add: run_acts_def list_all_iff)
  then show "list_all (\<lambda>t. task_anim t \<noteq> Some k) (done_tasks a)" "list_all (\<lambda>t. task_anim t \<noteq> Some k) (fail_tasks a)"
    by (simp_all add: done_tasks_def fail_tasks_def complete_tasks_def split: qopt.split)
  show "list_all (\<lambda>t. task_anim t \<noteq> Some k) (finish_queue F e q)"
    by (induction F e q rule: finish_queue.induct) (auto split: qfun.split)
qed

lemma task_anim_map [simp]:
  "(\<And>x. task_anim (g x) \<noteq> Some k) \<Longrightarrow> list_all (\<lambda>t. task_anim t \<noteq> Some k) (map g xs)"
  by (simp add: list_all_iff)

lemma set_splice1: "set (splice1 i xs) \<subseteq> set xs"
  unfolding splice1_def using set_take_subset [of i xs] set_drop_subset [of "Suc i" xs] by auto

lemma unreached_settle: "j \<noteq> k \<Longrightarrow> unreached k s (settle j ok s)"
  by (auto simp: settle_def unreached_simps Let_def split: option.split)

lemma unreached_attach: "j \<noteq> k \<Longrightarrow> unreached k s (attach_done j s)"
  by (auto simp: attach_done_def unreached_simps Let_def split: option.split dstate.split)

lemma unreached_notify: "j \<noteq> k \<Longrightarrow> unreached k s (notify j s)"
  by (auto simp: notify_def unreached_simps split: option.split)

lemma unreached_tick_call: "j \<noteq> k \<Longrightarrow> unreached k s (tick_call j s)"
  by (auto simp: tick_call_def unreached_simps Let_def case_prod_unfold split: option.split)

lemma unreached_tween_step: "j \<noteq> k \<Longrightarrow> tween_step j i p s = Some r \<Longrightarrow> unreached k s r"
  by (auto simp: tween_step_def unreached_simps split: option.splits)

lemma unreached_tween_set: "unreached k s ([], tween_set j i s)"
  by (auto simp: tween_set_def unreached_simps Let_def split: option.split)

lemma unreached_tick_end:
  assumes "j \<noteq> k" shows "unreached k s (tick_end j p len r s)"
proof -
  obtain us s' where s: "settle j True s = (us, s')" by (cases "settle j True s")
  with unreached_settle [OF assms, of s True] show ?thesis by (simp add: tick_end_def unreached_simps)
qed

lemma unreached_stop_anim: "j \<noteq> k \<Longrightarrow> unreached k s (stop_anim j g s)"
  by (auto simp: stop_anim_def unreached_simps split: option.split)

lemma unreached_queue_step: "queue_step t s = Some r \<Longrightarrow> unreached k s r"
  by (auto simp: queue_step_def unreached_simps case_prod_unfold split: option.splits prod.splits)

lemma unreached_call_fn: "unreached k s (call_fn F e type f h s)"
  by (auto simp: call_fn_def unreached_simps Let_def split: qfun.split)

lemma unreached_new: "k < next_anim s \<Longrightarrow> unreached k s (new_animation e sp s)"
  by (auto simp: new_animation_def unreached_simps Let_def case_prod_unfold)

lemma unreached_stopQueue: "unreached k s ([], stopQueue h s)"
  by (auto simp: stopQueue_def unreached_simps split: option.split)

lemma unreached_fold: "(\<And>x s. unreached k s ([], f x s)) \<Longrightarrow> unreached k s ([], fold f xs s)"
proof (induction xs arbitrary: s)
  case (Cons x xs)
  then have "unreached k s ([], f x s)" "unreached k (f x s) ([], fold f xs (f x s))" by blast+
  then show ?case by (auto simp: unreached_simps)
qed (simp add: unreached_simps)

lemma unreached_stop_hooks: "unreached k s ([], stop_hooks e type s)"
proof (cases type)
  case None
  have "unreached k s ([], fold (\<lambda>h s. if owner (hookobj (queues s) h) = e
            \<and> cells (queues s) e (hooks_key (qtype (hookobj (queues s) h))) = CHooks h
          then stopQueue h s else s) hs s)" for hs
    by (rule unreached_fold) (use unreached_stopQueue in \<open>auto simp: unreached_simps\<close>)
  with None show ?thesis by (simp add: stop_hooks_def)
next
  case (Some t)
  then show ?thesis using unreached_stopQueue by (auto simp: stop_hooks_def unreached_simps split: qcell.split)
qed

lemma unreached_fn_finish: "unreached k s (fn_finish e ft s)"
  by (auto simp: fn_finish_def unreached_simps Let_def split: option.split)

lemma unreached_act_step: "unreached k s (act_step F a s)"
  by (auto simp: act_step_def unreached_simps fn_stop_def fn_animate_def fn_delay_def split: fxact.split qfun.split qopt.split)

lemma unreached_fxstep:
  assumes "fxstep F t s = Some r" "task_anim t \<noteq> Some k" "k < next_anim s" "k \<notin> set (timers s)" "\<forall>j. t \<noteq> XTimer j"
  shows "unreached k s r"
proof (cases t)
  case (XLoop i)
  then show ?thesis using assms nth_mem [of i "timers s"] by (auto simp: unreached_simps loop_step_def)
next
  case (XLoopRet i j)
  then show ?thesis using assms set_splice1 by (auto simp: unreached_simps loop_ret_def)
next
  case XTickDone
  then show ?thesis using assms by (auto simp: unreached_simps tick_done_def fx_stop_def)
next
  case XTimerRet
  then show ?thesis using assms by (auto simp: unreached_simps timer_ret_def fx_start_def dest: in_set_butlastD)
next
  case (XSet j i)
  then show ?thesis using assms unreached_tween_set by auto
next
  case (XFnStop e type g)
  then show ?thesis using assms unreached_stop_hooks [of k s e type] by (auto simp: unreached_simps Let_def)
next
  case (XStopLoop e i type g d)
  then show ?thesis using assms nth_mem by (fastforce simp: unreached_simps stop_loop_def split: nat.splits if_splits)
next
  case (XFinLoop e i ft)
  then show ?thesis using assms nth_mem by (fastforce simp: unreached_simps finish_loop_def split: nat.splits if_splits)
next
  case (XAttach j)
  then show ?thesis using assms by (auto simp: unreached_simps attach_progress_def split: option.split)
next
  case (XAfterNew j)
  then show ?thesis using assms by (auto simp: unreached_simps after_new_def split: option.split)
qed (use assms set_splice1 in \<open>auto simp: unreached_settle unreached_attach unreached_notify unreached_tick_call unreached_tween_step
    unreached_tick_end unreached_stop_anim unreached_queue_step unreached_call_fn unreached_new
    unreached_fn_finish unreached_act_step unreached_simps\<close>)

lemma lost_step:
  assumes "lost k (t # ts) s" "fxstep F t s = Some (us, s')"
  shows "lost k (us @ ts) s'"
proof (cases "\<exists>j. t = XTimer j")
  case True
  with assms show ?thesis by (auto simp: lost_def fx_timer_def)
next
  case False
  with unreached_fxstep [OF assms(2), of k] assms(1) show ?thesis by (auto simp: lost_def unreached_simps)
qed

lemma event_tasks_lost: "event_tasks ev s = (ts, s') \<Longrightarrow> lost k [] s \<Longrightarrow> lost k ts s'"
  by (auto simp: event_tasks_def lost_def split: fxevent.splits option.splits if_splits)

interpretation lost: fx_invariant "lost k" for k
  by unfold_locales (rule lost_step event_tasks_lost; assumption)+

section \<open>Properties of every session\<close>

text \<open>
  C20: Whatever the callbacks do, in every session that ends without an error the interval is set while a
  timer is left: a running animation is ticked again.
\<close>

theorem timers_keep_ticking:
  assumes "fx_session n F evs (fxinit t vals) = XFin s" "timers s \<noteq> []"
  shows "timerId s \<noteq> None"
  using beat.session [OF _ assms(1)] assms(2) by (auto simp: interval_inv_def fxinit_def)

text \<open>
  C18: Between the events of a session the animations whose done and complete callbacks have run are
  exactly the resolved ones, and no callback has run twice.
\<close>

theorem complete_runs_once:
  assumes "fx_session n F evs (fxinit t vals) = XFin s"
  shows "distinct (completed s) \<and> set (completed s) = {k. \<exists>a. anims s k = Some a \<and> an_state a = Resolved}"
proof -
  have "once_inv [] (fxinit t vals)" by (auto simp: once_inv_def fxinit_def att_def)
  then have i: "once_inv [] s" using once.session assms by blast
  have "k \<in> set (completed s) \<longleftrightarrow> (\<exists>a. anims s k = Some a \<and> an_state a = Resolved)" for k
  proof -
    have "(\<nexists>d. att s k = Some (False, d)) \<and> (k \<in> set (completed s) \<longleftrightarrow> att s k = Some (True, Resolved))"
      using i by (simp add: once_inv_def)
    then show ?thesis by (auto simp: att_def)
  qed
  with i show ?thesis by (auto simp: once_inv_def)
qed

section \<open>Sessions for the witnesses\<close>

text \<open>A call of animate without a queue, with what its step and fail callbacks do.\<close>

definition loose_spec :: "int \<Rightarrow> fxact list \<Rightarrow> fxact list \<Rightarrow> aspec" where
  "loose_spec d on_step on_fail =
     \<lparr>as_props = [(''height'', To 5, ''linear'')], as_duration = d, as_queue = QFalse, as_start = [], as_step = on_step,
      as_progress = [], as_done = [], as_complete = [], as_fail = on_fail, as_always = []\<rparr>"

definition pop_fns :: "nat \<Rightarrow> qfun" where
  "pop_fns n = DoAnimation (if n = 0 then loose_spec 0 [AAnimate [2] 1] [] else loose_spec 400 [] [])"

definition stop_fns :: "nat \<Rightarrow> qfun" where
  "stop_fns n = DoAnimation (loose_spec 100 [] (if n = 0 then [AStop [1] None False False] else []))"

fun ended :: "(fxstate \<Rightarrow> bool) \<Rightarrow> fxresult \<Rightarrow> bool" where
  "ended P (XFin s) = P s"
| "ended P r = False"

lemma endedE: "ended P r \<Longrightarrow> (\<And>s. r = XFin s \<Longrightarrow> P s \<Longrightarrow> thesis) \<Longrightarrow> thesis"
  by (cases r) simp_all

theorem timers_keep_ticking_witness:
  "\<exists>s. fx_session 20 stop_fns [EvAct (AAnimate [1] 1)] (fxinit 5 (\<lambda>_ _. 0)) = XFin s \<and> timers s = [0] \<and> timerId s \<noteq> None"
proof -
  have "ended (\<lambda>s. timers s = [0]) (fx_session 20 stop_fns [EvAct (AAnimate [1] 1)] (fxinit 5 (\<lambda>_ _. 0)))" by code_simp
  then obtain s where s: "fx_session 20 stop_fns [EvAct (AAnimate [1] 1)] (fxinit 5 (\<lambda>_ _. 0)) = XFin s" "timers s = [0]"
    by (rule endedE)
  from timers_keep_ticking [OF s(1)] s show ?thesis by simp
qed

theorem complete_runs_once_witness:
  "\<exists>s. fx_session 40 stop_fns [EvAct (AAnimate [1] 1), EvAct (AElapse 100), EvReset, EvInterval] (fxinit 5 (\<lambda>_ _. 0)) = XFin s
     \<and> completed s = [0] \<and> {k. \<exists>a. anims s k = Some a \<and> an_state a = Resolved} = {0}"
proof -
  let ?r = "fx_session 40 stop_fns [EvAct (AAnimate [1] 1), EvAct (AElapse 100), EvReset, EvInterval] (fxinit 5 (\<lambda>_ _. 0))"
  have "ended (\<lambda>s. completed s = [0]) ?r" by code_simp
  then obtain s where s: "?r = XFin s" "completed s = [0]" by (rule endedE)
  from complete_runs_once [OF s(1)] s show ?thesis by auto
qed

section \<open>Two failures\<close>

text \<open>
  fx.timer pops the last timer when the first tick returns false, not its own. A step
  callback of an animation of duration 0 that starts a second animation loses it: whatever
  happens later, it stays pending and out of the list of timers.
\<close>

theorem first_tick_pops_wrong_timer:
  assumes "fx_session n pop_fns (EvAct (AAnimate [1] 0) # evs) (fxinit 5 (\<lambda>_ _. 0)) = XFin s"
  shows "(\<exists>a. anims s 1 = Some a \<and> an_state a = Pending) \<and> 1 \<notin> set (timers s)"
proof -
  define ts where "ts = [XAct (AAnimate [1] 0)]"
  define s0 where "s0 = fxinit 5 (\<lambda>_ _. 0)"
  have "ended (\<lambda>s. (case anims s 1 of Some a \<Rightarrow> an_state a = Pending | None \<Rightarrow> False) \<and> 1 < next_anim s \<and> timers s = [0])
      (fxrun 30 pop_fns [XAct (AAnimate [1] 0)] (fxinit 5 (\<lambda>_ _. 0)))" by code_simp
  then obtain s1 where s1: "fxrun 30 pop_fns ts s0 = XFin s1" "case anims s1 1 of Some a \<Rightarrow> an_state a = Pending | None \<Rightarrow> False"
      "1 < next_anim s1" "timers s1 = [0]" unfolding ts_def s0_def by (rule endedE) blast
  have "event_tasks (EvAct (AAnimate [1] 0)) s0 = (ts, s0)" by (simp add: event_tasks_def ts_def)
  then obtain s2 where s2: "fxrun n pop_fns ts s0 = XFin s2" "fx_session n pop_fns evs s2 = XFin s"
    using assms unfolding s0_def [symmetric] by (auto split: fxresult.splits)
  have "s2 = s1" using fxrun_mono [OF s1(1), of n] fxrun_mono [OF s2(1), of 30] by (simp add: add.commute)
  then have "lost 1 [] s2" using s1(2-4) by (simp add: lost_def split: option.splits)
  from lost.session [OF this s2(2)] show ?thesis by (simp add: lost_def)
qed

theorem first_tick_pops_wrong_timer_witness:
  "\<exists>s. fx_session 60 pop_fns (EvAct (AAnimate [1] 0) # [EvAct (AElapse 900), EvReset]) (fxinit 5 (\<lambda>_ _. 0)) = XFin s
     \<and> clock s = 905 \<and> (\<exists>a. anims s 1 = Some a \<and> an_state a = Pending) \<and> 1 \<notin> set (timers s)"
proof -
  have "ended (\<lambda>s. clock s = 905)
      (fx_session 60 pop_fns (EvAct (AAnimate [1] 0) # [EvAct (AElapse 900), EvReset]) (fxinit 5 (\<lambda>_ _. 0)))" by code_simp
  then obtain s where s: "fx_session 60 pop_fns (EvAct (AAnimate [1] 0) # [EvAct (AElapse 900), EvReset]) (fxinit 5 (\<lambda>_ _. 0)) = XFin s"
      "clock s = 905" by (rule endedE)
  from first_tick_pops_wrong_timer [OF s(1)] s show ?thesis by blast
qed

text \<open>
  The method stop reads past the end of the list of timers when a fail callback calls stop on the
  same element: with three animations running there it raises a TypeError.
\<close>

theorem stop_in_fail_raises:
  "fx_session 100 stop_fns [EvAct (AAnimate [1] 1), EvAct (AAnimate [1] 1), EvAct (AAnimate [1] 0),
      EvAct (AStop [1] None False False)] (fxinit 5 (\<lambda>_ _. 0)) = XErr
   \<and> (\<exists>s. fx_session 100 stop_fns [EvAct (AAnimate [1] 1), EvAct (AAnimate [1] 1), EvAct (AAnimate [1] 0)] (fxinit 5 (\<lambda>_ _. 0)) = XFin s
        \<and> timers s = [0, 1, 2])"
proof
  have "case fx_session 100 stop_fns [EvAct (AAnimate [1] 1), EvAct (AAnimate [1] 1), EvAct (AAnimate [1] 0),
      EvAct (AStop [1] None False False)] (fxinit 5 (\<lambda>_ _. 0)) of XErr \<Rightarrow> True | _ \<Rightarrow> False" by code_simp
  then show "fx_session 100 stop_fns [EvAct (AAnimate [1] 1), EvAct (AAnimate [1] 1), EvAct (AAnimate [1] 0),
      EvAct (AStop [1] None False False)] (fxinit 5 (\<lambda>_ _. 0)) = XErr" by (simp split: fxresult.splits)
  have "ended (\<lambda>s. timers s = [0, 1, 2]) (fx_session 100 stop_fns [EvAct (AAnimate [1] 1), EvAct (AAnimate [1] 1),
      EvAct (AAnimate [1] 0)] (fxinit 5 (\<lambda>_ _. 0)))" by code_simp
  then show "\<exists>s. fx_session 100 stop_fns [EvAct (AAnimate [1] 1), EvAct (AAnimate [1] 1), EvAct (AAnimate [1] 0)] (fxinit 5 (\<lambda>_ _. 0)) = XFin s
        \<and> timers s = [0, 1, 2]" by (rule endedE) blast
qed

end
