(* ===== verification/Fx_Order.thy ===== *)
theory Fx_Order
  imports Fx_Play
begin

text \<open>
  Animations queued on one element play one after the other: a run that ends is a relation on tasks
  and states, closed under sequence, and the ticks of plain animations are followed through it
  up to what the next tick depends on. Two failures of the timers that need a callback
  are shown on concrete sessions.
\<close>

section \<open>Runs that end\<close>

definition fxends :: "(nat \<Rightarrow> qfun) \<Rightarrow> fxtask list \<Rightarrow> fxstate \<Rightarrow> fxstate \<Rightarrow> bool" where
  "fxends F ts s s' \<longleftrightarrow> (\<exists>n. fxrun n F ts s = XFin s')"

lemma fxrun_append:
  "fxrun n F ts s = XFin s1 \<Longrightarrow> fxrun m F us s1 = XFin s2 \<Longrightarrow> fxrun (n + m) F (ts @ us) s = XFin s2"
proof (induction n F ts s rule: fxrun.induct)
  case (1 n F s)
  then show ?case using fxrun_mono [of m F us s s2 n] by (simp add: add.commute)
qed (auto split: option.splits)

lemma fxends_Nil [simp]: "fxends F [] s s' \<longleftrightarrow> s' = s"
  by (auto simp: fxends_def)

lemma fxends_append: "fxends F ts s s1 \<Longrightarrow> fxends F us s1 s2 \<Longrightarrow> fxends F (ts @ us) s s2"
  unfolding fxends_def using fxrun_append by blast

lemma fxends_step:
  assumes "fxstep F t s = Some (us, s1)" "fxends F (us @ ts) s1 s2"
  shows "fxends F (t # ts) s s2"
proof -
  from assms(2) obtain n where "fxrun n F (us @ ts) s1 = XFin s2" by (auto simp: fxends_def)
  with assms(1) have "fxrun (Suc n) F (t # ts) s = XFin s2" by simp
  then show ?thesis unfolding fxends_def by (rule exI)
qed

lemma fxends_one: "fxstep F t s = Some ([], s') \<Longrightarrow> fxends F [t] s s'"
  by (rule fxends_step [where us="[]"]) simp_all

lemma fxends_then:
  assumes "fxstep F t s = Some ([u], s1)" "fxstep F u s1 = Some ([], s2)"
  shows "fxends F [t] s s2"
  using fxends_one [OF assms(2)] by (intro fxends_step [OF assms(1)]) simp

lemma fxends_to: "fxstep F t s = Some ([u], s1) \<Longrightarrow> fxends F [u] s1 s2 \<Longrightarrow> fxends F [t] s s2"
  by (rule fxends_step) simp_all

lemma fxends_Cons: "fxends F [t] s s1 \<Longrightarrow> fxends F ts s1 s2 \<Longrightarrow> fxends F (t # ts) s s2"
  using fxends_append [of F "[t]"] by simp

lemma fxrun_split: "fxrun n F (ts @ us) s = XFin s' \<Longrightarrow> \<exists>s1. fxends F ts s s1 \<and> fxends F us s1 s'"
proof (induction n F ts s rule: fxrun.induct)
  case (3 n F t ts s)
  then obtain vs s1 where st: "fxstep F t s = Some (vs, s1)" "fxrun n F ((vs @ ts) @ us) s1 = XFin s'"
    by (auto split: option.splits)
  from "3.IH" [OF st(1) refl st(2)] fxends_step [OF st(1)] show ?case by blast
qed (auto simp: fxends_def)

text \<open>A session is followed event by event, with fuel enough for each.\<close>

definition fxplays :: "(nat \<Rightarrow> qfun) \<Rightarrow> fxevent list \<Rightarrow> fxstate \<Rightarrow> fxstate \<Rightarrow> bool" where
  "fxplays F evs s s' \<longleftrightarrow> (\<exists>n. \<forall>m. fx_session (n + m) F evs s = XFin s')"

lemma fxplays_Nil [simp]: "fxplays F [] s s' \<longleftrightarrow> s' = s"
  by (auto simp: fxplays_def)

lemma fxplays_Cons:
  assumes "event_tasks ev s = (ts, s1)" "fxends F ts s1 s2" "fxplays F evs s2 s3"
  shows "fxplays F (ev # evs) s s3"
proof -
  obtain n where n: "fxrun n F ts s1 = XFin s2" using assms(2) by (auto simp: fxends_def)
  obtain n' where n': "fx_session (n' + m) F evs s2 = XFin s3" for m using assms(3) by (auto simp: fxplays_def)
  have "fx_session ((n + n') + m) F (ev # evs) s = XFin s3" for m
  proof -
    have "fxrun ((n + n') + m) F ts s1 = XFin s2" using fxrun_mono [OF n, of "n' + m"] by (simp add: add.assoc)
    moreover have "fx_session ((n + n') + m) F evs s2 = XFin s3"
      using n' [of "n + m"] by (simp add: ac_simps)
    ultimately show ?thesis using assms(1) by simp
  qed
  then show ?thesis by (auto simp: fxplays_def)
qed

lemma fxplays_append:
  "fxplays F evs s s1 \<Longrightarrow> fxplays F evs' s1 s2 \<Longrightarrow> fxplays F (evs @ evs') s s2"
proof -
  have app: "fx_session n F (evs @ evs') s = (case fx_session n F evs s of XFin s1 \<Rightarrow> fx_session n F evs' s1 | r \<Rightarrow> r)" for n
    by (induction evs arbitrary: s) (auto split: prod.split fxresult.split)
  assume "fxplays F evs s s1" "fxplays F evs' s1 s2"
  then obtain n n' where n: "\<And>m. fx_session (n + m) F evs s = XFin s1" "\<And>m. fx_session (n' + m) F evs' s1 = XFin s2"
    by (auto simp: fxplays_def)
  have "fx_session ((n + n') + m) F (evs @ evs') s = XFin s2" for m
    using n(1) [of "n' + m"] n(2) [of "n + m"] by (simp add: app ac_simps)
  then show ?thesis by (auto simp: fxplays_def)
qed

section \<open>The tick of a plain animation\<close>

text \<open>
  A call of animate with a queue, a positive duration, properties with known easings and no
  callbacks but those that speed adds.
\<close>

definition plain_spec :: "aspec \<Rightarrow> bool" where
  "plain_spec sp \<longleftrightarrow> as_start sp = [] \<and> as_step sp = [] \<and> as_progress sp = [] \<and> as_done sp = [] \<and> as_complete sp = []
     \<and> as_fail sp = [] \<and> as_always sp = [] \<and> as_queue sp = QName ''fx'' \<and> 0 < as_duration sp \<and> as_props sp \<noteq> []
     \<and> (\<forall>(p, v, e) \<in> set (as_props sp). jq_easing (if e = [] then ''swing'' else e) \<noteq> None)"

definition tweens_ok :: "tween list \<Rightarrow> bool" where
  "tweens_ok tws \<longleftrightarrow> tws \<noteq> [] \<and> (\<forall>t\<in>set tws. jq_easing (tw_easing t) \<noteq> None)"

definition live :: "nat \<Rightarrow> fxstate \<Rightarrow> nat \<Rightarrow> aspec \<Rightarrow> int \<Rightarrow> bool \<Rightarrow> bool" where
  "live e s k sp t0 ad \<longleftrightarrow> (\<exists>a. anims s k = Some a \<and> an_elem a = e \<and> an_spec a = sp \<and> an_startTime a = t0
     \<and> \<not> an_stopped a \<and> an_state a = Pending \<and> an_attached a = ad \<and> tweens_ok (an_tweens a))"

text \<open>What a tick leaves alone: everything but the tweens of its animation and their properties.\<close>

definition core :: "fxstate \<Rightarrow> _" where
  "core s = (timers s, timerId s, queues s, next_anim s, completed s, finishing s, clock s, fxNow s)"

definition same_but :: "nat \<Rightarrow> fxstate \<Rightarrow> fxstate \<Rightarrow> bool" where
  "same_but k s s' \<longleftrightarrow> core s' = core s \<and> (\<forall>j. j \<noteq> k \<longrightarrow> anims s' j = anims s j)"

lemma same_but_refl [simp]: "same_but k s s"
  by (simp add: same_but_def)

lemma same_but_trans: "same_but k s s1 \<Longrightarrow> same_but k s1 s2 \<Longrightarrow> same_but k s s2"
  by (simp add: same_but_def)

lemma core_simps [simp]:
  "core (upd_anim k f s) = core s" "core (s\<lparr>ret := b\<rparr>) = core s" "core (s\<lparr>pvals := v\<rparr>) = core s"
  "core (s\<lparr>anims := as\<rparr>) = core s"
  by (simp_all add: core_def upd_anim_def)

lemma same_but_upd [simp]: "same_but k s (upd_anim k f s)"
  by (simp add: same_but_def)

lemma tweens_run:
  assumes "live e s k sp t0 ad" "plain_spec sp" "\<forall>i\<in>set is. i < n"
    "\<And>a. anims s k = Some a \<Longrightarrow> length (an_tweens a) = n"
  shows "\<exists>s'. fxends F (map (\<lambda>i. XTween k i p) is) s s' \<and> same_but k s s' \<and> live e s' k sp t0 ad"
  using assms
proof (induction "is" arbitrary: s)
  case Nil
  then show ?case by auto
next
  case (Cons i "is")
  obtain a where a: "anims s k = Some a" "an_elem a = e" "an_spec a = sp" "an_startTime a = t0" "\<not> an_stopped a"
      "an_state a = Pending" "an_attached a = ad" "tweens_ok (an_tweens a)"
    using Cons.prems(1) by (auto simp: live_def)
  have i: "i < length (an_tweens a)" using Cons.prems(3) Cons.prems(4) [OF a(1)] by simp
  then have "jq_easing (tw_easing (an_tweens a ! i)) \<noteq> None" using a(8) by (auto simp: tweens_ok_def)
  then have "\<exists>t. tween_run (as_duration sp) p (an_tweens a ! i) = Some t \<and> tw_easing t = tw_easing (an_tweens a ! i)"
    by (cases "as_duration sp = 0") (auto simp: tween_run_def)
  then obtain t where t: "tween_run (as_duration sp) p (an_tweens a ! i) = Some t" "tw_easing t = tw_easing (an_tweens a ! i)"
    by blast
  let ?a = "a\<lparr>an_tweens := (an_tweens a)[i := t]\<rparr>"
  define s1 where "s1 = upd_anim k (\<lambda>a. a\<lparr>an_tweens := (an_tweens a)[i := t]\<rparr>) s"
  define s2 where "s2 = tween_set k i s1"
  have a1: "anims s1 k = Some ?a" using a(1) by (simp add: s1_def upd_anim_def)
  have "set ((an_tweens a)[i := t]) \<subseteq> insert t (set (an_tweens a))" by (rule set_update_subset_insert)
  then have ok: "tweens_ok ((an_tweens a)[i := t])"
    using a(8) t(2) \<open>jq_easing (tw_easing (an_tweens a ! i)) \<noteq> None\<close> by (auto simp: tweens_ok_def)
  have s2: "anims s2 = anims s1" "core s2 = core s1"
    using a1 by (simp_all add: s2_def tween_set_def Let_def)
  have r: "fxends F [XTween k i p] s s2"
    using a(1,3) t(1) Cons.prems(2)
    by (intro fxends_then [of F _ s "XSet k i" s1]) (simp_all add: tween_step_def plain_spec_def run_acts_def s1_def s2_def)
  have sb: "same_but k s s2" using s2 by (simp add: same_but_def, simp add: s1_def upd_anim_def)
  have lv: "live e s2 k sp t0 ad" using a a1 s2 ok by (simp add: live_def)
  have n: "\<And>a. anims s2 k = Some a \<Longrightarrow> length (an_tweens a) = n"
    using a1 s2 Cons.prems(4) [OF a(1)] by auto
  from Cons.IH [OF lv Cons.prems(2) _ n] Cons.prems(3) obtain s' where
    "fxends F (map (\<lambda>i. XTween k i p) is) s2 s'" "same_but k s2 s'" "live e s' k sp t0 ad" by auto
  with fxends_Cons [OF r] same_but_trans [OF sb] show ?case by (auto intro!: exI [of _ s'])
qed

text \<open>The time that fx_now reads stays the same until something else sets it.\<close>

lemma fx_now_again:
  assumes "fx_now s = (c, s1)" "fxNow s2 = fxNow s1" "clock s2 = clock s1"
  shows "fx_now s2 = (c, s2)"
proof -
  have "fxNow s1 = Some c \<and> (c = 0 \<longrightarrow> clock s1 = 0)"
    using assms(1) by (auto simp: fx_now_def createFxNow_def split: option.splits if_splits)
  moreover have "s2\<lparr>fxNow := Some (clock s2)\<rparr> = s2" if "fxNow s2 = Some (clock s2)" using that by simp
  ultimately show ?thesis using assms(2,3) by (auto simp: fx_now_def createFxNow_def)
qed

lemma notify_plain:
  assumes "live e s k sp t0 ad" "plain_spec sp"
  shows "\<exists>s'. fxends F [XNotify k] s s' \<and> same_but k s s' \<and> live e s' k sp t0 ad"
proof -
  let ?s = "upd_anim k (\<lambda>a. a\<lparr>an_notified := True\<rparr>) s"
  have "fxends F [XNotify k] s ?s"
    using assms by (intro fxends_step [of F _ s "[]" ?s]) (auto simp: notify_def live_def plain_spec_def run_acts_def)
  moreover have "live e ?s k sp t0 ad" using assms(1) by (auto simp: live_def upd_anim_def)
  ultimately show ?thesis using same_but_upd by blast
qed

text \<open>The part of the tick before the decision whether it was the last.\<close>

lemma tick_starts:
  assumes "live e s k sp t0 ad" "plain_spec sp" "fx_now s = (c, s1)" "r = max 0 (t0 + as_duration sp - int c)"
  shows "\<exists>s2 len. (\<forall>s'. fxends F [XTickEnd k (1 - real_of_int r / real_of_int (as_duration sp)) len r] s2 s'
        \<longrightarrow> fxends F [XCall k] s s') \<and> len \<noteq> 0 \<and> same_but k s1 s2 \<and> live e s2 k sp t0 ad"
proof -
  obtain a where a: "anims s k = Some a" "\<not> an_stopped a" "an_spec a = sp" "an_startTime a = t0" "an_tweens a \<noteq> []"
    using assms(1) by (auto simp: live_def tweens_ok_def)
  let ?p = "1 - real_of_int r / real_of_int (as_duration sp)" and ?n = "length (an_tweens a)"
  have s1: "anims s1 = anims s" using assms(3) fx_now_simps(4) [of s] by simp
  then have l1: "live e s1 k sp t0 ad" using assms(1) by (simp add: live_def)
  have "\<forall>i\<in>set [0..<?n]. i < ?n" by simp
  from tweens_run [OF l1 assms(2) this, of F ?p] s1 a(1) obtain s2 where
    s2: "fxends F (map (\<lambda>i. XTween k i ?p) [0..<?n]) s1 s2" "same_but k s1 s2" "live e s2 k sp t0 ad" by auto
  from notify_plain [OF s2(3) assms(2)] obtain s3 where
    s3: "fxends F [XNotify k] s2 s3" "same_but k s2 s3" "live e s3 k sp t0 ad" by blast
  have "fxstep F (XCall k) s = Some (map (\<lambda>i. XTween k i ?p) [0..<?n] @ [XNotify k, XTickEnd k ?p ?n r], s1)"
    using a assms(3,4) by (simp add: tick_call_def Let_def)
  then have "fxends F [XCall k] s s'" if "fxends F [XTickEnd k ?p ?n r] s3 s'" for s'
    using fxends_append [OF s2(1) fxends_Cons [OF s3(1) that]] by (intro fxends_step) simp_all
  with a(5) s3(3) same_but_trans [OF s2(2) s3(2)] show ?thesis by (intro exI [of _ s3] exI [of _ ?n]) simp
qed

lemma tick_early:
  assumes "live e s k sp t0 ad" "plain_spec sp" "fx_now s = (c, s1)" "int c < t0 + as_duration sp" "t0 \<le> int c"
  shows "\<exists>s'. fxends F [XCall k] s s' \<and> ret s' \<and> same_but k s1 s' \<and> live e s' k sp t0 ad"
proof -
  let ?r = "max 0 (t0 + as_duration sp - int c)"
  let ?p = "1 - real_of_int ?r / real_of_int (as_duration sp)"
  from tick_starts [OF assms(1-3) refl] obtain s2 len where s2: "len \<noteq> 0" "same_but k s1 s2" "live e s2 k sp t0 ad"
    "\<And>s'. fxends F [XTickEnd k ?p len ?r] s2 s' \<Longrightarrow> fxends F [XCall k] s s'" by metis
  have "?p < 1" using assms(2,4) by (simp add: plain_spec_def)
  then have "tick_end k ?p len ?r s2 = ([XRet True], s2)" using s2(1) assms(4) by (simp add: tick_end_def)
  then have "fxends F [XTickEnd k ?p len ?r] s2 (s2\<lparr>ret := True\<rparr>)"
    by (intro fxends_then [of F _ s2 "XRet True" s2]) simp_all
  from s2(4) [OF this] s2 show ?thesis
    by (intro exI [of _ "s2\<lparr>ret := True\<rparr>"]) (simp add: same_but_def live_def)
qed

text \<open>The last tick settles the animation; what complete does then follows.\<close>

lemma tick_last:
  assumes "live e s k sp t0 True" "plain_spec sp" "fx_now s = (c, s1)" "t0 + as_duration sp \<le> int c"
  shows "\<exists>s2. (\<forall>s'. fxends F [XQ (TDequeue e ''fx''), XRet False] s2 s' \<longrightarrow> fxends F [XCall k] s s')
     \<and> core s2 = (case core s1 of (ti, i, q, n, c, r) \<Rightarrow> (ti, i, q, n, c @ [k], r))
     \<and> (\<forall>j. j \<noteq> k \<longrightarrow> anims s2 j = anims s j) \<and> map_option an_spec (anims s2 k) = Some sp"
proof -
  from tick_starts [where F=F, OF assms(1-3), of 0] assms(4) obtain s2 len where s2: "same_but k s1 s2" "live e s2 k sp t0 True"
    "\<And>s'. fxends F [XTickEnd k 1 len 0] s2 s' \<Longrightarrow> fxends F [XCall k] s s'" by auto
  obtain a where a: "anims s2 k = Some a" "an_state a = Pending" "an_attached a" "an_elem a = e" "an_spec a = sp"
    using s2(2) by (auto simp: live_def)
  let ?s3 = "(upd_anim k (\<lambda>a. a\<lparr>an_state := Resolved, tick_elem := None\<rparr>) s2)\<lparr>completed := completed s2 @ [k]\<rparr>"
  have "done_tasks a = [XQ (TDequeue e ''fx'')]"
    using a assms(2) by (simp add: done_tasks_def complete_tasks_def plain_spec_def run_acts_def)
  then have "settle k True s2 = ([XQ (TDequeue e ''fx'')], ?s3)"
    using a by (simp add: settle_def Let_def upd_anim_def)
  then have "tick_end k 1 len 0 s2 = ([XQ (TDequeue e ''fx''), XRet False], ?s3)"
    by (simp add: tick_end_def)
  then have "fxends F [XTickEnd k 1 len 0] s2 s'" if "fxends F [XQ (TDequeue e ''fx''), XRet False] ?s3 s'" for s'
    using that by (intro fxends_step) simp_all
  moreover have "core ?s3 = (case core s1 of (ti, i, q, n, c, r) \<Rightarrow> (ti, i, q, n, c @ [k], r))"
    using s2(1) by (simp add: same_but_def core_def upd_anim_def)
  moreover have "anims ?s3 j = anims s j" if "j \<noteq> k" for j
    using that s2(1) assms(3) fx_now_simps(4) [of s] by (simp add: same_but_def upd_anim_def)
  moreover have "map_option an_spec (anims ?s3 k) = Some sp" using a by (simp add: upd_anim_def)
  ultimately show ?thesis using s2(3) by (intro exI [of _ ?s3]) simp
qed

section \<open>A new animation\<close>

text \<open>The callbacks are added after the first tick, which leaves a plain animation pending.\<close>

lemma attach_plain:
  assumes "live e s k sp t0 False" "plain_spec sp" "\<not> finishing s e"
  shows "\<exists>s'. fxends F [XAttach k, XAfterNew k] s s' \<and> same_but k s s' \<and> live e s' k sp t0 True"
proof -
  obtain a where a: "anims s k = Some a" "an_spec a = sp" "an_elem a = e" "an_state a = Pending"
    using assms(1) by (auto simp: live_def)
  let ?s = "upd_anim k (\<lambda>a. a\<lparr>an_attached := True\<rparr>) s"
  have "attach_progress k s = []" using a assms(2) by (simp add: attach_progress_def plain_spec_def run_acts_def)
  then have r1: "fxends F [XAttach k] s ?s"
    using a by (intro fxends_then [of F _ s "XAttachDone k" s]) (simp_all add: attach_done_def)
  have "anims ?s k = Some (a\<lparr>an_attached := True\<rparr>)" "finishing ?s = finishing s" using a by (simp_all add: upd_anim_def)
  then have "after_new k ?s = []" using a assms(2,3) by (simp add: after_new_def plain_spec_def)
  then have "fxends F [XAfterNew k] ?s ?s" by (intro fxends_one) simp
  with r1 have "fxends F [XAttach k, XAfterNew k] s ?s" by (rule fxends_Cons)
  moreover have "live e ?s k sp t0 True" using assms(1) by (auto simp: live_def upd_anim_def)
  ultimately show ?thesis using same_but_upd by blast
qed

lemma tweens_ok_new:
  assumes "plain_spec sp" shows "tweens_ok (map (make_tween e s) (as_props sp))"
proof -
  have "tw_easing (make_tween e s (p, v, es)) = (if es = [] then ''swing'' else es)" for p v es
    by (simp add: make_tween_def tween_target_def tween_init_def Let_def)
  with assms show ?thesis by (fastforce simp: plain_spec_def tweens_ok_def)
qed

lemma create_plain:
  assumes "plain_spec sp" "\<not> finishing s e" "fx_now s = (c, s1)" "k = next_anim s"
  shows "\<exists>s'. fxends F [XAnimation e sp] s s' \<and> live e s' k sp (int c) True
     \<and> (\<forall>j. j \<noteq> k \<longrightarrow> anims s' j = anims s j)
     \<and> core s' = (timers s @ [k], timerId s', queues s, Suc k, completed s, finishing s, clock s, fxNow s1)
     \<and> (case timerId s of None \<Rightarrow> timerId s' \<noteq> None | Some i \<Rightarrow> timerId s' = Some i)"
proof -
  have s1: "anims s1 = anims s" "timers s1 = timers s" "timerId s1 = timerId s" "queues s1 = queues s"
      "completed s1 = completed s" "finishing s1 = finishing s" "clock s1 = clock s" "next_anim s1 = k" "pvals s1 = pvals s"
    using fx_now_simps [of s] assms(3,4) by simp_all
  define a where "a = \<lparr>an_elem = e, an_spec = sp, an_startTime = int c, an_tweens = map (make_tween e s1) (as_props sp),
      an_stopped = False, an_state = Pending, an_notified = False, an_attached = False, tick_elem = None\<rparr>"
  define s2 where "s2 = s1\<lparr>next_anim := Suc k, anims := (anims s1)(k := Some a)\<rparr>"
  define s3 where "s3 = (upd_anim k (\<lambda>a. a\<lparr>tick_elem := Some (an_elem a)\<rparr>) s2)\<lparr>timers := timers s2 @ [k]\<rparr>"
  have n: "fxstep F (XAnimation e sp) s = Some ([XTimer k, XAttach k, XAfterNew k], s2)"
    using assms s1 by (simp add: new_animation_def s2_def a_def plain_spec_def run_acts_def Let_def)
  have t: "fxstep F (XTimer k) s2 = Some ([XCall k, XTimerRet], s3)" by (simp add: fx_timer_def s3_def)
  have l3: "live e s3 k sp (int c) False"
    using tweens_ok_new [OF assms(1), of e s1] by (simp add: live_def s3_def s2_def upd_anim_def a_def)
  have "fxNow s3 = fxNow s1" "clock s3 = clock s1" by (simp_all add: s3_def s2_def upd_anim_def)
  then have now: "fx_now s3 = (c, s3)" by (rule fx_now_again [OF assms(3)])
  from tick_early [OF l3 assms(1) now] assms(1) obtain s4 where
    s4: "fxends F [XCall k] s3 s4" "ret s4" "same_but k s3 s4" "live e s4 k sp (int c) False"
    by (auto simp: plain_spec_def)
  have r4: "fxends F [XTimer k] s2 (fx_start s4)"
    by (rule fxends_step [OF t], simp, rule fxends_Cons [OF s4(1)], rule fxends_one) (simp add: timer_ret_def s4(2))
  have st: "anims (fx_start s4) = anims s4" "finishing (fx_start s4) = finishing s4"
      "core (fx_start s4) = (timers s4, timerId (fx_start s4), queues s4, next_anim s4, completed s4, finishing s4, clock s4, fxNow s4)"
    by (simp_all add: fx_start_def core_def)
  have c4: "core s4 = (timers s @ [k], timerId s, queues s, Suc k, completed s, finishing s, clock s, fxNow s1)"
    using s4(3) s1 by (simp add: same_but_def core_def s3_def s2_def upd_anim_def)
  have "live e (fx_start s4) k sp (int c) False" "\<not> finishing (fx_start s4) e"
    using s4(4) st c4 assms(2) by (simp_all add: live_def core_def)
  from attach_plain [OF this(1) assms(1) this(2)] obtain s5 where
    s5: "fxends F [XAttach k, XAfterNew k] (fx_start s4) s5" "same_but k (fx_start s4) s5" "live e s5 k sp (int c) True" by blast
  have "fxends F [XAnimation e sp] s s5"
    using fxends_Cons [OF r4 s5(1)] by (intro fxends_step [OF n]) simp
  moreover have "anims s5 j = anims s j" if "j \<noteq> k" for j
    using that s5(2) st(1) s4(3) s1(1) by (simp add: same_but_def s3_def s2_def upd_anim_def)
  moreover have "core s5 = (timers s @ [k], timerId s5, queues s, Suc k, completed s, finishing s, clock s, fxNow s1)"
    using s5(2) st(3) c4 by (simp add: same_but_def core_def)
  moreover have "case timerId s of None \<Rightarrow> timerId s5 \<noteq> None | Some i \<Rightarrow> timerId s5 = Some i"
    using s5(2) c4 by (auto simp: same_but_def core_def fx_start_def split: option.split if_splits)
  ultimately show ?thesis using s5(3) by (intro exI [of _ s5]) simp
qed

section \<open>The queue\<close>

lemma fx_norm [simp]: "norm_type ''fx'' = ''fx''"
  by (simp add: norm_type_def)

lemma dequeue_one:
  assumes "cells_inv q" "waiting_fns e ''fx'' q = QFn f # w"
  shows "\<exists>q'. qstep (\<lambda>_. []) (TDequeue e ''fx'') q = Some ([], q') \<and> cells_inv q'
     \<and> cells q' e ''fxqueue'' = CQueue (InProgress # w) \<and> started q' = started q @ [(e, ''fx'', f)]"
proof -
  obtain h q1 where hk: "queueHooks e (norm_type ''fx'') q = (h, q1)" by (cases "queueHooks e (norm_type ''fx'') q")
  note sp = queueHooks_spec [OF assms(1) hk]
  obtain q0 where "cells q e ''fxqueue'' = CQueue q0"
    using assms(2) by (auto simp: waiting_fns_def queue_entries_def split: qcell.splits)
  then have c: "cells q1 e ''fxqueue'' = CQueue q0" using sp by simp
  let ?q = "delete_stop h (store_queue e ''fx'' (InProgress # w) q1)\<lparr>started := started q @ [(e, ''fx'', f)]\<rparr>"
  have s: "qstep (\<lambda>_. []) (TDequeue e ''fx'') q = Some ([], ?q)"
    using assms(2) by (simp add: qstep_def jq_dequeue_unfold [OF assms(1) hk])
  then have "cells_inv ?q" using qstep_inv [OF assms(1)] by (metis option.inject prod.inject)
  with s c show ?thesis by (intro exI [of _ ?q]) (simp add: store_queue_def)
qed

lemma dequeue_none:
  assumes "cells_inv q" "waiting_fns e ''fx'' q = []"
  shows "\<exists>h q1 q2. qstep (\<lambda>_. []) (TDequeue e ''fx'') q = Some ([TEmpty h], q1) \<and> qstep (\<lambda>_. []) (TEmpty h) q1 = Some ([], q2)
     \<and> started q1 = started q \<and> started q2 = started q \<and> cells_inv q2 \<and> cells q2 e ''fxqueue'' = CUndef"
proof -
  obtain h q1 where hk: "queueHooks e (norm_type ''fx'') q = (h, q1)" by (cases "queueHooks e (norm_type ''fx'') q")
  note sp = queueHooks_spec [OF assms(1) hk]
  let ?q1 = "store_queue e ''fx'' [] q1"
  have s1: "qstep (\<lambda>_. []) (TDequeue e ''fx'') q = Some ([TEmpty h], ?q1)"
    using assms(2) by (simp add: qstep_def jq_dequeue_unfold [OF assms(1) hk])
  have s2: "qstep (\<lambda>_. []) (TEmpty h) ?q1 = Some ([], fire_empty h ?q1)" by (simp add: qstep_def)
  obtain q2 where q2: "qends (\<lambda>_. []) [TDequeue e ''fx''] q q2" "started q2 = started q" "cells q2 e ''fxqueue'' = CUndef"
    using dequeue_empties [OF assms, of "\<lambda>_. []"] by auto
  have run: "qends (\<lambda>_. []) [TDequeue e ''fx''] q (fire_empty h ?q1)"
  proof -
    have "qends (\<lambda>_. []) [TEmpty h] ?q1 (fire_empty h ?q1)" by (rule qends_step [OF s2]) simp
    then show ?thesis by (intro qends_step [OF s1]) simp
  qed
  then have "fire_empty h ?q1 = q2"
  proof -
    obtain n m where "qrun n (\<lambda>_. []) [TDequeue e ''fx''] q = Fin (fire_empty h ?q1)"
        "qrun m (\<lambda>_. []) [TDequeue e ''fx''] q = Fin q2"
      using run q2(1) by (auto simp: qends_def)
    from qrun_mono [OF this(1), of m] qrun_mono [OF this(2), of n] show ?thesis by (simp add: add.commute)
  qed
  moreover have "cells_inv q2" using qends_inv [OF q2(1) assms(1)] .
  ultimately show ?thesis using s1 s2 q2 sp by (intro exI [of _ h] exI [of _ ?q1] exI [of _ q2]) simp
qed

text \<open>Pushing a function behind the sentinel, and on an element without a queue.\<close>

lemma push_busy:
  assumes "cells_inv q" "cells q e ''fxqueue'' = CQueue (InProgress # w)"
  shows "\<exists>q'. qstep (\<lambda>_. []) (TQueueOn e ''fx'' (Push f)) q = Some ([], q') \<and> cells_inv q'
     \<and> cells q' e ''fxqueue'' = CQueue (InProgress # w @ [QFn f]) \<and> started q' = started q"
proof -
  define q1 where "q1 = jq_queue e ''fx'' (Push f) q"
  have i1: "cells_inv q1" unfolding q1_def by (rule cells_inv_jq_queue [OF assms(1)])
  obtain h q2 where hk: "queueHooks e ''fx'' q1 = (h, q2)" by (cases "queueHooks e ''fx'' q1")
  note sp = queueHooks_spec [OF i1 hk]
  have c: "cells q2 e ''fxqueue'' = CQueue (InProgress # w @ [QFn f])" "started q2 = started q"
    using sp assms(2) by (simp_all add: q1_def jq_queue_def queue_entries_def)
  moreover from this have "qstep (\<lambda>_. []) (TQueueOn e ''fx'' (Push f)) q = Some ([], q2)"
    by (simp add: qstep_def fn_queue_one_def Let_def hk queue_entries_def flip: q1_def)
  ultimately show ?thesis using sp by blast
qed

lemma push_idle:
  assumes "cells_inv q" "cells q e ''fxqueue'' = CUndef"
  shows "\<exists>q'. qstep (\<lambda>_. []) (TQueueOn e ''fx'' (Push f)) q = Some ([TDequeue e ''fx''], q') \<and> cells_inv q'
     \<and> waiting_fns e ''fx'' q' = [QFn f] \<and> started q' = started q"
proof -
  define q1 where "q1 = jq_queue e ''fx'' (Push f) q"
  have i1: "cells_inv q1" unfolding q1_def by (rule cells_inv_jq_queue [OF assms(1)])
  obtain h q2 where hk: "queueHooks e ''fx'' q1 = (h, q2)" by (cases "queueHooks e ''fx'' q1")
  note sp = queueHooks_spec [OF i1 hk]
  have c: "cells q2 e ''fxqueue'' = CQueue [QFn f]" "started q2 = started q"
    using sp assms(2) by (simp_all add: q1_def jq_queue_def queue_entries_def)
  moreover from this have "qstep (\<lambda>_. []) (TQueueOn e ''fx'' (Push f)) q = Some ([TDequeue e ''fx''], q2)"
    by (simp add: qstep_def fn_queue_one_def Let_def hk queue_entries_def flip: q1_def)
  ultimately show ?thesis using sp by (auto simp: waiting_fns_def queue_entries_def)
qed

text \<open>The dequeue that complete calls: the next animation starts, or the queue ends.\<close>

lemma dequeue_starts_animation:
  assumes "cells_inv (queues s)" "waiting_fns e ''fx'' (queues s) = QFn f # w" "F f = DoAnimation sp" "plain_spec sp"
    "\<not> finishing s e" "fx_now s = (c, s1)" "k = next_anim s"
  shows "\<exists>s' q'. fxends F [XQ (TDequeue e ''fx'')] s s' \<and> live e s' k sp (int c) True
     \<and> (\<forall>j. j \<noteq> k \<longrightarrow> anims s' j = anims s j)
     \<and> core s' = (timers s @ [k], timerId s', q', Suc k, completed s, finishing s, clock s, fxNow s1)
     \<and> (case timerId s of None \<Rightarrow> timerId s' \<noteq> None | Some i \<Rightarrow> timerId s' = Some i)
     \<and> cells_inv q' \<and> cells q' e ''fxqueue'' = CQueue (InProgress # w)"
proof -
  from dequeue_one [OF assms(1,2)] obtain q' where q': "qstep (\<lambda>_. []) (TDequeue e ''fx'') (queues s) = Some ([], q')"
    "cells_inv q'" "cells q' e ''fxqueue'' = CQueue (InProgress # w)" "started q' = started (queues s) @ [(e, ''fx'', f)]" by blast
  define s2 where "s2 = s\<lparr>queues := q'\<rparr>"
  obtain h where "queue_step (TDequeue e ''fx'') s = Some ([XCallFn e ''fx'' f h], s2)"
    using q' by (simp add: queue_step_def s2_def)
  moreover have "call_fn F e ''fx'' f h s2 = ([XAnimation e sp], s2)" using assms(3) by (simp add: call_fn_def)
  ultimately have go: "fxends F [XQ (TDequeue e ''fx'')] s s'" if "fxends F [XAnimation e sp] s2 s'" for s'
    using that by (intro fxends_to [of F _ s "XCallFn e ''fx'' f h" s2] fxends_to [of F "XCallFn e ''fx'' f h" s2]) simp_all
  have "fx_now s2 = (c, s1\<lparr>queues := q'\<rparr>)"
    using assms(6) by (auto simp: s2_def fx_now_def createFxNow_def split: option.splits if_splits)
  from create_plain [OF assms(4) _ this, of e k F] assms(5,7) obtain s' where
    "fxends F [XAnimation e sp] s2 s'" "live e s' k sp (int c) True" "\<forall>j. j \<noteq> k \<longrightarrow> anims s' j = anims s2 j"
    "core s' = (timers s2 @ [k], timerId s', queues s2, Suc k, completed s2, finishing s2, clock s2, fxNow s1)"
    "case timerId s2 of None \<Rightarrow> timerId s' \<noteq> None | Some i \<Rightarrow> timerId s' = Some i" by (auto simp: s2_def)
  with go q' show ?thesis by (intro exI [of _ s'] exI [of _ q']) (simp add: s2_def)
qed

lemma dequeue_ends_queue:
  assumes "cells_inv (queues s)" "waiting_fns e ''fx'' (queues s) = []"
  shows "\<exists>q'. fxends F [XQ (TDequeue e ''fx'')] s (s\<lparr>queues := q'\<rparr>) \<and> cells_inv q' \<and> cells q' e ''fxqueue'' = CUndef"
proof -
  from dequeue_none [OF assms] obtain h q1 q2 where q: "qstep (\<lambda>_. []) (TDequeue e ''fx'') (queues s) = Some ([TEmpty h], q1)"
    "qstep (\<lambda>_. []) (TEmpty h) q1 = Some ([], q2)" "started q1 = started (queues s)" "started q2 = started (queues s)"
    "cells_inv q2" "cells q2 e ''fxqueue'' = CUndef" by blast
  have "fxends F [XQ (TDequeue e ''fx'')] s (s\<lparr>queues := q2\<rparr>)"
    using q by (intro fxends_then [of F _ s "XQ (TEmpty h)" "s\<lparr>queues := q1\<rparr>"]) (simp_all add: queue_step_def)
  with q show ?thesis by blast
qed

section \<open>Playing a queue\<close>

text \<open>
  \<open>p\<close> are the specifications of the animations made so far, the last of them running in \<open>playing\<close>
  while \<open>w\<close> wait; in \<open>resting\<close> all have completed.
\<close>

definition made :: "aspec list \<Rightarrow> fxstate \<Rightarrow> bool" where
  "made p s \<longleftrightarrow> next_anim s = length p \<and> (\<forall>j < length p. map_option an_spec (anims s j) = Some (p ! j))
     \<and> (\<forall>c. fxNow s = Some c \<longrightarrow> c \<le> clock s)"

definition playing :: "nat \<Rightarrow> nat list \<Rightarrow> aspec list \<Rightarrow> fxstate \<Rightarrow> bool" where
  "playing e w p s \<longleftrightarrow> made p s \<and> cells_inv (queues s) \<and> cells (queues s) e ''fxqueue'' = CQueue (InProgress # map QFn w)
     \<and> p \<noteq> [] \<and> timers s = [length p - 1] \<and> timerId s \<noteq> None \<and> \<not> finishing s e \<and> completed s = [0..<length p - 1]
     \<and> plain_spec (last p) \<and> (\<exists>t0. live e s (length p - 1) (last p) t0 True \<and> t0 \<le> int (clock s))"

definition resting :: "nat \<Rightarrow> aspec list \<Rightarrow> fxstate \<Rightarrow> bool" where
  "resting e p s \<longleftrightarrow> made p s \<and> cells_inv (queues s) \<and> cells (queues s) e ''fxqueue'' = CUndef
     \<and> timers s = [] \<and> timerId s = None \<and> \<not> finishing s e \<and> completed s = [0..<length p]"

lemma fx_now_le: "fx_now s = (c, s1) \<Longrightarrow> \<forall>d. fxNow s = Some d \<longrightarrow> d \<le> clock s \<Longrightarrow> c \<le> clock s \<and> fxNow s1 = Some c"
  by (auto simp: fx_now_def createFxNow_def split: option.splits if_splits)

lemma live_spec: "live e s k sp t0 ad \<Longrightarrow> map_option an_spec (anims s k) = Some sp"
  by (auto simp: live_def)

lemma made_snoc:
  assumes "made p s" "\<forall>j. j \<noteq> length p \<longrightarrow> anims s' j = anims s j" "live e s' (length p) sp t0 ad"
    "next_anim s' = Suc (length p)" "\<forall>c. fxNow s' = Some c \<longrightarrow> c \<le> clock s'"
  shows "made (p @ [sp]) s'"
  using assms live_spec [OF assms(3)] by (auto simp: made_def nth_append less_Suc_eq)

text \<open>The first call of animate starts at once, further ones wait.\<close>

lemma animate_tasks:
  assumes "F f = DoAnimation sp" "plain_spec sp" "fxends F [XQ (TQueueOn e ''fx'' (Push f))] s s'"
  shows "fxplays F [EvAct (AAnimate [e] f)] s s'"
proof -
  have "fxstep F (XAct (AAnimate [e] f)) s = Some ([XQ (TQueueOn e ''fx'' (Push f))], s)"
    using assms(1,2) by (simp add: act_step_def fn_animate_def fn_queue_def plain_spec_def)
  then have run: "fxends F [XAct (AAnimate [e] f)] s s'" using assms(3) by (rule fxends_to)
  have "event_tasks (EvAct (AAnimate [e] f)) s = ([XAct (AAnimate [e] f)], s)" by (simp add: event_tasks_def)
  then show ?thesis using run by (rule fxplays_Cons) simp
qed

lemma push_first:
  assumes "resting e p s" "F f = DoAnimation sp" "plain_spec sp"
  shows "\<exists>s'. fxplays F [EvAct (AAnimate [e] f)] s s' \<and> playing e [] (p @ [sp]) s'"
proof -
  from assms(1) have r: "made p s" "cells_inv (queues s)" "cells (queues s) e ''fxqueue'' = CUndef" "timers s = []"
    "timerId s = None" "\<not> finishing s e" "completed s = [0..<length p]" by (simp_all add: resting_def)
  from push_idle [OF r(2,3), of f] obtain q1 where q1: "qstep (\<lambda>_. []) (TQueueOn e ''fx'' (Push f)) (queues s) = Some ([TDequeue e ''fx''], q1)"
    "cells_inv q1" "waiting_fns e ''fx'' q1 = [QFn f]" "started q1 = started (queues s)" by blast
  define s1 where "s1 = s\<lparr>queues := q1\<rparr>"
  obtain c s2 where now: "fx_now s1 = (c, s2)" by (cases "fx_now s1")
  have b: "\<forall>d. fxNow s1 = Some d \<longrightarrow> d \<le> clock s1" using r(1) by (simp add: s1_def made_def)
  have n: "next_anim s1 = length p" using r(1) by (simp add: s1_def made_def)
  from dequeue_starts_animation [where F=F and s=s1 and w="[]" and f=f and e=e, OF _ _ assms(2,3) _ now n [symmetric]] q1 r(6)
  obtain s' q' where s': "fxends F [XQ (TDequeue e ''fx'')] s1 s'" "live e s' (length p) sp (int c) True"
     "\<forall>j. j \<noteq> length p \<longrightarrow> anims s' j = anims s1 j"
     "core s' = (timers s1 @ [length p], timerId s', q', Suc (length p), completed s1, finishing s1, clock s1, fxNow s2)"
     "case timerId s1 of None \<Rightarrow> timerId s' \<noteq> None | Some i \<Rightarrow> timerId s' = Some i"
     "cells_inv q'" "cells q' e ''fxqueue'' = CQueue [InProgress]" by (auto simp: s1_def)
  have "queue_step (TQueueOn e ''fx'' (Push f)) s = Some ([XQ (TDequeue e ''fx'')], s1)"
    using q1 by (simp add: queue_step_def s1_def)
  then have "fxends F [XQ (TQueueOn e ''fx'' (Push f))] s s'" by (intro fxends_to [OF _ s'(1)]) simp
  moreover have "made (p @ [sp]) s'"
    using s' r(1) fx_now_le [OF now b] by (intro made_snoc [of p s s' e sp "int c" True]) (auto simp: core_def s1_def)
  ultimately show ?thesis
    using s' r fx_now_le [OF now b] assms(3) animate_tasks [where F=F and f=f, OF assms(2,3)]
    by (intro exI [of _ s']) (auto simp: playing_def core_def s1_def)
qed

lemma push_more:
  assumes "playing e w p s" "F f = DoAnimation sp" "plain_spec sp"
  shows "\<exists>s'. fxplays F [EvAct (AAnimate [e] f)] s s' \<and> playing e (w @ [f]) p s'"
proof -
  have c: "cells_inv (queues s)" "cells (queues s) e ''fxqueue'' = CQueue (InProgress # map QFn w)"
    using assms(1) by (simp_all add: playing_def)
  from push_busy [OF c, of f] obtain q1 where q1: "qstep (\<lambda>_. []) (TQueueOn e ''fx'' (Push f)) (queues s) = Some ([], q1)"
    "cells_inv q1" "cells q1 e ''fxqueue'' = CQueue (InProgress # map QFn w @ [QFn f])" "started q1 = started (queues s)" by blast
  define s1 where "s1 = s\<lparr>queues := q1\<rparr>"
  have "fxends F [XQ (TQueueOn e ''fx'' (Push f))] s s1"
    using q1 by (intro fxends_one) (simp add: queue_step_def s1_def)
  moreover have "playing e (w @ [f]) p s1"
    using assms(1) q1 by (simp add: playing_def made_def live_def s1_def)
  ultimately show ?thesis using animate_tasks [where F=F and f=f, OF assms(2,3)] by blast
qed

text \<open>
  An interval event late enough for the running animation: its last tick, the dequeue, and the loop
  going on with what the list of timers holds then.
\<close>

lemma late_tick:
  assumes "playing e w p s" "as_duration (last p) \<le> int d"
  shows "\<exists>s3. (\<forall>s'. fxends F [XQ (TDequeue e ''fx''), XRet False, XLoopRet 0 (length p - 1)] s3 s'
        \<longrightarrow> fxplays F [EvAct (AElapse d), EvInterval] s s')
     \<and> core s3 = (timers s, timerId s, queues s, length p, [0..<length p], finishing s, clock s + d, Some (clock s + d))
     \<and> (\<forall>j. j \<noteq> length p - 1 \<longrightarrow> anims s3 j = anims s j) \<and> map_option an_spec (anims s3 (length p - 1)) = Some (last p)"
proof -
  let ?k = "length p - 1"
  obtain t0 where l: "live e s ?k (last p) t0 True" "t0 \<le> int (clock s)" using assms(1) by (auto simp: playing_def)
  have pl: "timers s = [?k]" "timerId s \<noteq> None" "plain_spec (last p)" "next_anim s = length p" "completed s = [0..<?k]"
    "p \<noteq> []" using assms(1) by (simp_all add: playing_def made_def)
  define s1 where "s1 = s\<lparr>clock := clock s + d\<rparr>"
  define s2 where "s2 = s1\<lparr>fxNow := Some (clock s1)\<rparr>"
  have now: "fx_now s2 = (clock s2, s2)" by (simp add: fx_now_def createFxNow_def s2_def)
  have l2: "live e s2 ?k (last p) t0 True" using l(1) by (simp add: live_def s2_def s1_def)
  from tick_last [where F=F, OF l2 pl(3) now] assms(2) l(2) obtain s3 where
    s3: "\<And>s'. fxends F [XQ (TDequeue e ''fx''), XRet False] s3 s' \<Longrightarrow> fxends F [XCall ?k] s2 s'"
     "core s3 = (case core s2 of (ti, i, q, n, c, r) \<Rightarrow> (ti, i, q, n, c @ [?k], r))"
     "\<forall>j. j \<noteq> ?k \<longrightarrow> anims s3 j = anims s2 j" "map_option an_spec (anims s3 ?k) = Some (last p)"
    by (auto simp: s2_def s1_def)
  have call: "fxends F [XCall ?k, XLoopRet 0 ?k] s2 s'"
    if go: "fxends F [XQ (TDequeue e ''fx''), XRet False, XLoopRet 0 ?k] s3 s'" for s'
  proof -
    obtain n where n: "fxrun n F ([XQ (TDequeue e ''fx''), XRet False] @ [XLoopRet 0 ?k]) s3 = XFin s'"
      using go by (auto simp: fxends_def)
    from fxrun_split [OF n] s3(1) show ?thesis using fxends_Cons by blast
  qed
  have c2: "timers s2 = [?k]" "timerId s1 = timerId s" using pl(1) by (simp_all add: s2_def s1_def)
  have "fxends F [XLoop 0] s2 s'" if "fxends F [XQ (TDequeue e ''fx''), XRet False, XLoopRet 0 ?k] s3 s'" for s'
    using call [OF that] c2 by (intro fxends_step [of F "XLoop 0" s2 "[XCall ?k, XLoopRet 0 ?k]" s2]) (simp_all add: loop_step_def)
  then have tick: "fxends F [XTick] s1 s'" if "fxends F [XQ (TDequeue e ''fx''), XRet False, XLoopRet 0 ?k] s3 s'" for s'
    using that by (intro fxends_to [of F XTick s1 "XLoop 0" s2]) (simp_all add: s2_def)
  have iv: "event_tasks EvInterval s1 = ([XTick], s1)" using pl(2) c2 by (simp add: event_tasks_def)
  have el: "event_tasks (EvAct (AElapse d)) s = ([XAct (AElapse d)], s)" by (simp add: event_tasks_def)
  have ela: "fxends F [XAct (AElapse d)] s s1" by (rule fxends_one) (simp add: act_step_def s1_def)
  have "fxplays F [EvAct (AElapse d), EvInterval] s s'"
    if "fxends F [XQ (TDequeue e ''fx''), XRet False, XLoopRet 0 ?k] s3 s'" for s'
    by (rule fxplays_Cons [OF el ela], rule fxplays_Cons [OF iv tick [OF that]]) simp
  moreover have "core s3 = (timers s, timerId s, queues s, length p, [0..<length p], finishing s, clock s + d, Some (clock s + d))"
    using s3(2) pl by (cases p) (simp_all add: core_def s2_def s1_def upt_conv_Cons [symmetric] del: upt_conv_Cons)
  ultimately show ?thesis using s3(3,4) by (intro exI [of _ s3]) (simp add: s2_def s1_def)
qed

lemma fxends_ret: "fxends F [XRet b] s (s\<lparr>ret := b\<rparr>)"
  by (rule fxends_one) simp

lemma fx_now_self: "fxNow s = Some (clock s) \<Longrightarrow> fx_now s = (clock s, s)"
  by (simp add: fx_now_def createFxNow_def)

lemma next_plays:
  assumes "playing e (f # w) p s" "F f = DoAnimation sp" "plain_spec sp" "as_duration (last p) \<le> int d"
  shows "\<exists>s'. fxplays F [EvAct (AElapse d), EvInterval] s s' \<and> playing e w (p @ [sp]) s'"
proof -
  let ?k = "length p - 1" and ?n = "length p"
  from late_tick [where F=F, OF assms(1,4)] obtain s3 where
    go: "\<And>s'. fxends F [XQ (TDequeue e ''fx''), XRet False, XLoopRet 0 ?k] s3 s' \<Longrightarrow> fxplays F [EvAct (AElapse d), EvInterval] s s'"
    and c3: "core s3 = (timers s, timerId s, queues s, ?n, [0..<?n], finishing s, clock s + d, Some (clock s + d))"
    and a3: "\<forall>j. j \<noteq> ?k \<longrightarrow> anims s3 j = anims s j" "map_option an_spec (anims s3 ?k) = Some (last p)" by blast
  have pl: "cells_inv (queues s)" "cells (queues s) e ''fxqueue'' = CQueue (InProgress # QFn f # map QFn w)"
    "timers s = [?k]" "timerId s \<noteq> None" "\<not> finishing s e" "p \<noteq> []" "made p s"
    using assms(1) by (simp_all add: playing_def)
  have "waiting_fns e ''fx'' (queues s3) = QFn f # map QFn w"
    using c3 pl(2) by (simp add: core_def waiting_fns_def queue_entries_def)
  moreover have "cells_inv (queues s3)" "\<not> finishing s3 e" "?n = next_anim s3" "fx_now s3 = (clock s3, s3)"
    using c3 pl by (simp_all add: core_def fx_now_self)
  ultimately obtain s4 q' where s4: "fxends F [XQ (TDequeue e ''fx'')] s3 s4" "live e s4 ?n sp (int (clock s3)) True"
     "\<forall>j. j \<noteq> ?n \<longrightarrow> anims s4 j = anims s3 j"
     "core s4 = (timers s3 @ [?n], timerId s4, q', Suc ?n, completed s3, finishing s3, clock s3, fxNow s3)"
     "case timerId s3 of None \<Rightarrow> timerId s4 \<noteq> None | Some i \<Rightarrow> timerId s4 = Some i"
     "cells_inv q'" "cells q' e ''fxqueue'' = CQueue (InProgress # map QFn w)"
    using dequeue_starts_animation [where F=F, OF _ _ assms(2,3)] by blast
  define s6 where "s6 = s4\<lparr>ret := False, timers := [?n]\<rparr>"
  have "timers s4 = [?k, ?n]" using s4(4) c3 pl(3) by (simp add: core_def)
  then have r6: "fxstep F (XLoopRet 0 ?k) (s4\<lparr>ret := False\<rparr>) = Some ([XLoop 0], s6)"
    by (simp add: loop_ret_def splice1_def s6_def)
  have l6: "live e s6 ?n sp (int (clock s3)) True" using s4(2) by (simp add: live_def s6_def)
  have now6: "fx_now s6 = (clock s3, s6)"
    using s4(4) c3 fx_now_self [of s6] by (simp add: core_def s6_def)
  have "0 < as_duration sp" using assms(3) by (simp add: plain_spec_def)
  with tick_early [where F=F, OF l6 assms(3) now6] obtain s7 where
    s7: "fxends F [XCall ?n] s6 s7" "ret s7" "same_but ?n s6 s7" "live e s7 ?n sp (int (clock s3)) True" by auto
  have t7: "timers s7 = [?n]" using s7(3) by (simp add: same_but_def core_def s6_def)
  define s8 where "s8 = s7\<lparr>fxNow := None\<rparr>"
  have "fxends F [XLoop 1] s7 s8"
    using t7 by (intro fxends_then [of F _ s7 XTickDone s7]) (simp_all add: loop_step_def tick_done_def s8_def)
  moreover have "fxstep F (XLoopRet 0 ?n) s7 = Some ([XLoop 1], s7)" using s7(2) by (simp add: loop_ret_def)
  ultimately have "fxends F [XLoopRet 0 ?n] s7 s8" by (rule fxends_to [rotated])
  from fxends_Cons [OF s7(1) this] have "fxends F [XLoop 0] s6 s8"
    by (intro fxends_step [of F _ s6 "[XCall ?n, XLoopRet 0 ?n]" s6]) (simp_all add: loop_step_def s6_def)
  from fxends_Cons [OF fxends_ret fxends_to [OF r6 this]] have "fxends F [XRet False, XLoopRet 0 ?k] s4 s8" .
  from go [OF fxends_Cons [OF s4(1) this]] have run: "fxplays F [EvAct (AElapse d), EvInterval] s s8" .
  have c8: "core s8 = ([?n], timerId s4, q', Suc ?n, [0..<?n], finishing s, clock s + d, None)"
    using s7(3) s4(4) c3 by (simp add: same_but_def core_def s8_def s6_def)
  have l8: "live e s8 ?n sp (int (clock s3)) True" using s7(4) by (simp add: live_def s8_def)
  have a8: "anims s8 j = anims s3 j" if "j \<noteq> ?n" for j
    using that s7(3) s4(3) by (simp add: same_but_def s8_def s6_def)
  have "made (p @ [sp]) s8"
  proof -
    have "map_option an_spec (anims s8 j) = Some (p ! j)" if j: "j < ?n" for j
    proof -
      have "anims s8 j = anims s3 j" using j a8 by simp
      with j a3 pl(6,7) show ?thesis by (cases "j = ?k") (auto simp: made_def last_conv_nth)
    qed
    moreover have "map_option an_spec (anims s8 ?n) = Some sp" using l8 by (rule live_spec)
    ultimately show ?thesis using c8 by (auto simp: made_def core_def nth_append less_Suc_eq)
  qed
  moreover have "timerId s8 \<noteq> None" using c8 s4(5) c3 pl(4) by (auto simp: core_def)
  moreover have "int (clock s3) \<le> int (clock s8)" using c8 c3 by (simp add: core_def)
  ultimately have "playing e w (p @ [sp]) s8"
    using c8 l8 s4(6,7) pl(5) assms(3) by (auto simp: playing_def core_def)
  with run show ?thesis by blast
qed

lemma last_plays:
  assumes "playing e [] p s" "as_duration (last p) \<le> int d"
  shows "\<exists>s'. fxplays F [EvAct (AElapse d), EvInterval] s s' \<and> resting e p s'"
proof -
  let ?k = "length p - 1" and ?n = "length p"
  from late_tick [where F=F, OF assms] obtain s3 where
    go: "\<And>s'. fxends F [XQ (TDequeue e ''fx''), XRet False, XLoopRet 0 ?k] s3 s' \<Longrightarrow> fxplays F [EvAct (AElapse d), EvInterval] s s'"
    and c3: "core s3 = (timers s, timerId s, queues s, ?n, [0..<?n], finishing s, clock s + d, Some (clock s + d))"
    and a3: "\<forall>j. j \<noteq> ?k \<longrightarrow> anims s3 j = anims s j" "map_option an_spec (anims s3 ?k) = Some (last p)" by blast
  have pl: "cells_inv (queues s)" "cells (queues s) e ''fxqueue'' = CQueue [InProgress]"
    "timers s = [?k]" "\<not> finishing s e" "p \<noteq> []" "made p s"
    using assms(1) by (simp_all add: playing_def)
  have "cells_inv (queues s3)" "waiting_fns e ''fx'' (queues s3) = []"
    using c3 pl(1,2) by (simp_all add: core_def waiting_fns_def queue_entries_def)
  from dequeue_ends_queue [OF this, of F] obtain q' where
    q': "fxends F [XQ (TDequeue e ''fx'')] s3 (s3\<lparr>queues := q'\<rparr>)" "cells_inv q'" "cells q' e ''fxqueue'' = CUndef" by blast
  define s4 where "s4 = s3\<lparr>queues := q'\<rparr>"
  define s6 where "s6 = s4\<lparr>ret := False, timers := []\<rparr>"
  have "timers s4 = [?k]" using c3 pl(3) by (simp add: core_def s4_def)
  then have r6: "fxstep F (XLoopRet 0 ?k) (s4\<lparr>ret := False\<rparr>) = Some ([XLoop 0], s6)"
    by (simp add: loop_ret_def splice1_def s6_def)
  have "fxends F [XLoop 0] s6 (tick_done s6)"
    by (intro fxends_then [of F _ s6 XTickDone s6]) (simp_all add: loop_step_def s6_def)
  from fxends_Cons [OF fxends_ret fxends_to [OF r6 this]]
  have "fxends F [XRet False, XLoopRet 0 ?k] s4 (tick_done s6)" .
  from go [OF fxends_Cons [OF q'(1) [folded s4_def] this]]
  have run: "fxplays F [EvAct (AElapse d), EvInterval] s (tick_done s6)" .
  have c8: "core (tick_done s6) = ([], None, q', ?n, [0..<?n], finishing s, clock s + d, None)"
    using c3 by (simp add: core_def tick_done_def fx_stop_def s6_def s4_def)
  have "map_option an_spec (anims (tick_done s6) j) = Some (p ! j)" if "j < ?n" for j
    using that a3 pl(5,6)
    by (cases "j = ?k") (auto simp: made_def last_conv_nth tick_done_def fx_stop_def s6_def s4_def)
  then have "resting e p (tick_done s6)" using c8 q'(2,3) pl(4) by (auto simp: resting_def made_def core_def)
  with run show ?thesis by blast
qed

definition spec_of :: "(nat \<Rightarrow> qfun) \<Rightarrow> nat \<Rightarrow> aspec" where
  "spec_of F f = (case F f of DoAnimation sp \<Rightarrow> sp | Delay _ \<Rightarrow> undefined)"

definition plain_fn :: "(nat \<Rightarrow> qfun) \<Rightarrow> nat \<Rightarrow> nat \<Rightarrow> bool" where
  "plain_fn F d f \<longleftrightarrow> (case F f of DoAnimation sp \<Rightarrow> plain_spec sp \<and> as_duration sp \<le> int d | Delay _ \<Rightarrow> False)"

lemma plain_fnD: "plain_fn F d f \<Longrightarrow> F f = DoAnimation (spec_of F f) \<and> plain_spec (spec_of F f) \<and> as_duration (spec_of F f) \<le> int d"
  by (auto simp: plain_fn_def spec_of_def split: qfun.splits)

lemma push_all:
  assumes "playing e w p s" "\<forall>f\<in>set fs. plain_fn F d f"
  shows "\<exists>s'. fxplays F (map (\<lambda>f. EvAct (AAnimate [e] f)) fs) s s' \<and> playing e (w @ fs) p s'"
  using assms
proof (induction fs arbitrary: w s)
  case Nil
  then show ?case by auto
next
  case (Cons f fs)
  then obtain s1 where s1: "fxplays F [EvAct (AAnimate [e] f)] s s1" "playing e (w @ [f]) p s1"
    using push_more [of e w p s F f] plain_fnD [of F d f] by auto
  with Cons obtain s2 where "fxplays F (map (\<lambda>f. EvAct (AAnimate [e] f)) fs) s1 s2" "playing e ((w @ [f]) @ fs) p s2"
    by (metis list.set_intros(2))
  with fxplays_append [OF s1(1)] show ?case by auto
qed

lemma play_all:
  assumes "playing e w p s" "as_duration (last p) \<le> int d" "\<forall>f\<in>set w. plain_fn F d f"
  shows "\<exists>s'. fxplays F (concat (replicate (Suc (length w)) [EvAct (AElapse d), EvInterval])) s s'
     \<and> resting e (p @ map (spec_of F) w) s'"
  using assms
proof (induction w arbitrary: p s)
  case Nil
  then show ?case using last_plays [of e p s d F] by auto
next
  case (Cons f w)
  then have f: "F f = DoAnimation (spec_of F f)" "plain_spec (spec_of F f)" "as_duration (spec_of F f) \<le> int d"
    using plain_fnD [of F d f] by auto
  from next_plays [where F=F, OF Cons.prems(1) f(1,2) Cons.prems(2)] obtain s1 where
    s1: "fxplays F [EvAct (AElapse d), EvInterval] s s1" "playing e w (p @ [spec_of F f]) s1" by blast
  from Cons.IH [OF s1(2)] f(3) Cons.prems(3) obtain s2 where
    "fxplays F (concat (replicate (Suc (length w)) [EvAct (AElapse d), EvInterval])) s1 s2"
    "resting e ((p @ [spec_of F f]) @ map (spec_of F) w) s2" by auto
  with fxplays_append [OF s1(1)] show ?case by auto
qed

section \<open>Properties\<close>

text \<open>
  C11: Animations queued on one element by calls of animate play one after the other in the order of the
  calls: when the interval fires once after each duration, every one of them completes, in order, and in
  the end the queue is gone, no timer is left and the interval is cleared.
\<close>

theorem queued_animations_play_in_order:
  assumes "\<forall>f\<in>set fs. plain_fn F d f"
  shows "\<exists>n s. fx_session n F (map (\<lambda>f. EvAct (AAnimate [e] f)) fs
           @ concat (replicate (length fs) [EvAct (AElapse d), EvInterval])) (fxinit t vals) = XFin s
     \<and> completed s = [0..<length fs]
     \<and> (\<forall>i<length fs. map_option an_spec (anims s i) = Some (spec_of F (fs ! i)))
     \<and> queue_entries e ''fx'' (queues s) = [] \<and> timers s = [] \<and> timerId s = None"
proof -
  have i: "resting e [] (fxinit t vals)"
    using qinit_inv by (simp add: resting_def made_def fxinit_def) (simp add: qinit_def)
  obtain s where s: "fxplays F (map (\<lambda>f. EvAct (AAnimate [e] f)) fs
           @ concat (replicate (length fs) [EvAct (AElapse d), EvInterval])) (fxinit t vals) s"
      "resting e (map (spec_of F) fs) s"
  proof (cases fs)
    case Nil
    with i that show thesis by simp
  next
    case (Cons f fs')
    then have f: "F f = DoAnimation (spec_of F f)" "plain_spec (spec_of F f)" "as_duration (spec_of F f) \<le> int d"
      using assms plain_fnD [of F d f] by auto
    from push_first [where F=F, OF i f(1,2)] obtain s1 where
      s1: "fxplays F [EvAct (AAnimate [e] f)] (fxinit t vals) s1" "playing e [] [spec_of F f] s1" by auto
    from push_all [OF s1(2), of fs' F d] assms Cons obtain s2 where
      s2: "fxplays F (map (\<lambda>f. EvAct (AAnimate [e] f)) fs') s1 s2" "playing e fs' [spec_of F f] s2" by auto
    from play_all [OF s2(2), of d F] f(3) assms Cons obtain s3 where
      "fxplays F (concat (replicate (length fs) [EvAct (AElapse d), EvInterval])) s2 s3"
      "resting e (map (spec_of F) fs) s3" by auto
    with fxplays_append [OF s1(1) fxplays_append [OF s2(1)]] Cons that show thesis by auto
  qed
  from s(1) obtain n where "fx_session n F (map (\<lambda>f. EvAct (AAnimate [e] f)) fs
           @ concat (replicate (length fs) [EvAct (AElapse d), EvInterval])) (fxinit t vals) = XFin s"
    by (metis fxplays_def)
  with s(2) show ?thesis
    by (intro exI [of _ n] exI [of _ s]) (auto simp: resting_def made_def queue_entries_def)
qed

theorem queued_animations_play_in_order_witness:
  "\<exists>n s F. F = (\<lambda>f. DoAnimation \<lparr>as_props = [(''left'', To (real f), ''linear'')], as_duration = 100 * int f + 100,
        as_queue = QName ''fx'', as_start = [], as_step = [], as_progress = [], as_done = [], as_complete = [],
        as_fail = [], as_always = []\<rparr>)
     \<and> fx_session n F [EvAct (AAnimate [7] 2), EvAct (AAnimate [7] 1), EvAct (AElapse 300), EvInterval,
        EvAct (AElapse 300), EvInterval] (fxinit 0 (\<lambda>_ _. 0)) = XFin s
     \<and> completed s = [0, 1] \<and> map_option (\<lambda>a. as_duration (an_spec a)) (anims s 1) = Some 200"
proof -
  let ?F = "\<lambda>f. DoAnimation \<lparr>as_props = [(''left'', To (real f), ''linear'')], as_duration = 100 * int f + 100,
        as_queue = QName ''fx'', as_start = [], as_step = [], as_progress = [], as_done = [], as_complete = [],
        as_fail = [], as_always = []\<rparr>"
  have h: "\<forall>f\<in>set [2, 1]. plain_fn ?F 300 f"
    by (simp add: plain_fn_def plain_spec_def jq_easing_def)
  from queued_animations_play_in_order [OF this, of 7 0 "\<lambda>_ _. 0"] obtain n s where
    s: "fx_session n ?F [EvAct (AAnimate [7] 2), EvAct (AAnimate [7] 1), EvAct (AElapse 300), EvInterval,
        EvAct (AElapse 300), EvInterval] (fxinit 0 (\<lambda>_ _. 0)) = XFin s"
      "completed s = [0..<2]" "\<forall>i<2. map_option an_spec (anims s i) = Some (spec_of ?F ([2, 1] ! i))"
    by (auto simp: numeral_2_eq_2)
  have "map_option an_spec (anims s 1) = Some (spec_of ?F 1)" using spec [OF s(3), of 1] by simp
  then have "map_option (\<lambda>a. as_duration (an_spec a)) (anims s 1) = Some 200" by (auto simp: spec_of_def)
  moreover have "completed s = [0, 1]" using s(2) by (simp add: upt_rec)
  ultimately show ?thesis using s(1) by (intro exI [of _ n] exI [of _ s] exI [of _ ?F]) simp
qed

end
