(* ===== verification/Selector_Match.thy ===== *)
theory Selector_Match
  imports Js_Prelude
begin

text \<open>
  The matchers of the selector engine Sizzle in jquery.js: matcherFromTokens turns the tokens of a
  selector into a tree of matcher functions, addCombinator searches ancestors and preceding siblings
  with a cache in the nodes, and superMatcher runs the matchers over candidate elements. The closures
  are a datatype and the cache is a state: a slot per node and direction that points to a shared array
  (a cell), stamped with the run and the number of the combinator. Simple filters are predicates here;
  positional pseudos, which filter sets, are not modelled.
\<close>

section \<open>The document\<close>

datatype dir = ParentNode | PreviousSibling

datatype combinator = Child | Descendant | Adjacent | Sibling

text \<open>Expr.relative.\<close>

fun comb_dir :: "combinator \<Rightarrow> dir" where
  "comb_dir Child = ParentNode"
| "comb_dir Descendant = ParentNode"
| "comb_dir Adjacent = PreviousSibling"
| "comb_dir Sibling = PreviousSibling"

fun comb_first :: "combinator \<Rightarrow> bool" where
  "comb_first Child = True"
| "comb_first Adjacent = True"
| "comb_first _ = False"

text \<open>
  A document tree by its two links, with a number of nodes that bounds every walk along a link.
\<close>

record dom =
  link :: "dir \<Rightarrow> nat \<Rightarrow> nat option"
  is_elem :: "nat \<Rightarrow> bool"
  dsize :: nat

fun walk :: "nat \<Rightarrow> (nat \<Rightarrow> nat option) \<Rightarrow> nat \<Rightarrow> nat list" where
  "walk 0 f e = []"
| "walk (Suc n) f e = (case f e of None \<Rightarrow> [] | Some x \<Rightarrow> x # walk n f x)"

definition dom_wf :: "dom \<Rightarrow> bool" where
  "dom_wf D \<longleftrightarrow> (\<forall>d e. length (walk (dsize D) (link D d) e) < dsize D)"

text \<open>The nodes that \<open>while ((elem = elem[dir]))\<close> visits and tests.\<close>

definition visited :: "dom \<Rightarrow> dir \<Rightarrow> bool \<Rightarrow> nat \<Rightarrow> nat list" where
  "visited D d base e = filter (\<lambda>x. is_elem D x \<or> (base \<and> d = ParentNode)) (walk (dsize D) (link D d) e)"

section \<open>Matchers\<close>

datatype mat =
    MFilt "nat \<Rightarrow> bool"
  | MIsContext
  | MRoot bool mat                   \<comment> \<open>whether there is a leading combinator, and matchContext\<close>
  | MComb nat combinator bool mat    \<comment> \<open>doneName, combinator, base, matcher\<close>
  | MAll "mat list"

text \<open>
  The arguments of a run: the context nodes, whether they differ from the outermost context, and xml.
\<close>

record env =
  contexts :: "nat list"
  not_outermost :: bool
  xml :: bool

record mstate =
  dirruns :: nat
  slot :: "nat \<Rightarrow> dir \<Rightarrow> (nat \<times> nat \<times> nat) option"    \<comment> \<open>run, doneName, cell\<close>
  cellv :: "nat \<Rightarrow> bool"                              \<comment> \<open>the third component of a shared array\<close>
  next_cell :: nat

definition set_slot :: "nat \<Rightarrow> dir \<Rightarrow> nat \<times> nat \<times> nat \<Rightarrow> mstate \<Rightarrow> mstate" where
  "set_slot x d v s = s\<lparr>slot := (slot s)(x := (slot s x)(d := Some v))\<rparr>"

definition set_cell :: "nat \<Rightarrow> bool \<Rightarrow> mstate \<Rightarrow> mstate" where
  "set_cell c b s = s\<lparr>cellv := (cellv s)(c := b)\<rparr>"

text \<open>The three searches of addCombinator; \<open>f\<close> is the matcher.\<close>

fun closest_match :: "(nat \<Rightarrow> mstate \<Rightarrow> bool \<times> mstate) \<Rightarrow> nat list \<Rightarrow> mstate \<Rightarrow> bool \<times> mstate" where
  "closest_match f [] s = (False, s)"
| "closest_match f (x # xs) s = f x s"

fun search_xml :: "(nat \<Rightarrow> mstate \<Rightarrow> bool \<times> mstate) \<Rightarrow> nat list \<Rightarrow> mstate \<Rightarrow> bool \<times> mstate" where
  "search_xml f [] s = (False, s)"
| "search_xml f (x # xs) s = (case f x s of (b, s') \<Rightarrow> if b then (True, s') else search_xml f xs s')"

fun search_cached :: "nat \<Rightarrow> nat \<Rightarrow> dir \<Rightarrow> nat \<Rightarrow> (nat \<Rightarrow> mstate \<Rightarrow> bool \<times> mstate) \<Rightarrow> nat list \<Rightarrow> mstate \<Rightarrow> bool \<times> mstate" where
  "search_cached r dn d c f [] s = (False, s)"
| "search_cached r dn d c f (x # xs) s =
     (case (case slot s x d of Some (r', dn', c') \<Rightarrow> if r' = dirruns s \<and> dn' = dn then Some c' else None | None \<Rightarrow> None) of
        Some c' \<Rightarrow> (cellv s c', set_cell c (cellv s c') s)
      | None \<Rightarrow>
          (case f x (set_slot x d (r, dn, c) s) of
             (b, s') \<Rightarrow> if b then (True, set_cell c b s') else search_cached r dn d c f xs (set_cell c b s')))"

text \<open>\<open>newCache = [dirruns, doneName]\<close> is a new cell; its third component is first undefined, which is false.\<close>

definition new_cache :: "mstate \<Rightarrow> nat \<times> mstate" where
  "new_cache s = (next_cell s, (set_cell (next_cell s) False s)\<lparr>next_cell := Suc (next_cell s)\<rparr>)"

definition comb_run :: "dom \<Rightarrow> env \<Rightarrow> nat \<Rightarrow> combinator \<Rightarrow> bool \<Rightarrow> (nat \<Rightarrow> mstate \<Rightarrow> bool \<times> mstate) \<Rightarrow> nat \<Rightarrow> mstate
    \<Rightarrow> bool \<times> mstate" where
  "comb_run D E dn c base f elem s =
     (let xs = visited D (comb_dir c) base elem in
      if comb_first c then closest_match f xs s
      else (case new_cache s of (cell, s') \<Rightarrow>
        if xml E then search_xml f xs s' else search_cached (dirruns s) dn (comb_dir c) cell f xs s'))"

text \<open>elementMatcher asks its matchers from the last to the first.\<close>

fun mrun :: "dom \<Rightarrow> env \<Rightarrow> mat \<Rightarrow> nat \<Rightarrow> mstate \<Rightarrow> bool \<times> mstate"
  and mrun_all :: "dom \<Rightarrow> env \<Rightarrow> mat list \<Rightarrow> nat \<Rightarrow> mstate \<Rightarrow> bool \<times> mstate" where
  "mrun D E (MFilt p) elem s = (p elem, s)"
| "mrun D E MIsContext elem s = (elem \<in> set (contexts E), s)"
| "mrun D E (MRoot leading m) elem s =
     (if \<not> leading \<and> (xml E \<or> not_outermost E) then (True, s) else mrun D E m elem s)"
| "mrun D E (MComb dn c base m) elem s = comb_run D E dn c base (mrun D E m) elem s"
| "mrun D E (MAll ms) elem s = mrun_all D E ms elem s"
| "mrun_all D E [] elem s = (True, s)"
| "mrun_all D E (m # ms) elem s =
     (case mrun_all D E ms elem s of (b, s') \<Rightarrow> if b then mrun D E m elem s' else (False, s'))"

section \<open>Compiling a selector\<close>

datatype tok = TComb combinator | TFilt "nat \<Rightarrow> bool"

text \<open>
  matcherFromTokens without positional pseudos; \<open>done\<close> numbers the combinators. matchContext and
  matchAnyContext are both made, and one of them is used.
\<close>

fun tokens_loop :: "tok list \<Rightarrow> nat \<Rightarrow> mat list \<Rightarrow> mat list \<times> nat" where
  "tokens_loop [] n matchers = (matchers, n)"
| "tokens_loop (TComb c # ts) n matchers = tokens_loop ts (Suc n) [MComb n c False (MAll matchers)]"
| "tokens_loop (TFilt p # ts) n matchers = tokens_loop ts n (matchers @ [MFilt p])"

definition matcherFromTokens :: "tok list \<Rightarrow> nat \<Rightarrow> mat \<times> nat" where
  "matcherFromTokens tokens n =
     (let leadingRelative = (case tokens of TComb c # _ \<Rightarrow> Some c | _ \<Rightarrow> None);
          implicitRelative = (case leadingRelative of Some c \<Rightarrow> c | None \<Rightarrow> Descendant);
          rest = (case leadingRelative of Some c \<Rightarrow> tl tokens | None \<Rightarrow> tokens);
          matchers = [MRoot (leadingRelative \<noteq> None) (MComb n implicitRelative True MIsContext)] in
      case tokens_loop rest (n + 2) matchers of (ms, n') \<Rightarrow> (MAll ms, n'))"

text \<open>compile goes through the groups from the last to the first.\<close>

fun compile_groups :: "tok list list \<Rightarrow> nat \<Rightarrow> mat list \<times> nat" where
  "compile_groups [] n = ([], n)"
| "compile_groups (g # gs) n =
     (case matcherFromTokens g n of (m, n') \<Rightarrow> case compile_groups gs n' of (ms, n'') \<Rightarrow> (m # ms, n''))"

definition compile :: "tok list list \<Rightarrow> nat \<Rightarrow> mat list \<times> nat" where
  "compile match n = compile_groups (rev match) n"

text \<open>superMatcher over element matchers: the first that accepts an element puts it into the results.\<close>

fun any_matcher :: "dom \<Rightarrow> env \<Rightarrow> mat list \<Rightarrow> nat \<Rightarrow> mstate \<Rightarrow> bool \<times> mstate" where
  "any_matcher D E [] elem s = (False, s)"
| "any_matcher D E (m # ms) elem s =
     (case mrun D E m elem s of (b, s') \<Rightarrow> if b then (True, s') else any_matcher D E ms elem s')"

fun match_elems :: "dom \<Rightarrow> env \<Rightarrow> mat list \<Rightarrow> nat list \<Rightarrow> mstate \<Rightarrow> nat list \<times> mstate" where
  "match_elems D E ms [] s = ([], s)"
| "match_elems D E ms (e # es) s =
     (case any_matcher D E ms e s of (b, s') \<Rightarrow>
        case match_elems D E ms es s' of (rs, s'') \<Rightarrow> (if b then e # rs else rs, s''))"

definition superMatcher :: "dom \<Rightarrow> env \<Rightarrow> mat list \<Rightarrow> nat list \<Rightarrow> mstate \<Rightarrow> nat list \<times> mstate" where
  "superMatcher D E elementMatchers elems s = match_elems D E elementMatchers elems (s\<lparr>dirruns := dirruns s + 1\<rparr>)"

definition minit :: mstate where
  "minit = \<lparr>dirruns = 0, slot = (\<lambda>_ _. None), cellv = (\<lambda>_. False), next_cell = 0\<rparr>"

section \<open>What a selector means\<close>

text \<open>A selector read from right to left, without caches.\<close>

definition comb_holds :: "dom \<Rightarrow> combinator \<Rightarrow> bool \<Rightarrow> (nat \<Rightarrow> bool) \<Rightarrow> nat \<Rightarrow> bool" where
  "comb_holds D c base P e =
     (if comb_first c then (case visited D (comb_dir c) base e of [] \<Rightarrow> False | x # _ \<Rightarrow> P x)
      else list_ex P (visited D (comb_dir c) base e))"

definition context_holds :: "dom \<Rightarrow> env \<Rightarrow> combinator option \<Rightarrow> nat \<Rightarrow> bool" where
  "context_holds D E leading e \<longleftrightarrow>
     (leading = None \<and> (xml E \<or> not_outermost E))
     \<or> comb_holds D (case leading of Some c \<Rightarrow> c | None \<Rightarrow> Descendant) True (\<lambda>x. x \<in> set (contexts E)) e"

fun sem_rev :: "dom \<Rightarrow> (nat \<Rightarrow> bool) \<Rightarrow> tok list \<Rightarrow> nat \<Rightarrow> bool" where
  "sem_rev D root [] e = root e"
| "sem_rev D root (TFilt p # ts) e = (p e \<and> sem_rev D root ts e)"
| "sem_rev D root (TComb c # ts) e = comb_holds D c False (sem_rev D root ts) e"

definition selects :: "dom \<Rightarrow> env \<Rightarrow> tok list \<Rightarrow> nat \<Rightarrow> bool" where
  "selects D E tokens e =
     (case tokens of
        TComb c # ts \<Rightarrow> sem_rev D (context_holds D E (Some c)) (rev ts) e
      | _ \<Rightarrow> sem_rev D (context_holds D E None) (rev tokens) e)"

text \<open>The meaning of a matcher.\<close>

fun msem :: "dom \<Rightarrow> env \<Rightarrow> mat \<Rightarrow> nat \<Rightarrow> bool" and msem_all :: "dom \<Rightarrow> env \<Rightarrow> mat list \<Rightarrow> nat \<Rightarrow> bool" where
  "msem D E (MFilt p) e = p e"
| "msem D E MIsContext e = (e \<in> set (contexts E))"
| "msem D E (MRoot leading m) e = ((\<not> leading \<and> (xml E \<or> not_outermost E)) \<or> msem D E m e)"
| "msem D E (MComb dn c base m) e = comb_holds D c base (msem D E m) e"
| "msem D E (MAll ms) e = msem_all D E ms e"
| "msem_all D E [] e = True"
| "msem_all D E (m # ms) e = (msem D E m e \<and> msem_all D E ms e)"

section \<open>Walks\<close>

lemma walk_mono: "length (walk n f e) < n \<Longrightarrow> walk (n + k) f e = walk n f e"
proof (induction n arbitrary: e)
  case (Suc n)
  then show ?case by (cases "f e") auto
qed simp

lemma walk_suffix:
  assumes "length (walk n f e) < n" "walk n f e = pre @ x # post"
  shows "length post < n \<and> walk n f x = post"
  using assms
proof (induction n arbitrary: e pre)
  case (Suc n)
  obtain y where y: "f e = Some y" using Suc.prems(2) by (cases "f e") auto
  have l: "length (walk n f y) < n" using Suc.prems(1) y by simp
  show ?case
  proof (cases pre)
    case Nil
    with Suc.prems(2) y have p: "x = y" "post = walk n f y" by auto
    show ?thesis using l walk_mono [OF l, of 1] unfolding p by simp
  next
    case (Cons z pre')
    with Suc.prems(2) y have "walk n f y = pre' @ x # post" by auto
    from Suc.IH [OF l this] have p: "length (walk n f x) < n" "walk n f x = post" by simp_all
    then show ?thesis using walk_mono [OF p(1), of 1] by simp
  qed
qed simp

lemma walk_distinct: "length (walk n f e) < n \<Longrightarrow> distinct (walk n f e)"
proof (rule ccontr)
  assume l: "length (walk n f e) < n" and d: "\<not> distinct (walk n f e)"
  from not_distinct_decomp [OF d] obtain xs ys zs y where w: "walk n f e = xs @ y # ys @ y # zs" by auto
  have "walk n f y = ys @ y # zs" using walk_suffix [OF l w] by simp
  moreover have "walk n f y = zs" using walk_suffix [OF l, of "xs @ y # ys" y zs] w by simp
  ultimately show False by (metis append_Cons append_assoc append_self_conv2 list.distinct(1) not_Cons_self2 self_append_conv)
qed

lemma filter_split: "filter P ys = pre @ x # post \<Longrightarrow> \<exists>u v. ys = u @ x # v \<and> post = filter P v"
proof (induction pre arbitrary: ys)
  case Nil
  then show ?case by (auto simp: filter_eq_Cons_iff)
next
  case (Cons z pre)
  then obtain u v where "ys = u @ z # v" "filter P v = pre @ x # post" by (auto simp: filter_eq_Cons_iff)
  with Cons.IH [of v] show ?case by (metis append_Cons append_assoc)
qed

lemma visited_suffix:
  assumes "dom_wf D" "visited D d base e = pre @ x # post"
  shows "visited D d base x = post"
proof -
  obtain u v where w: "walk (dsize D) (link D d) e = u @ x # v" "post = filter (\<lambda>x. is_elem D x \<or> (base \<and> d = ParentNode)) v"
    using filter_split [OF assms(2) [unfolded visited_def]] by blast
  have "length (walk (dsize D) (link D d) e) < dsize D" using assms(1) by (simp add: dom_wf_def)
  from walk_suffix [OF this w(1)] w(2) show ?thesis by (simp add: visited_def)
qed

lemma visited_distinct: "dom_wf D \<Longrightarrow> distinct (visited D d base e)"
  by (simp add: visited_def dom_wf_def walk_distinct)

section \<open>The cache\<close>

text \<open>The combinators of a matcher by their numbers.\<close>

fun combs :: "mat \<Rightarrow> (nat \<times> combinator \<times> bool \<times> mat) list" and combs_all :: "mat list \<Rightarrow> (nat \<times> combinator \<times> bool \<times> mat) list" where
  "combs (MFilt p) = []"
| "combs MIsContext = []"
| "combs (MRoot l m) = combs m"
| "combs (MComb dn c b m) = (dn, c, b, m) # combs m"
| "combs (MAll ms) = combs_all ms"
| "combs_all [] = []"
| "combs_all (m # ms) = combs m @ combs_all ms"

text \<open>What a cache entry of a node should say: whether the node or one beyond it matches.\<close>

definition entry_ok :: "dom \<Rightarrow> env \<Rightarrow> nat \<Rightarrow> nat \<times> combinator \<times> bool \<times> mat \<Rightarrow> mstate \<Rightarrow> bool" where
  "entry_ok D E r k s = (case k of (dn, c, b, m) \<Rightarrow> \<forall>x cell. slot s x (comb_dir c) = Some (r, dn, cell) \<longrightarrow>
     cellv s cell = (msem D E m x \<or> list_ex (msem D E m) (visited D (comb_dir c) b x)))"

definition valid :: "dom \<Rightarrow> env \<Rightarrow> nat \<Rightarrow> (nat \<times> combinator \<times> bool \<times> mat) list \<Rightarrow> mstate \<Rightarrow> bool" where
  "valid D E r ks s \<longleftrightarrow> list_all (\<lambda>k. entry_ok D E r k s) ks"

definition swf :: "mstate \<Rightarrow> bool" where
  "swf s \<longleftrightarrow> (\<forall>x d r dn c. slot s x d = Some (r, dn, c) \<longrightarrow> r \<le> dirruns s \<and> c < next_cell s)"

text \<open>A run only adds entries for combinators of its own, in cells of its own.\<close>

definition frame :: "nat \<Rightarrow> nat set \<Rightarrow> mstate \<Rightarrow> mstate \<Rightarrow> bool" where
  "frame N ds s s' \<longleftrightarrow> dirruns s' = dirruns s \<and> next_cell s \<le> next_cell s' \<and> (\<forall>c<N. cellv s' c = cellv s c)
     \<and> (\<forall>x d. slot s' x d = slot s x d \<or> (\<exists>dn\<in>ds. \<exists>cell. N \<le> cell \<and> slot s' x d = Some (dirruns s, dn, cell)))"

lemma frame_refl [simp]: "frame N ds s s"
  by (simp add: frame_def)

lemma frame_trans:
  assumes "frame N ds s s1" "frame N ds s1 s2"
  shows "frame N ds s s2"
proof -
  have "slot s2 x d = slot s x d \<or> (\<exists>dn\<in>ds. \<exists>cell. N \<le> cell \<and> slot s2 x d = Some (dirruns s, dn, cell))" for x d
  proof (cases "slot s2 x d = slot s1 x d")
    case True
    with assms(1) show ?thesis unfolding frame_def by metis
  next
    case False
    with assms show ?thesis unfolding frame_def by metis
  qed
  with assms show ?thesis by (simp add: frame_def)
qed

lemma frame_weaken:
  assumes "frame N ds s s'" "N' \<le> N" "ds \<subseteq> ds'"
  shows "frame N' ds' s s'"
proof -
  have "slot s' x d = slot s x d \<or> (\<exists>dn\<in>ds'. \<exists>cell. N' \<le> cell \<and> slot s' x d = Some (dirruns s, dn, cell))" for x d
  proof (cases "slot s' x d = slot s x d")
    case False
    then obtain dn cell where "dn \<in> ds" "N \<le> cell" "slot s' x d = Some (dirruns s, dn, cell)"
      using assms(1) unfolding frame_def by blast
    with assms(2,3) show ?thesis by (meson le_trans subsetD)
  qed simp
  moreover have "\<forall>c<N'. cellv s' c = cellv s c" using assms(1,2) by (simp add: frame_def)
  ultimately show ?thesis using assms(1) by (simp add: frame_def)
qed

lemma frame_step:
  assumes "frame N ds s s1" "frame N' ds' s1 s2" "N \<le> N'" "ds' \<subseteq> ds"
  shows "frame N ds s s2"
  by (rule frame_trans [OF assms(1) frame_weaken [OF assms(2-4)]])

text \<open>An entry of another combinator is an old one, with its old content.\<close>

lemma frame_old:
  assumes "frame (next_cell s) ds s s'" "swf s" "slot s' x d = Some (r, dn, cell)" "dn \<notin> ds"
  shows "slot s x d = Some (r, dn, cell) \<and> cellv s' cell = cellv s cell"
proof -
  have "slot s' x d = slot s x d" using assms(1,3,4) unfolding frame_def by (metis option.inject prod.inject)
  with assms(3) have o: "slot s x d = Some (r, dn, cell)" by simp
  then have "cell < next_cell s" using assms(2) unfolding swf_def by blast
  with o assms(1) show ?thesis by (simp add: frame_def)
qed

lemma entry_frame:
  assumes "entry_ok D E r k s" "frame (next_cell s) ds s s'" "swf s" "fst k \<notin> ds"
  shows "entry_ok D E r k s'"
proof -
  obtain dn c b m where k: "k = (dn, c, b, m)" by (cases k)
  have o: "slot s x (comb_dir c) = Some (r, dn, cell) \<and> cellv s' cell = cellv s cell"
    if "slot s' x (comb_dir c) = Some (r, dn, cell)" for x cell
    using frame_old [OF assms(2,3) that] assms(4) by (simp add: k)
  show ?thesis using assms(1) o unfolding k entry_ok_def by auto
qed

lemma valid_frame:
  assumes "valid D E r ks s" "frame (next_cell s) ds s s'" "swf s" "fst ` set ks \<inter> ds = {}"
  shows "valid D E r ks s'"
  unfolding valid_def list_all_iff
proof
  fix k assume k: "k \<in> set ks"
  then have "fst k \<notin> ds" using assms(4) by auto
  with assms(1) k entry_frame [OF _ assms(2,3)] show "entry_ok D E r k s'" by (simp add: valid_def list_all_iff)
qed

text \<open>What a matcher must do in the run \<open>r\<close> for a search over it to be right.\<close>

definition good :: "dom \<Rightarrow> env \<Rightarrow> nat \<Rightarrow> (nat \<times> combinator \<times> bool \<times> mat) list \<Rightarrow> (nat \<Rightarrow> bool)
    \<Rightarrow> (nat \<Rightarrow> mstate \<Rightarrow> bool \<times> mstate) \<Rightarrow> bool" where
  "good D E r ks P f \<longleftrightarrow> (\<forall>x s b s'. swf s \<and> dirruns s = r \<and> valid D E r ks s \<and> f x s = (b, s') \<longrightarrow>
     b = P x \<and> frame (next_cell s) (fst ` set ks) s s' \<and> swf s' \<and> valid D E r ks s')"

lemma goodD:
  assumes "good D E r ks P f" "swf s" "dirruns s = r" "valid D E r ks s" "f x s = (b, s')"
  shows "b = P x" "frame (next_cell s) (fst ` set ks) s s'" "swf s'" "valid D E r ks s'"
  using assms unfolding good_def by blast+

lemma frame_fields: "frame N ds s s' \<Longrightarrow> dirruns s' = dirruns s \<and> next_cell s \<le> next_cell s'"
  by (simp add: frame_def)

lemma set_cell_simps [simp]:
  "slot (set_cell c b s) = slot s" "dirruns (set_cell c b s) = dirruns s" "next_cell (set_cell c b s) = next_cell s"
  "swf (set_cell c b s) = swf s" "cellv (set_cell c b s) = (cellv s)(c := b)"
  by (simp_all add: set_cell_def swf_def)

lemma set_slot_simps [simp]:
  "cellv (set_slot x d v s) = cellv s" "dirruns (set_slot x d v s) = dirruns s" "next_cell (set_slot x d v s) = next_cell s"
  "slot (set_slot x d v s) y d' = (if y = x \<and> d' = d then Some v else slot s y d')"
  by (simp_all add: set_slot_def)

lemma swf_set_slot: "swf s \<Longrightarrow> r \<le> dirruns s \<Longrightarrow> c < next_cell s \<Longrightarrow> swf (set_slot x d (r, dn, c) s)"
  by (simp add: swf_def)

text \<open>Writing an entry, or the cell, of one combinator does not touch the entries of others.\<close>

lemma valid_cong:
  assumes "valid D E r ks s"
    "\<And>x d dn cell. dn \<in> fst ` set ks \<Longrightarrow> slot s' x d = Some (r, dn, cell) \<Longrightarrow>
       slot s x d = Some (r, dn, cell) \<and> cellv s' cell = cellv s cell"
  shows "valid D E r ks s'"
  unfolding valid_def list_all_iff
proof
  fix k assume k: "k \<in> set ks"
  obtain dn co ba m where e: "k = (dn, co, ba, m)" by (cases k)
  have "entry_ok D E r k s" using assms(1) k by (simp add: valid_def list_all_iff)
  moreover have "dn \<in> fst ` set ks" using k e by force
  ultimately show "entry_ok D E r k s'" using assms(2) unfolding e entry_ok_def by auto
qed

lemma valid_set_slot: "valid D E r ks s \<Longrightarrow> dn \<notin> fst ` set ks \<Longrightarrow> valid D E r ks (set_slot x d (r, dn, c) s)"
  by (erule valid_cong) (auto split: if_splits)

lemma valid_set_cell:
  assumes "valid D E r ks s" "\<forall>x d r dn. slot s x d = Some (r, dn, c) \<longrightarrow> dn \<notin> fst ` set ks"
  shows "valid D E r ks (set_cell c b s)"
  using assms(1)
proof (rule valid_cong)
  fix x d dn cell assume "dn \<in> fst ` set ks" "slot (set_cell c b s) x d = Some (r, dn, cell)"
  moreover have "cell \<noteq> c"
  proof
    assume "cell = c"
    with \<open>slot (set_cell c b s) x d = Some (r, dn, cell)\<close> have "slot s x d = Some (r, dn, c)" by simp
    with assms(2) \<open>dn \<in> fst ` set ks\<close> show False by blast
  qed
  ultimately show "slot s x d = Some (r, dn, cell) \<and> cellv (set_cell c b s) cell = cellv s cell" by simp
qed

lemma search_xml_good:
  assumes "good D E r ks P f" "swf s" "dirruns s = r" "valid D E r ks s" "search_xml f xs s = (b, s')"
  shows "b = list_ex P xs \<and> frame (next_cell s) (fst ` set ks) s s' \<and> swf s' \<and> valid D E r ks s'"
  using assms(2-5)
proof (induction xs arbitrary: s)
  case Nil
  then show ?case by simp
next
  case (Cons x xs)
  obtain b1 s1 where f: "f x s = (b1, s1)" by (cases "f x s")
  note g = goodD [OF assms(1) Cons.prems(1-3) f]
  show ?case
  proof (cases b1)
    case True
    with Cons.prems f g show ?thesis by simp
  next
    case False
    have d1: "dirruns s1 = r" using g(2) Cons.prems(2) frame_fields by simp
    from False Cons.prems(4) f have "search_xml f xs s1 = (b, s')" by simp
    from Cons.IH [OF g(3) d1 g(4) this] frame_step [OF g(2)] frame_fields [OF g(2)] False g(1) show ?thesis by auto
  qed
qed

text \<open>
  The cached search, inside the run of one combinator with the number \<open>dn\<close> and the new cell \<open>ce\<close>: the
  entries of other cells are right, and those of the new one will be, since nothing matched up to here.
\<close>

definition searching :: "nat \<Rightarrow> nat \<Rightarrow> dir \<Rightarrow> nat \<Rightarrow> (nat \<Rightarrow> bool) \<Rightarrow> nat list \<Rightarrow> mstate \<Rightarrow> bool" where
  "searching r dn d ce W xs s \<longleftrightarrow> ce < next_cell s \<and> \<not> cellv s ce
     \<and> (\<forall>x d' r' dn'. slot s x d' = Some (r', dn', ce) \<longrightarrow> dn' = dn)
     \<and> (\<forall>x cell. slot s x d = Some (r, dn, cell) \<longrightarrow> cell \<noteq> ce \<longrightarrow> cellv s cell = W x)
     \<and> (\<forall>x\<in>set xs. slot s x d \<noteq> Some (r, dn, ce))"

lemma searching_old:
  "searching r dn d ce W xs s \<Longrightarrow> slot s x d = Some (r, dn, cell) \<Longrightarrow> cell \<noteq> ce \<Longrightarrow> cellv s cell = W x"
  unfolding searching_def by blast

lemma searching_own:
  "searching r dn d ce W xs s \<Longrightarrow> dn \<notin> F \<Longrightarrow> \<forall>x d' r' dn'. slot s x d' = Some (r', dn', ce) \<longrightarrow> dn' \<notin> F"
  unfolding searching_def by blast

lemma searching_frame:
  assumes "searching r dn d ce W xs s" "frame (next_cell s) ds s s'" "swf s" "dn \<notin> ds"
  shows "searching r dn d ce W xs s'"
proof -
  have ce: "ce < next_cell s" using assms(1) by (simp add: searching_def)
  have old: "slot s x d' = Some (r', dn', ce)" if "slot s' x d' = Some (r', dn', ce)" for x d' r' dn'
    using that assms(2) ce unfolding frame_def by (metis leD option.inject prod.inject)
  have "cellv s' ce = cellv s ce" "next_cell s \<le> next_cell s'" using assms(2) ce by (simp_all add: frame_def)
  moreover have "cellv s' cell = W x" if "slot s' x d = Some (r, dn, cell)" "cell \<noteq> ce" for x cell
    using frame_old [OF assms(2,3) that(1) assms(4)] assms(1) that(2) by (simp add: searching_def)
  moreover have "slot s' x d \<noteq> Some (r, dn, ce)" if "x \<in> set xs" for x
    using old assms(1) that by (auto simp: searching_def)
  moreover have "dn' = dn" if "slot s' x d' = Some (r', dn', ce)" for x d' r' dn'
    using old [OF that] assms(1) by (simp add: searching_def)
  ultimately show ?thesis using assms(1) by (simp add: searching_def)
qed

lemma frame_set_cell: "N \<le> c \<Longrightarrow> frame N ds s (set_cell c b s)"
  by (simp add: frame_def)

lemma frame_set_slot: "N \<le> c \<Longrightarrow> dn \<in> ds \<Longrightarrow> dirruns s = r \<Longrightarrow> frame N ds s (set_slot x d (r, dn, c) s)"
  by (auto simp: frame_def)

lemma search_cached_good:
  assumes "good D E r ks P f" "dn \<notin> fst ` set ks" "\<And>x. W x = (P x \<or> list_ex P (V x))" "N \<le> ce"
    and "swf s" "dirruns s = r" "valid D E r ks s" "searching r dn d ce W xs s"
    and "\<forall>x. slot s x d = Some (r, dn, ce) \<longrightarrow> W x = list_ex P xs"
    and "\<forall>pre x post. xs = pre @ x # post \<longrightarrow> V x = post" "distinct xs"
    and "search_cached r dn d ce f xs s = (b, s')"
  shows "b = list_ex P xs \<and> frame N (insert dn (fst ` set ks)) s s' \<and> swf s' \<and> valid D E r ks s'
     \<and> (\<forall>x cell. slot s' x d = Some (r, dn, cell) \<longrightarrow> cellv s' cell = W x)"
  using assms(5-)
proof (induction xs arbitrary: s)
  case Nil
  have "cellv s cell = W x" if "slot s x d = Some (r, dn, cell)" for x cell
  proof (cases "cell = ce")
    case True
    with that Nil.prems(5) have "\<not> W x" by simp
    with True Nil.prems(4) show ?thesis by (simp add: searching_def)
  next
    case False
    with that Nil.prems(4) searching_old show ?thesis by metis
  qed
  moreover have "b = False" "s' = s" using Nil.prems(8) by simp_all
  ultimately show ?case using Nil.prems(1,3) by simp
next
  case (Cons x xs)
  note swf = Cons.prems(1) and dr = Cons.prems(2) and vl = Cons.prems(3) and se = Cons.prems(4)
    and ce_ok = Cons.prems(5) and suf = Cons.prems(6)
  have Vx: "V x = xs" using suf by blast
  have Wx: "W x = list_ex P (x # xs)" using assms(3) Vx by simp
  have ce: "ce < next_cell s" "\<not> cellv s ce" "slot s x d \<noteq> Some (r, dn, ce)" using se by (auto simp: searching_def)
  have own: "\<forall>x d' r' dn'. slot s x d' = Some (r', dn', ce) \<longrightarrow> dn' \<notin> fst ` set ks"
    by (rule searching_own [OF se assms(2)])
  show ?case
  proof (cases "\<exists>c'. slot s x d = Some (r, dn, c')")
    case True
    then obtain c' where c': "slot s x d = Some (r, dn, c')" by blast
    with ce(3) have "cellv s c' = W x" using searching_old [OF se] by blast
    with c' dr Cons.prems(8) have res: "b = W x" "s' = set_cell ce (W x) s" by auto
    have "cellv s' cell = W y" if "slot s' y d = Some (r, dn, cell)" for y cell
    proof (cases "cell = ce")
      case True
      with that have "W y = list_ex P (x # xs)" using ce_ok by (simp add: res)
      with True Wx show ?thesis by (simp add: res)
    next
      case False
      with that searching_old [OF se] show ?thesis by (simp add: res)
    qed
    with res Wx swf vl own show ?thesis by (simp add: frame_set_cell [OF assms(4)] valid_set_cell)
  next
    case False
    define s1 where "s1 = set_slot x d (r, dn, ce) s"
    obtain b2 s2 where f: "f x s1 = (b2, s2)" by (cases "f x s1")
    have w1: "swf s1" "dirruns s1 = r" "valid D E r ks s1"
      using swf dr ce(1) vl assms(2) by (auto simp: s1_def intro: swf_set_slot valid_set_slot)
    note g = goodD [OF assms(1) w1 f]
    have se1: "searching r dn d ce W xs s1"
      using se Cons.prems(7) by (auto simp: searching_def s1_def)
    note se2 = searching_frame [OF se1 g(2) w1(1) assms(2)]
    have ce1: "W y = list_ex P (x # xs)" if "slot s1 y d = Some (r, dn, ce)" for y
      using that ce_ok Wx by (auto simp: s1_def split: if_splits)
    have n1: "ce < next_cell s1" using ce(1) by (simp add: s1_def)
    have ce2: "W y = list_ex P (x # xs)" if "slot s2 y d = Some (r, dn, ce)" for y
      using frame_old [OF g(2) w1(1) that assms(2)] ce1 by blast
    have own2: "\<forall>x d' r' dn'. slot s2 x d' = Some (r', dn', ce) \<longrightarrow> dn' \<notin> fst ` set ks"
      by (rule searching_own [OF se2 assms(2)])
    define s3 where "s3 = set_cell ce b2 s2"
    have fr: "frame N (insert dn (fst ` set ks)) s s3"
    proof -
      have f1: "frame N (insert dn (fst ` set ks)) s s1" unfolding s1_def by (rule frame_set_slot [OF assms(4) _ dr]) simp
      have "N \<le> next_cell s1" using assms(4) n1 by simp
      from frame_step [OF f1 g(2) this] have "frame N (insert dn (fst ` set ks)) s s2" by blast
      from frame_trans [OF this frame_set_cell [OF assms(4)]] show ?thesis by (simp add: s3_def)
    qed
    have v3: "valid D E r ks s3" unfolding s3_def by (rule valid_set_cell [OF g(4) own2])
    have w3: "swf s3" "dirruns s3 = r" using g(2,3) w1(2) frame_fields by (simp_all add: s3_def)
    have run: "(if b2 then (True, s3) else search_cached r dn d ce f xs s3) = (b, s')"
      using Cons.prems(8) False f dr by (auto simp: s1_def s3_def split: option.splits prod.splits if_splits)
    show ?thesis
    proof (cases b2)
      case True
      with run have res: "b = True" "s' = s3" by auto
      have "list_ex P (x # xs)" using True g(1) by simp
      moreover have "cellv s3 cell = W y" if "slot s3 y d = Some (r, dn, cell)" for y cell
      proof (cases "cell = ce")
        case True
        with that have "W y = list_ex P (x # xs)" using ce2 by (simp add: s3_def)
        with True \<open>list_ex P (x # xs)\<close> \<open>b2\<close> show ?thesis by (simp add: s3_def)
      next
        case False
        with that searching_old [OF se2] show ?thesis by (simp add: s3_def)
      qed
      ultimately show ?thesis using res fr v3 w3 by simp
    next
      case False
      with run have rec: "search_cached r dn d ce f xs s3 = (b, s')" by simp
      have lx: "list_ex P (x # xs) = list_ex P xs" using False g(1) by simp
      have se3: "searching r dn d ce W xs s3" using se2 False by (auto simp: searching_def s3_def)
      have "\<forall>y. slot s3 y d = Some (r, dn, ce) \<longrightarrow> W y = list_ex P xs" using ce2 lx by (simp add: s3_def)
      moreover have "\<forall>pre y post. xs = pre @ y # post \<longrightarrow> V y = post" using suf by (metis append_Cons)
      ultimately have "b = list_ex P xs \<and> frame N (insert dn (fst ` set ks)) s3 s' \<and> swf s' \<and> valid D E r ks s'
         \<and> (\<forall>x cell. slot s' x d = Some (r, dn, cell) \<longrightarrow> cellv s' cell = W x)"
        using Cons.IH [OF w3 v3 se3 _ _ _ rec] Cons.prems(7) by simp
      with lx frame_trans [OF fr] show ?thesis by simp
    qed
  qed
qed

section \<open>Matchers are right\<close>

lemma comb_run_good:
  assumes "dom_wf D" "good D E r (combs m) (msem D E m) f" "dn \<notin> fst ` set (combs m)"
  shows "good D E r ((dn, c, base, m) # combs m) (comb_holds D c base (msem D E m)) (comb_run D E dn c base f)"
  unfolding good_def
proof (intro allI impI, elim conjE)
  fix e s b s'
  assume w: "swf s" "dirruns s = r" "valid D E r ((dn, c, base, m) # combs m) s" "comb_run D E dn c base f e s = (b, s')"
  let ?ks = "combs m" and ?P = "msem D E m" and ?d = "comb_dir c" and ?xs = "visited D (comb_dir c) base e"
  let ?V = "visited D ?d base"
  let ?W = "\<lambda>x. ?P x \<or> list_ex ?P (?V x)"
  have vk: "valid D E r ?ks s" and ek: "entry_ok D E r (dn, c, base, m) s" using w(3) by (simp_all add: valid_def)
  have sub: "fst ` set ?ks \<subseteq> fst ` set ((dn, c, base, m) # ?ks)" by auto
  let ?goal = "b = comb_holds D c base ?P e \<and> frame (next_cell s) (fst ` set ((dn, c, base, m) # ?ks)) s s' \<and> swf s'
      \<and> valid D E r ((dn, c, base, m) # ?ks) s'"
  have keep: "valid D E r ((dn, c, base, m) # ?ks) s1" if "frame (next_cell s) (fst ` set ?ks) s s1" "valid D E r ?ks s1" for s1
    using entry_frame [OF ek that(1) w(1)] assms(3) that(2) by (simp add: valid_def)
  show ?goal
  proof (cases "comb_first c")
    case True
    then have run: "closest_match f ?xs s = (b, s')" using w(4) by (simp add: comb_run_def Let_def)
    show ?thesis
    proof (cases ?xs)
      case Nil
      with run w True show ?thesis by (simp add: comb_holds_def)
    next
      case (Cons x xs)
      with run have f: "f x s = (b, s')" by simp
      note g = goodD [OF assms(2) w(1,2) vk f]
      from keep [OF g(2,4)] g frame_weaken [OF g(2) order_refl sub] True Cons show ?thesis by (simp add: comb_holds_def)
    qed
  next
    case False
    define ce where "ce = next_cell s"
    define s1 where "s1 = snd (new_cache s)"
    have nc: "new_cache s = (ce, s1)" by (simp add: new_cache_def ce_def s1_def)
    have s1: "slot s1 = slot s" "dirruns s1 = r" "next_cell s1 = Suc ce" "\<not> cellv s1 ce" "\<And>c. c < ce \<Longrightarrow> cellv s1 c = cellv s c"
      using w(2) by (simp_all add: s1_def new_cache_def ce_def)
    have fr1: "frame ce {} s s1" using s1 w(2) by (simp add: frame_def ce_def)
    have w1: "swf s1" using w(1,2) s1 by (auto simp: swf_def ce_def less_Suc_eq)
    have v1: "valid D E r ?ks s1" using valid_frame [OF vk _ w(1), of "{}" s1] fr1 by (simp add: ce_def)
    show ?thesis
    proof (cases "xml E")
      case True
      then have "search_xml f ?xs s1 = (b, s')" using w(4) False nc by (simp add: comb_run_def Let_def)
      from search_xml_good [OF assms(2) w1 s1(2) v1 this]
      have g: "b = list_ex ?P ?xs" "frame (next_cell s1) (fst ` set ?ks) s1 s'" "swf s'" "valid D E r ?ks s'" by simp_all
      have fr: "frame ce (fst ` set ?ks) s s'"
        using frame_step [OF frame_weaken [OF fr1 order_refl empty_subsetI] g(2)] s1(3) by simp
      from keep [OF fr [unfolded ce_def] g(4)] frame_weaken [OF fr order_refl sub] g False show ?thesis
        by (simp add: comb_holds_def ce_def)
    next
      case nx: False
      have run: "search_cached r dn ?d ce f ?xs s1 = (b, s')" using w(2,4) False nx nc by (simp add: comb_run_def Let_def)
      have none: "slot s x d' \<noteq> Some (r', dn', ce)" for x d' r' dn' using w(1) unfolding swf_def ce_def by blast
      have se: "searching r dn ?d ce ?W ?xs s1"
        using s1 none ek w(1) by (auto simp: searching_def entry_ok_def swf_def ce_def)
      have suf: "\<forall>pre x post. ?xs = pre @ x # post \<longrightarrow> ?V x = post" using visited_suffix [OF assms(1)] by blast
      have "\<forall>x. slot s1 x ?d = Some (r, dn, ce) \<longrightarrow> ?W x = list_ex ?P ?xs" using s1(1) none by simp
      from search_cached_good [OF assms(2,3) refl order_refl w1 s1(2) v1 se this suf visited_distinct [OF assms(1)] run]
      have g: "b = list_ex ?P ?xs" "frame ce (insert dn (fst ` set ?ks)) s1 s'" "swf s'" "valid D E r ?ks s'"
        "\<forall>x cell. slot s' x ?d = Some (r, dn, cell) \<longrightarrow> cellv s' cell = ?W x" by blast+
      have "frame ce (insert dn (fst ` set ?ks)) s s'"
        using frame_trans [OF frame_weaken [OF fr1 order_refl empty_subsetI] g(2)] .
      with g False show ?thesis by (simp add: comb_holds_def ce_def valid_def entry_ok_def)
    qed
  qed
qed

text \<open>A conjunction of two matchers with different combinators.\<close>

lemma good_and:
  assumes "good D E r ks P f" "good D E r ks' P' f'" "fst ` set ks \<inter> fst ` set ks' = {}"
  shows "good D E r (ks @ ks') (\<lambda>x. P x \<and> P' x)
    (\<lambda>x s. case f' x s of (b, s') \<Rightarrow> if b then f x s' else (False, s'))"
  unfolding good_def
proof (intro allI impI, elim conjE)
  fix x s b s'
  assume w: "swf s" "dirruns s = r" "valid D E r (ks @ ks') s"
    "(case f' x s of (b, s') \<Rightarrow> if b then f x s' else (False, s')) = (b, s')"
  obtain b1 s1 where f1: "f' x s = (b1, s1)" by (cases "f' x s")
  have v: "valid D E r ks s" "valid D E r ks' s" using w(3) by (simp_all add: valid_def)
  note g1 = goodD [OF assms(2) w(1,2) v(2) f1]
  have v1: "valid D E r ks s1" by (rule valid_frame [OF v(1) g1(2) w(1) assms(3)])
  have d1: "dirruns s1 = r" "next_cell s \<le> next_cell s1" using frame_fields [OF g1(2)] w(2) by simp_all
  let ?ds = "fst ` set (ks @ ks')"
  have fr1: "frame (next_cell s) ?ds s s1" by (rule frame_weaken [OF g1(2)]) auto
  show "b = (P x \<and> P' x) \<and> frame (next_cell s) ?ds s s' \<and> swf s' \<and> valid D E r (ks @ ks') s'"
  proof (cases b1)
    case False
    with w(4) f1 have "b = False" "s' = s1" by simp_all
    with False g1 v1 fr1 show ?thesis by (simp add: valid_def)
  next
    case True
    with w(4) f1 have f2: "f x s1 = (b, s')" by simp
    note g2 = goodD [OF assms(1) g1(3) d1(1) v1 f2]
    have "valid D E r ks' s'" using valid_frame [OF g1(4) g2(2) g1(3)] assms(3) by (simp add: Int_commute)
    moreover have "frame (next_cell s) ?ds s s'" by (rule frame_step [OF fr1 g2(2) d1(2)]) auto
    ultimately show ?thesis using g1(1) g2 True by (simp add: valid_def)
  qed
qed

lemma mrun_good:
  "dom_wf D \<Longrightarrow> distinct (map fst (combs m)) \<Longrightarrow> good D E r (combs m) (msem D E m) (mrun D E m)"
  "dom_wf D \<Longrightarrow> distinct (map fst (combs_all ms)) \<Longrightarrow> good D E r (combs_all ms) (msem_all D E ms) (mrun_all D E ms)"
proof (induction m and ms rule: combs_combs_all.induct)
  case (4 dn c b m)
  then have "dn \<notin> fst ` set (combs m)" by (metis combs.simps(4) distinct.simps(2) fst_conv list.set_map list.simps(9))
  from comb_run_good [OF 4(2) 4(1) [OF 4(2)] this] 4(3)
  have "good D E r ((dn, c, b, m) # combs m) (comb_holds D c b (msem D E m)) (comb_run D E dn c b (mrun D E m))" by simp
  moreover have "mrun D E (MComb dn c b m) = comb_run D E dn c b (mrun D E m)"
    "msem D E (MComb dn c b m) = comb_holds D c b (msem D E m)" by (simp_all add: fun_eq_iff)
  ultimately show ?case by (simp only: combs.simps)
next
  case (5 ms)
  have "mrun D E (MAll ms) = mrun_all D E ms" "msem D E (MAll ms) = msem_all D E ms" by (simp_all add: fun_eq_iff)
  with 5 show ?case by (simp only: combs.simps)
next
  case (7 m ms)
  then have d: "fst ` set (combs m) \<inter> fst ` set (combs_all ms) = {}" "distinct (map fst (combs m))"
    "distinct (map fst (combs_all ms))" by auto
  have "mrun_all D E (m # ms) = (\<lambda>x s. case mrun_all D E ms x s of (b, s') \<Rightarrow> if b then mrun D E m x s' else (False, s'))"
    "msem_all D E (m # ms) = (\<lambda>x. msem D E m x \<and> msem_all D E ms x)" by (simp_all add: fun_eq_iff)
  with good_and [OF 7(1) [OF 7(3) d(2)] 7(2) [OF 7(3) d(3)] d(1)] show ?case by (simp only: combs_all.simps)
next
  case (3 l m)
  show ?case unfolding good_def
  proof (intro allI impI, elim conjE)
    fix x s b s'
    assume w: "swf s" "dirruns s = r" "valid D E r (combs (MRoot l m)) s" "mrun D E (MRoot l m) x s = (b, s')"
    have g: "good D E r (combs m) (msem D E m) (mrun D E m)" using 3 by simp
    show "b = msem D E (MRoot l m) x \<and> frame (next_cell s) (fst ` set (combs (MRoot l m))) s s' \<and> swf s'
        \<and> valid D E r (combs (MRoot l m)) s'"
    proof (cases "\<not> l \<and> (xml E \<or> not_outermost E)")
      case True
      with w show ?thesis by simp
    next
      case False
      with w(4) have "mrun D E m x s = (b, s')" by simp
      from goodD [OF g w(1,2) _ this] w(3) False show ?thesis by auto
    qed
  qed
qed (auto simp: good_def)

section \<open>Compiled selectors\<close>

lemma combs_all_append [simp]: "combs_all (ms @ ms') = combs_all ms @ combs_all ms'"
  by (induction ms) simp_all

lemma msem_all_append [simp]: "msem_all D E (ms @ ms') e = (msem_all D E ms e \<and> msem_all D E ms' e)"
  by (induction ms) auto

text \<open>The numbers of the combinators of a list of matchers are distinct and lie in an interval.\<close>

definition numbered :: "nat \<Rightarrow> nat \<Rightarrow> mat list \<Rightarrow> bool" where
  "numbered lo hi ms \<longleftrightarrow> lo \<le> hi \<and> distinct (map fst (combs_all ms)) \<and> (\<forall>k\<in>set (combs_all ms). lo \<le> fst k \<and> fst k < hi)"

lemma tokens_loop_numbered: "tokens_loop ts n ms = (ms', n') \<Longrightarrow> numbered lo n ms \<Longrightarrow> numbered lo n' ms' \<and> n \<le> n'"
proof (induction ts n ms rule: tokens_loop.induct)
  case (1 n matchers)
  then show ?case by (simp add: numbered_def)
next
  case (2 c ts n matchers)
  have "numbered lo (Suc n) [MComb n c False (MAll matchers)]"
    using 2(3) by (fastforce simp: numbered_def less_Suc_eq)
  with 2 show ?case by simp
next
  case (3 p ts n matchers)
  then show ?case by (simp add: numbered_def)
qed

lemma matcherFromTokens_numbered:
  assumes "matcherFromTokens tokens n = (m, n')"
  shows "numbered n n' [m]"
proof -
  obtain l c rest ms where r: "tokens_loop rest (n + 2) [MRoot l (MComb n c True MIsContext)] = (ms, n')" "m = MAll ms"
    using assms by (auto simp: matcherFromTokens_def Let_def split: prod.splits)
  have "numbered n (n + 2) [MRoot l (MComb n c True MIsContext)]" by (simp add: numbered_def)
  from tokens_loop_numbered [OF r(1) this] r(2) show ?thesis by (simp add: numbered_def)
qed

lemma numbered_Cons: "numbered lo mid [m] \<Longrightarrow> numbered mid hi ms \<Longrightarrow> numbered lo hi (m # ms)"
  unfolding numbered_def by fastforce

lemma compile_groups_numbered: "compile_groups gs n = (ms, n') \<Longrightarrow> numbered n n' ms"
proof (induction gs arbitrary: n ms)
  case Nil
  then show ?case by (simp add: numbered_def)
next
  case (Cons g gs)
  then obtain m k ms1 where c: "matcherFromTokens g n = (m, k)" "compile_groups gs k = (ms1, n')" "ms = m # ms1"
    by (auto split: prod.splits)
  from numbered_Cons [OF matcherFromTokens_numbered [OF c(1)] Cons.IH [OF c(2)]] c(3) show ?case by simp
qed

lemma sem_fun [simp]:
  "sem_rev D root [] = root" "msem D E (MAll ms) = msem_all D E ms" "msem D E MIsContext = (\<lambda>x. x \<in> set (contexts E))"
  by (rule ext, simp)+

lemma sem_one [simp]:
  "sem_rev D root [TComb c] = comb_holds D c False root" "sem_rev D root [TFilt p] = (\<lambda>e. p e \<and> root e)"
  by (rule ext, simp)+

lemma sem_rev_snoc: "sem_rev D root (ts @ [t]) = sem_rev D (sem_rev D root [t]) ts"
proof (induction ts)
  case (Cons u ts)
  show ?case by (rule ext, cases u) (simp_all add: Cons)
qed simp

lemma tokens_loop_sem: "tokens_loop ts n ms = (ms', n') \<Longrightarrow> msem_all D E ms' = sem_rev D (msem_all D E ms) (rev ts)"
proof (induction ts n ms rule: tokens_loop.induct)
  case (1 n matchers)
  then show ?case by (simp add: fun_eq_iff)
next
  case (2 c ts n matchers)
  have "msem_all D E [MComb n c False (MAll matchers)] = sem_rev D (msem_all D E matchers) [TComb c]"
    by (rule ext) (simp del: sem_rev.simps)
  with 2 show ?case by (simp add: sem_rev_snoc)
next
  case (3 p ts n matchers)
  have "msem_all D E (matchers @ [MFilt p]) = sem_rev D (msem_all D E matchers) [TFilt p]" by (auto simp: fun_eq_iff)
  with 3 show ?case by (simp add: sem_rev_snoc)
qed

lemma matcherFromTokens_sem:
  assumes "matcherFromTokens tokens n = (m, n')"
  shows "msem D E m = selects D E tokens"
proof -
  have root: "msem_all D E [MRoot (lead \<noteq> None) (MComb n (case lead of Some c \<Rightarrow> c | None \<Rightarrow> Descendant) True MIsContext)]
      = context_holds D E lead" for lead
    by (rule ext) (simp add: context_holds_def)
  show ?thesis
  proof (cases "\<exists>c ts. tokens = TComb c # ts")
    case True
    then obtain c ts where t: "tokens = TComb c # ts" by blast
    then obtain ms where "tokens_loop ts (n + 2) [MRoot True (MComb n c True MIsContext)] = (ms, n')" "m = MAll ms"
      using assms by (auto simp: matcherFromTokens_def Let_def split: prod.splits)
    with tokens_loop_sem [OF this(1), of D E] root [of "Some c"]
    have "msem D E m = sem_rev D (context_holds D E (Some c)) (rev ts)" by simp
    moreover have "selects D E tokens = sem_rev D (context_holds D E (Some c)) (rev ts)" by (rule ext) (simp add: selects_def t)
    ultimately show ?thesis by simp
  next
    case False
    then have none: "(case tokens of TComb c # _ \<Rightarrow> Some c | _ \<Rightarrow> None) = None" by (auto split: list.split tok.split)
    then obtain ms where "tokens_loop tokens (n + 2) [MRoot False (MComb n Descendant True MIsContext)] = (ms, n')" "m = MAll ms"
      using assms by (auto simp: matcherFromTokens_def Let_def split: prod.splits)
    moreover have "selects D E tokens = sem_rev D (context_holds D E None) (rev tokens)"
      by (rule ext) (use False in \<open>auto simp: selects_def split: list.split tok.split\<close>)
    ultimately show ?thesis using tokens_loop_sem [of tokens "n + 2" _ ms n' D E] root [of None] by simp
  qed
qed

lemma compile_groups_sem:
  "compile_groups gs n = (ms, n') \<Longrightarrow> list_ex (\<lambda>m. msem D E m e) ms = list_ex (\<lambda>g. selects D E g e) gs"
proof (induction gs arbitrary: n ms)
  case (Cons g gs)
  then obtain m k ms1 where c: "matcherFromTokens g n = (m, k)" "compile_groups gs k = (ms1, n')" "ms = m # ms1"
    by (auto split: prod.splits)
  with Cons.IH [OF c(2)] matcherFromTokens_sem [OF c(1), of D E] show ?case by simp
qed simp

lemma valid_append [simp]: "valid D E r (ks @ ks') s \<longleftrightarrow> valid D E r ks s \<and> valid D E r ks' s"
  by (simp add: valid_def)

lemma any_matcher_good:
  assumes "dom_wf D" "distinct (map fst (combs_all ms))" "swf s" "dirruns s = r" "valid D E r (combs_all ms) s"
    "any_matcher D E ms e s = (b, s')"
  shows "b = list_ex (\<lambda>m. msem D E m e) ms \<and> frame (next_cell s) (fst ` set (combs_all ms)) s s' \<and> swf s'
    \<and> valid D E r (combs_all ms) s'"
  using assms(2-)
proof (induction ms arbitrary: s)
  case Nil
  then show ?case by simp
next
  case (Cons m ms)
  obtain b1 s1 where f: "mrun D E m e s = (b1, s1)" by (cases "mrun D E m e s")
  have d: "distinct (map fst (combs m))" "distinct (map fst (combs_all ms))"
    "fst ` set (combs m) \<inter> fst ` set (combs_all ms) = {}" using Cons.prems(1) by auto
  have v: "valid D E r (combs m) s" "valid D E r (combs_all ms) s" using Cons.prems(4) by simp_all
  note g = goodD [OF mrun_good(1) [OF assms(1) d(1)] Cons.prems(2,3) v(1) f]
  have "fst ` set (combs_all ms) \<inter> fst ` set (combs m) = {}" using d(3) by blast
  note v1 = valid_frame [OF v(2) g(2) Cons.prems(2) this]
  let ?ds = "fst ` set (combs_all (m # ms))"
  have fr1: "frame (next_cell s) ?ds s s1" by (rule frame_weaken [OF g(2)]) auto
  show ?case
  proof (cases b1)
    case True
    with Cons.prems(5) f have "b = True" "s' = s1" by simp_all
    with True g v1 fr1 show ?thesis by simp
  next
    case False
    with Cons.prems(5) f have r: "any_matcher D E ms e s1 = (b, s')" by simp
    have d1: "dirruns s1 = r" "next_cell s \<le> next_cell s1" using frame_fields [OF g(2)] Cons.prems(3) by simp_all
    from Cons.IH [OF d(2) g(3) d1(1) v1 r] have h: "b = list_ex (\<lambda>m. msem D E m e) ms"
      "frame (next_cell s1) (fst ` set (combs_all ms)) s1 s'" "swf s'" "valid D E r (combs_all ms) s'" by simp_all
    have "frame (next_cell s) ?ds s s'" by (rule frame_step [OF fr1 h(2) d1(2)]) auto
    moreover have "valid D E r (combs m) s'" by (rule valid_frame [OF g(4) h(2) g(3) d(3)])
    ultimately show ?thesis using h False g(1) by auto
  qed
qed

lemma match_elems_good:
  assumes "dom_wf D" "distinct (map fst (combs_all ms))" "swf s" "dirruns s = r" "valid D E r (combs_all ms) s"
    "match_elems D E ms es s = (rs, s')"
  shows "rs = filter (\<lambda>e. list_ex (\<lambda>m. msem D E m e) ms) es \<and> swf s'"
  using assms(3-)
proof (induction es arbitrary: s rs)
  case Nil
  then show ?case by simp
next
  case (Cons e es)
  obtain b s1 where a: "any_matcher D E ms e s = (b, s1)" by (cases "any_matcher D E ms e s")
  from any_matcher_good [OF assms(1,2) Cons.prems(1-3) a] have h: "b = list_ex (\<lambda>m. msem D E m e) ms"
    "frame (next_cell s) (fst ` set (combs_all ms)) s s1" "swf s1" "valid D E r (combs_all ms) s1" by simp_all
  obtain rs1 where m: "match_elems D E ms es s1 = (rs1, s')" "rs = (if b then e # rs1 else rs1)"
    using Cons.prems(4) a by (auto split: prod.splits)
  have "dirruns s1 = r" using frame_fields [OF h(2)] Cons.prems(2) by simp
  from Cons.IH [OF h(3) this h(4) m(1)] m(2) h(1) show ?case by simp
qed

section \<open>Properties\<close>

text \<open>
  C9: The compiled matcher with its cache in the nodes selects exactly the candidates that the selector
  means, read from right to left without any cache, in their order and each once, whatever earlier runs
  have left in the cache; it leaves the cache fit for the next run.
\<close>

theorem compiled_selects_meaning:
  assumes "dom_wf D" "swf s" "compile groups n = (ms, n')" "superMatcher D E ms elems s = (rs, s')"
  shows "rs = filter (\<lambda>e. \<exists>g\<in>set groups. selects D E g e) elems \<and> swf s'"
proof -
  let ?s = "s\<lparr>dirruns := dirruns s + 1\<rparr>"
  have c: "compile_groups (rev groups) n = (ms, n')" using assms(3) by (simp add: compile_def)
  have w: "swf ?s" using assms(2) by (fastforce simp: swf_def)
  have "slot s x d \<noteq> Some (dirruns s + 1, dn, cell)" for x d dn cell using assms(2) unfolding swf_def by fastforce
  then have v: "valid D E (dirruns s + 1) (combs_all ms) ?s" by (auto simp: valid_def list_all_iff entry_ok_def)
  have d: "distinct (map fst (combs_all ms))" using compile_groups_numbered [OF c] by (simp add: numbered_def)
  have m: "match_elems D E ms elems ?s = (rs, s')" using assms(4) by (simp add: superMatcher_def)
  have "dirruns ?s = dirruns s + 1" by simp
  from match_elems_good [OF assms(1) d w this v m] compile_groups_sem [OF c, of D E]
  show ?thesis by (simp add: list_ex_iff)
qed

definition small_dom :: dom where
  "small_dom = \<lparr>link = (\<lambda>d e. case d of
       ParentNode \<Rightarrow> map_of [(1, 0), (2, 1), (3, 2), (4, 3), (5, 2)] e | PreviousSibling \<Rightarrow> map_of [(5, 3)] e),
     is_elem = (\<lambda>e. e \<in> {1, 2, 3, 4, 5}), dsize = 7\<rparr>"

lemma small_dom_wf: "dom_wf small_dom"
proof -
  have "length (walk 7 (link small_dom d) e) < 7" for d e
    by (cases d) (simp_all add: small_dom_def numeral_eq_Suc)
  then show ?thesis by (simp add: dom_wf_def) (simp add: small_dom_def)
qed

theorem compiled_selects_meaning_witness:
  "\<exists>ms n' s'. compile [[TFilt (\<lambda>e. e = 2), TComb Descendant, TFilt (\<lambda>e. e = 4 \<or> e = 5)], [TFilt (\<lambda>e. e = 3)]] 0 = (ms, n')
     \<and> superMatcher small_dom \<lparr>contexts = [0], not_outermost = True, xml = False\<rparr> ms [1, 2, 3, 4, 5] minit = ([3, 4, 5], s')
     \<and> swf s'"
proof -
  let ?g = "[[TFilt (\<lambda>e. e = 2), TComb Descendant, TFilt (\<lambda>e. e = 4 \<or> e = 5)], [TFilt (\<lambda>e. e = 3)]] :: tok list list"
  let ?E = "\<lparr>contexts = [0], not_outermost = True, xml = False\<rparr>"
  obtain ms n' where c: "compile ?g 0 = (ms, n')" by (cases "compile ?g 0")
  obtain rs s' where r: "superMatcher small_dom ?E ms [1, 2, 3, 4, 5] minit = (rs, s')"
    by (cases "superMatcher small_dom ?E ms [1, 2, 3, 4, 5] minit")
  have w: "swf minit" by (simp add: swf_def minit_def)
  have "fst (superMatcher small_dom ?E (fst (compile ?g 0)) [1, 2, 3, 4, 5] minit) = [3, 4, 5]" by code_simp
  with c r have "rs = [3, 4, 5]" by simp
  with compiled_selects_meaning [OF small_dom_wf w c r] c r show ?thesis by auto
qed

end
