(* ===== verification/Selector_Filters.thy ===== *)
theory Selector_Filters
  imports Js_Prelude
begin

text \<open>
  The simple filters of the selector engine Sizzle in jquery.js: TAG, CLASS, ATTR, CHILD with the
  positions it caches in the parent and in the nodes, the pseudos about the state of an element, the
  positional pseudos over a set, and the caches of limited size. A node is what the filters read of
  it. Escapes in selectors are taken as resolved.
\<close>

section \<open>Nodes\<close>

record enode =
  nodeType :: nat
  nodeName :: string
  className :: string
  attribute :: "string \<Rightarrow> string option"
  type_prop :: string
  disabled_prop :: "bool option"
  checked_prop :: bool
  selected_prop :: bool
  child_types :: "nat list"      \<comment> \<open>the nodeType of each child\<close>

text \<open>The white space of selectors.\<close>

definition css_ws :: "char \<Rightarrow> bool" where
  "css_ws c \<longleftrightarrow> c \<in> {CHR 0x20, CHR 0x09, CHR 0x0D, CHR 0x0A, CHR 0x0C}"

section \<open>Tags, classes, attributes\<close>

definition filter_TAG :: "string \<Rightarrow> enode \<Rightarrow> bool" where
  "filter_TAG nodeNameSelector elem \<longleftrightarrow>
     (if nodeNameSelector = ''*'' then True
      else nodeName elem \<noteq> [] \<and> to_lower (nodeName elem) = to_lower nodeNameSelector)"

text \<open>The pattern of a class name: the name between white space or the ends.\<close>

fun class_from :: "bool \<Rightarrow> string \<Rightarrow> string \<Rightarrow> bool" where
  "class_from ok name [] = (ok \<and> name = [])"
| "class_from ok name (c # cs) =
     ((ok \<and> starts_with name (c # cs) \<and> (case drop (length name) (c # cs) of [] \<Rightarrow> True | d # _ \<Rightarrow> css_ws d))
      \<or> class_from (css_ws c) name cs)"

definition filter_CLASS :: "string \<Rightarrow> enode \<Rightarrow> bool" where
  "filter_CLASS name elem \<longleftrightarrow>
     class_from True name (if className elem \<noteq> [] then className elem
       else case attribute elem ''class'' of Some v \<Rightarrow> v | None \<Rightarrow> [])"

text \<open>\<open>replace(rwhitespace, " ")\<close>: every run of white space becomes one space.\<close>

fun collapse_ws :: "bool \<Rightarrow> string \<Rightarrow> string" where
  "collapse_ws in_run [] = []"
| "collapse_ws in_run (c # cs) =
     (if css_ws c then (if in_run then collapse_ws True cs else CHR '' '' # collapse_ws True cs)
      else c # collapse_ws False cs)"

datatype attr_op = AHas | AEq | ANe | APrefix | ASubstr | ASuffix | AIncludes | ADash

text \<open>The preFilter of ATTR pads the value of ~=.\<close>

definition preFilter_ATTR :: "attr_op \<Rightarrow> string \<Rightarrow> string" where
  "preFilter_ATTR operator v = (if operator = AIncludes then '' '' @ v @ '' '' else v)"

definition filter_ATTR :: "string \<Rightarrow> attr_op \<Rightarrow> string \<Rightarrow> enode \<Rightarrow> bool" where
  "filter_ATTR name operator check elem =
     (case attribute elem name of
        None \<Rightarrow> operator = ANe
      | Some result \<Rightarrow>
          (case operator of
             AHas \<Rightarrow> True
           | AEq \<Rightarrow> result = check
           | ANe \<Rightarrow> result \<noteq> check
           | APrefix \<Rightarrow> check \<noteq> [] \<and> index_of_str result check = 0
           | ASubstr \<Rightarrow> check \<noteq> [] \<and> index_of_str result check > -1
           | ASuffix \<Rightarrow> check \<noteq> [] \<and> drop (length result - length check) result = check
           | AIncludes \<Rightarrow> index_of_str ('' '' @ collapse_ws False result @ '' '') check > -1
           | ADash \<Rightarrow> result = check \<or> take (length check + 1) result = check @ ''-''))"

section \<open>Children by position\<close>

text \<open>
  The preFilter of CHILD computes a and b of an+b from the captures of the argument: the whole
  argument, the part with n, its sign and digits, and the sign and digits behind it. Empty captures
  and absent ones are both the empty string: either is false.
\<close>

fun digits_val :: "nat \<Rightarrow> string \<Rightarrow> nat" where
  "digits_val n [] = n"
| "digits_val n (c # cs) = digits_val (10 * n + (of_char c - 48)) cs"

definition signed_val :: "string \<Rightarrow> string \<Rightarrow> int" where
  "signed_val sign digits = (if sign = ''-'' then - int (digits_val 0 digits) else int (digits_val 0 digits))"

definition preFilter_CHILD :: "string \<Rightarrow> string \<Rightarrow> string \<Rightarrow> string \<Rightarrow> string \<Rightarrow> string \<Rightarrow> int \<times> int" where
  "preFilter_CHILD arg xn sign digits ysign ydigits =
     (if xn \<noteq> [] then signed_val sign (if digits \<noteq> [] then digits else ''1'')
      else 2 * (if arg = ''even'' \<or> arg = ''odd'' then 1 else 0),
      if ysign @ ydigits \<noteq> [] then signed_val ysign ydigits
      else if arg = ''odd'' then 1 else 0)"

text \<open>The last test: a remainder by 0 is NaN and equals nothing.\<close>

definition nth_test :: "int \<Rightarrow> int \<Rightarrow> int \<Rightarrow> bool" where
  "nth_test a b pos =
     (let diff = pos - b in
      diff = a \<or> (a \<noteq> 0 \<and> a dvd diff \<and> diff div a \<ge> 0))"

text \<open>
  The siblings are a list of nodes, each with whether it is an element. The scan counts elements from
  an index on until it meets the element sought.
\<close>

fun scan :: "(nat \<Rightarrow> bool) \<Rightarrow> nat \<Rightarrow> nat \<Rightarrow> nat \<Rightarrow> nat list \<Rightarrow> (nat \<times> nat) option" where
  "scan counts elem index diff [] = None"
| "scan counts elem index diff (node # nodes) =
     (let diff' = (if counts node then Suc diff else diff) in
      if counts node \<and> node = elem then Some (index, diff') else scan counts elem (Suc index) diff' nodes)"

text \<open>
  :nth-child remembers in the parent the index and the position of the element found last in this
  run. The next search goes on behind it, and from the start when it meets the end. An index of 0 is
  false and not used.
\<close>

record child_cache =
  parent_cache :: "(nat \<times> nat \<times> nat) option"      \<comment> \<open>run, nodeIndex, diff\<close>
  node_cache :: "nat \<Rightarrow> (nat \<times> nat) option"        \<comment> \<open>run, diff: for :nth-last-child\<close>

definition seek_forward :: "(nat \<Rightarrow> bool) \<Rightarrow> nat list \<Rightarrow> nat \<Rightarrow> nat \<Rightarrow> child_cache \<Rightarrow> nat option \<times> child_cache" where
  "seek_forward is_el nodes elem dirruns s =
     (let restart = scan is_el elem 0 0 nodes;
          found =
            (case parent_cache s of
               Some (run, nodeIndex, diff) \<Rightarrow>
                 if run = dirruns \<and> nodeIndex \<noteq> 0
                 then (case scan is_el elem (Suc nodeIndex) diff (drop (Suc nodeIndex) nodes) of Some r \<Rightarrow> Some r | None \<Rightarrow> restart)
                 else restart
             | None \<Rightarrow> restart) in
      case found of
        Some (i, diff) \<Rightarrow> (Some diff, s\<lparr>parent_cache := Some (dirruns, i, diff)\<rparr>)
      | None \<Rightarrow> (None, s))"

text \<open>:nth-last-child remembers the position of every element it passes.\<close>

fun scan_back :: "(nat \<Rightarrow> bool) \<Rightarrow> nat \<Rightarrow> nat \<Rightarrow> nat \<Rightarrow> nat list \<Rightarrow> child_cache \<Rightarrow> nat option \<times> child_cache" where
  "scan_back is_el elem dirruns diff [] s = (None, s)"
| "scan_back is_el elem dirruns diff (node # nodes) s =
     (if is_el node then
        (let s' = s\<lparr>node_cache := (node_cache s)(node := Some (dirruns, Suc diff))\<rparr> in
         if node = elem then (Some (Suc diff), s') else scan_back is_el elem dirruns (Suc diff) nodes s')
      else scan_back is_el elem dirruns diff nodes s)"

definition seek_backward :: "(nat \<Rightarrow> bool) \<Rightarrow> nat list \<Rightarrow> nat \<Rightarrow> nat \<Rightarrow> child_cache \<Rightarrow> nat option \<times> child_cache" where
  "seek_backward is_el nodes elem dirruns s =
     (case node_cache s elem of
        Some (run, diff) \<Rightarrow> if run = dirruns then (Some diff, s) else scan_back is_el elem dirruns 0 (rev nodes) s
      | None \<Rightarrow> scan_back is_el elem dirruns 0 (rev nodes) s)"

text \<open>
  :nth-child(an+b) and :nth-last-child(an+b) of an element below a parent, outside XML; the -of-type
  variants count the elements of the same name and cache nothing. A loop that falls off the end, where
  the element is not among the children of its parent, leaves a count of 0.
\<close>

definition filter_nth :: "bool \<Rightarrow> int \<Rightarrow> int \<Rightarrow> (nat \<Rightarrow> bool) \<Rightarrow> nat list \<Rightarrow> nat \<Rightarrow> nat \<Rightarrow> child_cache \<Rightarrow> bool \<times> child_cache" where
  "filter_nth forward a b is_el nodes elem dirruns s =
     (if a = 1 \<and> b = 0 then (True, s)
      else
        (case (if forward then seek_forward is_el nodes elem dirruns s else seek_backward is_el nodes elem dirruns s) of
           (Some diff, s') \<Rightarrow> (nth_test a b (int diff), s')
         | (None, s') \<Rightarrow> (nth_test a b 0, s')))"

definition filter_nth_of_type :: "bool \<Rightarrow> int \<Rightarrow> int \<Rightarrow> (nat \<Rightarrow> string) \<Rightarrow> nat list \<Rightarrow> nat \<Rightarrow> bool" where
  "filter_nth_of_type forward a b name nodes elem =
     (if a = 1 \<and> b = 0 then True
      else
        (case scan (\<lambda>n. to_lower (name n) = to_lower (name elem)) elem 0 0 (if forward then nodes else rev nodes) of
           Some (_, diff) \<Rightarrow> nth_test a b (int diff)
         | None \<Rightarrow> nth_test a b 0))"

text \<open>:first-child, :last-child, :only-child: no counting sibling before, behind, or on either side.\<close>

datatype child_kind = FirstChild | LastChild | OnlyChild

definition filter_simple :: "child_kind \<Rightarrow> (nat \<Rightarrow> bool) \<Rightarrow> nat list \<Rightarrow> nat \<Rightarrow> bool" where
  "filter_simple kind counts nodes elem =
     (let before = takeWhile (\<lambda>n. n \<noteq> elem) nodes;
          behind = tl (dropWhile (\<lambda>n. n \<noteq> elem) nodes) in
      case kind of
        FirstChild \<Rightarrow> \<not> list_ex counts before
      | LastChild \<Rightarrow> \<not> list_ex counts behind
      | OnlyChild \<Rightarrow> \<not> list_ex counts before \<and> \<not> list_ex counts behind)"

section \<open>Pseudos about an element\<close>

definition pseudo_enabled :: "enode \<Rightarrow> bool" where
  "pseudo_enabled elem \<longleftrightarrow> disabled_prop elem = Some False"

definition pseudo_disabled :: "enode \<Rightarrow> bool" where
  "pseudo_disabled elem \<longleftrightarrow> disabled_prop elem = Some True"

definition pseudo_checked :: "enode \<Rightarrow> bool" where
  "pseudo_checked elem \<longleftrightarrow>
     (let name = to_lower (nodeName elem) in
      (name = ''input'' \<and> checked_prop elem) \<or> (name = ''option'' \<and> selected_prop elem))"

definition pseudo_selected :: "enode \<Rightarrow> bool" where
  "pseudo_selected elem \<longleftrightarrow> selected_prop elem"

definition pseudo_empty :: "enode \<Rightarrow> bool" where
  "pseudo_empty elem \<longleftrightarrow> \<not> list_ex (\<lambda>t. t < 6) (child_types elem)"

definition pseudo_parent :: "enode \<Rightarrow> bool" where
  "pseudo_parent elem \<longleftrightarrow> \<not> pseudo_empty elem"

definition pseudo_header :: "enode \<Rightarrow> bool" where
  "pseudo_header elem \<longleftrightarrow>
     (case nodeName elem of [h, d] \<Rightarrow> lower_char h = CHR ''h'' \<and> d \<in> set ''0123456789'' | _ \<Rightarrow> False)"

definition pseudo_input :: "enode \<Rightarrow> bool" where
  "pseudo_input elem \<longleftrightarrow> to_lower (nodeName elem) \<in> {''input'', ''select'', ''textarea'', ''button''}"

definition pseudo_button :: "enode \<Rightarrow> bool" where
  "pseudo_button elem \<longleftrightarrow>
     (let name = to_lower (nodeName elem) in name = ''input'' \<and> type_prop elem = ''button'' \<or> name = ''button'')"

definition pseudo_text :: "enode \<Rightarrow> bool" where
  "pseudo_text elem \<longleftrightarrow> to_lower (nodeName elem) = ''input'' \<and> type_prop elem = ''text''
     \<and> (case attribute elem ''type'' of None \<Rightarrow> True | Some v \<Rightarrow> to_lower v = ''text'')"

definition createInputPseudo :: "string \<Rightarrow> enode \<Rightarrow> bool" where
  "createInputPseudo type elem \<longleftrightarrow> to_lower (nodeName elem) = ''input'' \<and> type_prop elem = type"

definition createButtonPseudo :: "string \<Rightarrow> enode \<Rightarrow> bool" where
  "createButtonPseudo type elem \<longleftrightarrow>
     (let name = to_lower (nodeName elem) in (name = ''input'' \<or> name = ''button'') \<and> type_prop elem = type)"

section \<open>Positional pseudos\<close>

datatype positional = PFirst | PLast | PEq int | PEven | POdd | PLt int | PGt int

text \<open>The index functions; a loop over indices is the list of them in the order of the pushes.\<close>

definition matchIndexes :: "positional \<Rightarrow> int \<Rightarrow> int list" where
  "matchIndexes p len =
     (case p of
        PFirst \<Rightarrow> [0]
      | PLast \<Rightarrow> [len - 1]
      | PEq argument \<Rightarrow> [if argument < 0 then argument + len else argument]
      | PEven \<Rightarrow> map (\<lambda>i. 2 * int i) [0..<nat ((len + 1) div 2)]
      | POdd \<Rightarrow> map (\<lambda>i. 2 * int i + 1) [0..<nat (len div 2)]
      | PLt argument \<Rightarrow> (let i = (if argument < 0 then argument + len else argument) in rev (map int [0..<nat i]))
      | PGt argument \<Rightarrow>
          (let i = (if argument < 0 then argument + len else argument) in map (\<lambda>k. i + 1 + int k) [0..<nat (len - (i + 1))]))"

text \<open>
  createPositionalPseudo from the last index to the first: a node at the index moves from the seed,
  where false is left, to the matches. None is false or a hole.
\<close>

definition take_match :: "int \<Rightarrow> nat option list \<times> nat option list \<Rightarrow> nat option list \<times> nat option list" where
  "take_match j sm =
     (case sm of (seed, matches) \<Rightarrow>
        if 0 \<le> j \<and> j < int (length seed) \<and> seed ! nat j \<noteq> None
        then (seed[nat j := None], matches[nat j := seed ! nat j]) else (seed, matches))"

definition positional_run :: "positional \<Rightarrow> nat option list \<Rightarrow> nat option list \<times> nat option list" where
  "positional_run p seed =
     fold take_match (rev (matchIndexes p (int (length seed)))) (seed, replicate (length seed) None)"

section \<open>Caches of limited size\<close>

record 'v limited_cache =
  cache_keys :: "string list"
  cache_map :: "string \<Rightarrow> 'v option"

definition cache_put :: "nat \<Rightarrow> string \<Rightarrow> 'v \<Rightarrow> 'v limited_cache \<Rightarrow> 'v limited_cache" where
  "cache_put cacheLength key v c =
     (let keys = cache_keys c @ [key @ '' ''];
          (keys, m) = (if length keys > cacheLength then (tl keys, (cache_map c)(hd keys := None)) else (keys, cache_map c)) in
      c\<lparr>cache_keys := keys, cache_map := m(key @ '' '' := Some v)\<rparr>)"

definition cache_get :: "'v limited_cache \<Rightarrow> string \<Rightarrow> 'v option" where
  "cache_get c key = cache_map c (key @ '' '')"

definition empty_cache :: "'v limited_cache" where
  "empty_cache = \<lparr>cache_keys = [], cache_map = (\<lambda>_. None)\<rparr>"

section \<open>Words of a class attribute\<close>

text \<open>The words between white space.\<close>

fun css_words_aux :: "string \<Rightarrow> string \<Rightarrow> string list" where
  "css_words_aux cur [] = (if cur = [] then [] else [cur])"
| "css_words_aux cur (c # cs) =
     (if css_ws c then (if cur = [] then css_words_aux [] cs else cur # css_words_aux [] cs)
      else css_words_aux (cur @ [c]) cs)"

definition css_words :: "string \<Rightarrow> string list" where
  "css_words s = css_words_aux [] s"

definition css_word :: "string \<Rightarrow> bool" where
  "css_word w \<longleftrightarrow> w \<noteq> [] \<and> (\<forall>c\<in>set w. \<not> css_ws c)"

text \<open>A prefix that ends where white space or the end follows.\<close>

definition at_front :: "string \<Rightarrow> string \<Rightarrow> bool" where
  "at_front name s \<longleftrightarrow> starts_with name s \<and> (case drop (length name) s of [] \<Rightarrow> True | d # _ \<Rightarrow> css_ws d)"

lemma class_from_True: "name \<noteq> [] \<Longrightarrow> class_from True name s = (at_front name s \<or> class_from False name s)"
  by (cases s) (auto simp: at_front_def starts_with_iff)

lemma starts_with_append_both: "starts_with (a @ b) (a @ s) = starts_with b s"
  by (induction a) simp_all

lemma starts_with_drop: "starts_with (c # cs) (d # ds) = (c = d \<and> starts_with cs ds)"
  by simp

lemma at_front_Cons: "at_front (c # w) (d # s) = (c = d \<and> at_front w s)"
  by (auto simp: at_front_def)

lemma at_front_Nil: "at_front w [] = (w = [])"
  by (cases w) (simp_all add: at_front_def)

lemma css_words_aux_mem:
  assumes "css_word name" "\<forall>c\<in>set cur. \<not> css_ws c"
  shows "name \<in> set (css_words_aux cur s) \<longleftrightarrow> (\<exists>w. name = cur @ w \<and> at_front w s) \<or> class_from False name s"
  using assms(2)
proof (induction s arbitrary: cur)
  case Nil
  then show ?case using assms(1) by (auto simp: at_front_Nil css_word_def)
next
  case (Cons c cs)
  have n: "name \<noteq> []" "\<forall>c\<in>set name. \<not> css_ws c" using assms(1) by (simp_all add: css_word_def)
  show ?case
  proof (cases "css_ws c")
    case True
    have "(\<exists>w. name = cur @ w \<and> at_front w (c # cs)) \<longleftrightarrow> name = cur"
    proof
      assume "\<exists>w. name = cur @ w \<and> at_front w (c # cs)"
      then obtain w where w: "name = cur @ w" "at_front w (c # cs)" by blast
      then have "w = []" using n True by (cases w) (auto simp: at_front_Cons)
      with w show "name = cur" by simp
    next
      assume "name = cur"
      then show "\<exists>w. name = cur @ w \<and> at_front w (c # cs)"
        using True by (intro exI [of _ "[]"]) (simp add: at_front_def)
    qed
    moreover have "name \<in> set (css_words_aux [] cs) \<longleftrightarrow> at_front name cs \<or> class_from False name cs"
      using Cons.IH [of "[]"] by simp
    ultimately show ?thesis using True n class_from_True [OF n(1), of cs] by auto
  next
    case False
    have "(\<exists>w. name = cur @ w \<and> at_front w (c # cs)) \<longleftrightarrow> (\<exists>w. name = (cur @ [c]) @ w \<and> at_front w cs)" if "name \<noteq> cur"
    proof
      assume "\<exists>w. name = cur @ w \<and> at_front w (c # cs)"
      then obtain w where w: "name = cur @ w" "at_front w (c # cs)" by blast
      with that obtain w' where "w = c # w'" "at_front w' cs" by (cases w) (auto simp: at_front_Cons)
      with w show "\<exists>w. name = (cur @ [c]) @ w \<and> at_front w cs" by auto
    next
      assume "\<exists>w. name = (cur @ [c]) @ w \<and> at_front w cs"
      then obtain w where "name = cur @ c # w" "at_front w cs" by auto
      then show "\<exists>w. name = cur @ w \<and> at_front w (c # cs)" by (intro exI [of _ "c # w"]) (simp add: at_front_Cons)
    qed
    moreover have "\<not> (\<exists>w. cur = cur @ w \<and> at_front w (c # cs))" using False by (auto simp: at_front_def)
    moreover have "\<not> (\<exists>w. cur = (cur @ [c]) @ w \<and> at_front w cs)" by simp
    ultimately show ?thesis using Cons.IH [of "cur @ [c]"] Cons.prems False by auto
  qed
qed

lemma class_from_words: "css_word name \<Longrightarrow> class_from True name s \<longleftrightarrow> name \<in> set (css_words s)"
  using css_words_aux_mem [of name "[]" s] class_from_True [of name s] by (simp add: css_words_def css_word_def)

section \<open>Positions\<close>

lemma nth_test_iff: "nth_test a b pos \<longleftrightarrow> (\<exists>n::nat. pos = a * int n + b)"
proof
  assume "nth_test a b pos"
  then consider "pos - b = a" | "a \<noteq> 0" "a dvd pos - b" "(pos - b) div a \<ge> 0" by (auto simp: nth_test_def Let_def)
  then show "\<exists>n::nat. pos = a * int n + b"
  proof cases
    case 1
    then show ?thesis by (intro exI [of _ 1]) simp
  next
    case 2
    then have "pos = a * int (nat ((pos - b) div a)) + b" by simp
    then show ?thesis by blast
  qed
next
  assume "\<exists>n::nat. pos = a * int n + b"
  then obtain n where "pos = a * int n + b" by blast
  then show "nth_test a b pos" by (cases "a = 0") (simp_all add: nth_test_def)
qed

text \<open>The position of an element: the number of elements up to it.\<close>

definition pos_in :: "(nat \<Rightarrow> bool) \<Rightarrow> nat list \<Rightarrow> nat \<Rightarrow> nat" where
  "pos_in counts nodes elem = Suc (length (filter counts (takeWhile (\<lambda>n. n \<noteq> elem) nodes)))"

lemma scan_finds:
  assumes "counts elem" "elem \<in> set nodes"
  shows "scan counts elem i d nodes = Some (i + length (takeWhile (\<lambda>n. n \<noteq> elem) nodes), d + pos_in counts nodes elem)"
  using assms(2) by (induction nodes arbitrary: i d) (use assms(1) in \<open>auto simp: pos_in_def Let_def\<close>)

lemma scan_misses: "elem \<notin> set nodes \<Longrightarrow> scan counts elem i d nodes = None"
  by (induction nodes arbitrary: i d) (auto simp: Let_def)

lemma takeWhile_skip:
  "elem \<in> set (drop k nodes) \<Longrightarrow> distinct nodes \<Longrightarrow>
    takeWhile (\<lambda>n. n \<noteq> elem) nodes = take k nodes @ takeWhile (\<lambda>n. n \<noteq> elem) (drop k nodes)"
proof -
  assume a: "elem \<in> set (drop k nodes)" "distinct nodes"
  have "distinct (take k nodes @ drop k nodes)" using a(2) by simp
  then have "elem \<notin> set (take k nodes)" using a(1) by (auto simp del: append_take_drop_id)
  then have "takeWhile (\<lambda>n. n \<noteq> elem) (take k nodes @ drop k nodes) = take k nodes @ takeWhile (\<lambda>n. n \<noteq> elem) (drop k nodes)"
    by (intro takeWhile_append2) auto
  then show ?thesis by simp
qed

text \<open>The caches of a run hold true positions.\<close>

definition cache_right :: "(nat \<Rightarrow> bool) \<Rightarrow> nat list \<Rightarrow> nat \<Rightarrow> child_cache \<Rightarrow> bool" where
  "cache_right is_el nodes dirruns s \<longleftrightarrow>
     (case parent_cache s of
        Some (run, i, d) \<Rightarrow> run = dirruns \<longrightarrow> i < length nodes \<and> d = length (filter is_el (take (Suc i) nodes))
      | None \<Rightarrow> True)
     \<and> (\<forall>n d. node_cache s n = Some (dirruns, d) \<longrightarrow> n \<in> set nodes \<longrightarrow> is_el n \<longrightarrow> d = pos_in is_el (rev nodes) n)"

lemma take_Suc_takeWhile:
  assumes "elem \<in> set nodes"
  shows "length (takeWhile (\<lambda>n. n \<noteq> elem) nodes) < length nodes
    \<and> take (Suc (length (takeWhile (\<lambda>n. n \<noteq> elem) nodes))) nodes = takeWhile (\<lambda>n. n \<noteq> elem) nodes @ [elem]"
  using assms by (induction nodes) auto

lemma seek_forward_right:
  assumes "cache_right is_el nodes r s" "distinct nodes" "elem \<in> set nodes" "is_el elem"
  shows "\<exists>s'. seek_forward is_el nodes elem r s = (Some (pos_in is_el nodes elem), s') \<and> cache_right is_el nodes r s'"
proof -
  let ?i = "length (takeWhile (\<lambda>n. n \<noteq> elem) nodes)" and ?p = "pos_in is_el nodes elem"
  have restart: "scan is_el elem 0 0 nodes = Some (?i, ?p)" using scan_finds [of is_el elem nodes 0 0] assms(3,4) by simp
  have skip: "scan is_el elem (Suc k) d (drop (Suc k) nodes) = Some (?i, ?p)"
    if "elem \<in> set (drop (Suc k) nodes)" "d = length (filter is_el (take (Suc k) nodes))" "k < length nodes" for k d
    using scan_finds [of is_el elem "drop (Suc k) nodes" "Suc k" d] takeWhile_skip [OF that(1) assms(2)] that assms(4)
    by (simp add: pos_in_def)
  have "seek_forward is_el nodes elem r s = (Some ?p, s\<lparr>parent_cache := Some (r, ?i, ?p)\<rparr>)"
  proof (cases "parent_cache s")
    case None
    then show ?thesis by (simp add: seek_forward_def restart Let_def)
  next
    case (Some c)
    obtain run k d where c: "c = (run, k, d)" by (cases c)
    show ?thesis
    proof (cases "run = r \<and> k \<noteq> 0")
      case False
      with Some c show ?thesis by (auto simp: seek_forward_def restart Let_def)
    next
      case True
      then have k: "k < length nodes" "d = length (filter is_el (take (Suc k) nodes))"
        using assms(1) Some c by (simp_all add: cache_right_def)
      show ?thesis
      proof (cases "elem \<in> set (drop (Suc k) nodes)")
        case in_rest: True
        with skip [OF in_rest k(2,1)] True Some c show ?thesis by (simp add: seek_forward_def restart Let_def)
      next
        case False
        with scan_misses [OF False] True Some c show ?thesis by (simp add: seek_forward_def restart Let_def)
      qed
    qed
  qed
  moreover have "cache_right is_el nodes r (s\<lparr>parent_cache := Some (r, ?i, ?p)\<rparr>)"
    using take_Suc_takeWhile [OF assms(3)] assms(1,4) by (simp add: cache_right_def pos_in_def)
  ultimately show ?thesis by blast
qed

text \<open>The back scan writes true positions, and reaches the element.\<close>

lemma pos_in_append: "elem \<notin> set xs \<Longrightarrow> pos_in p (xs @ elem # ys) elem = Suc (length (filter p xs))"
  by (induction xs) (auto simp: pos_in_def)

lemma scan_back_right:
  assumes "cache_right is_el nodes r s" "rev nodes = xs @ ys" "distinct nodes" "elem \<in> set ys" "is_el elem"
  shows "\<exists>s'. scan_back is_el elem r (length (filter is_el xs)) ys s = (Some (pos_in is_el (rev nodes) elem), s')
    \<and> cache_right is_el nodes r s'"
  using assms(1,2,4)
proof (induction ys arbitrary: xs s)
  case (Cons y ys)
  have "distinct (xs @ y # ys)" using Cons.prems(2) assms(3) by (metis distinct_rev)
  then have "y \<notin> set xs" by simp
  then have py: "pos_in is_el (rev nodes) y = Suc (length (filter is_el xs))"
    using Cons.prems(2) pos_in_append by simp
  define s1 where "s1 = (if is_el y then s\<lparr>node_cache := (node_cache s)(y := Some (r, Suc (length (filter is_el xs))))\<rparr> else s)"
  have c1: "cache_right is_el nodes r s1" using Cons.prems(1) py by (auto simp: cache_right_def s1_def)
  show ?case
  proof (cases "y = elem")
    case True
    with assms(5) py c1 show ?thesis by (simp add: s1_def)
  next
    case False
    have "length (filter is_el (xs @ [y])) = (if is_el y then Suc (length (filter is_el xs)) else length (filter is_el xs))" by simp
    with Cons.IH [OF c1, of "xs @ [y]"] Cons.prems False show ?thesis by (auto simp: s1_def split: if_splits)
  qed
qed simp

lemma seek_backward_right:
  assumes "cache_right is_el nodes r s" "distinct nodes" "elem \<in> set nodes" "is_el elem"
  shows "\<exists>s'. seek_backward is_el nodes elem r s = (Some (pos_in is_el (rev nodes) elem), s') \<and> cache_right is_el nodes r s'"
proof -
  from scan_back_right [OF assms(1), of "[]" "rev nodes" elem] assms
  obtain s' where sb: "scan_back is_el elem r 0 (rev nodes) s = (Some (pos_in is_el (rev nodes) elem), s')"
    "cache_right is_el nodes r s'" by auto
  show ?thesis
  proof (cases "\<exists>d. node_cache s elem = Some (r, d)")
    case True
    then obtain d where "node_cache s elem = Some (r, d)" by blast
    with assms show ?thesis by (auto simp: seek_backward_def cache_right_def)
  next
    case False
    with sb show ?thesis by (auto simp: seek_backward_def split: option.split)
  qed
qed

section \<open>Positional pseudos select by index\<close>

text \<open>The indices that a positional pseudo is meant to select in a set of a size.\<close>

definition wanted :: "positional \<Rightarrow> int \<Rightarrow> int \<Rightarrow> bool" where
  "wanted p len j \<longleftrightarrow>
     (let norm = (\<lambda>n. if n < 0 then n + len else n) in
      case p of PFirst \<Rightarrow> j = 0 | PLast \<Rightarrow> j = len - 1 | PEq n \<Rightarrow> j = norm n | PEven \<Rightarrow> even j | POdd \<Rightarrow> odd j
      | PLt n \<Rightarrow> j < norm n | PGt n \<Rightarrow> norm n < j)"

lemma map_int_mem: "0 \<le> j \<Longrightarrow> (j \<in> int ` {0..<n}) = (j < int n)"
  by (metis atLeast0LessThan imageE imageI lessThan_iff nat_0_le of_nat_less_iff)

lemma matchIndexes_wanted:
  assumes "0 \<le> j" "j < len"
  shows "j \<in> set (matchIndexes p len) \<longleftrightarrow> wanted p len j"
proof (cases p)
  case PEven
  have "j \<in> set (matchIndexes p len) \<longleftrightarrow> even j"
  proof
    assume "even j"
    then obtain k where "j = 2 * k" by (rule evenE)
    with assms have k: "j = 2 * int (nat k)" "nat k \<in> {0..<nat ((len + 1) div 2)}" by auto
    show "j \<in> set (matchIndexes p len)" using PEven image_eqI [where f = "\<lambda>i. 2 * int i", OF k] by (simp add: matchIndexes_def)
  qed (auto simp: matchIndexes_def PEven)
  with PEven show ?thesis by (simp add: wanted_def)
next
  case POdd
  have "j \<in> set (matchIndexes p len) \<longleftrightarrow> odd j"
  proof
    assume "odd j"
    then obtain k where "j = 2 * k + 1" by (rule oddE)
    with assms have "0 \<le> k" "k < len div 2" by presburger+
    with \<open>j = 2 * k + 1\<close> have k: "j = 2 * int (nat k) + 1" "nat k \<in> {0..<nat (len div 2)}" by auto
    show "j \<in> set (matchIndexes p len)" using POdd image_eqI [where f = "\<lambda>i. 2 * int i + 1", OF k] by (simp add: matchIndexes_def)
  qed (auto simp: matchIndexes_def POdd)
  with POdd show ?thesis by (simp add: wanted_def)
next
  case (PLt n)
  have "j \<in> int ` {0..<nat i} \<longleftrightarrow> j < i" for i using assms map_int_mem [of j "nat i"] by auto
  with PLt show ?thesis by (simp add: matchIndexes_def wanted_def Let_def)
next
  case (PGt n)
  have g: "j \<in> (\<lambda>k. i + 1 + int k) ` {0..<nat (len - (i + 1))} \<longleftrightarrow> i < j" for i
  proof
    assume "i < j"
    with assms have "j = i + 1 + int (nat (j - i - 1))" "nat (j - i - 1) < nat (len - (i + 1))" by auto
    then show "j \<in> (\<lambda>k. i + 1 + int k) ` {0..<nat (len - (i + 1))}" by (metis atLeastLessThan_iff image_eqI zero_le)
  qed auto
  show ?thesis using g PGt by (simp add: matchIndexes_def wanted_def Let_def)
qed (auto simp: matchIndexes_def wanted_def)

lemma take_match_fold:
  assumes "length seed = n" "length matches = n"
  shows "case fold take_match js (seed, matches) of (seed', matches') \<Rightarrow>
     length seed' = n \<and> length matches' = n
     \<and> (\<forall>i<n. seed' ! i = (if int i \<in> set js then None else seed ! i)
          \<and> matches' ! i = (if int i \<in> set js \<and> seed ! i \<noteq> None then seed ! i else matches ! i))"
  using assms
proof (induction js arbitrary: seed matches)
  case Nil
  then show ?case by simp
next
  case (Cons j js)
  obtain seed1 matches1 where s1: "take_match j (seed, matches) = (seed1, matches1)" by (cases "take_match j (seed, matches)")
  have l: "length seed1 = n" "length matches1 = n" using s1 Cons.prems by (auto simp: take_match_def split: if_splits)
  have v: "seed1 ! i = (if int i = j then None else seed ! i)
      \<and> matches1 ! i = (if int i = j \<and> seed ! i \<noteq> None then seed ! i else matches ! i)" if "i < n" for i
    using s1 Cons.prems that by (auto simp: take_match_def nth_list_update split: if_splits)
  from Cons.IH [OF l] v show ?case by (auto simp: s1 split: prod.splits)
qed

section \<open>Properties\<close>

text \<open>
  The class filter, a search for the name between white space, accepts an element exactly when the
  name is one of the words of its class.
\<close>

theorem class_filter_is_word:
  assumes "css_word name"
  shows "filter_CLASS name elem \<longleftrightarrow>
    name \<in> set (css_words (if className elem \<noteq> [] then className elem
      else case attribute elem ''class'' of Some v \<Rightarrow> v | None \<Rightarrow> []))"
  unfolding filter_CLASS_def by (rule class_from_words [OF assms])

theorem class_filter_is_word_witness:
  "filter_CLASS ''btn'' \<lparr>nodeType = 1, nodeName = ''A'', className = ''btn-lg btn'', attribute = (\<lambda>_. None), type_prop = [],
     disabled_prop = None, checked_prop = False, selected_prop = False, child_types = []\<rparr>"
proof -
  have w: "css_word ''btn''" and m: "''btn'' \<in> set (css_words ''btn-lg btn'')" by code_simp+
  show ?thesis by (subst class_filter_is_word [OF w]) (simp add: m)
qed

text \<open>
  C26: With whatever earlier searches of the same run have cached in the parent and the nodes,
  :nth-child(an+b) and :nth-last-child(an+b) accept an element exactly when its position among the
  elements, from the front or the back, is a*n+b for a natural n, and the caches stay true.
\<close>

theorem nth_child_counts:
  assumes "cache_right is_el nodes r s" "distinct nodes" "elem \<in> set nodes" "is_el elem"
    "filter_nth forward a b is_el nodes elem r s = (res, s')"
  shows "(res \<longleftrightarrow> (\<exists>n::nat. int (pos_in is_el (if forward then nodes else rev nodes) elem) = a * int n + b))
    \<and> cache_right is_el nodes r s'"
proof (cases "a = 1 \<and> b = 0")
  case True
  with assms(1,5) show ?thesis by (auto simp: filter_nth_def)
next
  case False
  let ?seek = "if forward then seek_forward is_el nodes elem r s else seek_backward is_el nodes elem r s"
  obtain s1 where "?seek = (Some (pos_in is_el (if forward then nodes else rev nodes) elem), s1)" "cache_right is_el nodes r s1"
    using seek_forward_right [OF assms(1-4)] seek_backward_right [OF assms(1-4)] by (cases forward) auto
  with False assms(5) show ?thesis by (auto simp: filter_nth_def nth_test_iff)
qed

theorem nth_child_counts_witness:
  "filter_nth True 2 1 (\<lambda>n. n \<noteq> 11) [10, 11, 12, 13] 13 7
       \<lparr>parent_cache = Some (7, 2, 2), node_cache = (\<lambda>_. None)\<rparr>
     = (True, \<lparr>parent_cache = Some (7, 3, 3), node_cache = (\<lambda>_. None)\<rparr>)
   \<and> (\<exists>n::nat. int (pos_in (\<lambda>n. n \<noteq> 11) [10, 11, 12, 13] 13) = 2 * int n + 1)"
proof -
  let ?s = "\<lparr>parent_cache = Some (7, 2, 2), node_cache = (\<lambda>_. None)\<rparr>"
  have c: "cache_right (\<lambda>n. n \<noteq> 11) [10, 11, 12, 13] 7 ?s" by (simp add: cache_right_def)
  have r: "filter_nth True 2 1 (\<lambda>n. n \<noteq> 11) [10, 11, 12, 13] 13 7 ?s
      = (True, \<lparr>parent_cache = Some (7, 3, 3), node_cache = (\<lambda>_. None)\<rparr>)"
    by (simp add: filter_nth_def seek_forward_def nth_test_def)
  from nth_child_counts [OF c _ _ _ r] r show ?thesis by simp
qed

text \<open>
  A positional pseudo moves from the seed to the matches exactly the nodes at the indices it names
  (a negative argument counts from the end, an index outside selects nothing), and leaves every other
  node where it is.
\<close>

theorem positional_selects:
  "case positional_run p seed of (seed', matches) \<Rightarrow>
     length seed' = length seed \<and> length matches = length seed
     \<and> (\<forall>i<length seed.
          seed' ! i = (if wanted p (int (length seed)) (int i) then None else seed ! i)
          \<and> matches ! i = (if wanted p (int (length seed)) (int i) then seed ! i else None))"
proof -
  have "int i \<in> set (matchIndexes p (int (length seed))) \<longleftrightarrow> wanted p (int (length seed)) (int i)" if "i < length seed" for i
    using matchIndexes_wanted [of "int i" "int (length seed)" p] that by simp
  with take_match_fold [of seed "length seed" "replicate (length seed) None" "rev (matchIndexes p (int (length seed)))"]
  show ?thesis by (auto simp: positional_run_def split: prod.splits)
qed

theorem positional_selects_witness:
  "positional_run (PLt (-1)) [Some 4, None, Some 6] = ([None, None, Some 6], [Some 4, None, None])
   \<and> (fst (positional_run (PLt (-1)) [Some 4, None, Some 6]) ! 2
          = (if wanted (PLt (-1)) 3 2 then None else Some 6))"
proof -
  have r: "positional_run (PLt (-1)) [Some 4, None, Some 6] = ([None, None, Some 6], [Some 4, None, None])" by code_simp
  from positional_selects [where p = "PLt (-1)" and seed = "[Some 4, None, Some 6]"] r
  have "\<forall>i<3. fst (positional_run (PLt (-1)) [Some 4, None, Some 6]) ! i
      = (if wanted (PLt (-1)) 3 (int i) then None else [Some 4, None, Some 6] ! i)" by (simp add: numeral_3_eq_3)
  from this [rule_format, of 2] r show ?thesis by (simp split: if_splits)
qed

text \<open>
  A limited cache never holds more entries than its limit, in a list of keys of that length at most,
  and what was put last is read back.
\<close>

theorem cache_limited:
  assumes "0 < limit" "c = fold (\<lambda>(k, v). cache_put limit k v) puts empty_cache"
  shows "length (cache_keys c) \<le> limit \<and> card {k. cache_map c k \<noteq> None} \<le> limit
    \<and> cache_get (cache_put limit k v c) k = Some v"
proof -
  have i: "length (cache_keys c) \<le> limit \<and> {k. cache_map c k \<noteq> None} \<subseteq> set (cache_keys c)"
    using assms(2)
  proof (induction puts arbitrary: c rule: rev_induct)
    case Nil
    then show ?case by (simp add: empty_cache_def)
  next
    case (snoc p puts)
    obtain k v where p: "p = (k, v)" by (cases p)
    define c0 where "c0 = fold (\<lambda>(k, v). cache_put limit k v) puts empty_cache"
    have h: "length (cache_keys c0) \<le> limit" "{k. cache_map c0 k \<noteq> None} \<subseteq> set (cache_keys c0)"
      using snoc.IH [OF c0_def] by simp_all
    have "c = cache_put limit k v c0" using snoc.prems p by (simp add: c0_def)
    with h assms(1) show ?case
      by (cases "cache_keys c0") (auto simp: cache_put_def Let_def split: if_splits)
  qed
  then have "card {k. cache_map c k \<noteq> None} \<le> card (set (cache_keys c))" by (intro card_mono) simp_all
  also have "\<dots> \<le> length (cache_keys c)" by (rule card_length)
  finally show ?thesis using i by (simp add: cache_get_def cache_put_def Let_def split: prod.split)
qed

theorem cache_limited_witness:
  "\<exists>c. c = fold (\<lambda>(k, v). cache_put 2 k v) [(''a'', 1), (''b'', 2), (''c'', 3)] (empty_cache :: nat limited_cache)
     \<and> cache_get c ''a'' = None \<and> cache_get c ''c'' = Some 3 \<and> card {k. cache_map c k \<noteq> None} \<le> 2"
proof -
  let ?c = "fold (\<lambda>(k, v). cache_put 2 k v) [(''a'', 1), (''b'', 2), (''c'', 3)] (empty_cache :: nat limited_cache)"
  have g: "cache_get ?c ''a'' = None" "cache_get ?c ''c'' = Some 3" by code_simp+
  have "card {k. cache_map ?c k \<noteq> None} \<le> 2"
    using cache_limited [OF _ refl, of 2 "[(''a'', 1), (''b'', 2), (''c'', 3 :: nat)]"] by simp
  with g show ?thesis by blast
qed

text \<open>
  The expression of CHILD matches the keywords even and odd in any case, but its preFilter compares
  them in lower case only: :nth-child(ODD) is taken as 0n+0 and accepts no element.
\<close>

theorem upper_keyword_selects_nothing:
  assumes "to_lower arg \<in> {''even'', ''odd''}" "arg \<noteq> to_lower arg" "preFilter_CHILD arg [] [] [] [] [] = (a, b)"
  shows "a = 0 \<and> b = 0 \<and> \<not> nth_test a b (int (pos_in is_el nodes elem))"
proof -
  have "arg \<noteq> ''even''" "arg \<noteq> ''odd''" using assms(2) by (auto simp: to_lower_def lower_char_def)
  with assms(3) show ?thesis by (simp add: preFilter_CHILD_def nth_test_def pos_in_def)
qed

theorem upper_keyword_selects_nothing_witness:
  "preFilter_CHILD ''ODD'' [] [] [] [] [] = (0, 0) \<and> \<not> nth_test 0 0 (int (pos_in (\<lambda>_. True) [5, 6] 5))
   \<and> preFilter_CHILD ''odd'' [] [] [] [] [] = (2, 1)"
proof -
  have r: "preFilter_CHILD ''ODD'' [] [] [] [] [] = (0, 0)" "preFilter_CHILD ''odd'' [] [] [] [] [] = (2, 1)" by code_simp+
  have l: "to_lower ''ODD'' = ''odd''" by code_simp
  from upper_keyword_selects_nothing [OF _ _ r(1), of "\<lambda>_. True" "[5, 6]" 5] r l show ?thesis by simp
qed

text \<open>
  The operator ~= with an empty value, which by the specification selects nothing, accepts every
  element whose attribute is empty or begins or ends with white space.
\<close>

theorem empty_word_is_found:
  assumes "attribute elem name = Some v" "v = [] \<or> css_ws (hd v)"
  shows "filter_ATTR name AIncludes (preFilter_ATTR AIncludes []) elem"
proof -
  have "\<exists>t. '' '' @ collapse_ws False v @ '' '' = CHR '' '' # CHR '' '' # t"
    using assms(2) by (cases v) auto
  then obtain t where t: "'' '' @ collapse_ws False v @ '' '' = CHR '' '' # CHR '' '' # t" by blast
  have "index_of_str (CHR '' '' # CHR '' '' # t) ''  '' = 0" by (simp add: index_of_str_def)
  with assms(1) t show ?thesis by (simp add: filter_ATTR_def preFilter_ATTR_def)
qed

theorem empty_word_is_found_witness:
  "filter_ATTR ''rel'' AIncludes (preFilter_ATTR AIncludes [])
     \<lparr>nodeType = 1, nodeName = ''A'', className = [], attribute = (\<lambda>n. if n = ''rel'' then Some [] else None), type_prop = [],
       disabled_prop = None, checked_prop = False, selected_prop = False, child_types = []\<rparr>"
  by (rule empty_word_is_found [where v = "[]"]) simp_all

end
