(* ===== verification/Doc_Order.thy ===== *)
theory Doc_Order
  imports Js_Prelude "HOL-Library.List_Lexorder" "HOL-Library.Sublist"
begin

text \<open>
  The trees of jquery.js: the pointers from node to node, contains, the comparison of nodes by document order that
  the selector engine has for browsers without one of their own, and uniqueSort.
\<close>

section \<open>Trees\<close>

text \<open>
  A node of a tree has a type (1 element, 3 text, 8 comment, 9 document, 11 fragment), a value and children. The
  library moves no node here, so a node is named by its way down: the number of its tree, then the numbers of
  children. The first tree is the document; the others are detached.
\<close>

datatype dnode = DNode (node_type: nat) (node_value: string) (kids: "dnode list")

type_synonym node = "nat list"

fun sub :: "dnode list \<Rightarrow> node \<Rightarrow> dnode option" where
  "sub ts [] = None"
| "sub ts (i # p) = (if i < length ts then if p = [] then Some (ts ! i) else sub (kids (ts ! i)) p else None)"

definition n_kids :: "dnode list \<Rightarrow> node \<Rightarrow> nat" where
  "n_kids ts p = (case sub ts p of None \<Rightarrow> 0 | Some n \<Rightarrow> length (kids n))"

definition is_node :: "dnode list \<Rightarrow> node \<Rightarrow> bool" where
  "is_node ts p \<longleftrightarrow> sub ts p \<noteq> None"

definition nodeType :: "dnode list \<Rightarrow> node \<Rightarrow> nat" where
  "nodeType ts p = (case sub ts p of None \<Rightarrow> 0 | Some n \<Rightarrow> node_type n)"

definition parentNode :: "node \<Rightarrow> node option" where
  "parentNode p = (if length p \<le> 1 then None else Some (butlast p))"

definition nextSibling :: "dnode list \<Rightarrow> node \<Rightarrow> node option" where
  "nextSibling ts p =
     (if length p \<le> 1 \<or> n_kids ts (butlast p) \<le> Suc (last p) then None else Some (butlast p @ [Suc (last p)]))"

definition previousSibling :: "node \<Rightarrow> node option" where
  "previousSibling p = (if length p \<le> 1 \<or> last p = 0 then None else Some (butlast p @ [last p - 1]))"

definition firstChild :: "dnode list \<Rightarrow> node \<Rightarrow> node option" where
  "firstChild ts p = (if n_kids ts p = 0 then None else Some (p @ [0]))"

definition document :: node where
  "document = [0]"

section \<open>Containment and order\<close>

text \<open>The fallback of contains climbs from the second node.\<close>

function contains_up :: "node \<Rightarrow> node \<Rightarrow> bool" where
  "contains_up a b = (case parentNode b of None \<Rightarrow> False | Some c \<Rightarrow> c = a \<or> contains_up a c)"
  by auto
termination by (relation "measure (\<lambda>(a, b). length b)") (auto simp: parentNode_def split: if_splits)

declare contains_up.simps [simp del]

text \<open>siblingCheck: null and undefined are None. No browser of today has sourceIndex, so the difference is 0.\<close>

function follows :: "dnode list \<Rightarrow> node \<Rightarrow> node \<Rightarrow> bool" where
  "follows ts cur b = (case nextSibling ts cur of None \<Rightarrow> False | Some c \<Rightarrow> c = b \<or> follows ts c b)"
  by auto
termination by (relation "measure (\<lambda>(ts, cur, b). n_kids ts (butlast cur) - last cur)") (auto simp: nextSibling_def split: if_splits)

declare follows.simps [simp del]

definition siblingCheck :: "dnode list \<Rightarrow> node option \<Rightarrow> node option \<Rightarrow> int" where
  "siblingCheck ts a b =
     (case (a, b) of
        (Some x, Some y) \<Rightarrow> if follows ts x y then -1 else 1
      | (Some x, None) \<Rightarrow> 1
      | (None, _) \<Rightarrow> -1)"

text \<open>The ancestors from the root down to the node itself.\<close>

function unshift_ups :: "node \<Rightarrow> node list \<Rightarrow> node list" where
  "unshift_ups cur ap = (case parentNode cur of None \<Rightarrow> ap | Some c \<Rightarrow> unshift_ups c (c # ap))"
  by auto
termination by (relation "measure (\<lambda>(cur, ap). length cur)") (auto simp: parentNode_def split: if_splits)

declare unshift_ups.simps [simp del]

text \<open>The first difference with its index. On equal lists the loop of the code never ends; it is not run on them.\<close>

fun mismatch :: "node list \<Rightarrow> node list \<Rightarrow> nat \<Rightarrow> (nat \<times> node option \<times> node option) option" where
  "mismatch [] [] i = None"
| "mismatch (x # xs) [] i = Some (i, Some x, None)"
| "mismatch [] (y # ys) i = Some (i, None, Some y)"
| "mismatch (x # xs) (y # ys) i = (if x = y then mismatch xs ys (Suc i) else Some (i, Some x, Some y))"

definition index_in :: "node list \<Rightarrow> node \<Rightarrow> int" where
  "index_in xs a = (if a \<in> set xs then int (length (takeWhile (\<lambda>x. x \<noteq> a) xs)) else -1)"

text \<open>
  The comparison; \<open>doc\<close> and preferredDoc are the first tree. \<open>sortInput\<close> is the list before sorting when the
  browser does not sort stably. None stands for a comparison that does not end.
\<close>

definition sortOrder :: "dnode list \<Rightarrow> node list option \<Rightarrow> node \<Rightarrow> node \<Rightarrow> int option" where
  "sortOrder ts sortInput a b =
     (if a = b then Some 0
      else
        (let aup = parentNode a; bup = parentNode b in
         if aup = None \<or> bup = None then
           Some (if a = document then -1
             else if b = document then 1
             else if aup \<noteq> None then -1
             else if bup \<noteq> None then 1
             else case sortInput of Some xs \<Rightarrow> index_in xs a - index_in xs b | None \<Rightarrow> 0)
         else if aup = bup then Some (siblingCheck ts (Some a) (Some b))
         else
           (case mismatch (unshift_ups a [a]) (unshift_ups b [b]) 0 of
              None \<Rightarrow> None
            | Some (i, x, y) \<Rightarrow>
                Some (if i \<noteq> 0 then siblingCheck ts x y
                  else if x = Some document then -1
                  else if y = Some document then 1
                  else 0))))"

text \<open>
  The comparison of browsers with compareDocumentPosition: \<open>cdp\<close> gives the bits of a pair of nodes. Bit 0 says that
  they are not connected, bit 2 that the second follows the first.
\<close>

definition sortOrder_native :: "(node \<Rightarrow> node \<Rightarrow> nat) \<Rightarrow> bool \<Rightarrow> node list option \<Rightarrow> node \<Rightarrow> node \<Rightarrow> int" where
  "sortOrder_native cdp sortDetached sortInput a b =
     (if a = b then 0
      else
        (let compare = cdp a b in
         if bit compare 0 \<or> \<not> sortDetached \<and> cdp b a = compare then
           (if a = document \<or> contains_up document a then -1
            else if b = document \<or> contains_up document b then 1
            else case sortInput of Some xs \<Rightarrow> index_in xs a - index_in xs b | None \<Rightarrow> 0)
         else if bit compare 2 then -1 else 1))"

section \<open>uniqueSort\<close>

text \<open>The sort of the language with a comparison; a stable one.\<close>

fun insert_by :: "('a \<Rightarrow> 'a \<Rightarrow> int) \<Rightarrow> 'a \<Rightarrow> 'a list \<Rightarrow> 'a list" where
  "insert_by cmp x [] = [x]"
| "insert_by cmp x (y # ys) = (if cmp y x < 0 then y # insert_by cmp x ys else x # y # ys)"

definition sort_by :: "('a \<Rightarrow> 'a \<Rightarrow> int) \<Rightarrow> 'a list \<Rightarrow> 'a list" where
  "sort_by cmp xs = foldr (insert_by cmp) xs []"

fun dup_indices :: "'a list \<Rightarrow> nat \<Rightarrow> nat list" where
  "dup_indices (x # y # xs) i = (if x = y then Suc i # dup_indices (y # xs) (Suc i) else dup_indices (y # xs) (Suc i))"
| "dup_indices xs i = []"

definition splice_at :: "nat \<Rightarrow> 'a list \<Rightarrow> 'a list" where
  "splice_at k xs = take k xs @ drop (Suc k) xs"

text \<open>
  hasDuplicate is set by a comparison of a node with itself, which every sort of a list with two equal nodes makes,
  or from the beginning where the browser does not tell (\<open>\<not> detectDuplicates\<close>).
\<close>

definition uniqueSort :: "('a \<Rightarrow> 'a \<Rightarrow> int) \<Rightarrow> bool \<Rightarrow> 'a list \<Rightarrow> 'a list" where
  "uniqueSort cmp detectDuplicates results =
     (let hasDuplicate = (\<not> detectDuplicates \<or> \<not> distinct results);
          sorted_results = sort_by cmp results in
      if hasDuplicate then foldr splice_at (dup_indices sorted_results 0) sorted_results else sorted_results)"

section \<open>Document order\<close>

text \<open>The reference: a walk through a tree that lists its nodes, told by their ways down, in document order.\<close>

fun walk_down :: "dnode \<Rightarrow> node list" where
  "walk_down (DNode t v ks) = [] # concat (map (\<lambda>(i, w). map (Cons i) w) (enumerate 0 (map walk_down ks)))"

definition doc_nodes :: "dnode list \<Rightarrow> node list" where
  "doc_nodes ts = (if ts = [] then [] else map (Cons 0) (walk_down (hd ts)))"

text \<open>The lexicographic order of the ways down is the document order.\<close>

lemma walk_down_kids: "walk_down n = [] # concat (map (\<lambda>i. map (Cons i) (walk_down (kids n ! i))) [0..<length (kids n)])"
proof (cases n)
  case (DNode t v ks)
  have "map (\<lambda>(i, w). map (Cons i) w) (enumerate 0 (map walk_down ks)) = map (\<lambda>i. map (Cons i) (walk_down (ks ! i))) [0..<length ks]"
    by (rule nth_equalityI) (simp_all add: nth_enumerate_eq)
  with DNode show ?thesis by simp
qed

lemma Nil_less_Cons: "([] :: node) < x # xs"
  by (simp add: list_less_def)

lemma Cons_less: "(x # xs :: node) < y # ys \<longleftrightarrow> x < y \<or> x = y \<and> xs < ys"
  by (simp add: list_less_def)

lemma Nil_le_path: "([] :: node) \<le> p"
  by (cases p) (simp_all add: list_le_def Nil_less_Cons)

lemma sorted_blocks:
  assumes "\<And>i. i < n \<Longrightarrow> sorted_wrt (<) (f i)"
  shows "sorted_wrt (<) (concat (map (\<lambda>i. map (Cons i) (f i :: node list)) [0..<n]))"
  using assms
proof (induction n)
  case (Suc n)
  have "sorted_wrt (<) (map (Cons n) (f n))" using Suc.prems [of n] by (simp add: sorted_wrt_map Cons_less)
  with Suc show ?case by (auto simp: sorted_wrt_append Cons_less)
qed simp

lemma walk_down_sorted: "sorted_wrt (<) (walk_down n)"
proof (induction n)
  case (DNode t v ks)
  have "sorted_wrt (<) (concat (map (\<lambda>i. map (Cons i) (walk_down (ks ! i))) [0..<length ks]))"
    by (rule sorted_blocks) (simp add: DNode)
  then show ?case unfolding walk_down_kids [of "DNode t v ks"] by (auto simp: Nil_less_Cons)
qed

lemma walk_down_set: "p \<in> set (walk_down n) \<longleftrightarrow> p = [] \<or> is_node (kids n) p"
proof (induction p arbitrary: n)
  case Nil
  then show ?case by (subst walk_down_kids) simp
next
  case (Cons i p)
  have "i # p \<in> set (walk_down n) \<longleftrightarrow> i < length (kids n) \<and> p \<in> set (walk_down (kids n ! i))"
    by (subst walk_down_kids) auto
  with Cons.IH [of "kids n ! i"] show ?case by (auto simp: is_node_def)
qed

definition in_doc :: "dnode list \<Rightarrow> node \<Rightarrow> bool" where
  "in_doc ts p \<longleftrightarrow> is_node ts p \<and> hd p = 0"

lemma is_node_ne: "is_node ts p \<Longrightarrow> p \<noteq> []"
  by (cases p) (simp_all add: is_node_def)

lemma doc_nodes_set: "p \<in> set (doc_nodes ts) \<longleftrightarrow> in_doc ts p"
proof (cases p)
  case Nil
  then show ?thesis by (auto simp: doc_nodes_def in_doc_def is_node_def)
next
  case (Cons i q)
  then show ?thesis by (cases ts) (auto simp: doc_nodes_def in_doc_def is_node_def walk_down_set)
qed

lemma doc_nodes_sorted: "sorted_wrt (<) (doc_nodes ts)"
  using walk_down_sorted by (simp add: doc_nodes_def sorted_wrt_map Cons_less)

section \<open>The pointers and the ways down\<close>

lemma sub_snoc: "p \<noteq> [] \<Longrightarrow> sub ts (p @ [i]) = (case sub ts p of None \<Rightarrow> None | Some n \<Rightarrow> if i < length (kids n) then Some (kids n ! i) else None)"
  by (induction ts p rule: sub.induct) auto

lemma is_node_snoc: "p \<noteq> [] \<Longrightarrow> is_node ts (p @ [i]) \<longleftrightarrow> i < n_kids ts p"
  by (simp add: is_node_def n_kids_def sub_snoc split: option.split)

lemma is_node_prefix: "is_node ts (p @ q) \<Longrightarrow> p \<noteq> [] \<Longrightarrow> is_node ts p"
proof (induction q rule: rev_induct)
  case (snoc x q)
  have "sub ts (p @ q) \<noteq> None" using snoc.prems sub_snoc [of "p @ q" ts x] by (auto simp: is_node_def split: option.splits)
  with snoc.IH snoc.prems(2) show ?case by (simp add: is_node_def)
qed simp

lemma follows_snoc:
  assumes "p \<noteq> []"
  shows "follows ts (p @ [i]) (p @ [j]) \<longleftrightarrow> i < j \<and> j < n_kids ts p"
proof (induction "n_kids ts p - i" arbitrary: i)
  case 0
  then show ?case by (subst follows.simps) (simp add: nextSibling_def)
next
  case (Suc m)
  then have "m = n_kids ts p - Suc i" by simp
  from Suc.hyps(1) [OF this] show ?case using assms
    by (subst follows.simps) (auto simp: nextSibling_def)
qed

lemma siblingCheck_snoc:
  assumes "is_node ts (p @ [i])" "is_node ts (p @ [j])" "p \<noteq> []"
  shows "siblingCheck ts (Some (p @ [i])) (Some (p @ [j])) = (if i < j then -1 else 1)"
  using assms by (simp add: siblingCheck_def follows_snoc is_node_snoc)

text \<open>The list of ancestors holds the ways to them.\<close>

lemma unshift_ups_take: "cur \<noteq> [] \<Longrightarrow> unshift_ups cur ap = map (\<lambda>k. take (Suc k) cur) [0..<length cur - 1] @ ap"
proof (induction cur ap rule: unshift_ups.induct)
  case (1 cur ap)
  show ?case
  proof (cases "length cur \<le> 1")
    case True
    then show ?thesis by (subst unshift_ups.simps) (simp add: parentNode_def)
  next
    case False
    then obtain p x where c: "cur = p @ [x]" "p \<noteq> []" by (cases cur rule: rev_cases) auto
    then have "parentNode cur = Some p" by (simp add: parentNode_def)
    with 1 c have "unshift_ups p (p # ap) = map (\<lambda>k. take (Suc k) p) [0..<length p - 1] @ p # ap" by simp
    moreover have "map (\<lambda>k. take (Suc k) cur) [0..<length cur - 1] = map (\<lambda>k. take (Suc k) p) [0..<length p - 1] @ [p]"
      using c by (cases "length p") auto
    ultimately show ?thesis using \<open>parentNode cur = Some p\<close> by (subst unshift_ups.simps) simp
  qed
qed

lemma ancestors_take: "cur \<noteq> [] \<Longrightarrow> unshift_ups cur [cur] = map (\<lambda>k. take (Suc k) cur) [0..<length cur]"
  by (cases "length cur") (simp_all add: unshift_ups_take)

text \<open>Two nodes: one above the other, or below different children of a common ancestor.\<close>

lemma node_cases:
  fixes a b :: node
  assumes "a \<noteq> b"
  obtains (above) x q where "b = a @ x # q"
    | (below) x q where "a = b @ x # q"
    | (apart) p i j q r where "a = p @ i # q" "b = p @ j # r" "i \<noteq> j"
proof -
  define p where "p = longest_common_prefix a b"
  have p: "prefix p a" "prefix p b" by (simp_all add: p_def longest_common_prefix_prefix1 longest_common_prefix_prefix2)
  then obtain q r where qr: "a = p @ q" "b = p @ r" by (auto simp: prefix_def)
  show thesis
  proof (cases q; cases r)
    assume "q = []" "r = []"
    with qr assms show thesis by simp
  next
    fix y r' assume "q = []" "r = y # r'"
    with qr that(1) show thesis by simp
  next
    fix x q' assume "q = x # q'" "r = []"
    with qr that(2) show thesis by simp
  next
    fix x q' y r' assume c: "q = x # q'" "r = y # r'"
    have "x \<noteq> y"
    proof
      assume "x = y"
      then have "prefix (p @ [x]) a" "prefix (p @ [x]) b" using qr c by (auto simp: prefix_def)
      then have "prefix (p @ [x]) p" unfolding p_def by (rule longest_common_prefix_max_prefix)
      then show False by (simp add: prefix_def)
    qed
    with qr c that(3) show thesis by simp
  qed
qed

lemma less_above: "(a :: node) < a @ x # q"
  by (induction a) (simp_all add: Nil_less_Cons Cons_less)

lemma less_apart: "(p @ i # q :: node) < p @ j # r \<longleftrightarrow> i < j \<or> i = j \<and> q < r"
  by (induction p) (simp_all add: Cons_less)

text \<open>What the loops find: the ancestors of both up to the first that differs.\<close>

lemma mismatch_append: "mismatch (xs @ as) (xs @ bs) i = mismatch as bs (i + length xs)"
  by (induction xs arbitrary: i) simp_all

definition ways :: "node \<Rightarrow> node list" where
  "ways p = map (\<lambda>k. take (Suc k) p) [0..<length p]"

lemma ways_append: "ways (p @ q) = ways p @ map (append p) (ways q)"
  by (rule nth_equalityI) (auto simp: ways_def nth_append Suc_diff_le)

lemma ways_Cons: "ways (x # q) = [x] # map (Cons x) (ways q)"
  using ways_append [of "[x]" q] by (simp add: ways_def)

lemma length_ways [simp]: "length (ways p) = length p"
  by (simp add: ways_def)

lemma ancestors_ways: "cur \<noteq> [] \<Longrightarrow> unshift_ups cur [cur] = ways cur"
  by (simp add: ancestors_take ways_def)

lemma mismatch_above: "mismatch (ways a) (ways (a @ x # q)) 0 = Some (length a, None, Some (a @ [x]))"
  using mismatch_append [of "ways a" "[]" _ 0] by (simp add: ways_append ways_Cons)

lemma mismatch_below: "mismatch (ways (b @ x # q)) (ways b) 0 = Some (length b, Some (b @ [x]), None)"
  using mismatch_append [of "ways b" _ "[]" 0] by (simp add: ways_append ways_Cons)

lemma mismatch_apart:
  "i \<noteq> j \<Longrightarrow> mismatch (ways (p @ i # q)) (ways (p @ j # r)) 0 = Some (length p, Some (p @ [i]), Some (p @ [j]))"
  using mismatch_append [of "ways p" _ _ 0] by (simp add: ways_append ways_Cons)

lemma parentNode_None: "parentNode p = None \<longleftrightarrow> length p \<le> 1"
  by (simp add: parentNode_def)

text \<open>In the document the comparison is that of the ways down.\<close>

lemma in_doc_root: "in_doc ts p \<Longrightarrow> length p \<le> 1 \<Longrightarrow> p = document"
  using is_node_ne [of ts p] by (cases p) (auto simp: in_doc_def document_def)

lemma sortOrder_general:
  assumes "parentNode a \<noteq> None" "parentNode b \<noteq> None" "a \<noteq> b" "is_node ts a" "is_node ts b" "hd a = hd b"
  shows "sortOrder ts sortInput a b = Some (if a < b then -1 else 1)"
proof -
  have ne: "a \<noteq> []" "b \<noteq> []" using assms(4,5) is_node_ne by blast+
  show ?thesis
  proof (cases "parentNode a = parentNode b")
    case True
    obtain p i where a: "a = p @ [i]" "p \<noteq> []" using assms(1) by (cases a rule: rev_cases) (auto simp: parentNode_def split: if_splits)
    moreover obtain p' j where b: "b = p' @ [j]" "p' \<noteq> []" using assms(2) by (cases b rule: rev_cases) (auto simp: parentNode_def split: if_splits)
    ultimately have "p' = p" using True by (simp add: parentNode_def split: if_splits)
    with a b assms(3-5) show ?thesis
      using siblingCheck_snoc [of ts p i j] True by (auto simp: sortOrder_def Let_def parentNode_None less_apart)
  next
    case False
    have go: "sortOrder ts sortInput a b = (case mismatch (ways a) (ways b) 0 of None \<Rightarrow> None
        | Some (i, x, y) \<Rightarrow> Some (if i \<noteq> 0 then siblingCheck ts x y else if x = Some document then -1 else if y = Some document then 1 else 0))"
    proof -
      have up: "\<not> (parentNode a = None \<or> parentNode b = None)" using assms(1,2) by simp
      show ?thesis
        unfolding sortOrder_def Let_def if_not_P [OF assms(3)] if_not_P [OF up] if_not_P [OF False] ancestors_ways [OF ne(1)] ancestors_ways [OF ne(2)]
        by (rule refl)
    qed
    from assms(3) show ?thesis
    proof (cases rule: node_cases)
      case (above x q)
      with go ne show ?thesis by (simp add: mismatch_above siblingCheck_def less_above)
    next
      case (below x q)
      with go ne less_above [of b x q] show ?thesis by (simp add: mismatch_below siblingCheck_def)
    next
      case (apart p i j q r)
      have p: "p \<noteq> []" using apart assms(6) by (cases p) auto
      then have "is_node ts (p @ [i])" "is_node ts (p @ [j])"
        using apart assms(4,5) is_node_prefix [of ts "p @ [i]" q] is_node_prefix [of ts "p @ [j]" r] by simp_all
      from siblingCheck_snoc [OF this p] go p apart show ?thesis by (auto simp: mismatch_apart less_apart)
    qed
  qed
qed

lemma document_first: "in_doc ts p \<Longrightarrow> p \<noteq> document \<Longrightarrow> document < p"
proof -
  assume p: "in_doc ts p" "p \<noteq> document"
  then obtain q where q: "p = 0 # q" using is_node_ne [of ts p] by (cases p) (auto simp: in_doc_def)
  with p(2) have "q \<noteq> []" by (auto simp: document_def)
  with q show ?thesis by (cases q) (simp_all add: document_def Cons_less Nil_less_Cons)
qed

lemma sortOrder_in_doc:
  assumes "in_doc ts a" "in_doc ts b"
  shows "sortOrder ts sortInput a b = Some (if a = b then 0 else if a < b then -1 else 1)"
proof (cases "a = b")
  case True
  then show ?thesis by (simp add: sortOrder_def)
next
  case False
  consider "a = document" | "b = document" "a \<noteq> document" | "a \<noteq> document" "b \<noteq> document" by blast
  then show ?thesis
  proof cases
    case 1
    with False document_first [OF assms(2)] show ?thesis by (simp add: sortOrder_def parentNode_None document_def)
  next
    case 2
    with document_first [OF assms(1)] have "\<not> a < b" by simp
    with 2 show ?thesis by (simp add: sortOrder_def parentNode_None) (simp add: document_def)
  next
    case 3
    then have "parentNode a \<noteq> None" "parentNode b \<noteq> None"
      using in_doc_root [OF assms(1)] in_doc_root [OF assms(2)] by (auto simp: parentNode_None)
    with sortOrder_general [of a b ts sortInput] False assms show ?thesis by (auto simp: in_doc_def)
  qed
qed

section \<open>Sorting without duplicates\<close>

definition doc_cmp :: "dnode list \<Rightarrow> node list option \<Rightarrow> node \<Rightarrow> node \<Rightarrow> int" where
  "doc_cmp ts sortInput a b = the (sortOrder ts sortInput a b)"

lemma doc_cmp_less: "in_doc ts a \<Longrightarrow> in_doc ts b \<Longrightarrow> doc_cmp ts sortInput a b < 0 \<longleftrightarrow> a < b"
  by (simp add: doc_cmp_def sortOrder_in_doc)

lemma insert_by_insort:
  "(\<And>y. y \<in> set ys \<Longrightarrow> cmp y x < 0 \<longleftrightarrow> y < x) \<Longrightarrow> insert_by cmp x ys = insort x ys" for x :: "'a :: linorder"
  by (induction ys) (auto simp: not_le)

lemma sort_by_sort:
  assumes "\<And>x y. x \<in> set xs \<Longrightarrow> y \<in> set xs \<Longrightarrow> cmp x y < 0 \<longleftrightarrow> x < y"
  shows "sort_by cmp xs = sort (xs :: 'a :: linorder list)"
  using assms
proof (induction xs)
  case (Cons x xs)
  have "sort_by cmp xs = sort xs" using Cons.prems by (intro Cons.IH) simp
  moreover have "insert_by cmp x (sort xs) = insort x (sort xs)" using Cons.prems by (intro insert_by_insort) simp
  ultimately show ?case by (simp add: sort_by_def)
qed (simp add: sort_by_def)

lemma splice_dups: "foldr splice_at (dup_indices xs (length ps)) (ps @ xs) = ps @ remdups_adj xs"
proof (induction xs arbitrary: ps rule: remdups_adj.induct)
  case (3 x y xs)
  have IH: "foldr splice_at (dup_indices (y # xs) (Suc (length ps))) ((ps @ [x]) @ y # xs) = (ps @ [x]) @ remdups_adj (y # xs)"
    using 3 [of "ps @ [x]"] by (cases "x = y") simp_all
  have "splice_at (Suc (length ps)) ((ps @ [x]) @ z # zs) = (ps @ [x]) @ zs" for z zs
    by (simp add: splice_at_def)
  with IH show ?case by (cases "x = y") (auto simp: remdups_adj_Cons split: list.splits)
qed simp_all

lemma remdups_adj_strict: "sorted (xs :: 'a :: linorder list) \<Longrightarrow> sorted_wrt (<) (remdups_adj xs)"
proof (induction xs rule: remdups_adj.induct)
  case (3 x y xs)
  then show ?case by (cases "x = y") (force simp: less_le)+
qed simp_all

lemma remdups_adj_sort: "remdups_adj (sort xs) = sorted_list_of_set (set (xs :: 'a :: linorder list))"
proof (rule sorted_distinct_set_unique)
  show "sorted (remdups_adj (sort xs))" by simp
  show "distinct (remdups_adj (sort xs))" using remdups_adj_strict [OF sorted_sort] strict_sorted_iff by blast
qed (simp_all add: sorted_list_of_set)

lemma uniqueSort_set:
  assumes "\<And>x y. x \<in> set xs \<Longrightarrow> y \<in> set xs \<Longrightarrow> cmp x y < 0 \<longleftrightarrow> x < y"
  shows "uniqueSort cmp detectDuplicates xs = sorted_list_of_set (set (xs :: 'a :: linorder list))"
proof (cases "\<not> detectDuplicates \<or> \<not> distinct xs")
  case True
  then show ?thesis using splice_dups [of "sort xs" "[]"] remdups_adj_sort [of xs]
    by (simp add: uniqueSort_def Let_def sort_by_sort [OF assms])
next
  case False
  then have "uniqueSort cmp detectDuplicates xs = sort xs" by (simp add: uniqueSort_def Let_def sort_by_sort [OF assms])
  also have "\<dots> = sorted_list_of_set (set xs)" using False by (simp add: sorted_list_of_set_sort_remdups distinct_remdups_id)
  finally show ?thesis .
qed

lemma doc_nodes_filter:
  assumes "\<forall>p\<in>A. in_doc ts p" "finite A"
  shows "sorted_list_of_set A = filter (\<lambda>p. p \<in> A) (doc_nodes ts)"
proof (rule sorted_distinct_set_unique)
  have s: "sorted_wrt (<) (filter (\<lambda>p. p \<in> A) (doc_nodes ts))" by (rule sorted_wrt_filter [OF doc_nodes_sorted])
  show "sorted (filter (\<lambda>p. p \<in> A) (doc_nodes ts))" "distinct (filter (\<lambda>p. p \<in> A) (doc_nodes ts))"
    using s strict_sorted_iff by blast+
  show "set (sorted_list_of_set A) = set (filter (\<lambda>p. p \<in> A) (doc_nodes ts))" using assms doc_nodes_set by auto
qed simp_all

lemma uniqueSort_doc:
  assumes "\<forall>p\<in>set results. in_doc ts p"
  shows "uniqueSort (doc_cmp ts sortInput) detectDuplicates results = filter (\<lambda>p. p \<in> set results) (doc_nodes ts)"
proof -
  have "uniqueSort (doc_cmp ts sortInput) detectDuplicates results = sorted_list_of_set (set results)"
    by (rule uniqueSort_set) (use assms doc_cmp_less in blast)
  also have "\<dots> = filter (\<lambda>p. p \<in> set results) (doc_nodes ts)" by (rule doc_nodes_filter [OF assms]) simp
  finally show ?thesis .
qed

text \<open>contains finds the strict ancestors.\<close>

lemma contains_up_iff: "a \<noteq> [] \<Longrightarrow> contains_up a b \<longleftrightarrow> strict_prefix a b"
proof (induction a b rule: contains_up.induct)
  case (1 a b)
  show ?case
  proof (cases "length b \<le> 1")
    case True
    then have "\<not> strict_prefix a b" using \<open>a \<noteq> []\<close> by (cases a; cases b) (auto simp: strict_prefix_def prefix_def)
    with True show ?thesis by (subst contains_up.simps) (simp add: parentNode_def)
  next
    case False
    then obtain p x where b: "b = p @ [x]" "p \<noteq> []" by (cases b rule: rev_cases) auto
    then have "parentNode b = Some p" by (simp add: parentNode_def)
    with 1 b show ?thesis by (subst contains_up.simps) (auto simp: strict_prefix_def)
  qed
qed

section \<open>Properties\<close>

text \<open>
  C23: uniqueSort on nodes of the document gives each of them once, in document order: what is left of a walk
  through the document. It does so with the comparison of browsers without compareDocumentPosition, whether
  they sort stably and tell about duplicates or not.
\<close>

theorem uniqueSort_document_order:
  assumes "\<forall>p\<in>set results. in_doc ts p"
  shows "uniqueSort (\<lambda>a b. the (sortOrder ts sortInput a b)) detectDuplicates results
    = filter (\<lambda>p. p \<in> set results) (doc_nodes ts)"
  using uniqueSort_doc [OF assms] unfolding doc_cmp_def .

definition example_forest :: "dnode list" where
  "example_forest =
     [DNode 9 [] [DNode 1 [] [DNode 1 [] [DNode 3 ''a'' [], DNode 1 [] []], DNode 8 ''c'' [], DNode 1 [] [DNode 3 ''b'' []]]],
      DNode 1 [] [DNode 1 [] [], DNode 1 [] []]]"

theorem uniqueSort_document_order_witness:
  "uniqueSort (\<lambda>a b. the (sortOrder example_forest None a b)) True [[0, 0, 2], [0, 0, 0, 1], [0, 0, 2], [0, 0], [0, 0, 0]]
    = [[0, 0], [0, 0, 0], [0, 0, 0, 1], [0, 0, 2]]"
proof -
  have d: "\<forall>p\<in>set [[0, 0, 2], [0, 0, 0, 1], [0, 0, 2], [0, 0], [0, 0, 0]]. in_doc example_forest p" by code_simp
  have "filter (\<lambda>p. p \<in> set [[0, 0, 2], [0, 0, 0, 1], [0, 0, 2], [0, 0], [0, 0, 0]]) (doc_nodes example_forest)
    = [[0, 0], [0, 0, 0], [0, 0, 0, 1], [0, 0, 2]]" by code_simp
  with uniqueSort_document_order [OF d, of None True] show ?thesis by (rule trans)
qed

text \<open>
  C28: the two comparisons of the selector engine agree in the document. Of compareDocumentPosition it is used
  that connected nodes have bit 0 unset and that bit 2 says which of them is first.
\<close>

theorem sort_orders_agree:
  assumes "in_doc ts a" "in_doc ts b"
    and cdp: "\<And>x y. in_doc ts x \<Longrightarrow> in_doc ts y \<Longrightarrow> x \<noteq> y \<Longrightarrow> \<not> bit (cdp x y) 0 \<and> (bit (cdp x y) 2 \<longleftrightarrow> x < y)"
  shows "sortOrder ts sortInput a b = Some (sortOrder_native cdp sortDetached sortInput a b)"
proof (cases "a = b")
  case True
  then show ?thesis by (simp add: sortOrder_def sortOrder_native_def)
next
  case False
  have "cdp b a \<noteq> cdp a b"
  proof
    assume "cdp b a = cdp a b"
    with cdp [of a b] cdp [of b a] assms(1,2) False have "a < b \<longleftrightarrow> b < a" by auto
    with False show False by (metis less_asym linorder_neqE)
  qed
  with cdp [OF assms(1,2) False] False show ?thesis
    by (simp add: sortOrder_in_doc [OF assms(1,2)] sortOrder_native_def Let_def)
qed

definition example_cdp :: "node \<Rightarrow> node \<Rightarrow> nat" where
  "example_cdp a b = (if hd a \<noteq> hd b then 1 else if prefix a b then 20 else if prefix b a then 10 else if a < b then 4 else 2)"

theorem sort_orders_agree_witness:
  "sortOrder example_forest None [0, 0, 2] [0, 0, 0, 1] = Some (sortOrder_native example_cdp True None [0, 0, 2] [0, 0, 0, 1])"
proof (rule sort_orders_agree)
  show "in_doc example_forest [0, 0, 2]" "in_doc example_forest [0, 0, 0, 1]" by code_simp+
  fix x y assume "in_doc example_forest x" "in_doc example_forest y" "x \<noteq> y"
  then have "hd x = hd y" and ne: "x \<noteq> y" by (simp_all add: in_doc_def)
  have pre: "prefix x y \<Longrightarrow> x < y" "prefix y x \<Longrightarrow> \<not> x < y"
    using ne less_above by (metis less_asym neq_Nil_conv prefix_def self_append_conv)+
  have bits: "\<not> bit (20 :: nat) 0" "bit (20 :: nat) 2" "\<not> bit (10 :: nat) 0" "\<not> bit (10 :: nat) 2"
    "\<not> bit (4 :: nat) 0" "bit (4 :: nat) 2" "\<not> bit (2 :: nat) 0" "\<not> bit (2 :: nat) 2"
    by (simp_all add: bit_iff_odd)
  then show "\<not> bit (example_cdp x y) 0 \<and> (bit (example_cdp x y) 2 \<longleftrightarrow> x < y)"
    using \<open>hd x = hd y\<close> pre by (simp add: example_cdp_def)
qed

text \<open>
  in a detached tree the fallback does not compare by the order of the tree: a node without a parent comes
  after one with a parent, so the root of a detached tree comes after its children.
\<close>

theorem detached_root_comes_last:
  "sortOrder example_forest None [1] [1, 0] = Some 1 \<and> sortOrder_native example_cdp True None [1] [1, 0] = -1 \<and>
   uniqueSort (\<lambda>a b. the (sortOrder example_forest None a b)) True [[1], [1, 0], [1, 1]] = [[1, 0], [1, 1], [1]]"
  by code_simp

end
