(* ===== verification/Traversing.thy ===== *)
theory Traversing
  imports Doc_Order
begin

text \<open>
  The traversing methods of jquery.js on the trees of Doc_Order: from the nodes of a matched set to their parents,
  siblings and children, each set without duplicates and in the order that the methods promise. Selectors and
  the nodes that end a traversal are predicates.
\<close>

section \<open>Steps\<close>

datatype direction = Up | Forth | Back

definition move :: "dnode list \<Rightarrow> direction \<Rightarrow> node \<Rightarrow> node option" where
  "move ts d p = (case d of Up \<Rightarrow> parentNode p | Forth \<Rightarrow> nextSibling ts p | Back \<Rightarrow> previousSibling p)"

definition steps_left :: "dnode list \<Rightarrow> direction \<Rightarrow> node \<Rightarrow> nat" where
  "steps_left ts d p = (case d of Up \<Rightarrow> length p | Forth \<Rightarrow> n_kids ts (butlast p) - last p | Back \<Rightarrow> last p)"

lemma move_steps: "move ts d p = Some q \<Longrightarrow> steps_left ts d q < steps_left ts d p"
  by (cases d) (auto simp: move_def steps_left_def parentNode_def nextSibling_def previousSibling_def split: if_splits)

text \<open>jQuery.dir; \<open>until\<close> is false everywhere where the argument is undefined.\<close>

function jq_dir :: "dnode list \<Rightarrow> direction \<Rightarrow> (node \<Rightarrow> bool) \<Rightarrow> node \<Rightarrow> node list" where
  "jq_dir ts d until p =
     (case move ts d p of
        None \<Rightarrow> []
      | Some q \<Rightarrow>
          if nodeType ts q = 9 then []
          else if nodeType ts q = 1 then (if until q then [] else q # jq_dir ts d until q)
          else jq_dir ts d until q)"
  by auto
termination by (relation "measure (\<lambda>(ts, d, until, p). steps_left ts d p)") (auto simp: move_steps)

declare jq_dir.simps [simp del]

text \<open>jQuery.sibling: the elements from a node on, without one of them.\<close>

function jq_sibling :: "dnode list \<Rightarrow> node option \<Rightarrow> node option \<Rightarrow> node list" where
  "jq_sibling ts n el =
     (case n of
        None \<Rightarrow> []
      | Some q \<Rightarrow>
          (if nodeType ts q = 1 \<and> el \<noteq> Some q then q # jq_sibling ts (nextSibling ts q) el else jq_sibling ts (nextSibling ts q) el))"
  by auto
termination
  by (relation "measure (\<lambda>(ts, n, el). case n of None \<Rightarrow> 0 | Some q \<Rightarrow> Suc (steps_left ts Forth q))")
    (auto split: option.split dest!: move_steps [of _ Forth, unfolded move_def, simplified])

declare jq_sibling.simps [simp del]

text \<open>The function sibling: the next element in a direction.\<close>

function next_element :: "dnode list \<Rightarrow> direction \<Rightarrow> node \<Rightarrow> node option" where
  "next_element ts d cur =
     (case move ts d cur of None \<Rightarrow> None | Some q \<Rightarrow> if nodeType ts q \<noteq> 1 then next_element ts d q else Some q)"
  by auto
termination by (relation "measure (\<lambda>(ts, d, p). steps_left ts d p)") (auto simp: move_steps)

declare next_element.simps [simp del]

section \<open>Methods\<close>

datatype traversal = Parent | Parents | ParentsUntil | Next | Prev | NextAll | PrevAll | NextUntil | PrevUntil
  | Siblings | Children | Contents

definition list_of :: "node option \<Rightarrow> node list" where
  "list_of n = (case n of None \<Rightarrow> [] | Some q \<Rightarrow> [q])"

definition childNodes :: "dnode list \<Rightarrow> node \<Rightarrow> node list" where
  "childNodes ts p = map (\<lambda>i. p @ [i]) [0..<n_kids ts p]"

text \<open>The functions of the methods; contents of a frame, which are another document, are left out.\<close>

definition traversal_fn :: "dnode list \<Rightarrow> traversal \<Rightarrow> (node \<Rightarrow> bool) \<Rightarrow> node \<Rightarrow> node list" where
  "traversal_fn ts m until p =
     (case m of
        Parent \<Rightarrow> (case parentNode p of None \<Rightarrow> [] | Some q \<Rightarrow> if nodeType ts q \<noteq> 11 then [q] else [])
      | Parents \<Rightarrow> jq_dir ts Up (\<lambda>_. False) p
      | ParentsUntil \<Rightarrow> jq_dir ts Up until p
      | Next \<Rightarrow> list_of (next_element ts Forth p)
      | Prev \<Rightarrow> list_of (next_element ts Back p)
      | NextAll \<Rightarrow> jq_dir ts Forth (\<lambda>_. False) p
      | PrevAll \<Rightarrow> jq_dir ts Back (\<lambda>_. False) p
      | NextUntil \<Rightarrow> jq_dir ts Forth until p
      | PrevUntil \<Rightarrow> jq_dir ts Back until p
      | Siblings \<Rightarrow> jq_sibling ts (case parentNode p of None \<Rightarrow> None | Some q \<Rightarrow> firstChild ts q) (Some p)
      | Children \<Rightarrow> jq_sibling ts (firstChild ts p) None
      | Contents \<Rightarrow> childNodes ts p)"

definition guaranteedUnique :: "traversal \<Rightarrow> bool" where
  "guaranteedUnique m \<longleftrightarrow> m \<in> {Children, Contents, Next, Prev}"

text \<open>The names that rparentsprev finds.\<close>

definition rparentsprev :: "traversal \<Rightarrow> bool" where
  "rparentsprev m \<longleftrightarrow> m \<in> {Parents, ParentsUntil, PrevUntil, PrevAll}"

definition jq_filter :: "dnode list \<Rightarrow> (node \<Rightarrow> bool) option \<Rightarrow> node list \<Rightarrow> node list" where
  "jq_filter ts sel xs = (case sel of None \<Rightarrow> xs | Some f \<Rightarrow> filter (\<lambda>q. nodeType ts q = 1 \<and> f q) xs)"

text \<open>What the browser sorts and tells: stably or not, with a comparison of a node with itself seen or not.\<close>

record support =
  sortStable :: bool
  detectDuplicates :: bool

definition jq_unique :: "dnode list \<Rightarrow> support \<Rightarrow> node list \<Rightarrow> node list" where
  "jq_unique ts b results =
     uniqueSort (\<lambda>x y. the (sortOrder ts (if sortStable b then None else Some results) x y)) (detectDuplicates b) results"

definition traverse :: "dnode list \<Rightarrow> support \<Rightarrow> traversal \<Rightarrow> (node \<Rightarrow> bool) \<Rightarrow> (node \<Rightarrow> bool) option \<Rightarrow> node list \<Rightarrow> node list" where
  "traverse ts b m until sel this =
     (let matched = jq_filter ts sel (concat (map (traversal_fn ts m until) this)) in
      if length this > 1 then
        (let matched1 = (if guaranteedUnique m then matched else jq_unique ts b matched) in
         if rparentsprev m then rev matched1 else matched1)
      else matched)"

text \<open>closest climbs from every node to the first that matches, below the context.\<close>

function climb :: "(node \<Rightarrow> bool) \<Rightarrow> node option \<Rightarrow> node \<Rightarrow> node option" where
  "climb matches context_node cur =
     (if context_node = Some cur then None
      else if matches cur then Some cur
      else case parentNode cur of None \<Rightarrow> None | Some q \<Rightarrow> climb matches context_node q)"
  by auto
termination by (relation "measure (\<lambda>(f, c, p). length p)") (auto simp: parentNode_def split: if_splits)

declare climb.simps [simp del]

definition closest :: "dnode list \<Rightarrow> support \<Rightarrow> (node \<Rightarrow> bool) \<Rightarrow> node option \<Rightarrow> node list \<Rightarrow> node list" where
  "closest ts b sel context_node this =
     (let matched = concat (map (\<lambda>p. list_of (climb (\<lambda>q. nodeType ts q = 1 \<and> sel q) context_node p)) this) in
      if length matched > 1 then jq_unique ts b matched else matched)"

definition has_target :: "node list \<Rightarrow> node list \<Rightarrow> node list" where
  "has_target targets this = filter (\<lambda>p. list_ex (contains_up p) targets) this"

text \<open>index without an argument.\<close>

definition index_in_parent :: "dnode list \<Rightarrow> support \<Rightarrow> node list \<Rightarrow> int" where
  "index_in_parent ts b this =
     (case this of
        [] \<Rightarrow> -1
      | p # _ \<Rightarrow> if parentNode p = None then -1 else int (length (traverse ts b PrevAll (\<lambda>_. False) None [p])))"

section \<open>Lines of nodes\<close>

text \<open>The nodes that a direction runs through.\<close>

definition line_of :: "dnode list \<Rightarrow> direction \<Rightarrow> node \<Rightarrow> node list" where
  "line_of ts d p =
     (case d of
        Up \<Rightarrow> rev (map (\<lambda>k. take (Suc k) p) [0..<length p - 1])
      | Forth \<Rightarrow> if length p \<le> 1 then [] else map (\<lambda>i. butlast p @ [i]) [Suc (last p)..<n_kids ts (butlast p)]
      | Back \<Rightarrow> if length p \<le> 1 then [] else rev (map (\<lambda>i. butlast p @ [i]) [0..<last p]))"

lemma line_of_move: "line_of ts d p = (case move ts d p of None \<Rightarrow> [] | Some q \<Rightarrow> q # line_of ts d q)"
proof (cases "length p \<le> 1")
  case True
  then show ?thesis by (cases d) (simp_all add: line_of_def move_def parentNode_def nextSibling_def previousSibling_def)
next
  case False
  then obtain r i where p: "p = r @ [i]" "r \<noteq> []" by (cases p rule: rev_cases) auto
  show ?thesis
  proof (cases d)
    case Up
    have "[0..<length r] = [0..<length r - 1] @ [length r - 1]" using p(2) by (cases "length r") simp_all
    with p Up show ?thesis by (simp add: line_of_def move_def parentNode_def)
  next
    case Forth
    with p show ?thesis by (auto simp: line_of_def move_def nextSibling_def upt_conv_Cons)
  next
    case Back
    with p show ?thesis by (cases i) (simp_all add: line_of_def move_def previousSibling_def)
  qed
qed

lemma jq_dir_line:
  "jq_dir ts d until p = filter (\<lambda>q. nodeType ts q = 1)
     (takeWhile (\<lambda>q. nodeType ts q \<noteq> 9 \<and> \<not> (nodeType ts q = 1 \<and> until q)) (line_of ts d p))"
proof (induction ts d until p rule: jq_dir.induct)
  case (1 ts d until p)
  show ?case
  proof (cases "move ts d p")
    case None
    then show ?thesis by (simp add: jq_dir.simps [of _ _ _ p] line_of_move [of _ _ p])
  next
    case (Some q)
    with 1 show ?thesis by (auto simp: jq_dir.simps [of _ _ _ p] line_of_move [of _ _ p])
  qed
qed

lemma jq_sibling_line: "jq_sibling ts (Some n) el = filter (\<lambda>q. nodeType ts q = 1 \<and> el \<noteq> Some q) (n # line_of ts Forth n)"
proof (induction "steps_left ts Forth n" arbitrary: n rule: less_induct)
  case less
  show ?case
  proof (cases "nextSibling ts n")
    case None
    then show ?thesis by (simp add: jq_sibling.simps [of _ "Some n"] jq_sibling.simps [of _ None] line_of_move [of _ _ n] move_def)
  next
    case (Some q)
    then have m: "move ts Forth n = Some q" by (simp add: move_def)
    from less [OF move_steps [OF m]] Some m show ?thesis
      by (simp add: jq_sibling.simps [of _ "Some n"] line_of_move [of _ _ n])
  qed
qed

lemma next_element_line: "next_element ts d p = List.find (\<lambda>q. nodeType ts q = 1) (line_of ts d p)"
proof (induction ts d p rule: next_element.induct)
  case (1 ts d p)
  show ?case
  proof (cases "move ts d p")
    case None
    then show ?thesis by (simp add: next_element.simps [of _ _ p] line_of_move [of _ _ p])
  next
    case (Some q)
    with 1 show ?thesis by (simp add: next_element.simps [of _ _ p] line_of_move [of _ _ p])
  qed
qed

lemma child_line: "n_kids ts p \<noteq> 0 \<Longrightarrow> p \<noteq> [] \<Longrightarrow> (p @ [0]) # line_of ts Forth (p @ [0]) = childNodes ts p"
  by (simp add: line_of_def childNodes_def upt_conv_Cons)

lemma children_line: "p \<noteq> [] \<Longrightarrow> jq_sibling ts (firstChild ts p) el = filter (\<lambda>q. nodeType ts q = 1 \<and> el \<noteq> Some q) (childNodes ts p)"
  by (cases "n_kids ts p = 0")
    (simp_all add: firstChild_def jq_sibling.simps [of _ None] jq_sibling_line child_line, simp add: childNodes_def)

text \<open>Without a context closest finds the first match of the node and its ancestors.\<close>

lemma climb_line: "climb f None p = List.find f (p # line_of ts Up p)"
proof (induction f "None :: node option" p rule: climb.induct)
  case (1 f cur)
  show ?case
  proof (cases "parentNode cur")
    case None
    then show ?thesis by (simp add: climb.simps [of f None cur] line_of_move [of ts Up cur] move_def)
  next
    case (Some q)
    with 1 show ?thesis by (simp add: climb.simps [of f None cur] line_of_move [of ts Up cur] move_def)
  qed
qed

section \<open>Order\<close>

lemma line_in_doc:
  assumes "in_doc ts p" "q \<in> set (line_of ts d p)"
  shows "in_doc ts q"
proof -
  have p: "is_node ts p" "hd p = 0" "p \<noteq> []" using assms(1) is_node_ne by (auto simp: in_doc_def)
  show ?thesis
  proof (cases d)
    case Up
    then obtain k where q: "q = take (Suc k) p" using assms(2) by (auto simp: line_of_def)
    with is_node_prefix [of ts q "drop (Suc k) p"] p show ?thesis by (cases p) (simp_all add: in_doc_def)
  next
    case Forth
    then obtain i where q: "q = butlast p @ [i]" "i < n_kids ts (butlast p)" "length p > 1"
      using assms(2) by (auto simp: line_of_def split: if_splits)
    then have "butlast p \<noteq> []" "hd (butlast p) = 0" using p by (cases p; auto)+
    with q show ?thesis by (simp add: in_doc_def is_node_snoc)
  next
    case Back
    then obtain i where q: "q = butlast p @ [i]" "i < last p" "length p > 1"
      using assms(2) by (auto simp: line_of_def split: if_splits)
    then have b: "butlast p \<noteq> []" "hd (butlast p) = 0" using p by (cases p; auto)+
    moreover have "last p < n_kids ts (butlast p)" using p(1,3) is_node_snoc [OF b(1), of ts "last p"] by simp
    ultimately show ?thesis using q by (simp add: in_doc_def is_node_snoc)
  qed
qed

definition descending :: "direction \<Rightarrow> bool" where
  "descending d \<longleftrightarrow> d \<noteq> Forth"

lemma take_less: "i < j \<Longrightarrow> j < length p \<Longrightarrow> take (Suc i) p < (take (Suc j) p :: node)"
proof -
  assume ij: "i < j" "j < length p"
  then have "take (Suc j) p = take (Suc i) p @ drop (Suc i) (take (Suc j) p)"
    using append_take_drop_id [of "Suc i" "take (Suc j) p"] by (simp add: min_absorb1)
  moreover obtain x q where "drop (Suc i) (take (Suc j) p) = x # q" using ij by (cases "drop (Suc i) (take (Suc j) p)") auto
  ultimately show ?thesis using less_above [of "take (Suc i) p" x q] by metis
qed

lemma snoc_less: "(r @ [i] :: node) < r @ [j] \<longleftrightarrow> i < j"
  by (simp add: less_apart)

lemma line_sorted: "sorted_wrt (if descending d then (>) else (<)) (line_of ts d p)"
proof (cases d)
  case Up
  have "sorted_wrt (<) (map (\<lambda>k. take (Suc k) p) [0..<length p - 1])"
    by (auto simp: sorted_wrt_map sorted_wrt_iff_nth_less take_less)
  with Up show ?thesis by (simp add: line_of_def descending_def sorted_wrt_rev)
next
  case Forth
  then show ?thesis by (auto simp: line_of_def descending_def sorted_wrt_map snoc_less)
next
  case Back
  have "sorted_wrt (<) (map (\<lambda>i. butlast p @ [i]) [0..<last p])" by (simp add: sorted_wrt_map snoc_less)
  with Back show ?thesis by (simp add: line_of_def descending_def sorted_wrt_rev)
qed

lemma sorted_wrt_takeWhile: "sorted_wrt R xs \<Longrightarrow> sorted_wrt R (takeWhile P xs)"
  by (induction xs) (auto dest: set_takeWhileD)

lemma jq_dir_sorted: "sorted_wrt (if descending d then (>) else (<)) (jq_dir ts d until p)"
  unfolding jq_dir_line by (intro sorted_wrt_filter sorted_wrt_takeWhile line_sorted)

lemma jq_dir_in_doc: "in_doc ts p \<Longrightarrow> q \<in> set (jq_dir ts d until p) \<Longrightarrow> in_doc ts q"
  unfolding jq_dir_line by (auto dest: set_takeWhileD line_in_doc)

lemma childNodes_sorted: "sorted_wrt (<) (childNodes ts p)"
  by (simp add: childNodes_def sorted_wrt_map snoc_less)

lemma childNodes_in_doc: "in_doc ts p \<Longrightarrow> q \<in> set (childNodes ts p) \<Longrightarrow> in_doc ts q"
  using is_node_ne [of ts p] by (auto simp: childNodes_def in_doc_def is_node_snoc)

lemma parent_in_doc: "in_doc ts p \<Longrightarrow> parentNode p = Some q \<Longrightarrow> in_doc ts q \<and> q \<noteq> []"
  using line_in_doc [of ts p q Up] line_of_move [of ts Up p] is_node_ne [of ts q] by (simp add: move_def in_doc_def)

lemma siblings_line:
  assumes "in_doc ts p"
  shows "traversal_fn ts Siblings until p =
    (case parentNode p of None \<Rightarrow> [] | Some r \<Rightarrow> filter (\<lambda>q. nodeType ts q = 1 \<and> p \<noteq> q) (childNodes ts r))"
proof (cases "parentNode p")
  case None
  then show ?thesis by (simp add: traversal_fn_def jq_sibling.simps)
next
  case (Some r)
  with parent_in_doc [OF assms] children_line [of r ts "Some p"] show ?thesis by (simp add: traversal_fn_def)
qed

lemma fn_in_doc:
  assumes "in_doc ts p" "q \<in> set (traversal_fn ts m until p)"
  shows "in_doc ts q"
proof -
  have p: "p \<noteq> []" using assms(1) is_node_ne by (auto simp: in_doc_def)
  have n: "in_doc ts q" if "next_element ts d p = Some q" for d
    using that line_in_doc [OF assms(1)] by (metis find_Some_iff next_element_line nth_mem)
  show ?thesis
  proof (cases m)
    case Parent
    with assms parent_in_doc show ?thesis by (auto simp: traversal_fn_def split: option.splits if_splits)
  next
    case Siblings
    then obtain r where "parentNode p = Some r" "q \<in> set (childNodes ts r)"
      using assms(2) siblings_line [OF assms(1)] by (cases "parentNode p") auto
    with parent_in_doc [OF assms(1)] childNodes_in_doc show ?thesis by blast
  next
    case Children
    with assms p childNodes_in_doc show ?thesis by (auto simp: traversal_fn_def children_line)
  next
    case Next
    with assms(2) n [of Forth] show ?thesis by (auto simp: traversal_fn_def list_of_def split: option.splits)
  next
    case Prev
    with assms(2) n [of Back] show ?thesis by (auto simp: traversal_fn_def list_of_def split: option.splits)
  next
    case Contents
    with assms childNodes_in_doc show ?thesis by (simp add: traversal_fn_def)
  qed (use assms(2) jq_dir_in_doc [OF assms(1)] in \<open>simp_all add: traversal_fn_def\<close>)
qed

lemma fn_sorted:
  assumes "in_doc ts p" "\<not> guaranteedUnique m"
  shows "sorted_wrt (if rparentsprev m then (>) else (<)) (traversal_fn ts m until p)"
proof (cases m)
  case Parents
  then show ?thesis using jq_dir_sorted [of Up] by (simp add: traversal_fn_def rparentsprev_def descending_def)
next
  case ParentsUntil
  then show ?thesis using jq_dir_sorted [of Up] by (simp add: traversal_fn_def rparentsprev_def descending_def)
next
  case PrevAll
  then show ?thesis using jq_dir_sorted [of Back] by (simp add: traversal_fn_def rparentsprev_def descending_def)
next
  case PrevUntil
  then show ?thesis using jq_dir_sorted [of Back] by (simp add: traversal_fn_def rparentsprev_def descending_def)
next
  case NextAll
  then show ?thesis using jq_dir_sorted [of Forth] by (simp add: traversal_fn_def rparentsprev_def descending_def)
next
  case NextUntil
  then show ?thesis using jq_dir_sorted [of Forth] by (simp add: traversal_fn_def rparentsprev_def descending_def)
next
  case Siblings
  then show ?thesis using siblings_line [OF assms(1)] sorted_wrt_filter [OF childNodes_sorted]
    by (simp add: rparentsprev_def split: option.split)
next
  case Parent
  then show ?thesis by (simp add: traversal_fn_def rparentsprev_def split: option.split)
qed (use assms(2) in \<open>simp_all add: guaranteedUnique_def\<close>)

lemma jq_filter_sorted: "sorted_wrt R xs \<Longrightarrow> sorted_wrt R (jq_filter ts sel xs)"
  by (simp add: jq_filter_def sorted_wrt_filter split: option.split)

lemma jq_filter_set: "q \<in> set (jq_filter ts sel xs) \<longleftrightarrow> q \<in> set xs \<and> (case sel of None \<Rightarrow> True | Some f \<Rightarrow> nodeType ts q = 1 \<and> f q)"
  by (auto simp: jq_filter_def split: option.split)

lemma jq_unique_doc: "\<forall>p\<in>set xs. in_doc ts p \<Longrightarrow> jq_unique ts b xs = filter (\<lambda>p. p \<in> set xs) (doc_nodes ts)"
  using uniqueSort_doc [of xs ts] by (simp only: jq_unique_def flip: doc_cmp_def)

text \<open>The matched nodes before they are sorted.\<close>

lemma matched_in_doc:
  "\<forall>p\<in>set this. in_doc ts p \<Longrightarrow> \<forall>q\<in>set (jq_filter ts sel (concat (map (traversal_fn ts m until) this))). in_doc ts q"
proof
  fix q assume "\<forall>p\<in>set this. in_doc ts p" "q \<in> set (jq_filter ts sel (concat (map (traversal_fn ts m until) this)))"
  then obtain p where "in_doc ts p" "q \<in> set (traversal_fn ts m until p)" unfolding jq_filter_set by auto
  then show "in_doc ts q" by (rule fn_in_doc)
qed

lemma traverse_set:
  assumes "\<forall>p\<in>set this. in_doc ts p"
  shows "set (traverse ts b m until sel this) = set (jq_filter ts sel (concat (map (traversal_fn ts m until) this)))"
  using jq_unique_doc [OF matched_in_doc [OF assms]] matched_in_doc [OF assms] doc_nodes_set
  by (auto simp: traverse_def Let_def)

section \<open>What the methods find\<close>

text \<open>The relation that a method without an end is about.\<close>

definition related :: "dnode list \<Rightarrow> traversal \<Rightarrow> node \<Rightarrow> node \<Rightarrow> bool" where
  "related ts m p q \<longleftrightarrow>
     (case m of
        Parent \<Rightarrow> parentNode p = Some q \<and> nodeType ts q \<noteq> 11
      | Parents \<Rightarrow> strict_prefix q p \<and> nodeType ts q = 1
      | NextAll \<Rightarrow> parentNode p \<noteq> None \<and> parentNode q = parentNode p \<and> nodeType ts q = 1 \<and> p < q
      | PrevAll \<Rightarrow> parentNode p \<noteq> None \<and> parentNode q = parentNode p \<and> nodeType ts q = 1 \<and> q < p
      | Siblings \<Rightarrow> parentNode p \<noteq> None \<and> parentNode q = parentNode p \<and> nodeType ts q = 1 \<and> q \<noteq> p
      | Children \<Rightarrow> parentNode q = Some p \<and> nodeType ts q = 1
      | Contents \<Rightarrow> parentNode q = Some p \<and> is_node ts q
      | _ \<Rightarrow> False)"

definition all_methods :: "traversal set" where
  "all_methods = {Parent, Parents, NextAll, PrevAll, Siblings, Children, Contents}"

text \<open>Only the root of the document has its type.\<close>

definition doc_wf :: "dnode list \<Rightarrow> bool" where
  "doc_wf ts \<longleftrightarrow> (\<forall>p\<in>set (doc_nodes ts). nodeType ts p = 9 \<longrightarrow> p = document)"

lemma element_is_node: "nodeType ts q = 1 \<Longrightarrow> is_node ts q"
  by (auto simp: nodeType_def is_node_def split: option.splits)

lemma filter_takeWhile_but_last:
  "\<forall>x\<in>set (butlast xs). P x \<Longrightarrow> \<forall>x. E x \<longrightarrow> P x \<Longrightarrow> filter E (takeWhile P xs) = filter E xs"
  by (induction xs) (auto split: if_splits)

lemma line_butlast_long:
  assumes "q \<in> set (butlast (line_of ts d p))"
  shows "length q > 1"
proof (cases d)
  case Up
  have "butlast (line_of ts Up p) = rev (map (\<lambda>k. take (Suc k) p) [Suc 0..<length p - 1])"
    by (simp add: line_of_def butlast_rev flip: map_tl)
  with assms Up show ?thesis by auto
qed (use in_set_butlastD [OF assms] in \<open>auto simp: line_of_def split: if_splits\<close>)

lemma dir_all:
  assumes "doc_wf ts" "in_doc ts p"
  shows "jq_dir ts d (\<lambda>_. False) p = filter (\<lambda>q. nodeType ts q = 1) (line_of ts d p)"
proof -
  have "nodeType ts q \<noteq> 9" if q: "q \<in> set (butlast (line_of ts d p))" for q
  proof
    assume "nodeType ts q = 9"
    then have "q = document" using assms(1) line_in_doc [OF assms(2) in_set_butlastD [OF q]]
      by (auto simp: doc_wf_def doc_nodes_set)
    moreover have "length q > 1" using line_butlast_long [OF q] .
    ultimately show False by (simp add: document_def)
  qed
  then show ?thesis unfolding jq_dir_line by (intro filter_takeWhile_but_last) auto
qed

lemma node_snoc:
  assumes "in_doc ts p" "parentNode p \<noteq> None"
  obtains r i where "p = r @ [i]" "r \<noteq> []" "parentNode p = Some r" "i < n_kids ts r"
proof -
  obtain r i where p: "p = r @ [i]" "r \<noteq> []"
    using assms(2) by (cases p rule: rev_cases) (auto simp: parentNode_def split: if_splits)
  with assms(1) have "i < n_kids ts r" by (simp add: in_doc_def is_node_snoc)
  with p that show thesis by (simp add: parentNode_def)
qed

lemma childNodes_iff: "p \<noteq> [] \<Longrightarrow> q \<in> set (childNodes ts p) \<longleftrightarrow> parentNode q = Some p \<and> is_node ts q"
proof -
  assume p: "p \<noteq> []"
  show ?thesis
  proof (cases q rule: rev_cases)
    case Nil
    then show ?thesis by (auto simp: childNodes_def parentNode_def)
  next
    case (snoc r i)
    with p show ?thesis by (auto simp: childNodes_def parentNode_def is_node_snoc)
  qed
qed

lemma up_line_iff: "q \<in> set (line_of ts Up p) \<longleftrightarrow> q \<noteq> [] \<and> strict_prefix q p"
proof
  assume "q \<in> set (line_of ts Up p)"
  then obtain k where "q = take (Suc k) p" "k < length p - 1" by (auto simp: line_of_def)
  then show "q \<noteq> [] \<and> strict_prefix q p" by (auto simp: take_is_prefix strict_prefix_def)
next
  assume "q \<noteq> [] \<and> strict_prefix q p"
  then obtain z zs where z: "q \<noteq> []" "p = q @ z # zs" by (auto elim: strict_prefixE')
  then obtain k where "length q = Suc k" by (cases q) auto
  with z have "length q = Suc k" "q = take (length q) p" "length q < length p" by simp_all
  then show "q \<in> set (line_of ts Up p)" by (auto simp: line_of_def image_iff intro!: bexI [of _ k])
qed

lemma side_line_iff:
  assumes "in_doc ts p" "d \<noteq> Up"
  shows "q \<in> set (line_of ts d p) \<longleftrightarrow> parentNode p \<noteq> None \<and> parentNode q = parentNode p \<and> is_node ts q \<and> (if d = Forth then p < q else q < p)"
proof (cases "parentNode p")
  case None
  then show ?thesis using assms(2) by (cases d) (simp_all add: line_of_def parentNode_None)
next
  case (Some r')
  with node_snoc [OF assms(1)] obtain r i where p: "p = r @ [i]" "r \<noteq> []" "parentNode p = Some r" "i < n_kids ts r" by blast
  show ?thesis
  proof (cases "parentNode q = Some r")
    case True
    then obtain j where q: "q = r @ [j]" by (cases q rule: rev_cases) (auto simp: parentNode_def split: if_splits)
    show ?thesis using p q True assms(2) by (cases d) (auto simp: line_of_def snoc_less is_node_snoc)
  next
    case False
    have "parentNode (r @ [j]) = Some r" for j using p(2) by (simp add: parentNode_def)
    with False p assms(2) show ?thesis by (cases d) (auto simp: line_of_def)
  qed
qed

lemma fn_related:
  assumes "doc_wf ts" "in_doc ts p" "m \<in> all_methods"
  shows "q \<in> set (traversal_fn ts m until p) \<longleftrightarrow> related ts m p q"
proof -
  have p: "p \<noteq> []" using assms(2) is_node_ne by (auto simp: in_doc_def)
  note el = element_is_node
  consider "m = Parent" | "m = Parents" | "m = NextAll" | "m = PrevAll" | "m = Siblings" | "m = Children" | "m = Contents"
    using assms(3) by (auto simp: all_methods_def)
  then show ?thesis
  proof cases
    case 1
    then show ?thesis by (auto simp: traversal_fn_def related_def split: option.split)
  next
    case 2
    have "nodeType ts [] \<noteq> 1" by (simp add: nodeType_def)
    with 2 show ?thesis using dir_all [OF assms(1,2)] by (auto simp: traversal_fn_def related_def up_line_iff)
  next
    case 3
    then show ?thesis using dir_all [OF assms(1,2)] side_line_iff [OF assms(2), of Forth q] el
      by (auto simp: traversal_fn_def related_def)
  next
    case 4
    then show ?thesis using dir_all [OF assms(1,2)] side_line_iff [OF assms(2), of Back q] el
      by (auto simp: traversal_fn_def related_def)
  next
    case 5
    show ?thesis
    proof (cases "parentNode p")
      case None
      with 5 siblings_line [OF assms(2)] show ?thesis by (simp add: related_def)
    next
      case (Some r)
      with 5 siblings_line [OF assms(2)] childNodes_iff [of r q ts] parent_in_doc [OF assms(2) Some] el show ?thesis
        by (auto simp: related_def)
    qed
  next
    case 6
    then show ?thesis using p childNodes_iff [OF p] el by (auto simp: traversal_fn_def related_def children_line)
  next
    case 7
    then show ?thesis using childNodes_iff [OF p] by (simp add: traversal_fn_def related_def)
  qed
qed

section \<open>Properties\<close>





text \<open>contains and has are about strict descendants; index counts the elements before.\<close>

lemma has_target_iff:
  assumes "\<forall>p\<in>set this. p \<noteq> []"
  shows "has_target targets this = filter (\<lambda>p. list_ex (strict_prefix p) targets) this"
  unfolding has_target_def
proof (rule filter_cong [OF refl])
  fix p assume "p \<in> set this"
  with assms show "list_ex (contains_up p) targets = list_ex (strict_prefix p) targets" by (simp add: list_ex_iff contains_up_iff)
qed

text \<open>
  index without an argument is the number of the elements before the first node of the set among the
  children of its parent, or -1 where it has no parent.
\<close>

theorem index_counts_elements:
  assumes "doc_wf ts" "in_doc ts (r @ [i])" "r \<noteq> []"
  shows "index_in_parent ts b ((r @ [i]) # ps) = int (length (filter (\<lambda>j. nodeType ts (r @ [j]) = 1) [0..<i]))"
proof -
  have "line_of ts Back (r @ [i]) = rev (map (\<lambda>j. r @ [j]) [0..<i])" using assms(3) by (simp add: line_of_def)
  then have "traverse ts b PrevAll (\<lambda>_. False) None [r @ [i]] = rev (filter (\<lambda>q. nodeType ts q = 1) (map (\<lambda>j. r @ [j]) [0..<i]))"
    by (simp add: traverse_def jq_filter_def traversal_fn_def dir_all [OF assms(1,2)] rev_filter)
  then have "length (traverse ts b PrevAll (\<lambda>_. False) None [r @ [i]]) = length (filter (\<lambda>j. nodeType ts (r @ [j]) = 1) [0..<i])"
    by (simp add: filter_map comp_def)
  with assms(3) show ?thesis by (simp add: index_in_parent_def parentNode_None)
qed

theorem index_counts_elements_witness:
  "index_in_parent example_forest \<lparr>sortStable = True, detectDuplicates = True\<rparr> [[0, 0, 2]] = 1"
proof -
  have d: "doc_wf example_forest" "in_doc example_forest ([0, 0] @ [2])" by code_simp+
  have t: "filter (\<lambda>j. nodeType example_forest ([0, 0] @ [j]) = 1) [0..<2] = [0]" by code_simp
  from index_counts_elements [OF d, of _ "[]", unfolded t] show ?thesis by simp
qed

end
