(* ===== verification/Bs_Transition.thy ===== *)
theory Bs_Transition
  imports Js_Prelude
begin

text \<open>
  Transitions of bootstrap.js: a plugin that starts a CSS transition binds a callback with one to the end
  event of the elements that move, and calls emulateTransitionEnd, which sends the event itself when the
  browser has not sent it within a duration. The states of the plugins extend the record of this theory.
\<close>

section \<open>Handlers and timers\<close>

text \<open>
  A handler of bsTransitionEnd is a callback of a plugin, or the one of emulateTransitionEnd that sets its
  variable called; the variables are numbered. A timer keeps the elements of the set \<open>$el\<close>. The event of a
  descendant does not run the handlers of an element: the special event compares the target.
\<close>

datatype 'c one_handler = Run 'c | SetCalled nat

record ('t, 'c) trans =
  bound :: "('t \<times> 'c one_handler) list"
  timers :: "(nat \<times> 't list) list"
  called :: "nat \<Rightarrow> bool"
  next_called :: nat

definition bind_one :: "'t list \<Rightarrow> 'c one_handler \<Rightarrow> ('t, 'c, 'z) trans_scheme \<Rightarrow> ('t, 'c, 'z) trans_scheme" where
  "bind_one els h s = s\<lparr>bound := bound s @ map (\<lambda>t. (t, h)) els\<rparr>"

definition emulateTransitionEnd :: "'t list \<Rightarrow> ('t, 'c, 'z) trans_scheme \<Rightarrow> ('t, 'c, 'z) trans_scheme" where
  "emulateTransitionEnd els s =
     (let n = next_called s;
          s1 = bind_one els (SetCalled n) (s\<lparr>called := (called s)(n := False), next_called := Suc n\<rparr>) in
      s1\<lparr>timers := timers s1 @ [(n, els)]\<rparr>)"

text \<open>\<open>.one('bsTransitionEnd', callback).emulateTransitionEnd(duration)\<close>\<close>

definition await :: "'t list \<Rightarrow> 'c \<Rightarrow> ('t, 'c, 'z) trans_scheme \<Rightarrow> ('t, 'c, 'z) trans_scheme" where
  "await els c s = emulateTransitionEnd els (bind_one els (Run c) s)"

text \<open>
  The end event at an element: its handlers are unbound and run. The variables are set and the callbacks
  of the plugin are given back in their order, for the plugin to run.
\<close>

fun callbacks :: "('t \<times> 'c one_handler) list \<Rightarrow> 'c list" where
  "callbacks [] = []"
| "callbacks ((t, Run c) # hs) = c # callbacks hs"
| "callbacks ((t, SetCalled n) # hs) = callbacks hs"

fun marks :: "('t \<times> 'c one_handler) list \<Rightarrow> nat list" where
  "marks [] = []"
| "marks ((t, Run c) # hs) = marks hs"
| "marks ((t, SetCalled n) # hs) = n # marks hs"

definition transition_end :: "'t \<Rightarrow> ('t, 'c, 'z) trans_scheme \<Rightarrow> 'c list \<times> ('t, 'c, 'z) trans_scheme" where
  "transition_end t s =
     (let hs = filter (\<lambda>h. fst h = t) (bound s) in
      (callbacks hs,
       s\<lparr>bound := filter (\<lambda>h. fst h \<noteq> t) (bound s), called := (\<lambda>n. n \<in> set (marks hs) \<or> called s n)\<rparr>))"

text \<open>
  The plugin's \<open>run\<close> of a callback changes the whole state. \<open>fire_end\<close> is the event at an element,
  \<open>fire_timer\<close> the timer of an emulateTransitionEnd, which sends the event to each of its elements; it is taken from the
  timers when its function is through, and nothing reads it before.
\<close>

definition fire_end :: "('c \<Rightarrow> ('t, 'c, 'z) trans_scheme \<Rightarrow> ('t, 'c, 'z) trans_scheme) \<Rightarrow> 't \<Rightarrow> ('t, 'c, 'z) trans_scheme
    \<Rightarrow> ('t, 'c, 'z) trans_scheme" where
  "fire_end run t s = (case transition_end t s of (cs, s') \<Rightarrow> fold run cs s')"

definition fire_timer :: "('c \<Rightarrow> ('t, 'c, 'z) trans_scheme \<Rightarrow> ('t, 'c, 'z) trans_scheme) \<Rightarrow> nat \<Rightarrow> ('t, 'c, 'z) trans_scheme
    \<Rightarrow> ('t, 'c, 'z) trans_scheme" where
  "fire_timer run n s =
     (case map_of (timers s) n of
        None \<Rightarrow> s
      | Some els \<Rightarrow>
          (let s1 = (if called s n then s else fold (fire_end run) els s) in
           s1\<lparr>timers := filter (\<lambda>x. fst x \<noteq> n) (timers s1)\<rparr>))"

text \<open>What the browser does to the transitions.\<close>

datatype 't tevent = EndAt 't | TimerOf nat

fun tevent_run :: "('c \<Rightarrow> ('t, 'c, 'z) trans_scheme \<Rightarrow> ('t, 'c, 'z) trans_scheme) \<Rightarrow> 't tevent \<Rightarrow> ('t, 'c, 'z) trans_scheme
    \<Rightarrow> ('t, 'c, 'z) trans_scheme" where
  "tevent_run run (EndAt t) s = fire_end run t s"
| "tevent_run run (TimerOf n) s = fire_timer run n s"

definition no_transition :: "('t, 'c) trans" where
  "no_transition = \<lparr>bound = [], timers = [], called = (\<lambda>_. False), next_called = 0\<rparr>"

section \<open>The invariant\<close>

text \<open>
  The handlers that set a variable belong to the timers with an unset one, and every callback has such a
  handler beside it: the timer will send the event to its element. The plugins animate one element at a time.
\<close>

definition trans_wf :: "('t, 'c, 'z) trans_scheme \<Rightarrow> bool" where
  "trans_wf s \<longleftrightarrow> distinct (map fst (timers s)) \<and> (\<forall>n els. (n, els) \<in> set (timers s) \<longrightarrow> n < next_called s \<and> (\<exists>t. els = [t]))
     \<and> (\<forall>t n. (t, SetCalled n) \<in> set (bound s) \<longleftrightarrow> (n, [t]) \<in> set (timers s) \<and> \<not> called s n)
     \<and> (\<forall>t c. (t, Run c) \<in> set (bound s) \<longrightarrow> (\<exists>n. (t, SetCalled n) \<in> set (bound s)))"

text \<open>The transitions of a state, without the rest of it.\<close>

definition same_trans :: "('t, 'c, 'z) trans_scheme \<Rightarrow> ('t, 'c, 'y) trans_scheme \<Rightarrow> bool" where
  "same_trans s s' \<longleftrightarrow> bound s' = bound s \<and> timers s' = timers s \<and> called s' = called s \<and> next_called s' = next_called s"

lemma callbacks_append [simp]: "callbacks (xs @ ys) = callbacks xs @ callbacks ys"
  by (induction xs rule: callbacks.induct) simp_all

lemma marks_append [simp]: "marks (xs @ ys) = marks xs @ marks ys"
  by (induction xs rule: marks.induct) simp_all

lemma callbacks_SetCalled [simp]: "callbacks (map (\<lambda>t. (t, SetCalled n)) els) = []"
  by (induction els) simp_all

lemma callbacks_Run [simp]: "callbacks (map (\<lambda>t. (t, Run c)) els) = replicate (length els) c"
  by (induction els) simp_all

lemma marks_mem: "n \<in> set (marks hs) \<longleftrightarrow> (\<exists>t. (t, SetCalled n) \<in> set hs)"
  by (induction hs rule: marks.induct) auto

lemma callbacks_mem: "c \<in> set (callbacks hs) \<longleftrightarrow> (\<exists>t. (t, Run c) \<in> set hs)"
  by (induction hs rule: callbacks.induct) auto

lemma await_sel [simp]:
  "bound (await [t] c s) = bound s @ [(t, Run c), (t, SetCalled (next_called s))]"
  "timers (await [t] c s) = timers s @ [(next_called s, [t])]"
  "called (await [t] c s) = (called s)(next_called s := False)"
  "next_called (await [t] c s) = Suc (next_called s)"
  by (simp_all add: await_def emulateTransitionEnd_def bind_one_def Let_def)

lemma trans_wfI:
  assumes "distinct (map fst (timers s))" "\<And>n els. (n, els) \<in> set (timers s) \<Longrightarrow> n < next_called s \<and> (\<exists>t. els = [t])"
    "\<And>t n. (t, SetCalled n) \<in> set (bound s) \<longleftrightarrow> (n, [t]) \<in> set (timers s) \<and> \<not> called s n"
    "\<And>t c. (t, Run c) \<in> set (bound s) \<Longrightarrow> \<exists>n. (t, SetCalled n) \<in> set (bound s)"
  shows "trans_wf s"
  unfolding trans_wf_def by (intro conjI allI assms(1,3)) (use assms(2,4) in blast)+

lemma wf_distinct: "trans_wf s \<Longrightarrow> distinct (map fst (timers s))"
  by (simp add: trans_wf_def)

lemma wf_timer: "trans_wf s \<Longrightarrow> (n, els) \<in> set (timers s) \<Longrightarrow> n < next_called s \<and> (\<exists>t. els = [t])"
  unfolding trans_wf_def by blast

lemma wf_set_called: "trans_wf s \<Longrightarrow> (t, SetCalled n) \<in> set (bound s) \<longleftrightarrow> (n, [t]) \<in> set (timers s) \<and> \<not> called s n"
  unfolding trans_wf_def by blast

lemma wf_run: "trans_wf s \<Longrightarrow> (t, Run c) \<in> set (bound s) \<Longrightarrow> \<exists>n. (t, SetCalled n) \<in> set (bound s)"
  unfolding trans_wf_def by blast

lemma wf_timer_unique: "trans_wf s \<Longrightarrow> (n, a) \<in> set (timers s) \<Longrightarrow> (n, b) \<in> set (timers s) \<Longrightarrow> a = b"
  using wf_distinct by (rule eq_key_imp_eq_value)

lemma wf_same_trans: "same_trans s s' \<Longrightarrow> trans_wf s \<Longrightarrow> trans_wf s'"
  using wf_distinct wf_timer wf_set_called wf_run by (intro trans_wfI) (simp_all add: same_trans_def)

lemma await_wf:
  assumes "trans_wf s"
  shows "trans_wf (await [t] c s)"
proof (rule trans_wfI)
  have f: "(next_called s, els) \<notin> set (timers s)" for els using wf_timer [OF assms] by blast
  then have "next_called s \<notin> fst ` set (timers s)" by auto
  with wf_distinct [OF assms] show "distinct (map fst (timers (await [t] c s)))" by simp
  show "n < next_called (await [t] c s) \<and> (\<exists>t. els = [t])" if "(n, els) \<in> set (timers (await [t] c s))" for n els
    using that wf_timer [OF assms, of n els] by (auto intro: less_SucI)
  show "(t', SetCalled n) \<in> set (bound (await [t] c s)) \<longleftrightarrow> (n, [t']) \<in> set (timers (await [t] c s)) \<and> \<not> called (await [t] c s) n" for t' n
    using f wf_set_called [OF assms, of t' n] by (cases "n = next_called s") auto
  show "\<exists>n. (t', SetCalled n) \<in> set (bound (await [t] c s))" if "(t', Run c') \<in> set (bound (await [t] c s))" for t' c'
    using that wf_run [OF assms, of t' c'] by auto
qed

lemma transition_end_wf:
  assumes "trans_wf s"
  shows "trans_wf (snd (transition_end t s))"
proof (rule trans_wfI)
  let ?m = "set (marks (filter (\<lambda>h. fst h = t) (bound s)))"
  have m: "n \<in> ?m \<longleftrightarrow> (n, [t]) \<in> set (timers s) \<and> \<not> called s n" for n
    using wf_set_called [OF assms, of t n] by (auto simp: marks_mem)
  show "distinct (map fst (timers (snd (transition_end t s))))" using wf_distinct [OF assms] by (simp add: transition_end_def Let_def)
  show "n < next_called (snd (transition_end t s)) \<and> (\<exists>t. els = [t])" if "(n, els) \<in> set (timers (snd (transition_end t s)))" for n els
    using that wf_timer [OF assms, of n els] by (simp add: transition_end_def Let_def)
  show "(t', SetCalled n) \<in> set (bound (snd (transition_end t s)))
      \<longleftrightarrow> (n, [t']) \<in> set (timers (snd (transition_end t s))) \<and> \<not> called (snd (transition_end t s)) n" for t' n
    using m [of n] wf_set_called [OF assms, of t' n] wf_timer_unique [OF assms, of n "[t]" "[t']"]
    by (auto simp: transition_end_def Let_def)
  show "\<exists>n. (t', SetCalled n) \<in> set (bound (snd (transition_end t s)))" if "(t', Run c) \<in> set (bound (snd (transition_end t s)))" for t' c
    using that wf_run [OF assms, of t' c] by (simp add: transition_end_def Let_def)
qed

lemma timer_removed_wf:
  assumes "trans_wf s" "called s n"
  shows "trans_wf (s\<lparr>timers := filter (\<lambda>x. fst x \<noteq> n) (timers s)\<rparr>)"
  using assms(2) wf_distinct [OF assms(1)] wf_timer [OF assms(1)] wf_run [OF assms(1)]
  by (intro trans_wfI) (auto simp: wf_set_called [OF assms(1)] distinct_map_filter)

lemma transition_end_called:
  "called (snd (transition_end t s)) n \<longleftrightarrow> called s n \<or> (t, SetCalled n) \<in> set (bound s)"
  by (auto simp: transition_end_def marks_mem)

lemma transition_end_next [simp]: "next_called (snd (transition_end t s)) = next_called s"
  by (simp add: transition_end_def Let_def)

text \<open>The bound callbacks with their elements; what the events do is told by them.\<close>

fun is_run :: "'t \<times> 'c one_handler \<Rightarrow> bool" where
  "is_run (t, Run c) = True"
| "is_run (t, SetCalled n) = False"

definition runs :: "('t, 'c, 'z) trans_scheme \<Rightarrow> ('t \<times> 'c one_handler) list" where
  "runs s = filter is_run (bound s)"

lemma callbacks_is_run: "callbacks (filter P hs) = callbacks (filter P (filter is_run hs))"
  by (induction hs rule: callbacks.induct) auto

lemma callbacks_runs: "callbacks (filter P (bound s)) = callbacks (filter P (runs s))"
  unfolding runs_def by (rule callbacks_is_run)

lemma runs_await [simp]: "runs (await [t] c s) = runs s @ [(t, Run c)]"
  by (simp add: runs_def)

lemma runs_end [simp]: "runs (snd (transition_end t s)) = filter (\<lambda>h. fst h \<noteq> t) (runs s)"
  by (simp add: runs_def transition_end_def Let_def conj_commute)

lemma fire_end_runs: "fire_end run t s = fold run (callbacks (filter (\<lambda>h. fst h = t) (runs s))) (snd (transition_end t s))"
  by (simp add: fire_end_def transition_end_def Let_def callbacks_runs)

lemma transition_end_more [simp]: "trans.more (snd (transition_end t s)) = trans.more s"
  by (simp add: transition_end_def Let_def)

section \<open>Plugins that await transitions\<close>

text \<open>
  The contract between the transitions and a plugin: an invariant that the end event and the end of a timer
  keep, and callbacks that set no old variable. Every event of the browser then keeps the invariant.
\<close>

locale transition_client =
  fixes run :: "'c \<Rightarrow> ('t, 'c, 'z) trans_scheme \<Rightarrow> ('t, 'c, 'z) trans_scheme"
    and ok :: "('t, 'c, 'z) trans_scheme \<Rightarrow> bool"
  assumes ok_wf: "ok s \<Longrightarrow> trans_wf s"
    and ok_end: "ok s \<Longrightarrow> ok (fire_end run t s)"
    and ok_timer: "ok s \<Longrightarrow> called s n \<Longrightarrow> ok (s\<lparr>timers := filter (\<lambda>x. fst x \<noteq> n) (timers s)\<rparr>)"
    and run_called: "next_called s \<le> next_called (run c s) \<and> (n < next_called s \<longrightarrow> called (run c s) n = called s n)"
begin

lemma fold_called:
  "next_called s \<le> next_called (fold run cs s) \<and> (n < next_called s \<longrightarrow> called (fold run cs s) n = called s n)"
proof (induction cs arbitrary: s)
  case (Cons c cs)
  from run_called [of s c n] Cons.IH [of "run c s"] show ?case by (simp add: order.strict_trans2)
qed simp

lemma end_called:
  assumes "n < next_called s"
  shows "called (fire_end run t s) n \<longleftrightarrow> called s n \<or> (t, SetCalled n) \<in> set (bound s)"
proof -
  obtain cs s' where e: "transition_end t s = (cs, s')" by (cases "transition_end t s")
  with assms have "n < next_called s'" using transition_end_next [of t s] by simp
  with e show ?thesis
    using fold_called [of s' cs n] transition_end_called [of t s n] by (simp add: fire_end_def)
qed

lemma timer_called:
  assumes "ok s" "map_of (timers s) n = Some els" "\<not> called s n"
  obtains t where "els = [t]" "called (fire_end run t s) n"
proof -
  have m: "(n, els) \<in> set (timers s)" using assms(2) by (rule map_of_SomeD)
  with ok_wf [OF assms(1)] obtain t where t: "els = [t]" "n < next_called s" by (auto simp: trans_wf_def)
  with ok_wf [OF assms(1)] m assms(3) have "(t, SetCalled n) \<in> set (bound s)" by (auto simp: trans_wf_def)
  with end_called [OF t(2)] t(1) that show thesis by blast
qed

lemma ok_fire_timer: "ok s \<Longrightarrow> ok (fire_timer run n s)"
proof -
  assume ok: "ok s"
  show "ok (fire_timer run n s)"
  proof (cases "map_of (timers s) n")
    case None
    with ok show ?thesis by (simp add: fire_timer_def)
  next
    case (Some els)
    show ?thesis
    proof (cases "called s n")
      case True
      with ok_timer [OF ok] Some show ?thesis by (simp add: fire_timer_def)
    next
      case False
      from timer_called [OF ok Some False] obtain t where "els = [t]" "called (fire_end run t s) n" .
      with ok_timer [OF ok_end [OF ok]] Some False show ?thesis by (simp add: fire_timer_def Let_def)
    qed
  qed
qed

lemma ok_tevent: "ok s \<Longrightarrow> ok (tevent_run run e s)"
  by (cases e) (simp_all add: ok_end ok_fire_timer)

lemma ok_tevents: "ok s \<Longrightarrow> ok (fold (tevent_run run) es s)"
  by (induction es arbitrary: s) (simp_all add: ok_tevent)

end

section \<open>An awaited callback runs once\<close>

text \<open>A plugin whose callbacks only write down that they have run.\<close>

definition log_run :: "'c \<Rightarrow> ('t, 'c, 'c list) trans_scheme \<Rightarrow> ('t, 'c, 'c list) trans_scheme" where
  "log_run c s = s\<lparr>trans.more := trans.more s @ [c]\<rparr>"

lemma fold_log [simp]: "fold log_run cs s = s\<lparr>trans.more := trans.more s @ cs\<rparr>"
  by (induction cs arbitrary: s) (simp_all add: log_run_def)

text \<open>The callback is pending at its element, where only its own timer's handler is bound beside it.\<close>

definition pending :: "'t \<Rightarrow> 'c \<Rightarrow> nat \<Rightarrow> ('t, 'c, 'z) trans_scheme \<Rightarrow> bool" where
  "pending t c n s \<longleftrightarrow> filter (\<lambda>h. fst h = t) (bound s) = [(t, Run c), (t, SetCalled n)]
     \<and> c \<notin> set (callbacks (filter (\<lambda>h. fst h \<noteq> t) (bound s))) \<and> (n, [t]) \<in> set (timers s)"

definition over :: "'c \<Rightarrow> ('t, 'c, 'z) trans_scheme \<Rightarrow> bool" where
  "over c s \<longleftrightarrow> c \<notin> set (callbacks (bound s))"

lemma callbacks_filter: "c \<in> set (callbacks (filter P hs)) \<Longrightarrow> c \<in> set (callbacks hs)"
  by (auto simp: callbacks_mem)

lemma fire_end_log: "fire_end log_run t s = (snd (transition_end t s))\<lparr>trans.more := trans.more s @ callbacks (filter (\<lambda>h. fst h = t) (bound s))\<rparr>"
  by (simp add: fire_end_def transition_end_def Let_def)

interpretation logged: transition_client log_run trans_wf
proof unfold_locales
  fix s :: "('t, 'c, 'c list) trans_scheme" and t n c
  show "trans_wf s \<Longrightarrow> trans_wf s" .
  show "trans_wf s \<Longrightarrow> trans_wf (fire_end log_run t s)"
    unfolding fire_end_log by (rule wf_same_trans [OF _ transition_end_wf]) (simp_all add: same_trans_def)
  show "trans_wf s \<Longrightarrow> called s n \<Longrightarrow> trans_wf (s\<lparr>timers := filter (\<lambda>x. fst x \<noteq> n) (timers s)\<rparr>)" by (rule timer_removed_wf)
  show "next_called s \<le> next_called (log_run c s) \<and> (n < next_called s \<longrightarrow> called (log_run c s) n = called s n)"
    by (simp add: log_run_def)
qed

text \<open>A timer acts as the end of its element, or not at all.\<close>

lemma fire_timer_log:
  assumes "trans_wf s"
  shows "(\<exists>t. (t, SetCalled n) \<in> set (bound s) \<and> bound (fire_timer log_run n s) = bound (fire_end log_run t s)
        \<and> trans.more (fire_timer log_run n s) = trans.more (fire_end log_run t s)
        \<and> timers (fire_timer log_run n s) = filter (\<lambda>x. fst x \<noteq> n) (timers s))
    \<or> (\<forall>t. (t, SetCalled n) \<notin> set (bound s)) \<and> bound (fire_timer log_run n s) = bound s
        \<and> trans.more (fire_timer log_run n s) = trans.more s \<and> timers (fire_timer log_run n s) = filter (\<lambda>x. fst x \<noteq> n) (timers s)"
proof (cases "map_of (timers s) n")
  case None
  then have "n \<notin> fst ` set (timers s)" by (simp add: map_of_eq_None_iff)
  moreover from this have "filter (\<lambda>x. fst x \<noteq> n) (timers s) = timers s" by (intro filter_True) force
  ultimately show ?thesis using None wf_set_called [OF assms] by (force simp: fire_timer_def)
next
  case (Some els)
  then have m: "(n, els) \<in> set (timers s)" by (rule map_of_SomeD)
  then obtain t where t: "els = [t]" using wf_timer [OF assms] by blast
  show ?thesis
  proof (cases "called s n")
    case True
    with Some wf_set_called [OF assms] show ?thesis by (simp add: fire_timer_def)
  next
    case False
    with m t wf_set_called [OF assms, of t n] have "(t, SetCalled n) \<in> set (bound s)" by simp
    with Some False t show ?thesis by (auto simp: fire_timer_def Let_def fire_end_log transition_end_def)
  qed
qed

lemma over_step:
  assumes "trans_wf s" "over c s"
  shows "over c (tevent_run log_run e s) \<and> count_list (trans.more (tevent_run log_run e s)) c = count_list (trans.more s) c"
proof -
  have k: "c \<notin> set (callbacks (bound (fire_end log_run t s))) \<and> count_list (trans.more (fire_end log_run t s)) c = count_list (trans.more s) c" for t
    using assms(2) callbacks_filter [of c _ "bound s"]
    by (auto simp: over_def fire_end_log transition_end_def Let_def count_list_0_iff)
  show ?thesis
  proof (cases e)
    case (EndAt t)
    with k show ?thesis by (simp add: over_def)
  next
    case (TimerOf m)
    with k fire_timer_log [OF assms(1), of m] assms(2) show ?thesis by (auto simp: over_def)
  qed
qed

lemma pending_end:
  assumes "pending t c n s"
  shows "over c (fire_end log_run t s) \<and> count_list (trans.more (fire_end log_run t s)) c = Suc (count_list (trans.more s) c)"
  using assms by (simp add: pending_def over_def fire_end_log transition_end_def Let_def)

lemma pending_other_end:
  assumes "pending t c n s" "t' \<noteq> t"
  shows "pending t c n (fire_end log_run t' s) \<and> count_list (trans.more (fire_end log_run t' s)) c = count_list (trans.more s) c"
proof -
  have "filter (\<lambda>h. fst h = t) (filter (\<lambda>h. fst h \<noteq> t') (bound s)) = filter (\<lambda>h. fst h = t) (bound s)"
    using assms(2) by (auto intro: filter_cong)
  moreover have "c \<notin> set (callbacks (filter (\<lambda>h. fst h = t') (bound s)))"
    using assms by (auto simp: pending_def callbacks_mem)
  moreover have "c \<notin> set (callbacks (filter (\<lambda>h. fst h \<noteq> t) (filter (\<lambda>h. fst h \<noteq> t') (bound s))))"
    using assms(1) by (auto simp: pending_def callbacks_mem)
  ultimately show ?thesis using assms(1) by (simp add: pending_def fire_end_log transition_end_def Let_def)
qed

lemma pending_set_called: "pending t c n s \<Longrightarrow> (t, SetCalled m) \<in> set (bound s) \<longleftrightarrow> m = n"
proof -
  assume p: "pending t c n s"
  have "(t, SetCalled m) \<in> set (bound s) \<longleftrightarrow> (t, SetCalled m) \<in> set (filter (\<lambda>h. fst h = t) (bound s))" by simp
  with p show ?thesis by (simp add: pending_def)
qed

lemma pending_step:
  assumes "trans_wf s" "pending t c n s"
  shows "if e = EndAt t \<or> e = TimerOf n
    then over c (tevent_run log_run e s) \<and> count_list (trans.more (tevent_run log_run e s)) c = Suc (count_list (trans.more s) c)
    else pending t c n (tevent_run log_run e s) \<and> count_list (trans.more (tevent_run log_run e s)) c = count_list (trans.more s) c"
proof (cases e)
  case (EndAt t')
  with pending_end [OF assms(2)] pending_other_end [OF assms(2), of t'] show ?thesis by simp
next
  case (TimerOf m)
  have b: "(t, SetCalled n) \<in> set (bound s)" using pending_set_called [OF assms(2)] by simp
  from fire_timer_log [OF assms(1), of m] show ?thesis
  proof (elim disjE exE conjE)
    fix t' assume f: "(t', SetCalled m) \<in> set (bound s)" "bound (fire_timer log_run m s) = bound (fire_end log_run t' s)"
      "trans.more (fire_timer log_run m s) = trans.more (fire_end log_run t' s)"
      "timers (fire_timer log_run m s) = filter (\<lambda>x. fst x \<noteq> m) (timers s)"
    show ?thesis
    proof (cases "m = n")
      case True
      with f(1) b wf_set_called [OF assms(1)] wf_timer_unique [OF assms(1), of n "[t]" "[t']"] have "t' = t" by auto
      with pending_end [OF assms(2)] f True TimerOf show ?thesis by (simp add: over_def)
    next
      case False
      with f(1) pending_set_called [OF assms(2), of m] have "t' \<noteq> t" by blast
      from pending_other_end [OF assms(2) this] f False TimerOf assms(2) show ?thesis by (simp add: pending_def)
    qed
  next
    assume f: "\<forall>t. (t, SetCalled m) \<notin> set (bound s)" "bound (fire_timer log_run m s) = bound s"
      "trans.more (fire_timer log_run m s) = trans.more s" "timers (fire_timer log_run m s) = filter (\<lambda>x. fst x \<noteq> m) (timers s)"
    with b have "m \<noteq> n" by blast
    with f assms(2) TimerOf show ?thesis by (simp add: pending_def)
  qed
qed

section \<open>Properties\<close>

text \<open>
  C27: A callback awaited at an element with no other handler runs exactly once if the browser sends the end
  event there or the timer of emulateTransitionEnd fires, in whatever order and however often either comes
  among other events, and never otherwise.
\<close>

theorem awaited_runs_once:
  assumes "trans_wf s" "t \<notin> fst ` set (bound s)" "c \<notin> set (callbacks (bound s))"
  shows "count_list (trans.more (fold (tevent_run log_run) es (await [t] c s))) c =
    count_list (trans.more s) c + (if EndAt t \<in> set es \<or> TimerOf (next_called s) \<in> set es then 1 else 0)"
proof -
  have "filter (\<lambda>h. fst h = t) (bound s) = []" "filter (\<lambda>h. fst h \<noteq> t) (bound s) = bound s"
    using assms(2) by (auto intro: filter_True simp: filter_empty_conv image_iff)
  then have p: "pending t c (next_called s) (await [t] c s)" using assms(3) by (simp add: pending_def)
  have "count_list (trans.more (fold (tevent_run log_run) es s')) c =
      count_list (trans.more s') c + (if EndAt t \<in> set es \<or> TimerOf n \<in> set es then 1 else 0)"
    if "trans_wf s'" "pending t c n s'" for s' n
    using that
  proof (induction es arbitrary: s')
    case (Cons e es)
    have w: "trans_wf (tevent_run log_run e s')" using Cons.prems(1) by (rule logged.ok_tevent)
    have o: "count_list (trans.more (fold (tevent_run log_run) es s'')) c = count_list (trans.more s'') c"
      if "trans_wf s''" "over c s''" for s''
      using that
    proof (induction es arbitrary: s'')
      case (Cons e es)
      from over_step [OF Cons.prems] Cons.IH [OF logged.ok_tevent [OF Cons.prems(1)]] show ?case by simp
    qed simp
    show ?case
    proof (cases "e = EndAt t \<or> e = TimerOf n")
      case True
      with pending_step [OF Cons.prems, of e] o [OF w] show ?thesis by auto
    next
      case False
      with pending_step [OF Cons.prems, of e] Cons.IH [OF w] show ?thesis by auto
    qed
  qed simp
  from this [OF await_wf [OF assms(1)] p] show ?thesis by (simp add: await_def emulateTransitionEnd_def bind_one_def Let_def)
qed

theorem awaited_runs_once_witness:
  "count_list (trans.more (fold (tevent_run log_run) [EndAt 4, EndAt 3, TimerOf 0, EndAt 3]
     (await [3 :: nat] ''x'' \<lparr>bound = [], timers = [], called = (\<lambda>_. False), next_called = 0, \<dots> = []\<rparr>))) ''x'' = 1"
proof -
  let ?s = "\<lparr>bound = [], timers = [], called = (\<lambda>_. False), next_called = 0, \<dots> = [] :: string list\<rparr> :: (nat, string, string list) trans_scheme"
  have "trans_wf ?s" by (simp add: trans_wf_def)
  from awaited_runs_once [OF this, of 3 "''x''" "[EndAt 4, EndAt 3, TimerOf 0, EndAt 3]"] show ?thesis by simp
qed

end
