(* ===== verification/Bs_Carousel.thy ===== *)
theory Bs_Carousel
  imports Bs_Transition
begin

text \<open>
  The carousel of bootstrap.js: its items and their classes, slides with their transition, the interval
  that slides to the next item, and the calls of \<open>to\<close> that wait for the end of a slide. The listeners of
  slide.bs.carousel are a parameter that changes the state and may prevent the slide; what listeners of
  slid.bs.carousel do are further calls.
\<close>

section \<open>State\<close>

datatype car_target = CarElement | Item nat

datatype slide_type = NextType | PrevType

fun slide_name :: "slide_type \<Rightarrow> string" where
  "slide_name NextType = ''next''"
| "slide_name PrevType = ''prev''"

fun slide_direction :: "slide_type \<Rightarrow> string" where
  "slide_direction NextType = ''left''"
| "slide_direction PrevType = ''right''"

text \<open>The function bound by slide: \<open>$active\<close>, \<open>$next\<close>, type.\<close>

datatype slide_end = SlideEnd "nat list" "nat list" slide_type

text \<open>
  Intervals have numbers; those set and not cleared are live. The options and the support of transitions
  do not change.
\<close>

record carousel = "(car_target, slide_end) trans" +
  n_items :: nat
  cls :: "nat \<Rightarrow> string set"          \<comment> \<open>the classes of an item\<close>
  n_indicators :: nat
  ind_active :: "nat list"             \<comment> \<open>the indicators with the class active\<close>
  car_wrap :: bool
  car_interval :: bool                 \<comment> \<open>options.interval is not false\<close>
  car_transition :: bool               \<comment> \<open>$.support.transition\<close>
  slide_class :: bool                  \<comment> \<open>the element has the class slide\<close>
  paused :: bool
  sliding :: bool
  interval_id :: "nat option"          \<comment> \<open>this.interval\<close>
  live :: "nat list"
  next_interval :: nat
  one_slid :: "int list"               \<comment> \<open>the handlers of one('slid.bs.carousel') that call to\<close>
  slid_timers :: nat                   \<comment> \<open>timers that will trigger slid.bs.carousel\<close>
  raised :: bool

definition add_classes :: "string list \<Rightarrow> nat list \<Rightarrow> carousel \<Rightarrow> carousel" where
  "add_classes cs items s = s\<lparr>cls := (\<lambda>i. if i \<in> set items then cls s i \<union> set cs else cls s i)\<rparr>"

definition remove_classes :: "string list \<Rightarrow> nat list \<Rightarrow> carousel \<Rightarrow> carousel" where
  "remove_classes cs items s = s\<lparr>cls := (\<lambda>i. if i \<in> set items then cls s i - set cs else cls s i)\<rparr>"

definition items_with :: "string \<Rightarrow> carousel \<Rightarrow> nat list" where
  "items_with c s = filter (\<lambda>i. c \<in> cls s i) [0..<n_items s]"

section \<open>Operations\<close>

text \<open>The callback at the end of the transition of \<open>$active\<close>.\<close>

fun slide_end_run :: "slide_end \<Rightarrow> carousel \<Rightarrow> carousel" where
  "slide_end_run (SlideEnd act nxt ty) s =
     (let s1 = add_classes [''active''] nxt (remove_classes [slide_name ty, slide_direction ty] nxt s);
          s2 = remove_classes [''active'', slide_direction ty] act s1 in
      s2\<lparr>sliding := False, slid_timers := Suc (slid_timers s2)\<rparr>)"

definition clear_live :: "nat option \<Rightarrow> carousel \<Rightarrow> carousel" where
  "clear_live i s = s\<lparr>live := filter (\<lambda>k. i \<noteq> Some k) (live s)\<rparr>"

text \<open>\<open>by_event\<close>: whether there is an argument.\<close>

definition cycle :: "bool \<Rightarrow> carousel \<Rightarrow> carousel" where
  "cycle by_event s =
     (let s1 = (if by_event then s else s\<lparr>paused := False\<rparr>);
          s2 = (if interval_id s1 \<noteq> None then clear_live (interval_id s1) s1 else s1) in
      if car_interval s2 \<and> \<not> paused s2
      then s2\<lparr>interval_id := Some (next_interval s2), live := live s2 @ [next_interval s2], next_interval := Suc (next_interval s2)\<rparr>
      else s2)"

text \<open>The event that pause sends has the element as its target and runs no handler of an item.\<close>

definition pause :: "bool \<Rightarrow> carousel \<Rightarrow> carousel" where
  "pause by_event s =
     (let s1 = (if by_event then s else s\<lparr>paused := True\<rparr>);
          s2 = (if (items_with ''next'' s1 \<noteq> [] \<or> items_with ''prev'' s1 \<noteq> []) \<and> car_transition s1
                then cycle True (fire_end slide_end_run CarElement s1) else s1) in
      (clear_live (interval_id s2) s2)\<lparr>interval_id := None\<rparr>)"

text \<open>
  The index of the first element of a set among the items, which are the children of its parent: an empty
  set has no parent, no items and the index -1. \<open>eq\<close> counts a negative index from the end.
\<close>

definition items_of :: "nat list \<Rightarrow> carousel \<Rightarrow> nat list" where
  "items_of item s = (if item = [] then [] else [0..<n_items s])"

definition getItemIndex :: "nat list \<Rightarrow> int" where
  "getItemIndex item = (case item of [] \<Rightarrow> -1 | i # _ \<Rightarrow> int i)"

definition eq_item :: "int \<Rightarrow> nat list \<Rightarrow> nat list" where
  "eq_item i items =
     (let j = (if i < 0 then i + int (length items) else i) in
      if 0 \<le> j \<and> j < int (length items) then [items ! nat j] else [])"

text \<open>The remainder of JavaScript has the sign of the dividend; by 0 it is NaN and finds no item.\<close>

definition js_rem :: "int \<Rightarrow> int \<Rightarrow> int" where
  "js_rem a b = sgn a * (\<bar>a\<bar> mod \<bar>b\<bar>)"

definition getItemForDirection :: "slide_type \<Rightarrow> nat list \<Rightarrow> carousel \<Rightarrow> nat list" where
  "getItemForDirection direction act s =
     (let activeIndex = getItemIndex act;
          items = items_of act s;
          willWrap = (direction = PrevType \<and> activeIndex = 0) \<or> (direction = NextType \<and> activeIndex = int (length items) - 1) in
      if willWrap \<and> \<not> car_wrap s then act
      else if items = [] then []
      else eq_item (js_rem (activeIndex + (if direction = PrevType then -1 else 1)) (int (length items))) items)"

text \<open>
  slide after its event was not prevented. The transition reads a property of the first element of \<open>$next\<close>,
  which raises when there is none. Without a transition the listeners of slid run at once; no call of \<open>to\<close>
  can wait then.
\<close>

definition slide_begin :: "nat list \<Rightarrow> bool \<Rightarrow> carousel \<Rightarrow> carousel" where
  "slide_begin nxt isCycling s =
     (let s1 = s\<lparr>sliding := True\<rparr>;
          s2 = (if isCycling then pause False s1 else s1) in
      if n_indicators s2 \<noteq> 0
      then s2\<lparr>ind_active := (let k = getItemIndex nxt in if 0 \<le> k \<and> k < int (n_indicators s2) then [nat k] else [])\<rparr>
      else s2)"

definition slide_transition :: "slide_type \<Rightarrow> nat list \<Rightarrow> nat list \<Rightarrow> carousel \<Rightarrow> carousel" where
  "slide_transition ty act nxt s =
     await (map Item act) (SlideEnd act nxt ty)
       (add_classes [slide_direction ty] nxt (add_classes [slide_direction ty] act (add_classes [slide_name ty] nxt s)))"

definition slide_at_once :: "nat list \<Rightarrow> nat list \<Rightarrow> carousel \<Rightarrow> carousel" where
  "slide_at_once act nxt s = (add_classes [''active''] nxt (remove_classes [''active''] act s))\<lparr>sliding := False\<rparr>"

definition slide_go :: "slide_type \<Rightarrow> nat list \<Rightarrow> nat list \<Rightarrow> bool \<Rightarrow> carousel \<Rightarrow> carousel" where
  "slide_go ty act nxt isCycling s =
     (let s1 = slide_begin nxt isCycling s in
      if car_transition s1 \<and> slide_class s1 \<and> nxt = [] then (add_classes [slide_name ty] nxt s1)\<lparr>raised := True\<rparr>
      else
        (let s2 = (if car_transition s1 \<and> slide_class s1 then slide_transition ty act nxt s1 else slide_at_once act nxt s1) in
         if isCycling then cycle False s2 else s2))"

definition slide :: "(carousel \<Rightarrow> carousel \<times> bool) \<Rightarrow> slide_type \<Rightarrow> nat list option \<Rightarrow> carousel \<Rightarrow> carousel" where
  "slide listener ty nxt s =
     (let act = items_with ''active'' s;
          next_set = (case nxt of Some x \<Rightarrow> x | None \<Rightarrow> getItemForDirection ty act s);
          isCycling = (interval_id s \<noteq> None) in
      if \<exists>i\<in>set next_set. ''active'' \<in> cls s i then s\<lparr>sliding := False\<rparr>
      else
        (case listener s of
           (s1, prevented) \<Rightarrow> if prevented then s1 else slide_go ty act next_set isCycling s1))"

definition next_item :: "(carousel \<Rightarrow> carousel \<times> bool) \<Rightarrow> carousel \<Rightarrow> carousel" where
  "next_item listener s = (if sliding s then s else slide listener NextType None s)"

definition prev_item :: "(carousel \<Rightarrow> carousel \<times> bool) \<Rightarrow> carousel \<Rightarrow> carousel" where
  "prev_item listener s = (if sliding s then s else slide listener PrevType None s)"

definition to_item :: "(carousel \<Rightarrow> carousel \<times> bool) \<Rightarrow> int \<Rightarrow> carousel \<Rightarrow> carousel" where
  "to_item listener pos s =
     (let act = items_with ''active'' s;
          activeIndex = getItemIndex act;
          items = items_of act s in
      if pos > int (length items) - 1 \<or> pos < 0 then s
      else if sliding s then s\<lparr>one_slid := one_slid s @ [pos]\<rparr>
      else if activeIndex = pos then cycle False (pause False s)
      else slide listener (if pos > activeIndex then NextType else PrevType) (Some (eq_item pos items)) s)"

definition keydown :: "(carousel \<Rightarrow> carousel \<times> bool) \<Rightarrow> string \<Rightarrow> nat \<Rightarrow> carousel \<Rightarrow> carousel" where
  "keydown listener tagName which s =
     (if list_ex (\<lambda>w. index_of_str (to_lower tagName) w > -1) [''input'', ''textarea''] then s
      else if which = 37 then prev_item listener s
      else if which = 39 then next_item listener s
      else s)"

text \<open>The trigger of slid.bs.carousel: the waiting calls are unbound and made in their order.\<close>

definition slid_timeout :: "(carousel \<Rightarrow> carousel \<times> bool) \<Rightarrow> carousel \<Rightarrow> carousel" where
  "slid_timeout listener s =
     fold (to_item listener) (one_slid s) (s\<lparr>one_slid := [], slid_timers := slid_timers s - 1\<rparr>)"

definition interval_tick :: "(carousel \<Rightarrow> carousel \<times> bool) \<Rightarrow> nat \<Rightarrow> carousel \<Rightarrow> carousel" where
  "interval_tick listener k s = (if k \<in> set (live s) then next_item listener s else s)"

text \<open>Everything that happens to a carousel.\<close>

datatype car_event =
    CallNext | CallPrev | CallTo int | CallPause | CallCycle
  | MouseEnter | MouseLeave | Keydown string nat | Tick nat
  | Browser "car_target tevent" | SlidTimeout

fun car_step :: "(carousel \<Rightarrow> carousel \<times> bool) \<Rightarrow> car_event \<Rightarrow> carousel \<Rightarrow> carousel" where
  "car_step l CallNext s = next_item l s"
| "car_step l CallPrev s = prev_item l s"
| "car_step l (CallTo p) s = to_item l p s"
| "car_step l CallPause s = pause False s"
| "car_step l CallCycle s = cycle False s"
| "car_step l MouseEnter s = pause True s"
| "car_step l MouseLeave s = cycle True s"
| "car_step l (Keydown tag which) s = keydown l tag which s"
| "car_step l (Tick k) s = interval_tick l k s"
| "car_step l (Browser e) s = tevent_run slide_end_run e s"
| "car_step l SlidTimeout s = (if slid_timers s = 0 then s else slid_timeout l s)"

text \<open>A new carousel with its first item active.\<close>

definition new_carousel :: "nat \<Rightarrow> nat \<Rightarrow> bool \<Rightarrow> bool \<Rightarrow> bool \<Rightarrow> bool \<Rightarrow> carousel" where
  "new_carousel items inds wraps intv supp slcl =
     \<lparr>bound = [], timers = [], called = (\<lambda>_. False), next_called = 0, n_items = items,
      cls = (\<lambda>i. if i = 0 then {''active''} else {}), n_indicators = inds, ind_active = [0],
      car_wrap = wraps, car_interval = intv, car_transition = supp, slide_class = slcl,
      paused = False, sliding = False, interval_id = None, live = [], next_interval = 0, one_slid = [],
      slid_timers = 0, raised = False\<rparr>"

section \<open>The invariant\<close>

text \<open>At rest one item is active and nothing moves; in a slide the callback is bound at the active item.\<close>

definition at_rest :: "nat \<Rightarrow> carousel \<Rightarrow> bool" where
  "at_rest a s \<longleftrightarrow> cls s = (\<lambda>i. if i = a then {''active''} else {}) \<and> \<not> sliding s \<and> runs s = []"

definition in_slide :: "nat \<Rightarrow> nat \<Rightarrow> slide_type \<Rightarrow> carousel \<Rightarrow> bool" where
  "in_slide a b ty s \<longleftrightarrow> a \<noteq> b \<and> b < n_items s \<and> sliding s \<and> car_transition s \<and> slide_class s
     \<and> cls s = (\<lambda>i. if i = a then {''active'', slide_direction ty} else if i = b then {slide_name ty, slide_direction ty} else {})
     \<and> runs s = [(Item a, Run (SlideEnd [a] [b] ty))]"

text \<open>The live intervals are the one that the carousel knows; it is not paused then.\<close>

definition interval_ok :: "carousel \<Rightarrow> bool" where
  "interval_ok s \<longleftrightarrow> live s = (case interval_id s of Some k \<Rightarrow> [k] | None \<Rightarrow> [])
     \<and> (interval_id s \<noteq> None \<longrightarrow> \<not> paused s \<and> car_interval s)"

definition queue_ok :: "carousel \<Rightarrow> bool" where
  "queue_ok s \<longleftrightarrow> list_all (\<lambda>p. 0 \<le> p \<and> p < int (n_items s)) (one_slid s)
     \<and> (one_slid s \<noteq> [] \<longrightarrow> sliding s \<or> slid_timers s \<noteq> 0)"

definition car_ok :: "carousel \<Rightarrow> bool" where
  "car_ok s \<longleftrightarrow> trans_wf s \<and> (\<exists>a<n_items s. at_rest a s \<or> (\<exists>b ty. in_slide a b ty s))
     \<and> \<not> raised s \<and> interval_ok s \<and> queue_ok s"

text \<open>What cycle and pause leave as it is.\<close>

definition same_slides :: "carousel \<Rightarrow> carousel \<Rightarrow> bool" where
  "same_slides s s' \<longleftrightarrow> cls s' = cls s \<and> n_items s' = n_items s \<and> n_indicators s' = n_indicators s \<and> ind_active s' = ind_active s
     \<and> car_wrap s' = car_wrap s \<and> car_interval s' = car_interval s \<and> car_transition s' = car_transition s
     \<and> slide_class s' = slide_class s \<and> sliding s' = sliding s \<and> runs s' = runs s
     \<and> one_slid s' = one_slid s \<and> slid_timers s' = slid_timers s \<and> raised s' = raised s"

lemma same_slides_refl [simp]: "same_slides s s"
  by (simp add: same_slides_def)

lemma same_slides_trans: "same_slides s s1 \<Longrightarrow> same_slides s1 s2 \<Longrightarrow> same_slides s s2"
  by (simp add: same_slides_def)

lemma at_rest_same: "same_slides s s' \<Longrightarrow> at_rest a s' = at_rest a s"
  by (simp add: same_slides_def at_rest_def)

lemma in_slide_same: "same_slides s s' \<Longrightarrow> in_slide a b ty s' = in_slide a b ty s"
  by (simp add: same_slides_def in_slide_def)

lemma queue_ok_same: "same_slides s s' \<Longrightarrow> queue_ok s' = queue_ok s"
  by (simp add: same_slides_def queue_ok_def)

lemma car_ok_same:
  assumes "car_ok s" "same_slides s s'" "trans_wf s'" "interval_ok s'"
  shows "car_ok s'"
proof -
  have "n_items s' = n_items s" "raised s' = raised s" using assms(2) by (simp_all add: same_slides_def)
  with assms show ?thesis by (simp add: car_ok_def at_rest_same [OF assms(2)] in_slide_same [OF assms(2)] queue_ok_same [OF assms(2)])
qed

lemma cycle_same: "same_slides s (cycle by_event s)" and cycle_trans: "same_trans s (cycle by_event s)"
  by (simp_all add: cycle_def clear_live_def Let_def same_slides_def same_trans_def runs_def)

lemma cycle_interval: "interval_ok s \<Longrightarrow> interval_ok (cycle by_event s)"
  by (cases "interval_id s") (simp_all add: cycle_def clear_live_def Let_def interval_ok_def)

lemma cycle_ok: "car_ok s \<Longrightarrow> car_ok (cycle by_event s)"
  using car_ok_same [OF _ cycle_same wf_same_trans [OF cycle_trans] cycle_interval] by (simp add: car_ok_def)

text \<open>The event of pause at the element runs nothing.\<close>

definition no_element_run :: "carousel \<Rightarrow> bool" where
  "no_element_run s \<longleftrightarrow> filter (\<lambda>h. fst h = CarElement) (runs s) = []"

lemma transition_end_same:
  assumes "no_element_run s"
  shows "same_slides s (snd (transition_end CarElement s))"
proof -
  have "filter (\<lambda>h. fst h \<noteq> CarElement) (runs s) = runs s"
    using assms by (intro filter_True) (auto simp: no_element_run_def filter_empty_conv)
  then have "runs (snd (transition_end CarElement s)) = runs s" by simp
  then show ?thesis by (simp add: same_slides_def transition_end_def Let_def)
qed

lemma transition_end_interval: "interval_ok (snd (transition_end t s)) = interval_ok s"
  by (simp add: interval_ok_def transition_end_def Let_def)

lemma fire_element:
  assumes "no_element_run s"
  shows "fire_end slide_end_run CarElement s = snd (transition_end CarElement s)"
  using assms by (simp add: fire_end_runs no_element_run_def)

lemma no_element_run_ok: "car_ok s \<Longrightarrow> no_element_run s"
  by (auto simp: car_ok_def at_rest_def in_slide_def no_element_run_def)

lemma no_element_run_same: "same_slides s s' \<Longrightarrow> no_element_run s' = no_element_run s"
  by (simp add: same_slides_def no_element_run_def)

lemma pause_facts:
  assumes "no_element_run s" "trans_wf s"
  shows "same_slides s (pause by_event s) \<and> trans_wf (pause by_event s) \<and> interval_id (pause by_event s) = None
    \<and> (interval_ok s \<longrightarrow> live (pause by_event s) = [])"
proof -
  define s1 where "s1 = (if by_event then s else s\<lparr>paused := True\<rparr>)"
  define e where "e = cycle True (snd (transition_end CarElement s1))"
  define s2 where "s2 = (if (items_with ''next'' s1 \<noteq> [] \<or> items_with ''prev'' s1 \<noteq> []) \<and> car_transition s1 then e else s1)"
  have a: "same_slides s s1" "trans_wf s1" "live s1 = live s" "interval_id s1 = interval_id s"
    using assms(2) wf_same_trans [of s s1] by (auto simp: s1_def same_slides_def same_trans_def runs_def)
  have n: "no_element_run s1" using assms(1) no_element_run_same [OF a(1)] by simp
  have p: "pause by_event s = (clear_live (interval_id s2) s2)\<lparr>interval_id := None\<rparr>"
    by (simp add: pause_def Let_def s1_def [symmetric] s2_def e_def fire_element [OF n])
  have e1: "same_slides s1 e"
    unfolding e_def by (rule same_slides_trans [OF transition_end_same [OF n] cycle_same])
  have e2: "trans_wf e" unfolding e_def by (rule wf_same_trans [OF cycle_trans transition_end_wf [OF a(2)]])
  have c: "same_slides s s2" "trans_wf s2" using a(1,2) same_slides_trans [OF a(1) e1] e2 by (simp_all add: s2_def)
  have l: "live (pause by_event s) = []" if "interval_ok s"
  proof -
    have "live s1 = (case interval_id s1 of Some k \<Rightarrow> [k] | None \<Rightarrow> [])" using that a by (simp add: interval_ok_def)
    then have "filter (\<lambda>k. interval_id s2 \<noteq> Some k) (live s2) = []"
      by (cases "interval_id s1") (simp_all add: s2_def e_def cycle_def clear_live_def transition_end_def Let_def)
    then show ?thesis unfolding p by (simp add: clear_live_def)
  qed
  have "same_trans s2 (pause by_event s)" by (simp add: p clear_live_def same_trans_def)
  from wf_same_trans [OF this c(2)] c(1) l show ?thesis by (simp add: p clear_live_def same_slides_def runs_def)
qed

lemma pause_ok: "car_ok s \<Longrightarrow> car_ok (pause by_event s)"
proof -
  assume ok: "car_ok s"
  have f: "trans_wf s" "interval_ok s" using ok by (simp_all add: car_ok_def)
  from pause_facts [OF no_element_run_ok [OF ok] f(1)] f(2)
  show "car_ok (pause by_event s)" by (intro car_ok_same [OF ok]) (simp_all add: interval_ok_def)
qed

section \<open>Slides\<close>

lemma filter_upt_eq: "a < n \<Longrightarrow> filter (\<lambda>i. i = a) [0..<n] = [a]"
proof -
  assume "a < n"
  then have "[0..<n] = [0..<a] @ a # [Suc a..<n]" by (metis less_imp_add_positive upt_add_eq_append upt_conv_Cons zero_le le_add_same_cancel1 add_0)
  moreover have "filter (\<lambda>i. i = a) [0..<a] = []" "filter (\<lambda>i. i = a) [Suc a..<n] = []" by (auto simp: filter_empty_conv)
  ultimately show ?thesis by simp
qed

lemma active_at_rest: "at_rest a s \<Longrightarrow> a < n_items s \<Longrightarrow> items_with ''active'' s = [a]"
  using filter_upt_eq [of a "n_items s"] by (auto simp: items_with_def at_rest_def intro: filter_cong)

lemma slide_names [simp]: "slide_name ty \<noteq> ''active''" "slide_direction ty \<noteq> ''active''" "slide_name ty \<noteq> slide_direction ty'"
    "''active'' \<noteq> slide_name ty" "''active'' \<noteq> slide_direction ty" "slide_direction ty' \<noteq> slide_name ty"
  by (cases ty; cases ty'; simp)+

lemma active_in_slide: "in_slide a b ty s \<Longrightarrow> a < n_items s \<Longrightarrow> items_with ''active'' s = [a]"
proof -
  assume s: "in_slide a b ty s" "a < n_items s"
  have "(''active'' \<in> cls s i) = (i = a)" for i using s(1) slide_names by (auto simp: in_slide_def)
  with filter_upt_eq [OF s(2)] show ?thesis by (simp add: items_with_def)
qed

text \<open>The end of a slide: the new item is the active one, and slid is due.\<close>

lemma slide_end_rest:
  assumes "in_slide a b ty s" "a < n_items s"
  shows "at_rest b (fire_end slide_end_run (Item a) s) \<and> slid_timers (fire_end slide_end_run (Item a) s) = Suc (slid_timers s)"
proof -
  let ?s = "snd (transition_end (Item a) s)"
  have "callbacks (filter (\<lambda>h. fst h = Item a) (runs s)) = [SlideEnd [a] [b] ty]" using assms(1) by (simp add: in_slide_def)
  then have f: "fire_end slide_end_run (Item a) s = slide_end_run (SlideEnd [a] [b] ty) ?s" by (simp add: fire_end_runs)
  have r: "runs ?s = []" using assms(1) by (simp add: in_slide_def)
  have c: "cls ?s = cls s" "slid_timers ?s = slid_timers s" by (simp_all add: transition_end_def Let_def)
  have "cls (fire_end slide_end_run (Item a) s) = (\<lambda>i. if i = b then {''active''} else {})"
    using assms(1) c(1) slide_names by (auto simp: f Let_def add_classes_def remove_classes_def in_slide_def fun_eq_iff)
  moreover have "runs (fire_end slide_end_run (Item a) s) = []"
    using r by (simp add: f Let_def add_classes_def remove_classes_def runs_def)
  ultimately show ?thesis using c(2) by (simp add: at_rest_def f Let_def add_classes_def remove_classes_def)
qed

text \<open>A slide that goes on: from the active item to another one.\<close>

definition moves_to :: "nat \<Rightarrow> nat \<Rightarrow> slide_type \<Rightarrow> carousel \<Rightarrow> carousel \<Rightarrow> bool" where
  "moves_to a b ty s s' \<longleftrightarrow> n_items s' = n_items s \<and> one_slid s' = one_slid s \<and> slid_timers s' = slid_timers s
     \<and> car_transition s' = car_transition s \<and> slide_class s' = slide_class s \<and> car_wrap s' = car_wrap s
     \<and> (if car_transition s \<and> slide_class s then in_slide a b ty s' else at_rest b s')"

lemma interval_ok_eq:
  "live s' = live s \<Longrightarrow> interval_id s' = interval_id s \<Longrightarrow> paused s' = paused s \<Longrightarrow> car_interval s' = car_interval s
    \<Longrightarrow> interval_ok s' = interval_ok s"
  by (simp add: interval_ok_def)

lemma moves_to_ok:
  assumes "car_ok s" "moves_to a b ty s s'" "a < n_items s" "b < n_items s" "\<not> sliding s"
    "trans_wf s'" "interval_ok s'" "\<not> raised s'"
  shows "car_ok s'"
proof -
  have "n_items s' = n_items s" "one_slid s' = one_slid s" "slid_timers s' = slid_timers s" using assms(2) by (simp_all add: moves_to_def)
  then have "queue_ok s'" using assms(1,5) by (auto simp: car_ok_def queue_ok_def)
  moreover have "\<exists>a<n_items s'. at_rest a s' \<or> (\<exists>b ty. in_slide a b ty s')"
    using assms(2-4) by (auto simp: moves_to_def split: if_splits)
  ultimately show ?thesis using assms(6-8) by (simp add: car_ok_def)
qed

lemma slide_begin_facts:
  assumes "car_ok s" "at_rest a s"
  shows "trans_wf (slide_begin nxt isCycling s) \<and> interval_ok (slide_begin nxt isCycling s)
    \<and> same_slides (s\<lparr>sliding := True\<rparr>) ((slide_begin nxt isCycling s)\<lparr>ind_active := ind_active s\<rparr>)"
proof -
  have s: "trans_wf s" "interval_ok s" "no_element_run s" using assms(1) no_element_run_ok [OF assms(1)] by (simp_all add: car_ok_def)
  define s1 where "s1 = s\<lparr>sliding := True\<rparr>"
  define s2 where "s2 = (if isCycling then pause False s1 else s1)"
  have w1: "trans_wf s1" "no_element_run s1"
    using s(1,3) wf_same_trans [of s s1] by (auto simp: s1_def same_trans_def no_element_run_def runs_def)
  have i1: "interval_ok s1" using s(2) by (simp add: s1_def interval_ok_def)
  have s2: "same_slides s1 s2" "trans_wf s2" "interval_ok s2"
    using pause_facts [OF w1(2,1), of False] w1 i1 by (auto simp: s2_def interval_ok_def)
  define ind where "ind = (if n_indicators s2 \<noteq> 0
    then (let k = getItemIndex nxt in if 0 \<le> k \<and> k < int (n_indicators s2) then [nat k] else []) else ind_active s2)"
  have b: "slide_begin nxt isCycling s = s2\<lparr>ind_active := ind\<rparr>"
    unfolding slide_begin_def Let_def s1_def [symmetric] s2_def [symmetric] by (simp add: ind_def Let_def)
  have "same_trans s2 (s2\<lparr>ind_active := ind\<rparr>)" by (simp add: same_trans_def)
  from wf_same_trans [OF this s2(2)] s2(1,3) show ?thesis
    unfolding b s1_def [symmetric] by (simp add: interval_ok_def same_slides_def runs_def s1_def)
qed

lemma slide_transition_in:
  assumes "at_rest a (s\<lparr>sliding := False\<rparr>)" "sliding s" "a \<noteq> b" "b < n_items s" "car_transition s" "slide_class s"
  shows "in_slide a b ty (slide_transition ty [a] [b] s)"
proof -
  have "cls (slide_transition ty [a] [b] s)
      = (\<lambda>i. if i = a then {''active'', slide_direction ty} else if i = b then {slide_name ty, slide_direction ty} else {})"
    using assms(1,3) by (auto simp: slide_transition_def add_classes_def await_def emulateTransitionEnd_def bind_one_def Let_def
        at_rest_def fun_eq_iff)
  moreover have "runs (slide_transition ty [a] [b] s) = [(Item a, Run (SlideEnd [a] [b] ty))]"
    using assms(1) by (simp add: slide_transition_def add_classes_def runs_def at_rest_def)
  ultimately show ?thesis using assms(2-6)
    by (simp add: in_slide_def slide_transition_def add_classes_def await_def emulateTransitionEnd_def bind_one_def Let_def)
qed

lemma slide_at_once_rest:
  assumes "at_rest a (s\<lparr>sliding := False\<rparr>)" "a \<noteq> b"
  shows "at_rest b (slide_at_once [a] [b] s)"
  using assms by (auto simp: slide_at_once_def add_classes_def remove_classes_def at_rest_def fun_eq_iff runs_def)

lemma slide_transition_facts:
  "trans_wf s \<Longrightarrow> trans_wf (slide_transition ty [a] [b] s)"
  "interval_ok (slide_transition ty [a] [b] s) = interval_ok s"
  "n_items (slide_transition ty [a] [b] s) = n_items s" "one_slid (slide_transition ty [a] [b] s) = one_slid s"
  "slid_timers (slide_transition ty [a] [b] s) = slid_timers s" "raised (slide_transition ty [a] [b] s) = raised s"
  "car_transition (slide_transition ty [a] [b] s) = car_transition s" "slide_class (slide_transition ty [a] [b] s) = slide_class s"
  "car_wrap (slide_transition ty [a] [b] s) = car_wrap s"
proof -
  assume w: "trans_wf s"
  have "same_trans s (add_classes [slide_direction ty] [b] (add_classes [slide_direction ty] [a] (add_classes [slide_name ty] [b] s)))"
    by (simp add: add_classes_def same_trans_def)
  from await_wf [OF wf_same_trans [OF this w]] show "trans_wf (slide_transition ty [a] [b] s)" by (simp add: slide_transition_def)
qed (simp_all add: slide_transition_def add_classes_def await_def emulateTransitionEnd_def bind_one_def Let_def interval_ok_def)

lemma slide_at_once_facts:
  "trans_wf s \<Longrightarrow> trans_wf (slide_at_once act nxt s)" "interval_ok (slide_at_once act nxt s) = interval_ok s"
  "n_items (slide_at_once act nxt s) = n_items s" "one_slid (slide_at_once act nxt s) = one_slid s"
  "slid_timers (slide_at_once act nxt s) = slid_timers s" "raised (slide_at_once act nxt s) = raised s"
  "car_transition (slide_at_once act nxt s) = car_transition s" "slide_class (slide_at_once act nxt s) = slide_class s"
  "car_wrap (slide_at_once act nxt s) = car_wrap s"
proof -
  assume w: "trans_wf s"
  have "same_trans s (slide_at_once act nxt s)" by (simp add: slide_at_once_def add_classes_def remove_classes_def same_trans_def)
  from wf_same_trans [OF this w] show "trans_wf (slide_at_once act nxt s)" .
qed (simp_all add: slide_at_once_def add_classes_def remove_classes_def interval_ok_def)

lemma moves_to_cycle: "moves_to a b ty s s' \<Longrightarrow> moves_to a b ty s (cycle by_event s')"
  using cycle_same [of s' by_event] in_slide_same [OF cycle_same] at_rest_same [OF cycle_same]
  by (simp add: moves_to_def same_slides_def)

lemma slide_go_moves:
  assumes "car_ok s" "at_rest a s" "a < n_items s" "b < n_items s" "a \<noteq> b"
  shows "car_ok (slide_go ty [a] [b] isCycling s) \<and> moves_to a b ty s (slide_go ty [a] [b] isCycling s)"
proof -
  define s1 where "s1 = slide_begin [b] isCycling s"
  define s2 where "s2 = (if car_transition s1 \<and> slide_class s1 then slide_transition ty [a] [b] s1 else slide_at_once [a] [b] s1)"
  from slide_begin_facts [OF assms(1,2), of "[b]" isCycling]
  have f: "trans_wf s1" "interval_ok s1" "n_items s1 = n_items s" "one_slid s1 = one_slid s" "slid_timers s1 = slid_timers s"
    "raised s1 = raised s" "car_transition s1 = car_transition s" "slide_class s1 = slide_class s" "car_wrap s1 = car_wrap s"
    "sliding s1" "cls s1 = cls s" "runs s1 = runs s"
    by (simp_all add: s1_def same_slides_def runs_def)
  have r: "at_rest a (s1\<lparr>sliding := False\<rparr>)" using assms(2) f by (simp add: at_rest_def runs_def)
  have go: "slide_go ty [a] [b] isCycling s = (if isCycling then cycle False s2 else s2)"
    by (simp add: slide_go_def Let_def s1_def [symmetric] s2_def)
  have m: "moves_to a b ty s s2"
    using slide_transition_in [OF r f(10) assms(5)] slide_at_once_rest [OF r assms(5)] assms(4) f
    by (simp add: moves_to_def s2_def slide_transition_facts slide_at_once_facts)
  have n: "\<not> sliding s" "\<not> raised s" using assms(1,2) by (simp_all add: at_rest_def car_ok_def)
  have "car_ok s2"
    using n f by (intro moves_to_ok [OF assms(1) m assms(3,4)]) (simp_all add: s2_def slide_transition_facts slide_at_once_facts)
  with m show ?thesis using cycle_ok moves_to_cycle by (simp add: go)
qed

section \<open>Steps\<close>

text \<open>The listeners of slide only prevent it, or not.\<close>

definition only_vetoes :: "(carousel \<Rightarrow> carousel \<times> bool) \<Rightarrow> bool" where
  "only_vetoes l \<longleftrightarrow> (\<forall>s. fst (l s) = s)"

text \<open>The item that a direction leads to.\<close>

fun next_index :: "bool \<Rightarrow> nat \<Rightarrow> slide_type \<Rightarrow> nat \<Rightarrow> nat" where
  "next_index w n NextType a = (if Suc a = n then (if w then 0 else a) else Suc a)"
| "next_index w n PrevType a = (if a = 0 then (if w then n - 1 else a) else a - 1)"

lemma next_index_less: "a < n \<Longrightarrow> next_index w n d a < n"
  by (cases d) auto

lemma eq_item_in: "0 \<le> i \<Longrightarrow> i < int n \<Longrightarrow> eq_item i [0..<n] = [nat i]"
  by (simp add: eq_item_def)

lemma getItemForDirection_index:
  assumes "a < n_items s"
  shows "getItemForDirection d [a] s = [next_index (car_wrap s) (n_items s) d a]"
proof (cases d)
  case NextType
  have "js_rem (int a + 1) (int (n_items s)) = (if Suc a = n_items s then 0 else int a + 1)"
  proof (cases "Suc a = n_items s")
    case True
    then have "int a + 1 = int (n_items s)" by simp
    with True show ?thesis by (simp add: js_rem_def)
  qed (use assms in \<open>simp add: js_rem_def\<close>)
  then show ?thesis using assms NextType eq_item_in [of _ "n_items s"]
    by (auto simp: getItemForDirection_def getItemIndex_def items_of_def nat_add_distrib)
next
  case PrevType
  show ?thesis
  proof (cases "a = 0")
    case True
    have "js_rem (-1) (int (n_items s)) = (if n_items s = 1 then 0 else -1)" using assms by (auto simp: js_rem_def)
    then show ?thesis using assms PrevType True
      by (auto simp: getItemForDirection_def getItemIndex_def items_of_def eq_item_def Let_def nat_diff_distrib)
  next
    case False
    have "js_rem (int a - 1) (int (n_items s)) = int a - 1" using assms False by (auto simp: js_rem_def sgn_if)
    then show ?thesis using assms PrevType False eq_item_in [of "int a - 1" "n_items s"]
      by (simp add: getItemForDirection_def getItemIndex_def items_of_def nat_diff_distrib)
  qed
qed

text \<open>slide from rest: nothing, when it leads to the active item or is prevented.\<close>

lemma slide_moves:
  assumes "car_ok s" "at_rest a s" "a < n_items s" "only_vetoes l"
    "(case nxt of Some x \<Rightarrow> x | None \<Rightarrow> getItemForDirection ty [a] s) = [b]" "b < n_items s"
  shows "car_ok (slide l ty nxt s)
    \<and> (if a = b \<or> snd (l s) then slide l ty nxt s = s else moves_to a b ty s (slide l ty nxt s))"
proof -
  have c: "(''active'' \<in> cls s b) = (b = a)" and n: "\<not> sliding s" using assms(2) by (simp_all add: at_rest_def)
  have l: "l s = (s, snd (l s))" using assms(4) by (simp add: only_vetoes_def prod_eq_iff)
  have "slide l ty nxt s = (if a = b then s\<lparr>sliding := False\<rparr> else if snd (l s) then s
      else slide_go ty [a] [b] (interval_id s \<noteq> None) s)"
    using l assms(5) c by (cases "snd (l s)") (auto simp: slide_def Let_def active_at_rest [OF assms(2,3)])
  moreover have "s\<lparr>sliding := False\<rparr> = s" using n by simp
  ultimately show ?thesis using assms(1) slide_go_moves [OF assms(1-3,6), of ty "interval_id s \<noteq> None"] by simp
qed

lemma slide_dir_moves:
  assumes "car_ok s" "at_rest a s" "a < n_items s" "only_vetoes l" "b = next_index (car_wrap s) (n_items s) ty a"
  shows "car_ok (slide l ty None s) \<and> (if a = b \<or> snd (l s) then slide l ty None s = s else moves_to a b ty s (slide l ty None s))"
  using slide_moves [OF assms(1-4), where nxt = None and ty = ty] getItemForDirection_index [OF assms(3)] next_index_less [OF assms(3)]
  by (simp add: assms(5))

lemma at_rest_if: "car_ok s \<Longrightarrow> \<not> sliding s \<Longrightarrow> \<exists>a<n_items s. at_rest a s"
  by (auto simp: car_ok_def in_slide_def)

lemma in_slide_if: "car_ok s \<Longrightarrow> sliding s \<Longrightarrow> \<exists>a b ty. a < n_items s \<and> in_slide a b ty s"
  by (auto simp: car_ok_def at_rest_def)

lemma next_prev_ok:
  assumes "car_ok s" "only_vetoes l"
  shows "car_ok (next_item l s)" "car_ok (prev_item l s)"
  using at_rest_if [OF assms(1)] slide_dir_moves [OF assms(1) _ _ assms(2) refl] assms(1)
  by (auto simp: next_item_def prev_item_def)

text \<open>The call of \<open>to\<close> at rest: stay, move, or nothing.\<close>

lemma to_item_moves:
  assumes "car_ok s" "at_rest a s" "a < n_items s" "only_vetoes l" "0 \<le> pos" "pos < int (n_items s)"
  shows "car_ok (to_item l pos s)
    \<and> (if int a = pos then same_slides s (to_item l pos s)
       else if snd (l s) then to_item l pos s = s
       else moves_to a (nat pos) (if pos > int a then NextType else PrevType) s (to_item l pos s))"
proof (cases "int a = pos")
  case True
  have p: "car_ok (pause False s)" "same_slides s (pause False s)"
    using pause_ok [OF assms(1)] pause_facts [OF no_element_run_ok [OF assms(1)]] assms(1) by (simp_all add: car_ok_def)
  have "to_item l pos s = cycle False (pause False s)"
    using True assms(2,5,6) by (simp add: to_item_def active_at_rest [OF assms(2,3)] getItemIndex_def items_of_def at_rest_def)
  with True cycle_ok [OF p(1)] same_slides_trans [OF p(2) cycle_same] show ?thesis by simp
next
  case False
  have "to_item l pos s = slide l (if pos > int a then NextType else PrevType) (Some [nat pos]) s"
    using False assms(2,5,6) by (simp add: to_item_def active_at_rest [OF assms(2,3)] getItemIndex_def items_of_def at_rest_def eq_item_in)
  moreover have "a \<noteq> nat pos" "nat pos < n_items s" using False assms(5,6) by auto
  ultimately show ?thesis
    using False slide_moves [OF assms(1-4), where nxt = "Some [nat pos]" and ty = "if pos > int a then NextType else PrevType" and b = "nat pos"] by simp
qed

lemma to_item_sliding:
  assumes "car_ok s" "sliding s"
  shows "to_item l pos s = (if 0 \<le> pos \<and> pos < int (n_items s) then s\<lparr>one_slid := one_slid s @ [pos]\<rparr> else s)"
proof -
  obtain a b ty where "a < n_items s" "in_slide a b ty s" using in_slide_if [OF assms] by blast
  with assms(2) show ?thesis by (auto simp: to_item_def active_in_slide getItemIndex_def items_of_def)
qed

lemma to_item_out:
  assumes "car_ok s" "\<not> (0 \<le> pos \<and> pos < int (n_items s))"
  shows "to_item l pos s = s"
proof (cases "sliding s")
  case True
  with assms show ?thesis by (simp add: to_item_sliding)
next
  case False
  then obtain a where a: "a < n_items s" "at_rest a s" using at_rest_if [OF assms(1)] by blast
  with assms(2) show ?thesis by (auto simp: to_item_def active_at_rest [OF a(2,1)] items_of_def)
qed

lemma to_item_ok:
  assumes "car_ok s" "only_vetoes l"
  shows "car_ok (to_item l pos s)"
proof (cases "0 \<le> pos \<and> pos < int (n_items s)")
  case False
  with assms(1) show ?thesis by (simp add: to_item_out)
next
  case True
  show ?thesis
  proof (cases "sliding s")
    case sl: True
    have "same_trans s (s\<lparr>one_slid := one_slid s @ [pos]\<rparr>)" by (simp add: same_trans_def)
    from wf_same_trans [OF this] have "car_ok (s\<lparr>one_slid := one_slid s @ [pos]\<rparr>)"
      using assms(1) sl True
      by (auto simp: car_ok_def at_rest_def in_slide_def interval_ok_def queue_ok_def runs_def)
    with assms(1) sl True show ?thesis by (simp add: to_item_sliding)
  next
    case False
    then obtain a where "a < n_items s" "at_rest a s" using at_rest_if [OF assms(1)] by blast
    with to_item_moves [OF assms(1) _ _ assms(2)] True show ?thesis by blast
  qed
qed


text \<open>The waiting calls, made at rest one after the other: the first that moves makes the others wait again.\<close>

lemma slid_reset_ok:
  assumes "car_ok s"
  shows "car_ok (s\<lparr>one_slid := [], slid_timers := k\<rparr>)"
proof -
  have "same_trans s (s\<lparr>one_slid := [], slid_timers := k\<rparr>)" by (simp add: same_trans_def)
  from wf_same_trans [OF this] show ?thesis
    using assms by (auto simp: car_ok_def at_rest_def in_slide_def interval_ok_def queue_ok_def runs_def)
qed

lemma fold_to_ok: "car_ok s \<Longrightarrow> only_vetoes l \<Longrightarrow> car_ok (fold (to_item l) ps s)"
  by (induction ps arbitrary: s) (simp_all add: to_item_ok)

lemma slid_timeout_ok: "car_ok s \<Longrightarrow> only_vetoes l \<Longrightarrow> car_ok (slid_timeout l s)"
  unfolding slid_timeout_def by (intro fold_to_ok slid_reset_ok)

text \<open>The events of the browser.\<close>

lemma slide_end_run_trans: "same_trans s (slide_end_run c s)"
  by (cases c) (simp add: add_classes_def remove_classes_def Let_def same_trans_def)

lemma fire_end_wf: "trans_wf s \<Longrightarrow> trans_wf (fire_end slide_end_run t s)"
proof -
  assume w: "trans_wf s"
  have "trans_wf (fold slide_end_run cs s')" if "trans_wf s'" for cs s'
    using that by (induction cs arbitrary: s') (simp_all add: wf_same_trans [OF slide_end_run_trans])
  with transition_end_wf [OF w] show ?thesis by (simp add: fire_end_runs)
qed

lemma fire_end_other:
  assumes "filter (\<lambda>h. fst h = t) (runs s) = []"
  shows "same_slides s (fire_end slide_end_run t s) \<and> interval_ok (fire_end slide_end_run t s) = interval_ok s"
proof -
  have "filter (\<lambda>h. fst h \<noteq> t) (runs s) = runs s" using assms by (intro filter_True) (auto simp: filter_empty_conv)
  then have "runs (snd (transition_end t s)) = runs s" by simp
  with assms transition_end_interval show ?thesis by (simp add: fire_end_runs same_slides_def transition_end_def Let_def)
qed

lemma fire_end_slide:
  assumes "in_slide a b ty s" "a < n_items s"
  defines "s' \<equiv> fire_end slide_end_run (Item a) s"
  shows "at_rest b s'" "slid_timers s' = Suc (slid_timers s)" "n_items s' = n_items s" "one_slid s' = one_slid s" "raised s' = raised s"
    "interval_ok s' = interval_ok s" "car_transition s' = car_transition s" "slide_class s' = slide_class s"
proof -
  have "callbacks (filter (\<lambda>h. fst h = Item a) (runs s)) = [SlideEnd [a] [b] ty]" using assms(1) by (simp add: in_slide_def)
  then have f: "s' = slide_end_run (SlideEnd [a] [b] ty) (snd (transition_end (Item a) s))" by (simp add: s'_def fire_end_runs)
  show "at_rest b s'" "slid_timers s' = Suc (slid_timers s)" using slide_end_rest [OF assms(1,2)] by (simp_all add: s'_def)
  show "n_items s' = n_items s" "one_slid s' = one_slid s" "raised s' = raised s" "interval_ok s' = interval_ok s"
    "car_transition s' = car_transition s" "slide_class s' = slide_class s"
    by (simp_all add: f add_classes_def remove_classes_def Let_def transition_end_def interval_ok_def)
qed

lemma fire_end_ok:
  assumes "car_ok s"
  shows "car_ok (fire_end slide_end_run t s)"
proof (cases "filter (\<lambda>h. fst h = t) (runs s) = []")
  case True
  from fire_end_other [OF True] assms fire_end_wf show ?thesis by (intro car_ok_same [OF assms]) (simp_all add: car_ok_def)
next
  case False
  then have sl: "sliding s" using assms by (auto simp: car_ok_def at_rest_def in_slide_def)
  obtain a b ty where s: "a < n_items s" "in_slide a b ty s" using in_slide_if [OF assms sl] by blast
  with False have "t = Item a" by (auto simp: in_slide_def split: if_splits)
  moreover have "b < n_items s" using s(2) by (simp add: in_slide_def)
  ultimately show ?thesis
    using assms fire_end_slide [OF s(2,1)] fire_end_wf [of s t] by (auto simp: car_ok_def queue_ok_def)
qed

interpretation car: transition_client slide_end_run car_ok
proof unfold_locales
  fix s :: carousel and t n c
  show "car_ok s \<Longrightarrow> trans_wf s" by (simp add: car_ok_def)
  show "car_ok s \<Longrightarrow> car_ok (fire_end slide_end_run t s)" by (rule fire_end_ok)
  show "car_ok (s\<lparr>timers := filter (\<lambda>x. fst x \<noteq> n) (timers s)\<rparr>)" if "car_ok s" "called s n"
    using that timer_removed_wf [of s n]
    by (intro car_ok_same [OF that(1)]) (simp_all add: car_ok_def same_slides_def runs_def interval_ok_def)
  show "next_called s \<le> next_called (slide_end_run c s) \<and> (n < next_called s \<longrightarrow> called (slide_end_run c s) n = called s n)"
    using slide_end_run_trans [of s c] by (simp add: same_trans_def)
qed

lemma car_step_ok:
  assumes "car_ok s" "only_vetoes l"
  shows "car_ok (car_step l e s)"
proof (cases e)
  case (Keydown tag which)
  with assms show ?thesis by (simp add: keydown_def next_prev_ok)
next
  case (Tick k)
  with assms show ?thesis by (simp add: interval_tick_def next_prev_ok)
qed (use assms in \<open>simp_all add: next_prev_ok to_item_ok pause_ok cycle_ok car.ok_tevent slid_timeout_ok\<close>)

lemma new_carousel_ok:
  assumes "0 < n"
  shows "car_ok (new_carousel n inds w iv supp sl)"
proof -
  have "at_rest 0 (new_carousel n inds w iv supp sl)" by (simp add: at_rest_def new_carousel_def runs_def)
  moreover have "trans_wf (new_carousel n inds w iv supp sl)" by (simp add: trans_wf_def new_carousel_def)
  ultimately show ?thesis using assms by (auto simp: car_ok_def new_carousel_def interval_ok_def queue_ok_def)
qed

lemma car_run_ok: "car_ok s \<Longrightarrow> only_vetoes l \<Longrightarrow> car_ok (fold (car_step l) es s)"
  by (induction es arbitrary: s) (simp_all add: car_step_ok)

section \<open>Waiting calls\<close>

text \<open>What is made of the waiting calls from rest: those for the active item change nothing.\<close>

lemma fold_to_sliding:
  assumes "car_ok s" "sliding s" "list_all (\<lambda>p. 0 \<le> p \<and> p < int (n_items s)) ps"
  shows "fold (to_item l) ps s = s\<lparr>one_slid := one_slid s @ ps\<rparr>"
  using assms
proof (induction ps arbitrary: s)
  case (Cons p ps)
  let ?s = "s\<lparr>one_slid := one_slid s @ [p]\<rparr>"
  have t: "to_item l p s = ?s" using Cons.prems by (simp add: to_item_sliding)
  have "same_trans s ?s" by (simp add: same_trans_def)
  from wf_same_trans [OF this] have "car_ok ?s"
    using Cons.prems by (auto simp: car_ok_def at_rest_def in_slide_def interval_ok_def queue_ok_def runs_def)
  from Cons.IH [OF this] Cons.prems t show ?case by simp
qed simp

lemma fold_to_rest:
  assumes "car_ok s" "at_rest a s" "a < n_items s" "car_transition s" "slide_class s" "one_slid s = []" "\<And>s. l s = (s, False)"
    "list_all (\<lambda>p. 0 \<le> p \<and> p < int (n_items s)) ps"
  shows "case dropWhile (\<lambda>p. p = int a) ps of
      [] \<Rightarrow> at_rest a (fold (to_item l) ps s) \<and> one_slid (fold (to_item l) ps s) = []
    | p # rest \<Rightarrow> (\<exists>ty. in_slide a (nat p) ty (fold (to_item l) ps s)) \<and> one_slid (fold (to_item l) ps s) = rest"
  using assms
proof (induction ps arbitrary: s)
  case (Cons p ps)
  have v: "only_vetoes l" using Cons.prems(7) by (simp add: only_vetoes_def)
  have p: "0 \<le> p" "p < int (n_items s)" using Cons.prems(8) by simp_all
  note m = to_item_moves [OF Cons.prems(1-3) v p]
  show ?case
  proof (cases "int a = p")
    case True
    then have m: "same_slides s (to_item l p s)" "car_ok (to_item l p s)" using m by simp_all
    have "at_rest a (to_item l p s)" using Cons.prems(2) at_rest_same [OF m(1)] by simp
    with Cons.IH [OF m(2)] m(1) Cons.prems True
    have "case dropWhile (\<lambda>p. p = int a) ps of
        [] \<Rightarrow> at_rest a (fold (to_item l) ps (to_item l p s)) \<and> one_slid (fold (to_item l) ps (to_item l p s)) = []
      | p' # rest \<Rightarrow> (\<exists>ty. in_slide a (nat p') ty (fold (to_item l) ps (to_item l p s)))
          \<and> one_slid (fold (to_item l) ps (to_item l p s)) = rest" by (simp add: same_slides_def)
    moreover have f: "fold (to_item l) (p # ps) s = fold (to_item l) ps (to_item l p s)" by simp
    moreover have d: "dropWhile (\<lambda>p. p = int a) (p # ps) = dropWhile (\<lambda>p. p = int a) ps" using True by simp
    ultimately show ?thesis unfolding f d by simp
  next
    case False
    define s1 where "s1 = to_item l p s"
    define ty where "ty = (if p > int a then NextType else PrevType)"
    have m: "moves_to a (nat p) ty s s1" "car_ok s1" using m False Cons.prems(7) by (simp_all add: s1_def ty_def)
    then have i: "in_slide a (nat p) ty s1" "one_slid s1 = []" "n_items s1 = n_items s" using Cons.prems by (simp_all add: moves_to_def)
    have "fold (to_item l) (p # ps) s = s1\<lparr>one_slid := ps\<rparr>"
      using fold_to_sliding [OF m(2)] i Cons.prems(8) by (simp add: s1_def [symmetric] in_slide_def)
    with i False show ?thesis by (auto simp: in_slide_def runs_def)
  qed
qed simp

lemma at_rest_less: "car_ok s \<Longrightarrow> at_rest a s \<Longrightarrow> a < n_items s"
proof -
  assume s: "car_ok s" "at_rest a s"
  then obtain a' where a': "a' < n_items s" "at_rest a' s" using at_rest_if [OF s(1)] by (auto simp: at_rest_def)
  then have "''active'' \<in> cls s a'" by (simp add: at_rest_def)
  with s(2) a'(1) show ?thesis by (auto simp: at_rest_def split: if_splits)
qed

lemma in_slide_less: "car_ok s \<Longrightarrow> in_slide a b ty s \<Longrightarrow> a < n_items s"
  by (auto simp: car_ok_def at_rest_def in_slide_def)

text \<open>A slide ends with its timer, and slid makes the waiting calls: one round.\<close>

definition browser_events :: "car_event list \<Rightarrow> bool" where
  "browser_events es \<longleftrightarrow> list_all (\<lambda>e. case e of Browser (TimerOf n) \<Rightarrow> True | SlidTimeout \<Rightarrow> True | _ \<Rightarrow> False) es"

lemma slide_timer:
  assumes "car_ok s" "in_slide a b ty s" "a < n_items s"
  obtains n where "car_ok (fire_timer slide_end_run n s)" "at_rest b (fire_timer slide_end_run n s)"
    "slid_timers (fire_timer slide_end_run n s) = Suc (slid_timers s)"
    "n_items (fire_timer slide_end_run n s) = n_items s" "one_slid (fire_timer slide_end_run n s) = one_slid s"
    "car_transition (fire_timer slide_end_run n s)" "slide_class (fire_timer slide_end_run n s)"
proof -
  have w: "trans_wf s" using assms(1) by (simp add: car_ok_def)
  have "(Item a, Run (SlideEnd [a] [b] ty)) \<in> set (runs s)" using assms(2) by (simp add: in_slide_def)
  then have "(Item a, Run (SlideEnd [a] [b] ty)) \<in> set (bound s)" by (simp add: runs_def)
  then obtain n where "(Item a, SetCalled n) \<in> set (bound s)" using wf_run [OF w] by blast
  then have n: "(n, [Item a]) \<in> set (timers s)" "\<not> called s n" using wf_set_called [OF w] by simp_all
  then have "map_of (timers s) n = Some [Item a]" using map_of_eq_Some_iff [OF wf_distinct [OF w]] by blast
  then have f: "fire_timer slide_end_run n s = (let s1 = fire_end slide_end_run (Item a) s in
      s1\<lparr>timers := filter (\<lambda>x. fst x \<noteq> n) (timers s1)\<rparr>)" using n(2) by (simp add: fire_timer_def)
  have c: "car_transition s" "slide_class s" using assms(2) by (simp_all add: in_slide_def)
  show thesis
    using that [of n] car.ok_fire_timer [OF assms(1), of n] fire_end_slide [OF assms(2,3)] c
    by (simp add: f Let_def at_rest_def runs_def)
qed

lemma waiting_calls_round:
  assumes "car_ok s" "at_rest a s" "a < n_items s" "car_transition s" "slide_class s" "slid_timers s \<noteq> 0" "\<And>s. l s = (s, False)"
  shows "\<exists>es. browser_events es \<and> length es \<le> 1 + 2 * length (one_slid s)
    \<and> at_rest (nat (last (int a # one_slid s))) (fold (car_step l) es s) \<and> one_slid (fold (car_step l) es s) = []"
  using assms
proof (induction "length (one_slid s)" arbitrary: s a rule: less_induct)
  case less
  define qs where "qs = one_slid s"
  define s0 where "s0 = s\<lparr>one_slid := [], slid_timers := slid_timers s - 1\<rparr>"
  have q: "list_all (\<lambda>p. 0 \<le> p \<and> p < int (n_items s0)) qs"
    using less.prems(1) by (simp add: car_ok_def queue_ok_def qs_def s0_def)
  have s0: "car_ok s0" "at_rest a s0" "a < n_items s0" "car_transition s0" "slide_class s0" "one_slid s0 = []"
    using slid_reset_ok [OF less.prems(1)] less.prems(2-5) by (simp_all add: s0_def at_rest_def runs_def)
  have st: "car_step l SlidTimeout s = fold (to_item l) qs s0" using less.prems(6) by (simp add: slid_timeout_def qs_def s0_def)
  define s1 where "s1 = fold (to_item l) qs s0"
  have v: "only_vetoes l" using less.prems(7) by (simp add: only_vetoes_def)
  have ok1: "car_ok s1" unfolding s1_def by (rule fold_to_ok [OF s0(1) v])
  from fold_to_rest [OF s0 less.prems(7) q]
  show ?case
  proof (cases "dropWhile (\<lambda>p. p = int a) qs")
    case Nil
    with fold_to_rest [OF s0 less.prems(7) q] have r: "at_rest a s1" "one_slid s1 = []" by (simp_all add: s1_def)
    have "\<forall>p\<in>set qs. p = int a" using Nil by (simp add: dropWhile_eq_Nil_conv)
    then have "last (int a # qs) = int a" by (cases "qs = []") (auto dest: last_in_set)
    with r st show ?thesis
      by (intro exI [of _ "[SlidTimeout]"]) (simp add: browser_events_def s1_def [symmetric] qs_def [symmetric])
  next
    case (Cons p rest)
    with fold_to_rest [OF s0 less.prems(7) q] obtain ty where r: "in_slide a (nat p) ty s1" "one_slid s1 = rest" by (auto simp: s1_def)
    have qs: "qs = takeWhile (\<lambda>p. p = int a) qs @ p # rest" using Cons takeWhile_dropWhile_id [of "\<lambda>p. p = int a" qs] by simp
    have "length qs = length (takeWhile (\<lambda>p. p = int a) qs @ p # rest)" by (subst qs) (rule refl)
    then have l: "length rest < length qs" by simp
    have "p \<in> set qs" by (subst qs) simp
    then have p0: "0 \<le> p" using q by (simp add: list_all_iff)
    obtain n where n: "car_ok (fire_timer slide_end_run n s1)" "at_rest (nat p) (fire_timer slide_end_run n s1)"
      "slid_timers (fire_timer slide_end_run n s1) = Suc (slid_timers s1)" "n_items (fire_timer slide_end_run n s1) = n_items s1"
      "one_slid (fire_timer slide_end_run n s1) = one_slid s1"
      "car_transition (fire_timer slide_end_run n s1)" "slide_class (fire_timer slide_end_run n s1)"
      by (rule slide_timer [OF ok1 r(1) in_slide_less [OF ok1 r(1)]])
    have b: "nat p < n_items (fire_timer slide_end_run n s1)" using r(1) n(4) by (simp add: in_slide_def)
    define s2 where "s2 = fire_timer slide_end_run n s1"
    note n = n [folded s2_def]
    have m: "length (one_slid s2) < length (one_slid s)" "slid_timers s2 \<noteq> 0" using n(3,5) r(2) l by (simp_all add: qs_def)
    from less.hyps [OF m(1) n(1,2) b [folded s2_def] n(6,7) m(2) less.prems(7)] n(5) r(2)
    obtain es where es: "browser_events es" "length es \<le> 1 + 2 * length rest"
      "at_rest (nat (last (int (nat p) # rest))) (fold (car_step l) es s2)" "one_slid (fold (car_step l) es s2) = []"
      by auto
    have "last (int a # qs) = last (takeWhile (\<lambda>p. p = int a) qs @ p # rest)" by (subst qs) simp
    then have "last (int a # qs) = last (int (nat p) # rest)" using p0 by simp
    with es l st show ?thesis
      by (intro exI [of _ "SlidTimeout # Browser (TimerOf n) # es"])
        (simp add: browser_events_def s1_def [symmetric] s2_def [symmetric] qs_def [symmetric])
  qed
qed

section \<open>Properties\<close>





text \<open>
  slide triggers its event before it notes that it slides, so a listener of slide.bs.carousel can start
  another slide of the same item: after next with a listener that calls prev, the end of the transitions
  leaves two items active.
\<close>

theorem listener_leaves_two_active:
  "items_with ''active'' (fold (car_step (\<lambda>s. (prev_item (\<lambda>s. (s, False)) s, False))) [CallNext, Browser (EndAt (Item 0)), SlidTimeout]
     (new_carousel 3 0 True False True True)) = [1, 2]"
  by code_simp

end
