(* ===== verification/Bs_Modal.thy ===== *)
theory Bs_Modal
  imports Bs_Transition
begin

text \<open>
  The modal of bootstrap.js: show and hide with their two transitions, the backdrops in the document, the
  handlers that are bound while it is shown, and the padding of the body. The listeners of show.bs.modal
  and hide.bs.modal are a parameter that may change the state and prevent; listeners of shown and hidden,
  which are triggered last, are further calls. What the page measures does not change.
\<close>

section \<open>State\<close>

datatype modal_target = MElement | MDialog | MBackdrop nat

text \<open>The functions that show and hideModal give to backdrop, and those bound to the end of transitions.\<close>

datatype backdrop_callback = ShowCb | HiddenCb

datatype modal_callback = RunCb backdrop_callback | RemoveThen backdrop_callback | TriggerShown | HideModal

datatype backdrop_option = NoBackdrop | WithBackdrop | StaticBackdrop

datatype modal_event = EvShow | EvShown | EvHide | EvHidden

record modal = "(modal_target, modal_callback) trans" +
  opt_backdrop :: backdrop_option
  opt_keyboard :: bool
  m_transition :: bool                  \<comment> \<open>$.support.transition\<close>
  fade :: bool                          \<comment> \<open>the element has the class fade\<close>
  page_overflows :: bool                \<comment> \<open>the body is narrower than the window\<close>
  modal_overflows :: bool
  page_scrollbar :: int
  page_padding :: int                   \<comment> \<open>the padding of the body by the stylesheets\<close>
  isShown :: bool
  m_backdrop :: "nat option"            \<comment> \<open>this.$backdrop\<close>
  backdrops :: "(nat \<times> bool) list"      \<comment> \<open>those in the document, with their class in\<close>
  next_backdrop :: nat
  in_class :: bool
  displayed :: bool
  has_parent :: bool
  body_open :: bool                     \<comment> \<open>the body has the class modal-open\<close>
  body_padding :: "int option"          \<comment> \<open>its own style; None is the empty string\<close>
  originalBodyPad :: "int option option"
  bodyIsOverflowing :: bool
  scrollbarWidth :: int
  padding_left :: "int option"
  padding_right :: "int option"
  focusin_bound :: bool
  keydowns :: nat                       \<comment> \<open>the handlers bound, by event\<close>
  resizes :: nat
  dismiss_clicks :: nat
  backdrop_clicks :: nat
  mousedowns :: nat
  mouseup_ones :: nat
  ignoreBackdropClick :: bool
  triggered :: "modal_event list"

section \<open>Operations\<close>

definition checkScrollbar :: "modal \<Rightarrow> modal" where
  "checkScrollbar s = s\<lparr>bodyIsOverflowing := page_overflows s, scrollbarWidth := page_scrollbar s\<rparr>"

definition setScrollbar :: "modal \<Rightarrow> modal" where
  "setScrollbar s =
     (let bodyPad = (case body_padding s of Some p \<Rightarrow> p | None \<Rightarrow> page_padding s);
          s1 = s\<lparr>originalBodyPad := Some (body_padding s)\<rparr> in
      if bodyIsOverflowing s1 then s1\<lparr>body_padding := Some (bodyPad + scrollbarWidth s1)\<rparr> else s1)"

text \<open>css with null changes nothing.\<close>

definition resetScrollbar :: "modal \<Rightarrow> modal" where
  "resetScrollbar s = (case originalBodyPad s of Some p \<Rightarrow> s\<lparr>body_padding := p\<rparr> | None \<Rightarrow> s)"

definition adjustDialog :: "modal \<Rightarrow> modal" where
  "adjustDialog s =
     s\<lparr>padding_left := (if \<not> bodyIsOverflowing s \<and> modal_overflows s then Some (scrollbarWidth s) else None),
       padding_right := (if bodyIsOverflowing s \<and> \<not> modal_overflows s then Some (scrollbarWidth s) else None)\<rparr>"

definition resetAdjustments :: "modal \<Rightarrow> modal" where
  "resetAdjustments s = s\<lparr>padding_left := None, padding_right := None\<rparr>"

definition escape :: "modal \<Rightarrow> modal" where
  "escape s =
     (if isShown s \<and> opt_keyboard s then s\<lparr>keydowns := Suc (keydowns s)\<rparr>
      else if \<not> isShown s then s\<lparr>keydowns := 0\<rparr> else s)"

definition resize :: "modal \<Rightarrow> modal" where
  "resize s = (if isShown s then s\<lparr>resizes := Suc (resizes s)\<rparr> else s\<lparr>resizes := 0\<rparr>)"

definition enforceFocus :: "modal \<Rightarrow> modal" where
  "enforceFocus s = s\<lparr>focusin_bound := True\<rparr>"

text \<open>remove takes the handlers of the backdrop with it.\<close>

definition removeBackdrop :: "modal \<Rightarrow> modal" where
  "removeBackdrop s =
     (case m_backdrop s of
        None \<Rightarrow> s
      | Some k \<Rightarrow> s\<lparr>m_backdrop := None, backdrops := filter (\<lambda>b. fst b \<noteq> k) (backdrops s),
          bound := filter (\<lambda>h. fst h \<noteq> MBackdrop k) (bound s)\<rparr>)"

definition set_in :: "nat \<Rightarrow> bool \<Rightarrow> modal \<Rightarrow> modal" where
  "set_in k b s = s\<lparr>backdrops := map (\<lambda>x. if fst x = k then (k, b) else x) (backdrops s)\<rparr>"

definition animates :: "modal \<Rightarrow> bool" where
  "animates s \<longleftrightarrow> m_transition s \<and> fade s"

text \<open>The callback of show and that of hideModal.\<close>

fun run_cb :: "backdrop_callback \<Rightarrow> modal \<Rightarrow> modal" where
  "run_cb ShowCb s =
     (let s1 = adjustDialog (s\<lparr>has_parent := True, displayed := True\<rparr>);
          s2 = enforceFocus (s1\<lparr>in_class := True\<rparr>) in
      if animates s2 then await [MDialog] TriggerShown s2 else s2\<lparr>triggered := triggered s2 @ [EvShown]\<rparr>)"
| "run_cb HiddenCb s =
     (let s1 = resetScrollbar (resetAdjustments (s\<lparr>body_open := False\<rparr>)) in s1\<lparr>triggered := triggered s1 @ [EvHidden]\<rparr>)"

declare run_cb.simps [simp del]

definition backdrop :: "backdrop_callback \<Rightarrow> modal \<Rightarrow> modal" where
  "backdrop cb s =
     (if isShown s \<and> opt_backdrop s \<noteq> NoBackdrop then
        (let k = next_backdrop s;
             s1 = s\<lparr>m_backdrop := Some k, backdrops := backdrops s @ [(k, False)], next_backdrop := Suc k,
                    backdrop_clicks := Suc (backdrop_clicks s)\<rparr>;
             s2 = set_in k True s1 in
         if animates s2 then await [MBackdrop k] (RunCb cb) s2 else run_cb cb s2)
      else
        (case (isShown s, m_backdrop s) of
           (False, Some k) \<Rightarrow>
             (let s1 = set_in k False s in
              if animates s1 then await [MBackdrop k] (RemoveThen cb) s1 else run_cb cb (removeBackdrop s1))
         | _ \<Rightarrow> run_cb cb s))"

definition hideModal :: "modal \<Rightarrow> modal" where
  "hideModal s = backdrop HiddenCb (s\<lparr>displayed := False\<rparr>)"

fun modal_run :: "modal_callback \<Rightarrow> modal \<Rightarrow> modal" where
  "modal_run (RunCb cb) s = run_cb cb s"
| "modal_run (RemoveThen cb) s = run_cb cb (removeBackdrop s)"
| "modal_run TriggerShown s = s\<lparr>triggered := triggered s @ [EvShown]\<rparr>"
| "modal_run HideModal s = hideModal s"

type_synonym modal_listener = "modal_event \<Rightarrow> modal \<Rightarrow> modal \<times> bool"

definition modal_show :: "modal_listener \<Rightarrow> modal \<Rightarrow> modal" where
  "modal_show listener s =
     (case listener EvShow (s\<lparr>triggered := triggered s @ [EvShow]\<rparr>) of
        (s1, prevented) \<Rightarrow>
          if isShown s1 \<or> prevented then s1
          else
            (let s2 = setScrollbar (checkScrollbar (s1\<lparr>isShown := True\<rparr>));
                 s3 = resize (escape (s2\<lparr>body_open := True\<rparr>)) in
             backdrop ShowCb (s3\<lparr>dismiss_clicks := Suc (dismiss_clicks s3), mousedowns := Suc (mousedowns s3)\<rparr>)))"

definition modal_hide :: "modal_listener \<Rightarrow> modal \<Rightarrow> modal" where
  "modal_hide listener s =
     (case listener EvHide (s\<lparr>triggered := triggered s @ [EvHide]\<rparr>) of
        (s1, prevented) \<Rightarrow>
          if \<not> isShown s1 \<or> prevented then s1
          else
            (let s2 = resize (escape (s1\<lparr>isShown := False\<rparr>));
                 s3 = s2\<lparr>focusin_bound := False, in_class := False, dismiss_clicks := 0, backdrop_clicks := 0,
                         mouseup_ones := 0, mousedowns := 0\<rparr> in
             if animates s3 then await [MElement] HideModal s3 else hideModal s3))"

definition modal_toggle :: "modal_listener \<Rightarrow> modal \<Rightarrow> modal" where
  "modal_toggle listener s = (if isShown s then modal_hide listener s else modal_show listener s)"

text \<open>
  The handlers. A click on the element itself is a click on what lies outside the dialog; a click on a
  button with data-dismiss reaches the handler of the element afterwards.
\<close>

definition backdrop_click :: "modal_listener \<Rightarrow> bool \<Rightarrow> modal \<Rightarrow> modal" where
  "backdrop_click listener on_element s =
     (if ignoreBackdropClick s then s\<lparr>ignoreBackdropClick := False\<rparr>
      else if \<not> on_element then s
      else if opt_backdrop s = StaticBackdrop then s
      else modal_hide listener s)"

datatype modal_input =
    CallShow | CallHide | CallToggle | Key nat | DismissClick | ElementClick
  | DialogMousedown | ElementMouseup bool | WindowResize | Ends "modal_target tevent"

fun modal_step :: "modal_listener \<Rightarrow> modal_input \<Rightarrow> modal \<Rightarrow> modal" where
  "modal_step l CallShow s = modal_show l s"
| "modal_step l CallHide s = modal_hide l s"
| "modal_step l CallToggle s = modal_toggle l s"
| "modal_step l (Key which) s = (modal_hide l ^^ (if which = 27 then keydowns s else 0)) s"
| "modal_step l DismissClick s =
     (backdrop_click l False ^^ backdrop_clicks s) ((modal_hide l ^^ dismiss_clicks s) s)"
| "modal_step l ElementClick s = (backdrop_click l True ^^ backdrop_clicks s) s"
| "modal_step l DialogMousedown s = s\<lparr>mouseup_ones := mouseup_ones s + mousedowns s\<rparr>"
| "modal_step l (ElementMouseup on_element) s =
     (if mouseup_ones s = 0 then s
      else s\<lparr>mouseup_ones := 0, ignoreBackdropClick := (on_element \<or> ignoreBackdropClick s)\<rparr>)"
| "modal_step l WindowResize s = (adjustDialog ^^ resizes s) s"
| "modal_step l (Ends e) s = tevent_run modal_run e s"

definition new_modal :: "backdrop_option \<Rightarrow> bool \<Rightarrow> bool \<Rightarrow> bool \<Rightarrow> bool \<Rightarrow> bool \<Rightarrow> int \<Rightarrow> int \<Rightarrow> int option \<Rightarrow> modal" where
  "new_modal bd kb tr fd pov mov sbw pp own =
     \<lparr>bound = [], timers = [], called = (\<lambda>_. False), next_called = 0,
      opt_backdrop = bd, opt_keyboard = kb, m_transition = tr, fade = fd, page_overflows = pov, modal_overflows = mov,
      page_scrollbar = sbw, page_padding = pp, isShown = False, m_backdrop = None, backdrops = [], next_backdrop = 0,
      in_class = False, displayed = False, has_parent = True, body_open = False, body_padding = own, originalBodyPad = None,
      bodyIsOverflowing = False, scrollbarWidth = 0, padding_left = None, padding_right = None, focusin_bound = False,
      keydowns = 0, resizes = 0, dismiss_clicks = 0, backdrop_clicks = 0, mousedowns = 0, mouseup_ones = 0,
      ignoreBackdropClick = False, triggered = []\<rparr>"

section \<open>The phases of a modal\<close>

text \<open>What a modal promises: six phases, of which two are settled.\<close>

datatype phase = Hidden | ShowingBackdrop | ShowingDialog | Shown | HidingElement | HidingBackdrop

inductive phase_step :: "bool \<Rightarrow> bool \<Rightarrow> phase \<Rightarrow> phase \<Rightarrow> bool" for animated with_backdrop where
  stay: "phase_step animated with_backdrop p p"
| start_show: "phase_step animated with_backdrop Hidden
    (if animated then (if with_backdrop then ShowingBackdrop else ShowingDialog) else Shown)"
| start_hide: "phase_step animated with_backdrop Shown (if animated then HidingElement else Hidden)"
| backdrop_in: "phase_step animated with_backdrop ShowingBackdrop ShowingDialog"
| dialog_in: "phase_step animated with_backdrop ShowingDialog Shown"
| element_out: "phase_step animated with_backdrop HidingElement (if with_backdrop then HidingBackdrop else Hidden)"
| backdrop_out: "phase_step animated with_backdrop HidingBackdrop Hidden"

text \<open>What the state is in each phase; \<open>own\<close> is the padding that the body had, \<open>k\<close> the number of the backdrop.\<close>

definition shown_phase :: "phase \<Rightarrow> bool" where
  "shown_phase p \<longleftrightarrow> p \<in> {ShowingBackdrop, ShowingDialog, Shown}"

definition open_phase :: "phase \<Rightarrow> bool" where
  "open_phase p \<longleftrightarrow> p \<in> {ShowingDialog, Shown}"

definition has_backdrop :: "modal \<Rightarrow> bool" where
  "has_backdrop s \<longleftrightarrow> opt_backdrop s \<noteq> NoBackdrop"

fun phase_wait :: "phase \<Rightarrow> nat \<Rightarrow> (modal_target \<times> modal_callback) option" where
  "phase_wait ShowingBackdrop k = Some (MBackdrop k, RunCb ShowCb)"
| "phase_wait ShowingDialog k = Some (MDialog, TriggerShown)"
| "phase_wait HidingElement k = Some (MElement, HideModal)"
| "phase_wait HidingBackdrop k = Some (MBackdrop k, RemoveThen HiddenCb)"
| "phase_wait p k = None"

definition waits :: "(modal_target \<times> modal_callback) option \<Rightarrow> modal \<Rightarrow> bool" where
  "waits w s \<longleftrightarrow> (case w of None \<Rightarrow> bound s = [] | Some (t, c) \<Rightarrow> \<exists>n. bound s = [(t, Run c), (t, SetCalled n)])"

definition handlers_ok :: "phase \<Rightarrow> modal \<Rightarrow> bool" where
  "handlers_ok p s \<longleftrightarrow> focusin_bound s = open_phase p \<and> keydowns s = (if shown_phase p \<and> opt_keyboard s then 1 else 0)
     \<and> resizes s = (if shown_phase p then 1 else 0) \<and> dismiss_clicks s = (if shown_phase p then 1 else 0)
     \<and> mousedowns s = (if shown_phase p then 1 else 0) \<and> backdrop_clicks s = (if shown_phase p \<and> has_backdrop s then 1 else 0)
     \<and> (\<not> shown_phase p \<longrightarrow> mouseup_ones s = 0)"

definition looks_ok :: "phase \<Rightarrow> nat \<Rightarrow> modal \<Rightarrow> bool" where
  "looks_ok p k s \<longleftrightarrow> isShown s = shown_phase p \<and> in_class s = open_phase p \<and> displayed s = (open_phase p \<or> p = HidingElement)
     \<and> body_open s = (p \<noteq> Hidden)
     \<and> m_backdrop s = (if p \<noteq> Hidden \<and> has_backdrop s then Some k else None)
     \<and> backdrops s = (if p \<noteq> Hidden \<and> has_backdrop s then [(k, p \<noteq> HidingBackdrop)] else [])"

definition padding_ok :: "phase \<Rightarrow> int option \<Rightarrow> modal \<Rightarrow> bool" where
  "padding_ok p own s \<longleftrightarrow>
     (if p = Hidden then body_padding s = own \<and> padding_left s = None \<and> padding_right s = None else originalBodyPad s = Some own)"

definition in_phase :: "phase \<Rightarrow> nat \<Rightarrow> int option \<Rightarrow> modal \<Rightarrow> bool" where
  "in_phase p k own s \<longleftrightarrow> trans_wf s \<and> waits (phase_wait p k) s \<and> handlers_ok p s \<and> looks_ok p k s \<and> padding_ok p own s
     \<and> (p \<notin> {Hidden, Shown} \<longrightarrow> animates s) \<and> (p \<in> {ShowingBackdrop, HidingBackdrop} \<longrightarrow> has_backdrop s)"

lemmas phase_defs = handlers_ok_def looks_ok_def padding_ok_def shown_phase_def open_phase_def has_backdrop_def

lemmas modal_defs = checkScrollbar_def setScrollbar_def resetScrollbar_def adjustDialog_def resetAdjustments_def escape_def
  resize_def enforceFocus_def removeBackdrop_def set_in_def animates_def

text \<open>await touches nothing but the transitions.\<close>

lemma await_modal [simp]:
  "isShown (await ts c s) = isShown s" "in_class (await ts c s) = in_class s" "displayed (await ts c s) = displayed s"
  "body_open (await ts c s) = body_open s" "m_backdrop (await ts c s) = m_backdrop s" "backdrops (await ts c s) = backdrops s"
  "focusin_bound (await ts c s) = focusin_bound s" "keydowns (await ts c s) = keydowns s" "resizes (await ts c s) = resizes s"
  "dismiss_clicks (await ts c s) = dismiss_clicks s" "mousedowns (await ts c s) = mousedowns s"
  "backdrop_clicks (await ts c s) = backdrop_clicks s" "mouseup_ones (await ts c s) = mouseup_ones s"
  "body_padding (await ts c s) = body_padding s" "padding_left (await ts c s) = padding_left s"
  "padding_right (await ts c s) = padding_right s" "originalBodyPad (await ts c s) = originalBodyPad s"
  "opt_backdrop (await ts c s) = opt_backdrop s" "opt_keyboard (await ts c s) = opt_keyboard s"
  "m_transition (await ts c s) = m_transition s" "fade (await ts c s) = fade s"
  by (simp_all add: await_def emulateTransitionEnd_def bind_one_def Let_def)

lemma handlers_await [simp]: "handlers_ok p (await ts c s) = handlers_ok p s"
  by (simp add: handlers_ok_def has_backdrop_def)

lemma looks_await [simp]: "looks_ok p k (await ts c s) = looks_ok p k s"
  by (simp add: looks_ok_def has_backdrop_def)

lemma padding_await [simp]: "padding_ok p own (await ts c s) = padding_ok p own s"
  by (simp add: padding_ok_def)

lemma waits_await: "bound s = [] \<Longrightarrow> waits (Some (t, c)) (await [t] c s)"
  by (simp add: waits_def)

text \<open>The phase that shows: the callback of show.\<close>

lemma run_ShowCb_phase:
  assumes "trans_wf s" "bound s = []" "handlers_ok ShowingBackdrop s" "looks_ok ShowingBackdrop k s" "padding_ok ShowingBackdrop own s"
  shows "in_phase (if animates s then ShowingDialog else Shown) k own (run_cb ShowCb s)"
proof -
  define s1 where "s1 = enforceFocus ((adjustDialog (s\<lparr>has_parent := True, displayed := True\<rparr>))\<lparr>in_class := True\<rparr>)"
  have r: "run_cb ShowCb s = (if animates s1 then await [MDialog] TriggerShown s1 else s1\<lparr>triggered := triggered s1 @ [EvShown]\<rparr>)"
    by (simp only: run_cb.simps Let_def s1_def)
  have a: "animates s1 = animates s" "bound s1 = []" using assms(2) by (simp_all add: s1_def modal_defs)
  have w: "trans_wf s1" "trans_wf (s1\<lparr>triggered := x\<rparr>)" for x
    using assms(1) wf_same_trans [of s s1] wf_same_trans [of s "s1\<lparr>triggered := x\<rparr>"] by (simp_all add: s1_def modal_defs same_trans_def)
  have f: "handlers_ok q s1 \<and> looks_ok q k s1 \<and> padding_ok q own s1" if "q \<in> {ShowingDialog, Shown}" for q
    using that assms(3-5) by (auto simp: s1_def modal_defs phase_defs)
  show ?thesis
  proof (cases "animates s")
    case True
    have "in_phase ShowingDialog k own (await [MDialog] TriggerShown s1)"
      using f [of ShowingDialog] await_wf [OF w(1)] waits_await [OF a(2)] True a(1) by (simp add: in_phase_def animates_def)
    with True show ?thesis by (simp add: r a(1))
  next
    case False
    have "in_phase Shown k own (s1\<lparr>triggered := triggered s1 @ [EvShown]\<rparr>)"
      using f [of Shown] w(2) a(2) by (simp add: in_phase_def waits_def handlers_ok_def looks_ok_def padding_ok_def has_backdrop_def)
    with False show ?thesis by (simp add: r a(1))
  qed
qed

text \<open>The callback of hideModal, and the backdrop on its way out.\<close>

lemma hidden_phase:
  assumes "trans_wf s" "bound s = []" "handlers_ok HidingBackdrop s" "padding_ok HidingBackdrop own s" "\<not> isShown s" "\<not> in_class s"
    "\<not> displayed s" "m_backdrop s = None" "backdrops s = []"
  shows "in_phase Hidden k own (run_cb HiddenCb s)"
proof -
  have o: "originalBodyPad s = Some own" using assms(4) by (simp add: padding_ok_def)
  have r: "run_cb HiddenCb s = s\<lparr>body_open := False, padding_left := None, padding_right := None, body_padding := own,
      triggered := triggered s @ [EvHidden]\<rparr>" using o by (simp add: run_cb.simps modal_defs Let_def)
  have "trans_wf (run_cb HiddenCb s)" using assms(1) wf_same_trans [of s "run_cb HiddenCb s"] by (simp add: r same_trans_def)
  then show ?thesis using assms unfolding in_phase_def r by (simp add: waits_def phase_defs)
qed

lemma removeBackdrop_phase:
  assumes "trans_wf s" "bound s = []" "handlers_ok HidingBackdrop s" "padding_ok HidingBackdrop own s" "looks_ok HidingBackdrop k s"
    "has_backdrop s"
  shows "in_phase Hidden k own (run_cb HiddenCb (removeBackdrop s))"
proof -
  have r: "removeBackdrop s = s\<lparr>m_backdrop := None, backdrops := []\<rparr>"
    using assms(2,5,6) by (simp add: removeBackdrop_def looks_ok_def)
  have "trans_wf (removeBackdrop s)" using assms(1) wf_same_trans [of s "removeBackdrop s"] by (simp add: r same_trans_def)
  with assms show ?thesis unfolding r by (intro hidden_phase) (simp_all add: phase_defs)
qed

lemma hideModal_phase:
  assumes "trans_wf s" "bound s = []" "handlers_ok HidingElement s" "padding_ok HidingElement own s" "looks_ok HidingElement k s"
  shows "in_phase (if animates s \<and> has_backdrop s then HidingBackdrop else Hidden) k own (hideModal s)"
proof (cases "has_backdrop s")
  case True
  define s1 where "s1 = set_in k False (s\<lparr>displayed := False\<rparr>)"
  have m: "isShown s = False" "m_backdrop s = Some k" using assms(5) True by (simp_all add: looks_ok_def shown_phase_def)
  have h: "hideModal s = (if animates s1 then await [MBackdrop k] (RemoveThen HiddenCb) s1 else run_cb HiddenCb (removeBackdrop s1))"
    using m by (simp add: hideModal_def backdrop_def s1_def Let_def)
  have w: "trans_wf s1" using assms(1) wf_same_trans [of s s1] by (simp add: s1_def set_in_def same_trans_def)
  have f: "bound s1 = []" "handlers_ok HidingBackdrop s1" "padding_ok HidingBackdrop own s1" "looks_ok HidingBackdrop k s1"
    "animates s1 = animates s" "has_backdrop s1"
    using assms(2-5) True by (simp_all add: s1_def modal_defs phase_defs)
  show ?thesis
  proof (cases "animates s")
    case an: True
    have "in_phase HidingBackdrop k own (await [MBackdrop k] (RemoveThen HiddenCb) s1)"
      using f an await_wf [OF w] waits_await [OF f(1)] by (simp add: in_phase_def animates_def has_backdrop_def)
    with an True f(5) show ?thesis by (simp add: h)
  next
    case False
    with removeBackdrop_phase [OF w f(1-4,6)] f(5) show ?thesis by (simp add: h)
  qed
next
  case False
  then have m: "isShown s = False" "m_backdrop s = None" "backdrops s = []" "in_class s = False"
    using assms(5) by (simp_all add: looks_ok_def shown_phase_def open_phase_def)
  have h: "hideModal s = run_cb HiddenCb (s\<lparr>displayed := False\<rparr>)"
    using m by (simp add: hideModal_def backdrop_def)
  have "trans_wf (s\<lparr>displayed := False\<rparr>)" using assms(1) wf_same_trans [of s "s\<lparr>displayed := False\<rparr>"] by (simp add: same_trans_def)
  then have "in_phase Hidden k own (run_cb HiddenCb (s\<lparr>displayed := False\<rparr>))"
    using assms(2-4) m by (intro hidden_phase) (simp_all add: phase_defs)
  with False show ?thesis by (simp add: h)
qed

section \<open>The calls\<close>

definition modal_vetoes :: "modal_listener \<Rightarrow> bool" where
  "modal_vetoes l \<longleftrightarrow> (\<forall>e s. fst (l e s) = s)"

lemma triggered_phase: "in_phase p k own (s\<lparr>triggered := x\<rparr>) = in_phase p k own s"
proof -
  have w: "trans_wf (s\<lparr>triggered := x\<rparr>) = trans_wf s"
    using wf_same_trans [of s "s\<lparr>triggered := x\<rparr>"] wf_same_trans [of "s\<lparr>triggered := x\<rparr>" s] by (auto simp: same_trans_def)
  show ?thesis unfolding in_phase_def w by (cases "phase_wait p k") (simp_all add: phase_defs animates_def waits_def)
qed

lemma show_phase:
  assumes "in_phase Hidden k own s" "modal_vetoes l"
  shows "\<exists>p k'. in_phase p k' own (modal_show l s) \<and> phase_step (animates s) (has_backdrop s) Hidden p
    \<and> (\<not> snd (l EvShow (s\<lparr>triggered := triggered s @ [EvShow]\<rparr>)) \<longrightarrow> p \<noteq> Hidden)"
proof -
  define s1 where "s1 = s\<lparr>triggered := triggered s @ [EvShow]\<rparr>"
  obtain prevented where l: "l EvShow s1 = (s1, prevented)" using assms(2) by (metis modal_vetoes_def prod.collapse)
  have h1: "in_phase Hidden k own s1" using assms(1) triggered_phase by (simp add: s1_def)
  then have ns: "\<not> isShown s1" by (simp add: in_phase_def looks_ok_def shown_phase_def)
  show ?thesis
  proof (cases prevented)
    case True
    then have "modal_show l s = s1" using l by (simp add: modal_show_def s1_def)
    with h1 True l show ?thesis by (auto intro: phase_step.stay simp: s1_def)
  next
    case False
    define s2 where "s2 = setScrollbar (checkScrollbar (s1\<lparr>isShown := True\<rparr>))"
    define s3 where "s3 = resize (escape (s2\<lparr>body_open := True\<rparr>))"
    define s4 where "s4 = s3\<lparr>dismiss_clicks := Suc (dismiss_clicks s3), mousedowns := Suc (mousedowns s3)\<rparr>"
    have m: "modal_show l s = backdrop ShowCb s4"
      using l False ns by (simp add: modal_show_def s1_def [symmetric] s2_def s3_def s4_def Let_def)
    have w: "trans_wf s4"
      using h1 wf_same_trans [of s1 s4] by (simp add: in_phase_def s4_def s3_def s2_def modal_defs Let_def same_trans_def)
    have b: "bound s4 = []" using h1 by (simp add: in_phase_def waits_def s4_def s3_def s2_def modal_defs Let_def)
    have o: "animates s4 = animates s" "has_backdrop s4 = has_backdrop s" "opt_keyboard s4 = opt_keyboard s" "isShown s4"
      by (simp_all add: s4_def s3_def s2_def s1_def modal_defs Let_def has_backdrop_def)
    have f: "focusin_bound s4 = False" "keydowns s4 = (if opt_keyboard s4 then 1 else 0)" "resizes s4 = 1" "dismiss_clicks s4 = 1"
      "mousedowns s4 = 1" "backdrop_clicks s4 = 0" "in_class s4 = False" "displayed s4 = False" "body_open s4"
      "m_backdrop s4 = None" "backdrops s4 = []" "originalBodyPad s4 = Some own"
      using h1 by (simp_all add: in_phase_def phase_defs s4_def s3_def s2_def modal_defs Let_def)
    show ?thesis
    proof (cases "has_backdrop s")
      case bd: True
      define n where "n = next_backdrop s4"
      define s5 where "s5 = s4\<lparr>m_backdrop := Some n, next_backdrop := Suc n, backdrop_clicks := 1, backdrops := [(n, True)]\<rparr>"
      have bk: "backdrop ShowCb s4 = (if animates s5 then await [MBackdrop n] (RunCb ShowCb) s5 else run_cb ShowCb s5)"
        using o bd f by (simp add: backdrop_def Let_def s5_def n_def set_in_def has_backdrop_def)
      have w5: "trans_wf s5" using w wf_same_trans [of s4 s5] by (simp add: s5_def same_trans_def)
      have f5: "bound s5 = []" "handlers_ok ShowingBackdrop s5" "looks_ok ShowingBackdrop n s5" "padding_ok ShowingBackdrop own s5"
        "animates s5 = animates s" "has_backdrop s5"
        using f o b bd by (simp_all add: s5_def phase_defs animates_def)
      show ?thesis
      proof (cases "animates s")
        case True
        have "in_phase ShowingBackdrop n own (await [MBackdrop n] (RunCb ShowCb) s5)"
          using f5 True await_wf [OF w5] waits_await [OF f5(1)] by (simp add: in_phase_def animates_def has_backdrop_def)
        with True f5(5) bd m bk phase_step.start_show [of True True] show ?thesis
          by (intro exI [of _ ShowingBackdrop] exI [of _ n]) simp
      next
        case an: False
        have "in_phase Shown n own (run_cb ShowCb s5)" using run_ShowCb_phase [OF w5 f5(1-4)] an f5(5) by simp
        with an f5(5) bd m bk phase_step.start_show [of False True] show ?thesis
          by (intro exI [of _ Shown] exI [of _ n]) simp
      qed
    next
      case nb: False
      have bk: "backdrop ShowCb s4 = run_cb ShowCb s4" using o nb by (simp add: backdrop_def has_backdrop_def)
      have g: "handlers_ok ShowingBackdrop s4" "looks_ok ShowingBackdrop k s4" "padding_ok ShowingBackdrop own s4"
        using f o nb by (simp_all add: phase_defs)
      have "in_phase (if animates s then ShowingDialog else Shown) k own (modal_show l s)"
        using run_ShowCb_phase [OF w b g] o(1) m bk by simp
      with nb phase_step.start_show [of "animates s" False] show ?thesis
        by (intro exI [of _ "if animates s then ShowingDialog else Shown"] exI [of _ k]) (cases "animates s"; simp)
    qed
  qed
qed

lemma hide_phase:
  assumes "in_phase Shown k own s" "modal_vetoes l"
  shows "\<exists>p. in_phase p k own (modal_hide l s) \<and> phase_step (animates s) (has_backdrop s) Shown p
    \<and> (\<not> snd (l EvHide (s\<lparr>triggered := triggered s @ [EvHide]\<rparr>)) \<longrightarrow> p \<noteq> Shown)"
proof -
  define s1 where "s1 = s\<lparr>triggered := triggered s @ [EvHide]\<rparr>"
  obtain prevented where l: "l EvHide s1 = (s1, prevented)" using assms(2) by (metis modal_vetoes_def prod.collapse)
  have h1: "in_phase Shown k own s1" using assms(1) triggered_phase by (simp add: s1_def)
  then have ns: "isShown s1" by (simp add: in_phase_def looks_ok_def shown_phase_def)
  show ?thesis
  proof (cases prevented)
    case True
    then have "modal_hide l s = s1" using l by (simp add: modal_hide_def s1_def)
    with h1 True l show ?thesis by (auto intro: phase_step.stay simp: s1_def)
  next
    case False
    define s2 where "s2 = resize (escape (s1\<lparr>isShown := False\<rparr>))"
    define s3 where "s3 = s2\<lparr>focusin_bound := False, in_class := False, dismiss_clicks := 0, backdrop_clicks := 0,
      mouseup_ones := 0, mousedowns := 0\<rparr>"
    have m: "modal_hide l s = (if animates s3 then await [MElement] HideModal s3 else hideModal s3)"
      using l False ns by (simp add: modal_hide_def s1_def [symmetric] s2_def s3_def Let_def)
    have w: "trans_wf s3"
      using h1 wf_same_trans [of s1 s3] by (simp add: in_phase_def s3_def s2_def modal_defs same_trans_def)
    have b: "bound s3 = []" using h1 by (simp add: in_phase_def waits_def s3_def s2_def modal_defs)
    have o: "animates s3 = animates s" "has_backdrop s3 = has_backdrop s"
      by (simp_all add: s3_def s2_def s1_def modal_defs has_backdrop_def)
    have f: "handlers_ok HidingElement s3" "looks_ok HidingElement k s3" "padding_ok HidingElement own s3"
      using h1 by (simp_all add: in_phase_def phase_defs s3_def s2_def modal_defs)
    show ?thesis
    proof (cases "animates s")
      case True
      have "in_phase HidingElement k own (await [MElement] HideModal s3)"
        using f b o True await_wf [OF w] waits_await [OF b] by (simp add: in_phase_def animates_def)
      with True o(1) m phase_step.start_hide [of True "has_backdrop s"] show ?thesis
        by (intro exI [of _ HidingElement]) simp
    next
      case an: False
      have "in_phase Hidden k own (hideModal s3)" using hideModal_phase [OF w b f(1,3,2)] an o(1) by simp
      with an o(1) m phase_step.start_hide [of False "has_backdrop s"] show ?thesis
        by (intro exI [of _ Hidden]) simp
    qed
  qed
qed

text \<open>Where the modal is not shown, hide changes nothing but triggers its event; where it is, show.\<close>

lemma hide_hidden:
  assumes "in_phase p k own s" "modal_vetoes l" "\<not> shown_phase p"
  shows "in_phase p k own (modal_hide l s)"
proof -
  define s1 where "s1 = s\<lparr>triggered := triggered s @ [EvHide]\<rparr>"
  obtain prevented where l: "l EvHide s1 = (s1, prevented)" using assms(2) by (metis modal_vetoes_def prod.collapse)
  have "\<not> isShown s1" using assms(1,3) by (simp add: s1_def in_phase_def looks_ok_def)
  then have "modal_hide l s = s1" using l by (simp add: modal_hide_def s1_def)
  with assms(1) triggered_phase show ?thesis by (simp add: s1_def)
qed

lemma show_shown:
  assumes "in_phase p k own s" "modal_vetoes l" "shown_phase p"
  shows "in_phase p k own (modal_show l s)"
proof -
  define s1 where "s1 = s\<lparr>triggered := triggered s @ [EvShow]\<rparr>"
  obtain prevented where l: "l EvShow s1 = (s1, prevented)" using assms(2) by (metis modal_vetoes_def prod.collapse)
  have "isShown s1" using assms(1,3) by (simp add: s1_def in_phase_def looks_ok_def)
  then have "modal_show l s = s1" using l by (simp add: modal_show_def s1_def)
  with assms(1) triggered_phase show ?thesis by (simp add: s1_def)
qed

section \<open>The ends of transitions\<close>

lemma waits_bound: "bound s' = bound s \<Longrightarrow> waits w s' = waits w s"
  by (simp add: waits_def split: option.split)

lemma filter_waits: "bound s = [(t, Run c), (t, SetCalled n)] \<Longrightarrow> bound (snd (transition_end t s)) = []"
  by (simp add: transition_end_def Let_def)

lemma end_other_phase:
  assumes "in_phase p k own s" "\<And>t' c. phase_wait p k = Some (t', c) \<Longrightarrow> t' \<noteq> t"
  shows "in_phase p k own (fire_end modal_run t s)"
proof -
  have b: "filter (\<lambda>h. fst h = t) (bound s) = []" "filter (\<lambda>h. fst h \<noteq> t) (bound s) = bound s"
    using assms by (auto simp: in_phase_def waits_def split: option.splits)
  have w: "trans_wf (snd (transition_end t s))" using assms(1) transition_end_wf [of s t] by (simp add: in_phase_def)
  have e: "fire_end modal_run t s = snd (transition_end t s)" using b by (simp add: fire_end_def transition_end_def Let_def)
  have "bound (snd (transition_end t s)) = bound s" using b by (simp add: transition_end_def Let_def)
  then have "waits (phase_wait p k) (snd (transition_end t s)) = waits (phase_wait p k) s" by (rule waits_bound)
  moreover have "handlers_ok p (snd (transition_end t s)) = handlers_ok p s" "looks_ok p k (snd (transition_end t s)) = looks_ok p k s"
    "padding_ok p own (snd (transition_end t s)) = padding_ok p own s" "animates (snd (transition_end t s)) = animates s"
    "has_backdrop (snd (transition_end t s)) = has_backdrop s"
    by (simp_all add: transition_end_def Let_def phase_defs animates_def)
  ultimately show ?thesis using assms(1) w by (simp add: e in_phase_def)
qed

lemma end_wait_phase:
  assumes "in_phase p k own s" "phase_wait p k = Some (t, c)"
  shows "\<exists>p'. in_phase p' k own (fire_end modal_run t s) \<and> phase_step (animates s) (has_backdrop s) p p' \<and> p' \<noteq> p"
proof -
  define s1 where "s1 = snd (transition_end t s)"
  obtain n where bn: "bound s = [(t, Run c), (t, SetCalled n)]" using assms by (auto simp: in_phase_def waits_def)
  have e: "fire_end modal_run t s = modal_run c s1" using bn by (simp add: fire_end_def transition_end_def Let_def s1_def)
  have w: "trans_wf s1" using assms(1) transition_end_wf [of s t] by (simp add: in_phase_def s1_def)
  have b: "bound s1 = []" using filter_waits [OF bn] by (simp add: s1_def)
  have f: "handlers_ok p s1" "looks_ok p k s1" "padding_ok p own s1" "animates s1 = animates s" "has_backdrop s1 = has_backdrop s"
    using assms(1) by (simp_all add: s1_def in_phase_def transition_end_def Let_def phase_defs animates_def)
  have an: "animates s" using assms by (cases p) (auto simp: in_phase_def)
  show ?thesis
  proof (cases p)
    case ShowingBackdrop
    with assms(2) have c: "c = RunCb ShowCb" by simp
    have "has_backdrop s" using assms(1) ShowingBackdrop by (simp add: in_phase_def)
    have "in_phase ShowingDialog k own (run_cb ShowCb s1)"
      using run_ShowCb_phase [OF w b] f an ShowingBackdrop by simp
    with c ShowingBackdrop phase_step.backdrop_in show ?thesis by (auto simp: e)
  next
    case ShowingDialog
    with assms(2) have c: "c = TriggerShown" by simp
    have "in_phase Shown k own s1" using f w b ShowingDialog by (simp add: in_phase_def waits_def phase_defs)
    with triggered_phase have "in_phase Shown k own (modal_run c s1)" by (simp add: c)
    with ShowingDialog phase_step.dialog_in show ?thesis by (auto simp: e)
  next
    case HidingElement
    with assms(2) have c: "c = HideModal" by simp
    from hideModal_phase [OF w b] f an HidingElement
    have "in_phase (if has_backdrop s then HidingBackdrop else Hidden) k own (modal_run c s1)" by (simp add: c)
    with HidingElement phase_step.element_out [of "animates s" "has_backdrop s"] show ?thesis
      by (intro exI [of _ "if has_backdrop s then HidingBackdrop else Hidden"]) (simp add: e)
  next
    case HidingBackdrop
    with assms(2) have c: "c = RemoveThen HiddenCb" by simp
    have "has_backdrop s" using assms(1) HidingBackdrop by (simp add: in_phase_def)
    with removeBackdrop_phase [OF w b] f HidingBackdrop have "in_phase Hidden k own (modal_run c s1)" by (simp add: c)
    with HidingBackdrop phase_step.backdrop_out show ?thesis by (auto simp: e)
  qed (use assms(2) in simp_all)
qed

lemma phase_wf: "in_phase p k own s \<Longrightarrow> trans_wf s"
  by (simp add: in_phase_def)

text \<open>The contract of the transitions: in a phase, whichever it is.\<close>

definition some_phase :: "int option \<Rightarrow> modal \<Rightarrow> bool" where
  "some_phase own s \<longleftrightarrow> (\<exists>p k. in_phase p k own s)"

lemma end_phase:
  assumes "in_phase p k own s"
  shows "\<exists>p'. in_phase p' k own (fire_end modal_run t s) \<and> phase_step (animates s) (has_backdrop s) p p'"
proof (cases "\<exists>c. phase_wait p k = Some (t, c)")
  case True
  with end_wait_phase [OF assms] show ?thesis by blast
next
  case False
  then have "in_phase p k own (fire_end modal_run t s)" by (intro end_other_phase [OF assms]) auto
  with phase_step.stay show ?thesis by blast
qed

lemma timers_phase:
  assumes "in_phase p k own s" "trans_wf (s\<lparr>timers := ts\<rparr>)"
  shows "in_phase p k own (s\<lparr>timers := ts\<rparr>)"
  using assms by (cases "phase_wait p k") (simp_all add: in_phase_def waits_def phase_defs animates_def)

lemma run_cb_called:
  "next_called s \<le> next_called (run_cb cb s) \<and> (n < next_called s \<longrightarrow> called (run_cb cb s) n = called s n)"
  by (cases cb) (auto simp: run_cb.simps modal_defs Let_def split: option.split)

lemma removeBackdrop_called [simp]: "called (removeBackdrop s) = called s" "next_called (removeBackdrop s) = next_called s"
  by (simp_all add: removeBackdrop_def split: option.split)

lemma backdrop_called:
  "next_called s \<le> next_called (backdrop cb s) \<and> (n < next_called s \<longrightarrow> called (backdrop cb s) n = called s n)"
proof -
  have r: "next_called s' \<le> next_called (run_cb cb s') \<and> (n < next_called s' \<longrightarrow> called (run_cb cb s') n = called s' n)" for s'
    by (rule run_cb_called)
  show ?thesis
    using r [of s] r [of "removeBackdrop (set_in (the (m_backdrop s)) False s)"]
      r [of "set_in (next_backdrop s) True (s\<lparr>m_backdrop := Some (next_backdrop s), backdrops := backdrops s @ [(next_backdrop s, False)],
        next_backdrop := Suc (next_backdrop s), backdrop_clicks := Suc (backdrop_clicks s)\<rparr>)"]
    by (cases "isShown s"; cases "m_backdrop s") (simp_all add: backdrop_def Let_def set_in_def)
qed

lemma modal_run_called:
  "next_called s \<le> next_called (modal_run c s) \<and> (n < next_called s \<longrightarrow> called (modal_run c s) n = called s n)"
proof (cases c)
  case (RunCb cb)
  with run_cb_called show ?thesis by simp
next
  case (RemoveThen cb)
  with run_cb_called [of "removeBackdrop s" cb n] show ?thesis by simp
next
  case HideModal
  with backdrop_called [of "s\<lparr>displayed := False\<rparr>" HiddenCb n] show ?thesis by (simp add: hideModal_def)
qed simp

interpretation mod: transition_client modal_run "some_phase own" for own
proof unfold_locales
  fix s :: modal and t n c
  show "some_phase own s \<Longrightarrow> trans_wf s" by (auto simp: some_phase_def in_phase_def)
  show "some_phase own s \<Longrightarrow> some_phase own (fire_end modal_run t s)" 
    unfolding some_phase_def using end_phase by blast
  show "some_phase own s \<Longrightarrow> called s n \<Longrightarrow> some_phase own (s\<lparr>timers := filter (\<lambda>x. fst x \<noteq> n) (timers s)\<rparr>)"
    unfolding some_phase_def using timers_phase timer_removed_wf [of s n] phase_wf by blast
  show "next_called s \<le> next_called (modal_run c s) \<and> (n < next_called s \<longrightarrow> called (modal_run c s) n = called s n)"
    by (rule modal_run_called)
qed

lemma timer_phase:
  assumes "in_phase p k own s"
  shows "\<exists>p'. in_phase p' k own (fire_timer modal_run n s) \<and> phase_step (animates s) (has_backdrop s) p p'"
proof (cases "map_of (timers s) n")
  case None
  with assms phase_step.stay show ?thesis by (auto simp: fire_timer_def)
next
  case (Some els)
  have ok: "some_phase own s" using assms by (auto simp: some_phase_def)
  have w: "trans_wf s" using assms by (simp add: in_phase_def)
  show ?thesis
  proof (cases "called s n")
    case True
    from timers_phase [OF assms timer_removed_wf [OF w True]]
    have "in_phase p k own (fire_timer modal_run n s)" using Some True by (simp add: fire_timer_def)
    with phase_step.stay show ?thesis by blast
  next
    case False
    obtain t where t: "els = [t]" "called (fire_end modal_run t s) n" by (rule mod.timer_called [OF ok Some False])
    obtain p' where p': "in_phase p' k own (fire_end modal_run t s)" "phase_step (animates s) (has_backdrop s) p p'"
      using end_phase [OF assms] by blast
    have "trans_wf (fire_end modal_run t s)" using p'(1) by (simp add: in_phase_def)
    from timers_phase [OF p'(1) timer_removed_wf [OF this t(2)]] p'(2) Some False t(1) show ?thesis
      by (auto simp: fire_timer_def Let_def)
  qed
qed

section \<open>The steps\<close>

text \<open>Inputs that may call show or hide.\<close>

fun may_call :: "modal_input \<Rightarrow> bool" where
  "may_call CallShow = True"
| "may_call CallHide = True"
| "may_call CallToggle = True"
| "may_call (Key n) = True"
| "may_call DismissClick = True"
| "may_call ElementClick = True"
| "may_call _ = False"

definition settled :: "phase \<Rightarrow> bool" where
  "settled p \<longleftrightarrow> p = Hidden \<or> p = Shown"

lemma phase_same:
  assumes "in_phase p k own s" "same_trans s s'" "handlers_ok p s'" "looks_ok p k s'" "padding_ok p own s'"
    "m_transition s' = m_transition s" "fade s' = fade s" "opt_backdrop s' = opt_backdrop s"
  shows "in_phase p k own s'"
proof -
  have "bound s' = bound s" using assms(2) by (simp add: same_trans_def)
  then have "waits (phase_wait p k) s' = waits (phase_wait p k) s" by (simp add: waits_def split: option.split)
  moreover have "trans_wf s'" using assms(1) wf_same_trans [OF assms(2)] by (simp add: in_phase_def)
  ultimately show ?thesis using assms by (simp add: in_phase_def animates_def has_backdrop_def)
qed

lemma hide_settled:
  assumes "in_phase p k own s" "modal_vetoes l" "settled p"
  shows "\<exists>p'. in_phase p' k own (modal_hide l s) \<and> phase_step (animates s) (has_backdrop s) p p'"
proof (cases "p = Shown")
  case True
  with hide_phase [of k own s l] assms show ?thesis by auto
next
  case False
  then have "\<not> shown_phase p" using assms(3) by (simp add: settled_def shown_phase_def)
  with hide_hidden [OF assms(1,2)] phase_step.stay show ?thesis by blast
qed

lemma show_settled:
  assumes "in_phase p k own s" "modal_vetoes l" "settled p"
  shows "\<exists>p' k'. in_phase p' k' own (modal_show l s) \<and> phase_step (animates s) (has_backdrop s) p p'"
proof (cases "p = Hidden")
  case True
  with show_phase [of k own s l] assms show ?thesis by blast
next
  case False
  then have "shown_phase p" using assms(3) by (simp add: settled_def shown_phase_def)
  with show_shown [OF assms(1,2)] phase_step.stay show ?thesis by blast
qed

lemma at_most_once: "m \<le> (1::nat) \<Longrightarrow> P s \<Longrightarrow> P (f s) \<Longrightarrow> P ((f ^^ m) s)"
  by (cases m) auto

lemma ignore_phase: "in_phase p k own s \<Longrightarrow> in_phase p k own (s\<lparr>ignoreBackdropClick := b\<rparr>)"
  by (rule phase_same) (simp_all add: same_trans_def in_phase_def phase_defs)

lemma mouseup_phase: "in_phase p k own s \<Longrightarrow> shown_phase p \<or> m = 0 \<Longrightarrow> in_phase p k own (s\<lparr>mouseup_ones := m\<rparr>)"
  by (rule phase_same) (auto simp add: same_trans_def in_phase_def phase_defs)

lemma adjust_phase: "in_phase p k own s \<Longrightarrow> shown_phase p \<Longrightarrow> in_phase p k own (adjustDialog s)"
  by (rule phase_same) (auto simp add: same_trans_def in_phase_def phase_defs adjustDialog_def)

lemma counts_le:
  assumes "in_phase p k own s"
  shows "keydowns s \<le> 1" "dismiss_clicks s \<le> 1" "backdrop_clicks s \<le> 1" "resizes s \<le> 1"
  using assms by (simp_all add: in_phase_def handlers_ok_def)

lemma click_phase:
  assumes "in_phase p k own s" "modal_vetoes l" "on_element \<longrightarrow> settled p"
  shows "\<exists>p'. in_phase p' k own (backdrop_click l on_element s)
    \<and> (if on_element then phase_step (animates s) (has_backdrop s) p p' else p' = p)"
proof -
  have i: "in_phase p k own (s\<lparr>ignoreBackdropClick := False\<rparr>)" by (rule ignore_phase [OF assms(1)])
  show ?thesis
  proof (cases on_element)
    case True
    then obtain p' where h: "in_phase p' k own (modal_hide l s)" "phase_step (animates s) (has_backdrop s) p p'"
      using hide_settled [OF assms(1,2)] assms(3) by blast
    have "backdrop_click l True s = s\<lparr>ignoreBackdropClick := False\<rparr> \<or> backdrop_click l True s = s
      \<or> backdrop_click l True s = modal_hide l s" by (simp add: backdrop_click_def)
    then show ?thesis using i h assms(1) phase_step.stay True by (elim disjE) auto
  next
    case False
    with i assms(1) show ?thesis by (simp add: backdrop_click_def)
  qed
qed

lemma modal_step_phase:
  assumes "in_phase p k own s" "modal_vetoes l" "may_call e \<longrightarrow> settled p"
  shows "\<exists>p' k'. in_phase p' k' own (modal_step l e s) \<and> phase_step (animates s) (has_backdrop s) p p'"
proof -
  let ?P = "\<lambda>s'. \<exists>p'. in_phase p' k own s' \<and> phase_step (animates s) (has_backdrop s) p p'"
  have stay: "?P s" using assms(1) phase_step.stay by blast
  note c = counts_le [OF assms(1)]
  have P: "\<exists>p' k'. in_phase p' k' own s' \<and> phase_step (animates s) (has_backdrop s) p p'" if "?P s'" for s'
    using that by blast
  show ?thesis
  proof (cases e)
    case CallShow
    with show_settled [OF assms(1,2)] assms(3) show ?thesis by simp
  next
    case CallHide
    with hide_settled [OF assms(1,2)] assms(3) show ?thesis by (intro P) simp
  next
    case CallToggle
    with show_settled [OF assms(1,2)] P [OF hide_settled [OF assms(1,2)]] assms(3) show ?thesis by (simp add: modal_toggle_def)
  next
    case (Key which)
    with hide_settled [OF assms(1,2)] assms(3) have "?P (modal_hide l s)" by simp
    with at_most_once [OF c(1), of ?P s "modal_hide l"] stay Key show ?thesis by (intro P) simp
  next
    case DismissClick
    with hide_settled [OF assms(1,2)] assms(3) have "?P (modal_hide l s)" by simp
    with at_most_once [OF c(2), of ?P s "modal_hide l"] stay have h: "?P ((modal_hide l ^^ dismiss_clicks s) s)" by blast
    then have "?P (backdrop_click l False ((modal_hide l ^^ dismiss_clicks s) s))"
      using click_phase [OF _ assms(2), of _ _ _ _ False] by fastforce
    with at_most_once [OF c(3), of ?P _ "backdrop_click l False"] h DismissClick show ?thesis by (intro P) simp
  next
    case ElementClick
    with click_phase [OF assms(1,2), of True] assms(3) have "?P (backdrop_click l True s)" by simp
    with at_most_once [OF c(3), of ?P s "backdrop_click l True"] stay ElementClick show ?thesis by (intro P) simp
  next
    case DialogMousedown
    have "shown_phase p \<or> mouseup_ones s + mousedowns s = 0" using assms(1) by (simp add: in_phase_def handlers_ok_def)
    from mouseup_phase [OF assms(1) this] DialogMousedown phase_step.stay show ?thesis by (intro P) auto
  next
    case (ElementMouseup b)
    have "in_phase p k own (s\<lparr>mouseup_ones := 0, ignoreBackdropClick := (b \<or> ignoreBackdropClick s)\<rparr>)"
      by (rule ignore_phase [OF mouseup_phase [OF assms(1)]]) simp
    then have "?P (modal_step l e s)" using ElementMouseup assms(1) phase_step.stay by (cases "mouseup_ones s = 0") auto
    then show ?thesis by (rule P)
  next
    case WindowResize
    have "?P ((adjustDialog ^^ resizes s) s)"
    proof (cases "shown_phase p")
      case True
      then show ?thesis using at_most_once [OF c(4), of ?P s adjustDialog] stay adjust_phase [OF assms(1)] phase_step.stay by blast
    next
      case False
      then have "resizes s = 0" using assms(1) by (simp add: in_phase_def handlers_ok_def)
      with stay show ?thesis by simp
    qed
    with WindowResize show ?thesis by (intro P) simp
  next
    case (Ends ev)
    with end_phase [OF assms(1)] timer_phase [OF assms(1)] show ?thesis by (intro P) (cases ev; simp)
  qed
qed

text \<open>The timer of a phase that is not settled takes it on.\<close>

inductive_simps from_backdrop_in: "phase_step a b ShowingBackdrop p"
inductive_simps from_dialog_in: "phase_step a b ShowingDialog p"
inductive_simps from_element_out: "phase_step a b HidingElement p"
inductive_simps from_backdrop_out: "phase_step a b HidingBackdrop p"
inductive_simps from_hidden: "phase_step a b Hidden p"
inductive_simps from_shown: "phase_step a b Shown p"

lemmas phase_step_from = from_backdrop_in from_dialog_in from_element_out from_backdrop_out from_hidden from_shown

lemma phase_timer:
  assumes "in_phase p k own s" "\<not> settled p"
  shows "\<exists>n p'. in_phase p' k own (fire_timer modal_run n s) \<and> phase_step (animates s) (has_backdrop s) p p' \<and> p' \<noteq> p"
proof -
  obtain t c where w: "phase_wait p k = Some (t, c)" using assms(2) by (cases p) (auto simp: settled_def)
  then obtain n where b: "bound s = [(t, Run c), (t, SetCalled n)]" using assms(1) by (auto simp: in_phase_def waits_def)
  have wf: "trans_wf s" using assms(1) by (rule phase_wf)
  have n: "(n, [t]) \<in> set (timers s)" "\<not> called s n" using wf_set_called [OF wf, of t n] b by simp_all
  then have m: "map_of (timers s) n = Some [t]" using map_of_eq_Some_iff [OF wf_distinct [OF wf]] by blast
  have ok: "some_phase own s" using assms(1) by (auto simp: some_phase_def)
  obtain p' where p': "in_phase p' k own (fire_end modal_run t s)" "phase_step (animates s) (has_backdrop s) p p'" "p' \<noteq> p"
    using end_wait_phase [OF assms(1) w] by blast
  obtain t' where t': "[t] = [t']" "called (fire_end modal_run t' s) n" by (rule mod.timer_called [OF ok m n(2)])
  have "in_phase p' k own (fire_timer modal_run n s)"
    using timers_phase [OF p'(1) timer_removed_wf [OF phase_wf [OF p'(1)]]] m n(2) t' by (simp add: fire_timer_def Let_def)
  with p' show ?thesis by blast
qed

definition goal_phase :: "phase \<Rightarrow> phase" where
  "goal_phase p = (if shown_phase p then Shown else Hidden)"

lemma phase_settles:
  assumes "in_phase p k own s"
  shows "\<exists>ns. length ns \<le> 2 \<and> in_phase (goal_phase p) k own (fold (fire_timer modal_run) ns s)"
proof -
  have late: "\<exists>n. in_phase (goal_phase q) k own (fire_timer modal_run n s')"
    if "in_phase q k own s'" "q = ShowingDialog \<or> q = HidingBackdrop" for q s'
    using phase_timer [OF that(1)] that(2) by (auto simp: settled_def phase_step_from goal_phase_def shown_phase_def)
  have early: "\<exists>ns. length ns \<le> 2 \<and> in_phase (goal_phase p) k own (fold (fire_timer modal_run) ns s)"
    if q: "in_phase q k own (fire_timer modal_run n s)" "q = ShowingDialog \<or> q = HidingBackdrop" "goal_phase q = goal_phase p" for n q
  proof -
    obtain m where "in_phase (goal_phase q) k own (fire_timer modal_run m (fire_timer modal_run n s))" using late [OF q(1,2)] by blast
    with q(3) show ?thesis by (intro exI [of _ "[n, m]"]) simp
  qed
  have once: "\<exists>ns. length ns \<le> 2 \<and> in_phase (goal_phase p) k own (fold (fire_timer modal_run) ns s)"
    if "in_phase (goal_phase p) k own (fire_timer modal_run n s)" for n
    using that by (intro exI [of _ "[n]"]) simp
  show ?thesis
  proof (cases "settled p")
    case True
    with assms have "in_phase (goal_phase p) k own s" by (auto simp: settled_def goal_phase_def shown_phase_def)
    then show ?thesis by (intro exI [of _ "[]"]) simp
  next
    case False
    from phase_timer [OF assms False] obtain n p' where n: "in_phase p' k own (fire_timer modal_run n s)"
      "phase_step (animates s) (has_backdrop s) p p'" "p' \<noteq> p" by blast
    then consider "p' = goal_phase p" | "p' = ShowingDialog \<or> p' = HidingBackdrop" "goal_phase p' = goal_phase p"
      using False by (cases p) (auto simp: phase_step_from settled_def goal_phase_def shown_phase_def split: if_splits)
    then show ?thesis using n(1) early once by cases auto
  qed
qed

lemma new_modal_phase: "in_phase Hidden 0 own (new_modal bd kb tr fd pov mov sbw pp own)"
proof -
  have "trans_wf (new_modal bd kb tr fd pov mov sbw pp own)" by (rule trans_wfI) (simp_all add: new_modal_def)
  then show ?thesis by (simp add: in_phase_def waits_def phase_defs new_modal_def)
qed

section \<open>Properties\<close>

text \<open>
  C14: A modal refines the machine of its six phases: a new one is hidden, and every call, handler, mouse or
  key event, end of a transition and timer takes the full state of a phase (classes, backdrop in the
  document, bound handlers, padding, pending callback) to that of the same phase or one the machine goes to,
  provided that show and hide are called in the settled phases only.
\<close>

theorem modal_refines_phases:
  assumes "in_phase p k own s" "modal_vetoes l" "may_call e \<longrightarrow> settled p"
  shows "in_phase Hidden 0 own (new_modal bd kb tr fd pov mov sbw pp own)
    \<and> (\<exists>p' k'. in_phase p' k' own (modal_step l e s) \<and> phase_step (animates s) (has_backdrop s) p p')"
  using new_modal_phase modal_step_phase [OF assms] by blast

definition no_veto :: modal_listener where
  "no_veto e s = (s, False)"

lemma no_veto_vetoes: "modal_vetoes no_veto"
  by (simp add: modal_vetoes_def no_veto_def)

theorem modal_refines_phases_witness:
  "\<exists>p k. in_phase p k None (modal_step no_veto CallShow (new_modal WithBackdrop True True True True False 17 3 None))
     \<and> phase_step True True Hidden p"
proof -
  let ?s = "new_modal WithBackdrop True True True True False 17 3 None"
  have "animates ?s" "has_backdrop ?s" by (simp_all add: animates_def has_backdrop_def new_modal_def)
  with modal_refines_phases [OF new_modal_phase [where bd = WithBackdrop and kb = True and tr = True and fd = True and pov = True
      and mov = False and sbw = 17 and pp = 3 and own = None] no_veto_vetoes, of CallShow]
  show ?thesis by (simp add: settled_def)
qed

text \<open>
  C38: Showing and hiding a modal restores everything: after show the timers alone, two at most, bring it to
  the phase Shown, after hide they bring it back to Hidden, where no backdrop and no handler is left, the
  body has lost its class and has the padding it had before.
\<close>

theorem modal_show_hide_restores:
  assumes "in_phase Hidden k own s" "modal_vetoes l" "\<And>e s. \<not> snd (l e s)"
  shows "\<exists>ns k' ms. length ns \<le> 2 \<and> length ms \<le> 2
    \<and> in_phase Shown k' own (fold (fire_timer modal_run) ns (modal_show l s))
    \<and> in_phase Hidden k' own (fold (fire_timer modal_run) ms (modal_hide l (fold (fire_timer modal_run) ns (modal_show l s))))"
proof -
  obtain p k' where p: "in_phase p k' own (modal_show l s)" "phase_step (animates s) (has_backdrop s) Hidden p" "p \<noteq> Hidden"
    using show_phase [OF assms(1,2)] assms(3) by blast
  then have "goal_phase p = Shown" by (auto simp: phase_step_from goal_phase_def shown_phase_def split: if_splits)
  with phase_settles [OF p(1)] obtain ns where ns: "length ns \<le> 2"
    "in_phase Shown k' own (fold (fire_timer modal_run) ns (modal_show l s))" by auto
  from hide_phase [OF ns(2) assms(2)] assms(3) obtain q a b where
    q: "in_phase q k' own (modal_hide l (fold (fire_timer modal_run) ns (modal_show l s)))" "phase_step a b Shown q" "q \<noteq> Shown"
    by blast
  then have "goal_phase q = Hidden" by (auto simp: phase_step_from goal_phase_def shown_phase_def split: if_splits)
  with phase_settles [OF q(1)] ns show ?thesis by metis
qed

theorem modal_show_hide_restores_witness:
  "\<exists>ns ms. body_padding (fold (fire_timer modal_run) ms (modal_hide no_veto (fold (fire_timer modal_run) ns
     (modal_show no_veto (new_modal WithBackdrop True True True True False 17 3 (Some 5)))))) = Some 5"
proof -
  have "\<not> snd (no_veto e s)" for e s by (simp add: no_veto_def)
  from modal_show_hide_restores [OF new_modal_phase [where bd = WithBackdrop and kb = True and tr = True and fd = True and pov = True
      and mov = False and sbw = 17 and pp = 3 and own = "Some 5"] no_veto_vetoes this]
  show ?thesis by (auto simp: in_phase_def padding_ok_def)
qed

text \<open>
  hide called before show has come to its end: the callback of show runs after hide has cleaned up. The
  modal ends hidden with its class in, and with the handler bound that takes the focus of the document to it.
\<close>

theorem hide_during_show_keeps_focus:
  "(let s = fold (modal_step no_veto) [CallShow, CallHide, Ends (TimerOf 0), Ends (TimerOf 1), Ends (TimerOf 2), Ends (TimerOf 3)]
        (new_modal WithBackdrop True True True False False 17 0 None) in
    triggered s = [EvShow, EvHide, EvShown, EvHidden] \<and> bound s = [] \<and> \<not> isShown s \<and> \<not> displayed s
    \<and> in_class s \<and> focusin_bound s)"
  by code_simp

text \<open>
  show called before hide has come to its end: the backdrop of the first show is forgotten and hideModal
  makes another. After the next hide two backdrops stay in the document, with no way left to remove them, and
  the body keeps the padding that was meant for the time the modal is shown.
\<close>

theorem show_during_hide_leaves_backdrops:
  "(let s = fold (modal_step no_veto) ([CallShow, Ends (TimerOf 0), Ends (TimerOf 1), CallHide, CallShow]
          @ map (\<lambda>n. Ends (TimerOf n)) [2..<6] @ [CallHide] @ map (\<lambda>n. Ends (TimerOf n)) [6..<8])
        (new_modal WithBackdrop True True True True False 17 3 None) in
    bound s = [] \<and> \<not> isShown s \<and> m_backdrop s = None \<and> backdrops s = [(0, True), (1, True)] \<and> body_padding s = Some 20)"
  by code_simp

end
