(* ===== verification/Bs_Collapse.thy ===== *)
theory Bs_Collapse
  imports Bs_Transition
begin

text \<open>
  The collapse plugin of bootstrap.js over the panels of one parent (an accordion) or without one. Panels
  are numbered; each has the classes of its element, the state of its trigger, and in its data an instance of
  the plugin. Instances are numbered too, for an instance may outlive its place in the data. Sizes are left
  out. The listeners of show and hide only prevent.
\<close>

section \<open>State\<close>

text \<open>The functions complete of show and hide: instance and panel.\<close>

datatype collapse_callback = ShownComplete nat nat | HiddenComplete nat nat

record accordion = "(nat, collapse_callback) trans" +
  n_panels :: nat
  with_parent :: bool                        \<comment> \<open>options.parent\<close>
  c_transition :: bool                       \<comment> \<open>$.support.transition\<close>
  pcls :: "nat \<Rightarrow> string set"
  expanded :: "nat \<Rightarrow> bool"                   \<comment> \<open>aria-expanded of the panel and of its trigger\<close>
  collapsed_trigger :: "nat \<Rightarrow> bool"          \<comment> \<open>the trigger has the class collapsed\<close>
  inst_of :: "nat \<Rightarrow> nat option"              \<comment> \<open>data('bs.collapse')\<close>
  transitioning :: "nat \<Rightarrow> bool"              \<comment> \<open>by instance\<close>
  next_inst :: nat

text \<open>Which panels' events the listeners prevent.\<close>

type_synonym veto = "nat \<Rightarrow> bool"

definition set_cls :: "nat \<Rightarrow> string set \<Rightarrow> string set \<Rightarrow> accordion \<Rightarrow> accordion" where
  "set_cls i del add s = s\<lparr>pcls := (pcls s)(i := (pcls s i - del) \<union> add)\<rparr>"

definition set_trigger :: "nat \<Rightarrow> bool \<Rightarrow> accordion \<Rightarrow> accordion" where
  "set_trigger i is_open s =
     s\<lparr>expanded := (expanded s)(i := is_open), collapsed_trigger := (collapsed_trigger s)(i := \<not> is_open)\<rparr>"

definition set_transitioning :: "nat \<Rightarrow> bool \<Rightarrow> accordion \<Rightarrow> accordion" where
  "set_transitioning d b s = s\<lparr>transitioning := (transitioning s)(d := b)\<rparr>"

section \<open>Operations\<close>

fun complete :: "collapse_callback \<Rightarrow> accordion \<Rightarrow> accordion" where
  "complete (ShownComplete d i) s = set_transitioning d False (set_cls i {''collapsing''} {''collapse'', ''in''} s)"
| "complete (HiddenComplete d i) s = set_cls i {''collapsing''} {''collapse''} (set_transitioning d False s)"

definition finish_with :: "nat \<Rightarrow> collapse_callback \<Rightarrow> accordion \<Rightarrow> accordion" where
  "finish_with i c s = (if c_transition s then await [i] c s else complete c s)"

definition coll_hide :: "veto \<Rightarrow> nat \<Rightarrow> nat \<Rightarrow> accordion \<Rightarrow> accordion" where
  "coll_hide veto_hide d i s =
     (if transitioning s d \<or> ''in'' \<notin> pcls s i then s
      else if veto_hide i then s
      else
        finish_with i (HiddenComplete d i)
          (set_transitioning d True (set_trigger i False (set_cls i {''collapse'', ''in''} {''collapsing''} s))))"

definition addAriaAndCollapsedClass :: "nat \<Rightarrow> accordion \<Rightarrow> accordion" where
  "addAriaAndCollapsedClass i s = set_trigger i (''in'' \<in> pcls s i) s"

text \<open>The constructor without its last line: with a parent it goes over the triggers of all panels.\<close>

definition new_instance :: "nat \<Rightarrow> accordion \<Rightarrow> nat \<times> accordion" where
  "new_instance i s =
     (let s1 = s\<lparr>next_inst := Suc (next_inst s), transitioning := (transitioning s)(next_inst s := False)\<rparr> in
      (next_inst s,
       if with_parent s then fold addAriaAndCollapsedClass [0..<n_panels s] s1 else addAriaAndCollapsedClass i s1))"

definition put_data :: "nat \<Rightarrow> nat option \<Rightarrow> accordion \<Rightarrow> accordion" where
  "put_data i d s = s\<lparr>inst_of := (inst_of s)(i := d)\<rparr>"

text \<open>Plugin.call with 'hide' or 'show': a new instance does not toggle.\<close>

definition get_instance :: "nat \<Rightarrow> accordion \<Rightarrow> nat \<times> accordion" where
  "get_instance i s =
     (case inst_of s i of
        Some d \<Rightarrow> (d, s)
      | None \<Rightarrow> (case new_instance i s of (d, s1) \<Rightarrow> (d, put_data i (Some d) s1)))"

definition plugin_hide :: "veto \<Rightarrow> nat \<Rightarrow> accordion \<Rightarrow> accordion" where
  "plugin_hide vh i s = (case get_instance i s of (d, s1) \<Rightarrow> coll_hide vh d i s1)"

definition active_panels :: "accordion \<Rightarrow> nat list" where
  "active_panels s =
     (if with_parent s then filter (\<lambda>j. ''in'' \<in> pcls s j \<or> ''collapsing'' \<in> pcls s j) [0..<n_panels s] else [])"

definition coll_show :: "veto \<Rightarrow> veto \<Rightarrow> nat \<Rightarrow> nat \<Rightarrow> accordion \<Rightarrow> accordion" where
  "coll_show veto_show veto_hide d i s =
     (if transitioning s d \<or> ''in'' \<in> pcls s i then s
      else
        (let actives = active_panels s;
             activesData = (case actives of [] \<Rightarrow> None | j # _ \<Rightarrow> inst_of s j) in
         if (case activesData of Some e \<Rightarrow> transitioning s e | None \<Rightarrow> False) then s
         else if veto_show i then s
         else
           (let s1 = fold (plugin_hide veto_hide) actives s;
                s2 = (if actives \<noteq> [] \<and> activesData = None then fold (\<lambda>j. put_data j None) actives s1 else s1);
                s3 = set_trigger i True (set_cls i {''collapse''} {''collapsing''} s2) in
            finish_with i (ShownComplete d i) (set_transitioning d True s3))))"

definition coll_toggle :: "veto \<Rightarrow> veto \<Rightarrow> nat \<Rightarrow> nat \<Rightarrow> accordion \<Rightarrow> accordion" where
  "coll_toggle vs vh d i s = (if ''in'' \<in> pcls s i then coll_hide vh d i s else coll_show vs vh d i s)"

definition plugin_show :: "veto \<Rightarrow> veto \<Rightarrow> nat \<Rightarrow> accordion \<Rightarrow> accordion" where
  "plugin_show vs vh i s = (case get_instance i s of (d, s1) \<Rightarrow> coll_show vs vh d i s1)"

text \<open>The constructor with options that toggle: the instance is put into the data when it is through.\<close>

definition construct_toggle :: "veto \<Rightarrow> veto \<Rightarrow> nat \<Rightarrow> accordion \<Rightarrow> accordion" where
  "construct_toggle vs vh i s = (case new_instance i s of (d, s1) \<Rightarrow> put_data i (Some d) (coll_toggle vs vh d i s1))"

text \<open>The click on a trigger: 'toggle' where there is an instance, the options of the trigger otherwise.\<close>

definition click_trigger :: "veto \<Rightarrow> veto \<Rightarrow> nat \<Rightarrow> accordion \<Rightarrow> accordion" where
  "click_trigger vs vh i s =
     (case inst_of s i of Some d \<Rightarrow> coll_toggle vs vh d i s | None \<Rightarrow> construct_toggle vs vh i s)"

text \<open>Plugin.call with 'toggle': a new instance toggles by its options, and then again.\<close>

definition plugin_toggle :: "veto \<Rightarrow> veto \<Rightarrow> nat \<Rightarrow> accordion \<Rightarrow> accordion" where
  "plugin_toggle vs vh i s =
     (let s1 = (if inst_of s i = None then construct_toggle vs vh i s else s) in
      case inst_of s1 i of Some d \<Rightarrow> coll_toggle vs vh d i s1 | None \<Rightarrow> s1)"

datatype panel_input = Click nat | CallShowPanel nat | CallHidePanel nat | CallTogglePanel nat | PanelEnds "nat tevent"

fun panel_step :: "veto \<Rightarrow> veto \<Rightarrow> panel_input \<Rightarrow> accordion \<Rightarrow> accordion" where
  "panel_step vs vh (Click i) s = (if i < n_panels s then click_trigger vs vh i s else s)"
| "panel_step vs vh (CallShowPanel i) s = (if i < n_panels s then plugin_show vs vh i s else s)"
| "panel_step vs vh (CallHidePanel i) s = (if i < n_panels s then plugin_hide vh i s else s)"
| "panel_step vs vh (CallTogglePanel i) s = (if i < n_panels s then plugin_toggle vs vh i s else s)"
| "panel_step vs vh (PanelEnds e) s = tevent_run complete e s"

text \<open>The panels as the page has them: those of a list open, nothing in the data.\<close>

definition new_accordion :: "nat \<Rightarrow> bool \<Rightarrow> bool \<Rightarrow> nat list \<Rightarrow> accordion" where
  "new_accordion n par tr opened =
     \<lparr>bound = [], timers = [], called = (\<lambda>_. False), next_called = 0, n_panels = n, with_parent = par, c_transition = tr,
      pcls = (\<lambda>i. if i \<in> set opened then {''collapse'', ''in''} else {''collapse''}),
      expanded = (\<lambda>i. i \<in> set opened), collapsed_trigger = (\<lambda>i. i \<notin> set opened), inst_of = (\<lambda>_. None),
      transitioning = (\<lambda>_. False), next_inst = 0\<rparr>"

section \<open>The invariant of an accordion\<close>

datatype pstate = Closed | Opening | Opened | Closing

definition up :: "pstate \<Rightarrow> bool" where
  "up k \<longleftrightarrow> k = Opening \<or> k = Opened"

definition moving :: "pstate \<Rightarrow> bool" where
  "moving k \<longleftrightarrow> k = Opening \<or> k = Closing"

fun pstate_cls :: "pstate \<Rightarrow> string set" where
  "pstate_cls Closed = {''collapse''}"
| "pstate_cls Opened = {''collapse'', ''in''}"
| "pstate_cls Opening = {''collapsing''}"
| "pstate_cls Closing = {''collapsing''}"

fun pstate_runs :: "nat \<Rightarrow> nat option \<Rightarrow> pstate \<Rightarrow> (nat \<times> collapse_callback one_handler) list" where
  "pstate_runs j (Some d) Opening = [(j, Run (ShownComplete d j))]"
| "pstate_runs j (Some d) Closing = [(j, Run (HiddenComplete d j))]"
| "pstate_runs j _ _ = []"

definition runs_at :: "nat \<Rightarrow> accordion \<Rightarrow> (nat \<times> collapse_callback one_handler) list" where
  "runs_at j s = filter (\<lambda>h. fst h = j) (runs s)"

definition panel_ok :: "accordion \<Rightarrow> nat \<Rightarrow> pstate \<Rightarrow> bool" where
  "panel_ok s j k \<longleftrightarrow> pcls s j = pstate_cls k \<and> runs_at j s = pstate_runs j (inst_of s j) k
     \<and> (k \<noteq> Closed \<longrightarrow> inst_of s j \<noteq> None) \<and> (moving k \<longrightarrow> c_transition s)
     \<and> (\<forall>d. inst_of s j = Some d \<longrightarrow> transitioning s d = moving k \<and> d < next_inst s)"

definition inst_inj :: "accordion \<Rightarrow> bool" where
  "inst_inj s \<longleftrightarrow> (\<forall>i j d. inst_of s i = Some d \<longrightarrow> inst_of s j = Some d \<longrightarrow> i = j)"

definition acc_ok :: "accordion \<Rightarrow> (nat \<Rightarrow> pstate) \<Rightarrow> bool" where
  "acc_ok s K \<longleftrightarrow> trans_wf s \<and> with_parent s \<and> inst_inj s \<and> (\<forall>j<n_panels s. panel_ok s j (K j))
     \<and> (\<forall>j\<ge>n_panels s. runs_at j s = [] \<and> inst_of s j = None)
     \<and> (\<forall>i<n_panels s. \<forall>j<n_panels s. up (K i) \<longrightarrow> up (K j) \<longrightarrow> i = j)"

text \<open>A change of one panel.\<close>

definition only_at :: "nat \<Rightarrow> accordion \<Rightarrow> accordion \<Rightarrow> bool" where
  "only_at i s s' \<longleftrightarrow> n_panels s' = n_panels s \<and> with_parent s' = with_parent s \<and> c_transition s' = c_transition s
     \<and> next_inst s \<le> next_inst s' \<and> (\<forall>j. j \<noteq> i \<longrightarrow> pcls s' j = pcls s j \<and> inst_of s' j = inst_of s j \<and> runs_at j s' = runs_at j s)
     \<and> (\<forall>d. inst_of s' i \<noteq> Some d \<longrightarrow> d < next_inst s \<longrightarrow> transitioning s' d = transitioning s d)"

lemma acc_ok_change:
  assumes "acc_ok s K" "only_at i s s'" "trans_wf s'" "inst_inj s'" "i < n_panels s" "panel_ok s' i k"
    "up k \<Longrightarrow> \<forall>j<n_panels s. j \<noteq> i \<longrightarrow> \<not> up (K j)"
  shows "acc_ok s' (K(i := k))"
proof -
  have n: "n_panels s' = n_panels s" and wp: "with_parent s'" using assms(1,2) by (simp_all add: only_at_def acc_ok_def)
  have "panel_ok s' j (K j)" if "j < n_panels s" "j \<noteq> i" for j
  proof -
    have p: "panel_ok s j (K j)" using assms(1) that(1) by (simp add: acc_ok_def)
    have "transitioning s' d = transitioning s d \<and> d < next_inst s'" if d: "inst_of s j = Some d" for d
    proof -
      have "inst_of s' j = Some d" using assms(2) \<open>j \<noteq> i\<close> d by (simp add: only_at_def)
      then have "inst_of s' i \<noteq> Some d" using assms(4) \<open>j \<noteq> i\<close> unfolding inst_inj_def by blast
      moreover have "d < next_inst s" using p d by (simp add: panel_ok_def)
      ultimately show ?thesis using assms(2) by (auto simp: only_at_def)
    qed
    with p assms(2) that(2) show ?thesis unfolding panel_ok_def only_at_def by auto
  qed
  then have a: "\<forall>j<n_panels s. panel_ok s' j ((K(i := k)) j)" using assms(6) by simp
  have b: "runs_at j s' = [] \<and> inst_of s' j = None" if "j \<ge> n_panels s" for j
    using assms(1,2,5) that by (simp add: acc_ok_def only_at_def)
  have c: "a = b" if "a < n_panels s" "b < n_panels s" "up ((K(i := k)) a)" "up ((K(i := k)) b)" for a b
  proof (cases "a = i \<or> b = i")
    case True
    with that assms(7) show ?thesis by (auto split: if_splits)
  next
    case False
    with that have "up (K a)" "up (K b)" by simp_all
    with assms(1) that(1,2) show ?thesis unfolding acc_ok_def by blast
  qed
  show ?thesis unfolding acc_ok_def n using assms(3,4) wp a by (intro conjI allI impI b c) simp_all
qed

lemma panel_of: "acc_ok s K \<Longrightarrow> j < n_panels s \<Longrightarrow> panel_ok s j (K j)"
  by (simp add: acc_ok_def)

lemma acc_wf: "acc_ok s K \<Longrightarrow> trans_wf s"
  by (simp add: acc_ok_def)

lemma in_cls: "''in'' \<in> pstate_cls k \<longleftrightarrow> k = Opened" "''collapsing'' \<in> pstate_cls k \<longleftrightarrow> moving k"
  by (cases k; simp add: moving_def)+

lemma runs_at_await [simp]: "runs_at j (await [t] c s) = runs_at j s @ (if j = t then [(t, Run c)] else [])"
  by (simp add: runs_at_def)

lemma await_acc [simp]:
  "n_panels (await ts c s) = n_panels s" "with_parent (await ts c s) = with_parent s" "c_transition (await ts c s) = c_transition s"
  "pcls (await ts c s) = pcls s" "inst_of (await ts c s) = inst_of s" "transitioning (await ts c s) = transitioning s"
  "next_inst (await ts c s) = next_inst s" "expanded (await ts c s) = expanded s"
  by (simp_all add: await_def emulateTransitionEnd_def bind_one_def Let_def)

lemmas acc_defs = set_cls_def set_trigger_def set_transitioning_def

lemma trans_wf_acc: "bound s' = bound s \<Longrightarrow> timers s' = timers s \<Longrightarrow> called s' = called s \<Longrightarrow> next_called s' = next_called s
    \<Longrightarrow> trans_wf s \<Longrightarrow> trans_wf s'"
  by (rule wf_same_trans) (simp_all add: same_trans_def)

text \<open>hide takes an open panel down.\<close>

definition down :: "accordion \<Rightarrow> pstate" where
  "down s = (if c_transition s then Closing else Closed)"

lemma coll_hide_ok:
  assumes "acc_ok s K" "i < n_panels s" "inst_of s i = Some d" and s'_def: "s' = coll_hide vh d i s"
  shows "acc_ok s' (if K i = Opened \<and> \<not> vh i then K(i := down s) else K) \<and> inst_of s' = inst_of s \<and> n_panels s' = n_panels s
    \<and> c_transition s' = c_transition s"
proof (cases "K i = Opened \<and> \<not> vh i")
  case False
  with panel_of [OF assms(1,2)] assms(3) have "s' = s"
    by (auto simp: s'_def coll_hide_def panel_ok_def in_cls)
  with assms(1) False show ?thesis by auto
next
  case True
  note p = panel_of [OF assms(1,2)]
  define s1 where "s1 = set_transitioning d True (set_trigger i False (set_cls i {''collapse'', ''in''} {''collapsing''} s))"
  have s': "s' = finish_with i (HiddenComplete d i) s1"
    using p True assms(3) by (simp add: s'_def coll_hide_def panel_ok_def in_cls moving_def s1_def)
  have w: "trans_wf s1" by (rule trans_wf_acc [OF _ _ _ _ acc_wf [OF assms(1)]]) (simp_all add: s1_def acc_defs)
  have inj: "inst_inj s" using assms(1) by (simp add: acc_ok_def)
  have r: "runs_at j s1 = runs_at j s" for j by (simp add: s1_def acc_defs runs_at_def runs_def)
  have e: "runs_at i s = []" "d < next_inst s" using p True assms(3) by (simp_all add: panel_ok_def)
  have "acc_ok s' (K(i := down s))"
  proof (cases "c_transition s")
    case tr: True
    then have f: "s' = await [i] (HiddenComplete d i) s1" using s' by (simp add: finish_with_def s1_def acc_defs)
    show ?thesis
    proof (rule acc_ok_change [OF assms(1) _ _ _ assms(2)])
      show "only_at i s s'" using assms(3) r by (auto simp: only_at_def f) (auto simp: s1_def acc_defs)
      show "trans_wf s'" unfolding f by (rule await_wf [OF w])
      show "inst_inj s'" using inj by (simp add: inst_inj_def f s1_def acc_defs)
      show "panel_ok s' i (down s)" using tr e r assms(3) p True
        by (simp add: panel_ok_def down_def f moving_def) (auto simp: s1_def acc_defs)
    qed (simp add: down_def up_def tr)
  next
    case False
    then have f: "s' = complete (HiddenComplete d i) s1" using s' by (simp add: finish_with_def s1_def acc_defs)
    show ?thesis
    proof (rule acc_ok_change [OF assms(1) _ _ _ assms(2)])
      show "only_at i s s'" using assms(3) by (auto simp: only_at_def f s1_def acc_defs runs_at_def runs_def)
      show "trans_wf s'" by (rule trans_wf_acc [OF _ _ _ _ w]) (simp_all add: f acc_defs)
      show "inst_inj s'" using inj by (simp add: inst_inj_def f s1_def acc_defs)
      show "panel_ok s' i (down s)" using False e assms(3) p True
        by (auto simp: panel_ok_def down_def f moving_def s1_def acc_defs runs_at_def runs_def)
    qed (simp add: down_def up_def False)
  qed
  moreover have "inst_of s' = inst_of s \<and> n_panels s' = n_panels s \<and> c_transition s' = c_transition s"
    by (simp add: s' finish_with_def s1_def acc_defs)
  ultimately show ?thesis using True by simp
qed

text \<open>The hides that show calls: every open panel of a list goes down, the others stay.\<close>

lemma hides_ok:
  assumes "acc_ok s K" "\<forall>j\<in>set xs. j < n_panels s \<and> inst_of s j \<noteq> None"
  shows "acc_ok (fold (plugin_hide (\<lambda>_. False)) xs s) (\<lambda>j. if j \<in> set xs \<and> K j = Opened then down s else K j)
    \<and> inst_of (fold (plugin_hide (\<lambda>_. False)) xs s) = inst_of s \<and> n_panels (fold (plugin_hide (\<lambda>_. False)) xs s) = n_panels s
    \<and> c_transition (fold (plugin_hide (\<lambda>_. False)) xs s) = c_transition s"
  using assms
proof (induction xs arbitrary: s K)
  case (Cons x xs)
  obtain d where d: "inst_of s x = Some d" and x: "x < n_panels s" using Cons.prems(2) by auto
  define s1 where "s1 = plugin_hide (\<lambda>_. False) x s"
  have "s1 = coll_hide (\<lambda>_. False) d x s" using d by (simp add: s1_def plugin_hide_def get_instance_def)
  from coll_hide_ok [OF Cons.prems(1) x d this]
  have s1: "acc_ok s1 (if K x = Opened then K(x := down s) else K)" "inst_of s1 = inst_of s" "n_panels s1 = n_panels s"
    "c_transition s1 = c_transition s" by simp_all
  have dn: "down s1 = down s" "down s \<noteq> Opened" using s1(4) by (simp_all add: down_def)
  have "\<forall>j\<in>set xs. j < n_panels s1 \<and> inst_of s1 j \<noteq> None" using Cons.prems(2) s1(2,3) by simp
  note IH = Cons.IH [OF s1(1) this, unfolded s1(2-4) dn(1)]
  have "(\<lambda>j. if j \<in> set xs \<and> (if K x = Opened then K(x := down s) else K) j = Opened then down s
        else (if K x = Opened then K(x := down s) else K) j)
      = (\<lambda>j. if j \<in> set (x # xs) \<and> K j = Opened then down s else K j)"
    using dn(2) by (auto simp: fun_eq_iff)
  from IH [unfolded this] show ?case by (simp only: fold_simps s1_def)
qed simp

lemma active_panels_iff:
  assumes "acc_ok s K"
  shows "j \<in> set (active_panels s) \<longleftrightarrow> j < n_panels s \<and> K j \<noteq> Closed"
proof (cases "j < n_panels s")
  case True
  have "with_parent s" using assms by (simp add: acc_ok_def)
  then have "j \<in> set (active_panels s) \<longleftrightarrow> ''in'' \<in> pstate_cls (K j) \<or> ''collapsing'' \<in> pstate_cls (K j)"
    using True panel_of [OF assms True] by (simp add: active_panels_def panel_ok_def)
  also have "\<dots> \<longleftrightarrow> K j \<noteq> Closed" by (cases "K j") simp_all
  finally show ?thesis using True by simp
qed (auto simp: active_panels_def)

lemma up_unique: "acc_ok s K \<Longrightarrow> i < n_panels s \<Longrightarrow> j < n_panels s \<Longrightarrow> up (K i) \<Longrightarrow> up (K j) \<Longrightarrow> i = j"
  unfolding acc_ok_def by blast

lemma down_not_up: "\<not> up (down s)" "down s \<noteq> Opened"
  by (simp_all add: down_def up_def)

text \<open>show takes a closed panel up, after the open one has gone down.\<close>

lemma coll_show_ok:
  assumes "acc_ok s K" "i < n_panels s" "inst_of s i = Some d" and s'_def: "s' = coll_show vs (\<lambda>_. False) d i s"
  shows "(\<exists>K'. acc_ok s' K') \<and> inst_of s' = inst_of s \<and> n_panels s' = n_panels s"
proof (cases "coll_show vs (\<lambda>_. False) d i s = s")
  case True
  with assms(1) show ?thesis by (auto simp: s'_def)
next
  case False
  define first_data where "first_data = (case active_panels s of [] \<Rightarrow> None | j # _ \<Rightarrow> inst_of s j)"
  note p = panel_of [OF assms(1,2)]
  define s1 where "s1 = fold (plugin_hide (\<lambda>_. False)) (active_panels s) s"
  define t2 where "t2 = (if active_panels s \<noteq> [] \<and> first_data = None then fold (\<lambda>j. put_data j None) (active_panels s) s1 else s1)"
  define t3 where "t3 = finish_with i (ShownComplete d i) (set_transitioning d True
      (set_trigger i True (set_cls i {''collapse''} {''collapsing''} t2)))"
  have sh: "coll_show vs (\<lambda>_. False) d i s =
     (if transitioning s d \<or> ''in'' \<in> pcls s i then s
      else if (case first_data of Some e \<Rightarrow> transitioning s e | None \<Rightarrow> False) then s else if vs i then s else t3)"
    by (simp only: coll_show_def Let_def first_data_def s1_def t2_def t3_def)
  have g: "\<not> transitioning s d" "''in'' \<notin> pcls s i" "\<not> (case first_data of Some e \<Rightarrow> transitioning s e | None \<Rightarrow> False)" "\<not> vs i"
    using False unfolding sh by presburger+
  have t: "s' = t3" using g unfolding s'_def sh by presburger
  have ki: "K i = Closed" using p g(1,2) assms(3) by (cases "K i") (simp_all add: panel_ok_def moving_def)
  have inst: "inst_of s j \<noteq> None" if "j \<in> set (active_panels s)" for j
    using that panel_of [OF assms(1)] by (auto simp: active_panels_iff [OF assms(1)] panel_ok_def)
  define K1 where "K1 = (\<lambda>j. if j \<in> set (active_panels s) \<and> K j = Opened then down s else K j)"
  have s1: "acc_ok s1 K1" "inst_of s1 = inst_of s" "n_panels s1 = n_panels s" "c_transition s1 = c_transition s"
  proof -
    have "\<forall>j\<in>set (active_panels s). j < n_panels s \<and> inst_of s j \<noteq> None" using inst active_panels_iff [OF assms(1)] by simp
    from hides_ok [OF assms(1) this]
    show "acc_ok s1 K1" "inst_of s1 = inst_of s" "n_panels s1 = n_panels s" "c_transition s1 = c_transition s"
      by (simp_all only: s1_def K1_def)
  qed
  have fd: "active_panels s \<noteq> [] \<Longrightarrow> first_data \<noteq> None"
    using inst by (cases "active_panels s") (simp_all add: first_data_def)
  define s2 where "s2 = set_transitioning d True (set_trigger i True (set_cls i {''collapse''} {''collapsing''} s1))"
  have s': "s' = finish_with i (ShownComplete d i) s2"
  proof -
    have "\<not> (active_panels s \<noteq> [] \<and> first_data = None)" using fd by blast
    then have "t2 = s1" unfolding t2_def by (rule if_not_P)
    then show ?thesis by (simp only: t t3_def s2_def)
  qed
  have nu: "\<not> up (K1 j)" if "j < n_panels s1" for j
  proof
    assume u: "up (K1 j)"
    have j: "j < n_panels s" using that s1(3) by simp
    have kj: "K j = Opening"
    proof (rule ccontr)
      assume no: "K j \<noteq> Opening"
      show False
      proof (cases "K j = Opened")
        case True
        then have "K1 j = down s" using j active_panels_iff [OF assms(1), of j] by (simp add: K1_def)
        with u down_not_up(1) show False by simp
      next
        case False
        then have "K1 j = K j" by (simp add: K1_def)
        with u no False show False by (simp add: up_def)
      qed
    qed
    then have "j \<in> set (active_panels s)" using j active_panels_iff [OF assms(1)] by simp
    then obtain j0 js where a: "active_panels s = j0 # js" by (cases "active_panels s") auto
    then have j0: "j0 < n_panels s" "K j0 \<noteq> Closed" "inst_of s j0 \<noteq> None"
      using active_panels_iff [OF assms(1), of j0] inst [of j0] by simp_all
    then obtain e0 where e0: "inst_of s j0 = Some e0" by blast
    then have "\<not> moving (K j0)" using g(3) a panel_of [OF assms(1) j0(1)] by (simp add: first_data_def panel_ok_def)
    then have "K j0 = Opened" using j0(2) by (cases "K j0") (simp_all add: moving_def)
    then have "j0 = j" using up_unique [OF assms(1) j0(1) j] kj by (simp add: up_def)
    with kj \<open>K j0 = Opened\<close> show False by simp
  qed
  have k1i: "K1 i = Closed" using ki by (simp add: K1_def)
  have i1: "i < n_panels s1" "inst_of s1 i = Some d" using assms(2,3) s1(2,3) by simp_all
  note p1 = panel_of [OF s1(1) i1(1)]
  have e: "runs_at i s1 = []" "d < next_inst s1" using p1 k1i i1(2) by (simp_all add: panel_ok_def)
  have w: "trans_wf s2" by (rule trans_wf_acc [OF _ _ _ _ acc_wf [OF s1(1)]]) (simp_all add: s2_def acc_defs)
  have inj: "inst_inj s1" using s1(1) by (simp add: acc_ok_def)
  have r: "runs_at j s2 = runs_at j s1" for j by (simp add: s2_def acc_defs runs_at_def runs_def)
  have "\<exists>k. acc_ok s' (K1(i := k))"
  proof (cases "c_transition s1")
    case tr: True
    then have f: "s' = await [i] (ShownComplete d i) s2" using s' by (simp add: finish_with_def s2_def acc_defs)
    have "acc_ok s' (K1(i := Opening))"
    proof (rule acc_ok_change [OF s1(1) _ _ _ i1(1)])
      show "only_at i s1 s'" using i1(2) r by (auto simp: only_at_def f) (auto simp: s2_def acc_defs)
      show "trans_wf s'" unfolding f by (rule await_wf [OF w])
      show "inst_inj s'" using inj by (simp add: inst_inj_def f s2_def acc_defs)
      show "panel_ok s' i Opening" using tr e r i1(2) p1 k1i
        by (simp add: panel_ok_def f moving_def) (auto simp: s2_def acc_defs)
    qed (use nu in blast)
    then show ?thesis by blast
  next
    case False
    then have f: "s' = complete (ShownComplete d i) s2" using s' by (simp add: finish_with_def s2_def acc_defs)
    have "acc_ok s' (K1(i := Opened))"
    proof (rule acc_ok_change [OF s1(1) _ _ _ i1(1)])
      show "only_at i s1 s'" using i1(2) by (auto simp: only_at_def f s2_def acc_defs runs_at_def runs_def)
      show "trans_wf s'" by (rule trans_wf_acc [OF _ _ _ _ w]) (simp_all add: f acc_defs)
      show "inst_inj s'" using inj by (simp add: inst_inj_def f s2_def acc_defs)
      show "panel_ok s' i Opened" using False e i1(2) p1 k1i
        by (auto simp: panel_ok_def f moving_def s2_def acc_defs runs_at_def runs_def)
    qed (use nu in blast)
    then show ?thesis by blast
  qed
  moreover have "inst_of s' = inst_of s \<and> n_panels s' = n_panels s"
    using s1(2,3) by (simp add: s' finish_with_def s2_def acc_defs)
  ultimately show ?thesis by blast
qed

section \<open>Instances\<close>

lemma aria_same: "same_trans s (addAriaAndCollapsedClass i s) \<and> n_panels (addAriaAndCollapsedClass i s) = n_panels s
    \<and> with_parent (addAriaAndCollapsedClass i s) = with_parent s \<and> c_transition (addAriaAndCollapsedClass i s) = c_transition s
    \<and> pcls (addAriaAndCollapsedClass i s) = pcls s \<and> inst_of (addAriaAndCollapsedClass i s) = inst_of s
    \<and> transitioning (addAriaAndCollapsedClass i s) = transitioning s \<and> next_inst (addAriaAndCollapsedClass i s) = next_inst s"
  by (simp add: addAriaAndCollapsedClass_def set_trigger_def same_trans_def)

lemma arias_same: "same_trans s (fold addAriaAndCollapsedClass xs s) \<and> n_panels (fold addAriaAndCollapsedClass xs s) = n_panels s
    \<and> with_parent (fold addAriaAndCollapsedClass xs s) = with_parent s \<and> c_transition (fold addAriaAndCollapsedClass xs s) = c_transition s
    \<and> pcls (fold addAriaAndCollapsedClass xs s) = pcls s \<and> inst_of (fold addAriaAndCollapsedClass xs s) = inst_of s
    \<and> transitioning (fold addAriaAndCollapsedClass xs s) = transitioning s \<and> next_inst (fold addAriaAndCollapsedClass xs s) = next_inst s"
proof (induction xs arbitrary: s)
  case (Cons x xs)
  from Cons.IH [of "addAriaAndCollapsedClass x s"] aria_same [of s x] show ?case by (simp add: same_trans_def)
qed (simp add: same_trans_def)

lemma new_instance_facts:
  assumes "new_instance i s = (d, s1)"
  shows "d = next_inst s" "same_trans s s1" "n_panels s1 = n_panels s" "with_parent s1 = with_parent s" "c_transition s1 = c_transition s"
    "pcls s1 = pcls s" "inst_of s1 = inst_of s" "transitioning s1 = (transitioning s)(d := False)" "next_inst s1 = Suc d"
proof -
  let ?s = "s\<lparr>next_inst := Suc (next_inst s), transitioning := (transitioning s)(next_inst s := False)\<rparr>"
  have s1: "d = next_inst s" "s1 = (if with_parent s then fold addAriaAndCollapsedClass [0..<n_panels s] ?s else addAriaAndCollapsedClass i ?s)"
    using assms by (simp_all add: new_instance_def Let_def)
  have "same_trans s ?s" by (simp add: same_trans_def)
  then have f: "same_trans s s1 \<and> n_panels s1 = n_panels s \<and> with_parent s1 = with_parent s \<and> c_transition s1 = c_transition s
    \<and> pcls s1 = pcls s \<and> inst_of s1 = inst_of s \<and> transitioning s1 = (transitioning s)(d := False) \<and> next_inst s1 = Suc d"
    using arias_same [of ?s "[0..<n_panels s]"] aria_same [of ?s i] unfolding s1 by (cases "with_parent s") (simp_all add: same_trans_def)
  show "d = next_inst s" by (rule s1(1))
  show "same_trans s s1" "n_panels s1 = n_panels s" "with_parent s1 = with_parent s" "c_transition s1 = c_transition s"
    "pcls s1 = pcls s" "inst_of s1 = inst_of s" "transitioning s1 = (transitioning s)(d := False)" "next_inst s1 = Suc d"
    using f by simp_all
qed

text \<open>A panel without an instance is closed; it stays so with a new one.\<close>

lemma no_inst_closed: "acc_ok s K \<Longrightarrow> i < n_panels s \<Longrightarrow> inst_of s i = None \<Longrightarrow> K i = Closed"
  using panel_of [of s K i] by (auto simp: panel_ok_def)

lemma put_new_ok:
  assumes "acc_ok s K" "i < n_panels s" "inst_of s i = None" "new_instance i s = (d, s1)"
  shows "acc_ok (put_data i (Some d) s1) K"
proof -
  note f = new_instance_facts [OF assms(4)]
  let ?s = "put_data i (Some d) s1"
  have k: "K i = Closed" by (rule no_inst_closed [OF assms(1-3)])
  have r: "runs_at j ?s = runs_at j s" for j using f(2) by (simp add: put_data_def runs_at_def runs_def same_trans_def)
  have less: "e < d" if "inst_of s j = Some e" for j e
  proof -
    have "j < n_panels s" using assms(1) that by (metis acc_ok_def not_le option.distinct(1))
    with panel_of [OF assms(1)] that f(1) show ?thesis by (simp add: panel_ok_def)
  qed
  have "acc_ok ?s (K(i := Closed))"
  proof (rule acc_ok_change [OF assms(1) _ _ _ assms(2)])
    show "only_at i s ?s" using f r by (auto simp: only_at_def put_data_def)
    have "trans_wf s1" using f(2) acc_wf [OF assms(1)] by (rule wf_same_trans)
    then show "trans_wf ?s" by (rule trans_wf_acc [rotated 4]) (simp_all add: put_data_def)
    have "inst_inj s" using assms(1) by (simp add: acc_ok_def)
    moreover have "inst_of s j \<noteq> Some d" for j using less [of j d] by blast
    ultimately show "inst_inj ?s" using f(7) unfolding inst_inj_def put_data_def by (auto split: if_splits)
    show "panel_ok ?s i Closed"
      using panel_of [OF assms(1,2)] k f r by (simp add: panel_ok_def put_data_def moving_def assms(3))
  qed (simp add: up_def)
  with k show ?thesis by (simp add: fun_upd_idem)
qed

lemma get_instance_ok:
  assumes "acc_ok s K" "i < n_panels s" "get_instance i s = (d, s1)"
  shows "acc_ok s1 K" "inst_of s1 i = Some d" "n_panels s1 = n_panels s"
proof -
  have "acc_ok s1 K \<and> inst_of s1 i = Some d \<and> n_panels s1 = n_panels s"
  proof (cases "inst_of s i")
    case (Some e)
    with assms show ?thesis by (simp add: get_instance_def)
  next
    case None
    obtain e s2 where n: "new_instance i s = (e, s2)" by (cases "new_instance i s")
    with None assms(3) have "d = e" "s1 = put_data i (Some d) s2" by (auto simp: get_instance_def)
    with put_new_ok [OF assms(1,2) None n] new_instance_facts [OF n] show ?thesis by (simp add: put_data_def)
  qed
  then show "acc_ok s1 K" "inst_of s1 i = Some d" "n_panels s1 = n_panels s" by simp_all
qed

section \<open>Steps\<close>

lemma toggle_ok:
  assumes "acc_ok s K" "i < n_panels s" "inst_of s i = Some d"
  shows "(\<exists>K'. acc_ok (coll_toggle vs (\<lambda>_. False) d i s) K') \<and> inst_of (coll_toggle vs (\<lambda>_. False) d i s) = inst_of s
    \<and> n_panels (coll_toggle vs (\<lambda>_. False) d i s) = n_panels s"
  using coll_hide_ok [OF assms refl, of "\<lambda>_. False"] coll_show_ok [OF assms refl, of vs] unfolding coll_toggle_def by (auto split: if_splits)

text \<open>The constructor toggles before its instance is in the data: on a closed panel that makes no difference.\<close>

lemma finish_put: "finish_with j c (put_data i x s) = put_data i x (finish_with j c s)"
  by (cases c) (simp_all add: finish_with_def put_data_def acc_defs await_def emulateTransitionEnd_def bind_one_def Let_def)

lemma hide_put: "coll_hide vh d j (put_data i x s) = put_data i x (coll_hide vh d j s)"
proof -
  have "set_transitioning d True (set_trigger j False (set_cls j A B (put_data i x s)))
      = put_data i x (set_transitioning d True (set_trigger j False (set_cls j A B s)))" for A B
    by (simp add: acc_defs put_data_def)
  moreover have "transitioning (put_data i x s) = transitioning s" "pcls (put_data i x s) = pcls s" by (simp_all add: put_data_def)
  ultimately show ?thesis by (simp add: coll_hide_def finish_put)
qed

lemma plugin_hide_put:
  assumes "inst_of s j \<noteq> None" "j \<noteq> i"
  shows "plugin_hide vh j (put_data i x s) = put_data i x (plugin_hide vh j s)"
proof -
  obtain d where "inst_of s j = Some d" using assms(1) by blast
  moreover from this have "inst_of (put_data i x s) j = Some d" using assms(2) by (simp add: put_data_def)
  ultimately show ?thesis using hide_put by (simp add: plugin_hide_def get_instance_def)
qed

lemma coll_hide_inst: "inst_of (coll_hide vh d j s) = inst_of s"
  by (simp add: coll_hide_def finish_with_def acc_defs)

lemma plugin_hide_inst: "inst_of s j \<noteq> None \<Longrightarrow> inst_of (plugin_hide vh j s) = inst_of s"
  using coll_hide_inst by (auto simp: plugin_hide_def get_instance_def)

lemma hides_put:
  assumes "\<forall>j\<in>set xs. inst_of s j \<noteq> None" "i \<notin> set xs"
  shows "fold (plugin_hide vh) xs (put_data i x s) = put_data i x (fold (plugin_hide vh) xs s)"
  using assms
proof (induction xs arbitrary: s)
  case (Cons j xs)
  have "plugin_hide vh j (put_data i x s) = put_data i x (plugin_hide vh j s)"
    using Cons.prems by (intro plugin_hide_put) auto
  with Cons.IH [of "plugin_hide vh j s"] Cons.prems plugin_hide_inst [of s j vh] show ?case by simp
qed simp

lemma coll_show_put:
  assumes "acc_ok s K" "i < n_panels s" "K i = Closed"
  shows "coll_show vs vh d i (put_data i x s) = put_data i x (coll_show vs vh d i s)"
proof -
  have a: "active_panels (put_data i x s) = active_panels s" by (simp add: active_panels_def put_data_def)
  have i: "i \<notin> set (active_panels s)" using assms(3) active_panels_iff [OF assms(1)] by simp
  have inst: "\<forall>j\<in>set (active_panels s). inst_of s j \<noteq> None"
    using active_panels_iff [OF assms(1)] no_inst_closed [OF assms(1)] by blast
  have ad: "(case active_panels s of [] \<Rightarrow> None | j # _ \<Rightarrow> inst_of (put_data i x s) j)
      = (case active_panels s of [] \<Rightarrow> None | j # _ \<Rightarrow> inst_of s j)"
    using i by (cases "active_panels s") (simp_all add: put_data_def)
  have nn: "\<not> (active_panels s \<noteq> [] \<and> (case active_panels s of [] \<Rightarrow> None | j # _ \<Rightarrow> inst_of s j) = None)"
    using inst by (cases "active_panels s") auto
  have u: "set_transitioning d True (set_trigger i True (set_cls i A B (put_data i x s')))
      = put_data i x (set_transitioning d True (set_trigger i True (set_cls i A B s')))" for A B s'
    by (simp add: acc_defs put_data_def)
  have q: "transitioning (put_data i x s) = transitioning s" "pcls (put_data i x s) = pcls s" by (simp_all add: put_data_def)
  show ?thesis
    unfolding coll_show_def Let_def a ad q hides_put [OF inst i] if_not_P [OF nn] u finish_put by (simp split: if_split)
qed

lemma construct_ok:
  assumes "acc_ok s K" "i < n_panels s" "inst_of s i = None"
  shows "\<exists>K'. acc_ok (construct_toggle vs (\<lambda>_. False) i s) K'"
    "\<exists>d. inst_of (construct_toggle vs (\<lambda>_. False) i s) i = Some d" "n_panels (construct_toggle vs (\<lambda>_. False) i s) = n_panels s"
proof -
  obtain d s1 where n: "new_instance i s = (d, s1)" by (cases "new_instance i s")
  note f = new_instance_facts [OF n]
  let ?s = "put_data i (Some d) s1"
  have k: "K i = Closed" by (rule no_inst_closed [OF assms])
  have ok: "acc_ok ?s K" by (rule put_new_ok [OF assms n])
  have i: "i < n_panels ?s" "inst_of ?s i = Some d" using assms(2) f(3) by (simp_all add: put_data_def)
  have "put_data i (inst_of s1 i) ?s = s1" by (simp add: put_data_def)
  then have s1: "put_data i None ?s = s1" using f(7) assms(3) by (simp add: put_data_def fun_upd_idem)
  have nin: "''in'' \<notin> pcls s1 i" using panel_of [OF assms(1,2)] k f(6) by (simp add: panel_ok_def)
  have "construct_toggle vs (\<lambda>_. False) i s = put_data i (Some d) (coll_show vs (\<lambda>_. False) d i (put_data i None ?s))"
    using n nin s1 by (simp add: construct_toggle_def coll_toggle_def)
  also have "\<dots> = put_data i (Some d) (put_data i None (coll_show vs (\<lambda>_. False) d i ?s))"
    by (simp only: coll_show_put [OF ok i(1) k])
  also have "\<dots> = put_data i (Some d) (coll_show vs (\<lambda>_. False) d i ?s)" by (simp add: put_data_def)
  also have "\<dots> = coll_show vs (\<lambda>_. False) d i ?s"
    using coll_show_ok [OF ok i refl, of vs] i(2) by (simp add: put_data_def fun_upd_idem)
  finally have c: "construct_toggle vs (\<lambda>_. False) i s = coll_show vs (\<lambda>_. False) d i ?s" .
  from coll_show_ok [OF ok i refl, of vs] i(2) f(3)
  show "\<exists>K'. acc_ok (construct_toggle vs (\<lambda>_. False) i s) K'"
    "\<exists>d. inst_of (construct_toggle vs (\<lambda>_. False) i s) i = Some d" "n_panels (construct_toggle vs (\<lambda>_. False) i s) = n_panels s"
    unfolding c by (simp_all add: put_data_def)
qed

text \<open>The end of a transition.\<close>

lemma complete_trans: "same_trans s (complete c s)"
  by (cases c) (simp_all add: acc_defs same_trans_def)

lemma acc_end_ok:
  assumes "acc_ok s K"
  shows "\<exists>K'. acc_ok (fire_end complete t s) K'"
proof -
  define s1 where "s1 = snd (transition_end t s)"
  have e: "fire_end complete t s = fold complete (callbacks (runs_at t s)) s1" by (simp add: fire_end_runs runs_at_def s1_def)
  have w: "trans_wf s1" unfolding s1_def by (rule transition_end_wf [OF acc_wf [OF assms]])
  have f: "n_panels s1 = n_panels s" "with_parent s1 = with_parent s" "c_transition s1 = c_transition s" "pcls s1 = pcls s"
    "inst_of s1 = inst_of s" "transitioning s1 = transitioning s" "next_inst s1 = next_inst s"
    by (simp_all add: s1_def transition_end_def Let_def)
  have r: "runs_at j s1 = (if j = t then [] else runs_at j s)" for j
    by (auto simp: runs_at_def s1_def intro: filter_cong)
  have inj: "inst_inj s" using assms by (simp add: acc_ok_def)
  show ?thesis
  proof (cases "t < n_panels s \<and> moving (K t)")
    case False
    have "runs_at t s = []"
    proof (cases "t < n_panels s")
      case True
      with False panel_of [OF assms True] show ?thesis by (cases "K t") (simp_all add: panel_ok_def moving_def)
    next
      case False
      with assms show ?thesis by (simp add: acc_ok_def)
    qed
    then have "runs_at j s1 = runs_at j s" for j using r by simp
    then have "panel_ok s1 j k = panel_ok s j k" for j k using f by (simp add: panel_ok_def)
    with assms w f \<open>\<And>j. runs_at j s1 = runs_at j s\<close> have "acc_ok s1 K" by (simp add: acc_ok_def inst_inj_def)
    with e \<open>runs_at t s = []\<close> show ?thesis by auto
  next
    case True
    note p = panel_of [OF assms conjunct1 [OF True]]
    obtain d where d: "inst_of s t = Some d" using p True by (auto simp: panel_ok_def moving_def)
    define k where "k = (if K t = Opening then Opened else Closed)"
    define c where "c = (if K t = Opening then ShownComplete d t else HiddenComplete d t)"
    have rt: "callbacks (runs_at t s) = [c]" using p True d by (auto simp: panel_ok_def moving_def c_def)
    have e: "fire_end complete t s = complete c s1" using e rt by simp
    have rr: "runs_at j (complete c s1) = runs_at j s1" for j
      using complete_trans [of s1 c] by (simp add: runs_at_def runs_def same_trans_def)
    have "acc_ok (complete c s1) (K(t := k))"
    proof (rule acc_ok_change [OF assms _ _ _ conjunct1 [OF True]])
      show "only_at t s (complete c s1)" using f r rr d by (auto simp: only_at_def c_def acc_defs)
      show "trans_wf (complete c s1)" by (rule wf_same_trans [OF complete_trans w])
      show "inst_inj (complete c s1)" using inj f by (auto simp: inst_inj_def c_def acc_defs)
      show "panel_ok (complete c s1) t k" using p True d f r rr
        by (auto simp: panel_ok_def k_def c_def moving_def acc_defs)
      show "\<forall>j<n_panels s. j \<noteq> t \<longrightarrow> \<not> up (K j)" if "up k"
      proof -
        have "up (K t)" using that True by (auto simp: k_def up_def moving_def split: if_splits)
        then show ?thesis using up_unique [OF assms _ conjunct1 [OF True]] by blast
      qed
    qed
    with e show ?thesis by auto
  qed
qed

interpretation acc: transition_client complete "\<lambda>s. \<exists>K. acc_ok s K"
proof unfold_locales
  fix s :: accordion and t n c
  show "\<exists>K. acc_ok s K \<Longrightarrow> trans_wf s" using acc_wf by blast
  show "\<exists>K. acc_ok s K \<Longrightarrow> \<exists>K. acc_ok (fire_end complete t s) K" using acc_end_ok by blast
  show "\<exists>K. acc_ok (s\<lparr>timers := filter (\<lambda>x. fst x \<noteq> n) (timers s)\<rparr>) K" if a: "\<exists>K. acc_ok s K" and b: "called s n"
  proof -
    obtain K where K: "acc_ok s K" using a by blast
    let ?s = "s\<lparr>timers := filter (\<lambda>x. fst x \<noteq> n) (timers s)\<rparr>"
    have "trans_wf ?s" by (rule timer_removed_wf [OF acc_wf [OF K] b])
    moreover have "panel_ok ?s j k = panel_ok s j k" "runs_at j ?s = runs_at j s" for j k
      by (simp_all add: panel_ok_def runs_at_def runs_def)
    ultimately have "acc_ok ?s K" using K by (simp add: acc_ok_def inst_inj_def)
    then show ?thesis by blast
  qed
  show "next_called s \<le> next_called (complete c s) \<and> (n < next_called s \<longrightarrow> called (complete c s) n = called s n)"
    using complete_trans [of s c] by (simp add: same_trans_def)
qed

lemma panel_step_ok:
  assumes "\<exists>K. acc_ok s K"
  shows "\<exists>K. acc_ok (panel_step vs (\<lambda>_. False) e s) K"
proof -
  obtain K where K: "acc_ok s K" using assms by blast
  have click: "\<exists>K. acc_ok (click_trigger vs (\<lambda>_. False) i s) K" if i: "i < n_panels s" for i
    using construct_ok(1) [OF K i, of vs] toggle_ok [OF K i, of _ vs] by (cases "inst_of s i") (auto simp: click_trigger_def)
  have get: "\<exists>K. acc_ok (f d s1) K"
    if "i < n_panels s" "get_instance i s = (d, s1)"
      "\<And>d s. acc_ok s K \<Longrightarrow> i < n_panels s \<Longrightarrow> inst_of s i = Some d \<Longrightarrow> \<exists>K. acc_ok (f d s) K" for f i d s1
    using get_instance_ok [OF K that(1,2)] that(1,3) by simp
  show ?thesis
  proof (cases e)
    case (Click i)
    with click K show ?thesis by auto
  next
    case (CallShowPanel i)
    have "\<exists>K. acc_ok (coll_show vs (\<lambda>_. False) d i s) K"
      if "acc_ok s K" "i < n_panels s" "inst_of s i = Some d" for d s
      using coll_show_ok [OF that refl] by blast
    with get [of i _ _ "\<lambda>d. coll_show vs (\<lambda>_. False) d i"] K CallShowPanel show ?thesis
      by (auto simp: plugin_show_def split: prod.split)
  next
    case (CallHidePanel i)
    have "\<exists>K. acc_ok (coll_hide (\<lambda>_. False) d i s) K"
      if "acc_ok s K" "i < n_panels s" "inst_of s i = Some d" for d s
      using coll_hide_ok [OF that refl] by blast
    with get [of i _ _ "\<lambda>d. coll_hide (\<lambda>_. False) d i"] K CallHidePanel show ?thesis
      by (auto simp: plugin_hide_def split: prod.split)
  next
    case (CallTogglePanel i)
    show ?thesis
    proof (cases "i < n_panels s")
      case i: True
      define s1 where "s1 = (if inst_of s i = None then construct_toggle vs (\<lambda>_. False) i s else s)"
      obtain K1 where k1: "acc_ok s1 K1" using K construct_ok(1) [OF K i, of vs] by (cases "inst_of s i") (auto simp: s1_def)
      obtain d where d: "inst_of s1 i = Some d" using construct_ok(2) [OF K i, of vs] by (cases "inst_of s i") (auto simp: s1_def)
      have n: "i < n_panels s1" using i construct_ok(3) [OF K i, of vs] by (simp add: s1_def)
      from toggle_ok [OF k1 n d, of vs] CallTogglePanel i d show ?thesis by (simp add: plugin_toggle_def s1_def [symmetric])
    next
      case False
      with CallTogglePanel K show ?thesis by auto
    qed
  next
    case (PanelEnds ev)
    with acc.ok_tevent [OF assms, of ev] show ?thesis by simp
  qed
qed

lemma new_accordion_ok: "acc_ok (new_accordion n True tr []) (\<lambda>_. Closed)"
proof -
  have "trans_wf (new_accordion n True tr [])" by (rule trans_wfI) (simp_all add: new_accordion_def)
  then show ?thesis
    by (simp add: acc_ok_def panel_ok_def new_accordion_def inst_inj_def up_def moving_def runs_at_def runs_def)
qed

text \<open>A run: every input comes with the panels whose show is prevented.\<close>

definition panel_run :: "(veto \<times> panel_input) list \<Rightarrow> accordion \<Rightarrow> accordion" where
  "panel_run es s = fold (\<lambda>(vs, e). panel_step vs (\<lambda>_. False) e) es s"

lemma panel_run_ok: "\<exists>K. acc_ok s K \<Longrightarrow> \<exists>K. acc_ok (panel_run es s) K"
proof (induction es arbitrary: s)
  case (Cons e es)
  obtain vs x where e: "e = (vs, x)" by (cases e)
  from Cons.IH [OF panel_step_ok [OF Cons.prems, of vs x]] show ?case by (simp add: panel_run_def e)
qed (simp add: panel_run_def)

text \<open>A panel is up when it is open or will be at the end of its transition.\<close>

fun is_showing :: "nat \<Rightarrow> nat \<times> collapse_callback one_handler \<Rightarrow> bool" where
  "is_showing j (t, Run (ShownComplete d i)) = (t = j)"
| "is_showing j _ = False"

definition panel_up :: "accordion \<Rightarrow> nat \<Rightarrow> bool" where
  "panel_up s j \<longleftrightarrow> ''in'' \<in> pcls s j \<or> list_ex (is_showing j) (bound s)"

lemma is_showing_run: "is_showing j h \<Longrightarrow> is_run h \<and> fst h = j"
  by (induction j h rule: is_showing.induct) simp_all

lemma panel_up_iff:
  assumes "acc_ok s K" "j < n_panels s"
  shows "panel_up s j \<longleftrightarrow> up (K j)"
proof -
  note p = panel_of [OF assms]
  have "list_ex (is_showing j) (bound s) \<longleftrightarrow> list_ex (is_showing j) (runs_at j s)"
    unfolding runs_at_def runs_def list_ex_iff set_filter using is_showing_run by blast
  moreover have "''in'' \<in> pcls s j \<longleftrightarrow> K j = Opened" using p by (simp add: panel_ok_def in_cls)
  moreover have "list_ex (is_showing j) (runs_at j s) \<longleftrightarrow> K j = Opening"
    using p by (cases "inst_of s j"; cases "K j") (auto simp: panel_ok_def)
  ultimately show ?thesis by (auto simp: panel_up_def up_def)
qed

section \<open>Properties\<close>



text \<open>
  A panel that is open in the page gets its first instance when another one is shown, and show takes that
  instance out of the data again while its transition runs. Clicking the closing panel then makes a fresh
  instance, which does not know of the transition, and both panels of the accordion end open.
\<close>

theorem accordion_two_open:
  "(let s = panel_run [(\<lambda>_. False, Click 1), (\<lambda>_. False, Click 0), (\<lambda>_. False, PanelEnds (TimerOf 0)),
        (\<lambda>_. False, PanelEnds (TimerOf 1)), (\<lambda>_. False, PanelEnds (TimerOf 2))] (new_accordion 2 True True [0]) in
    bound s = [] \<and> ''in'' \<in> pcls s 0 \<and> ''in'' \<in> pcls s 1)"
  by code_simp

text \<open>
  The constructor of an accordion's panel sets aria-expanded and the class of the trigger for all panels
  by their class in, which a panel on its way up does not have: clicking a second panel during the first
  one's transition leaves the first open with aria-expanded false and a trigger marked collapsed.
\<close>

theorem accordion_aria_lies:
  "(let s = panel_run [(\<lambda>_. False, Click 0), (\<lambda>_. False, Click 1), (\<lambda>_. False, PanelEnds (TimerOf 0))] (new_accordion 2 True True []) in
    bound s = [] \<and> ''in'' \<in> pcls s 0 \<and> \<not> expanded s 0 \<and> collapsed_trigger s 0)"
  by code_simp

end
