(* ===== verification/Bs_Menus.thy ===== *)
theory Bs_Menus
  imports Js_Prelude
begin

text \<open>
  Two plugins of bootstrap.js that keep a menu in step with the page: scrollspy, which marks the link to
  the section that is scrolled to, and dropdown, with its keyboard. What the page measures is a record that
  every event brings along.
\<close>

section \<open>Scrollspy\<close>

text \<open>
  The sections of the page in the order of their links: the offset of a visible target and its name. Null and
  undefined are both None: they are equal for the tests of the code.
\<close>

record page =
  scrollTop :: int
  pageHeight :: int          \<comment> \<open>getScrollHeight()\<close>
  viewHeight :: int
  sections :: "(int \<times> string) list"

record spy =
  spy_offset :: int          \<comment> \<open>options.offset\<close>
  offsets :: "int list"
  targets :: "string list"
  activeTarget :: "string option"
  scrollHeight :: int
  marked :: "string option"  \<comment> \<open>the target whose link has the class active\<close>

definition refresh :: "page \<Rightarrow> spy \<Rightarrow> spy" where
  "refresh p s =
     (let found = sort_key fst (sections p) in
      s\<lparr>offsets := map fst found, targets := map snd found, scrollHeight := pageHeight p\<rparr>)"

definition spy_clear :: "spy \<Rightarrow> spy" where
  "spy_clear s = s\<lparr>marked := None\<rparr>"

definition activate :: "string option \<Rightarrow> spy \<Rightarrow> spy" where
  "activate t s = (spy_clear (s\<lparr>activeTarget := t\<rparr>))\<lparr>marked := t\<rparr>"

text \<open>The loop from the last index down; \<open>offs\<close>, \<open>tgts\<close> and \<open>active\<close> are the variables read before it.\<close>

definition spy_here :: "int \<Rightarrow> int list \<Rightarrow> nat \<Rightarrow> bool" where
  "spy_here ypos offs i \<longleftrightarrow> ypos \<ge> offs ! i \<and> (i + 1 \<ge> length offs \<or> ypos < offs ! (i + 1))"

fun spy_loop :: "nat \<Rightarrow> int \<Rightarrow> int list \<Rightarrow> string list \<Rightarrow> string option \<Rightarrow> spy \<Rightarrow> spy" where
  "spy_loop 0 ypos offs tgts active s = s"
| "spy_loop (Suc i) ypos offs tgts active s =
     spy_loop i ypos offs tgts active
       (if active \<noteq> Some (tgts ! i) \<and> spy_here ypos offs i then activate (Some (tgts ! i)) s else s)"

definition process :: "page \<Rightarrow> spy \<Rightarrow> spy" where
  "process p s =
     (let ypos = scrollTop p + spy_offset s;
          maxScroll = spy_offset s + pageHeight p - viewHeight p;
          offs = offsets s; tgts = targets s; active = activeTarget s;
          s1 = (if scrollHeight s \<noteq> pageHeight p then refresh p s else s) in
      if ypos \<ge> maxScroll then
        (let i = (if tgts = [] then None else Some (last tgts)) in if active \<noteq> i then activate i s1 else s1)
      else if active \<noteq> None \<and> offs \<noteq> [] \<and> ypos < hd offs then spy_clear (s1\<lparr>activeTarget := None\<rparr>)
      else spy_loop (length offs) ypos offs tgts active s1)"

definition new_spy :: "int \<Rightarrow> page \<Rightarrow> spy" where
  "new_spy off p =
     process p (refresh p \<lparr>spy_offset = off, offsets = [], targets = [], activeTarget = None, scrollHeight = 0, marked = None\<rparr>)"

section \<open>Dropdown\<close>

text \<open>Every toggle with its parent: whether that has the class open, and whether the toggle is disabled.\<close>

record menu =
  opened :: bool
  menu_disabled :: bool
  aria_expanded :: bool

text \<open>
  clearMenus closes the menus in their order. A click into an input inside a menu leaves that menu open, but
  the variable of the event is overwritten when the event of a menu is triggered: later menus are compared
  with that event, which is no click. \<open>inside\<close>: the menu whose input is clicked, while the event is the click.
\<close>

fun clear_menus :: "(nat \<Rightarrow> bool) \<Rightarrow> nat option \<Rightarrow> nat \<Rightarrow> menu list \<Rightarrow> menu list" where
  "clear_menus veto_hide inside i [] = []"
| "clear_menus veto_hide inside i (m # ms) =
     (if \<not> opened m then m # clear_menus veto_hide inside (Suc i) ms
      else if inside = Some i then m # clear_menus veto_hide inside (Suc i) ms
      else if veto_hide i then m # clear_menus veto_hide None (Suc i) ms
      else m\<lparr>aria_expanded := False, opened := False\<rparr> # clear_menus veto_hide None (Suc i) ms)"

text \<open>The listener of clicks on the document; the right button does nothing.\<close>

definition clearMenus :: "(nat \<Rightarrow> bool) \<Rightarrow> nat \<Rightarrow> nat option \<Rightarrow> menu list \<Rightarrow> menu list" where
  "clearMenus veto_hide which inside ms = (if which = 3 then ms else clear_menus veto_hide inside 0 ms)"

definition menu_toggle :: "(nat \<Rightarrow> bool) \<Rightarrow> (nat \<Rightarrow> bool) \<Rightarrow> nat \<Rightarrow> menu list \<Rightarrow> menu list" where
  "menu_toggle veto_show veto_hide i ms =
     (if menu_disabled (ms ! i) then ms
      else
        (let isActive = opened (ms ! i);
             ms1 = clear_menus veto_hide None 0 ms in
         if isActive then ms1
         else if veto_show i then ms1
         else ms1[i := (ms1 ! i)\<lparr>aria_expanded := True, opened := \<not> opened (ms1 ! i)\<rparr>]))"

text \<open>The keys 38, 40, 27 and 32: a click on the toggle, the index of the item to focus, or nothing.\<close>

datatype key_action = NoAction | ClickToggle | FocusItem int

text \<open>The expression of the keys is not anchored: it finds the digits anywhere in the number.\<close>

definition is_menu_key :: "nat \<Rightarrow> bool" where
  "is_menu_key which \<longleftrightarrow> list_ex (\<lambda>k. index_of_str (nat_str which) k > -1) [''38'', ''40'', ''27'', ''32'']"

definition menu_keydown :: "nat \<Rightarrow> bool \<Rightarrow> bool \<Rightarrow> bool \<Rightarrow> nat \<Rightarrow> int \<Rightarrow> key_action" where
  "menu_keydown which in_input is_disabled isActive n_items index =
     (if \<not> is_menu_key which \<or> in_input then NoAction
      else if is_disabled then NoAction
      else if (\<not> isActive \<and> which \<noteq> 27) \<or> (isActive \<and> which = 27) then ClickToggle
      else if n_items = 0 then NoAction
      else
        (let i1 = (if which = 38 \<and> index > 0 then index - 1 else index);
             i2 = (if which = 40 \<and> i1 < int n_items - 1 then i1 + 1 else i1);
             i3 = (if i2 = -1 then 0 else i2) in
         FocusItem i3))"

text \<open>The key 138 counts as a key of the menus: it opens a closed menu and takes the focus in an open one.\<close>

lemma unanchored_menu_key:
  "is_menu_key 138" "menu_keydown 138 False False False 4 0 = ClickToggle" "menu_keydown 138 False False True 4 2 = FocusItem 2"
  by code_simp+

section \<open>The section that is scrolled to\<close>

text \<open>The last section at or above a position; at the end of the page the last section of all.\<close>

definition section_at :: "page \<Rightarrow> int \<Rightarrow> string option" where
  "section_at p off =
     (let found = sort_key fst (sections p);
          passed = filter (\<lambda>x. fst x \<le> scrollTop p + off) found in
      if scrollTop p \<ge> pageHeight p - viewHeight p then (if found = [] then None else Some (snd (last found)))
      else if passed = [] then None else Some (snd (last passed)))"

definition spy_fresh :: "page \<Rightarrow> spy \<Rightarrow> bool" where
  "spy_fresh p s \<longleftrightarrow> offsets s = map fst (sort_key fst (sections p)) \<and> targets s = map snd (sort_key fst (sections p))
     \<and> scrollHeight s = pageHeight p \<and> marked s = activeTarget s"

lemma sorted_filter_le:
  assumes "sorted (map fst xs)"
  shows "filter (\<lambda>x. fst x \<le> (t::int)) xs = take (length (filter (\<lambda>x. fst x \<le> t) xs)) xs"
  using assms
proof (induction xs)
  case (Cons x xs)
  show ?case
  proof (cases "fst x \<le> t")
    case True
    with Cons show ?thesis by simp
  next
    case False
    with Cons.prems have "filter (\<lambda>x. fst x \<le> t) xs = []" by (auto simp: filter_empty_conv)
    with False show ?thesis by simp
  qed
qed simp

text \<open>Exactly the index of the last section above the position passes the test of the loop.\<close>

lemma spy_here_iff:
  assumes "sorted (map fst xs)" "i < length xs" and k_def: "k = length (filter (\<lambda>x. fst x \<le> t) xs)"
  shows "spy_here t (map fst xs) i \<longleftrightarrow> k = Suc i"
proof -
  have le: "k \<le> length xs" by (simp add: k_def)
  have below: "fst (xs ! j) \<le> t \<longleftrightarrow> j < k" if j: "j < length xs" for j
  proof
    assume "j < k"
    have f: "filter (\<lambda>x. fst x \<le> t) xs = take k xs" using sorted_filter_le [OF assms(1)] by (simp add: k_def)
    have "xs ! j \<in> set (take k xs)" using \<open>j < k\<close> j le by (auto simp: in_set_conv_nth)
    then show "fst (xs ! j) \<le> t" unfolding f [symmetric] by simp
  next
    assume a: "fst (xs ! j) \<le> t"
    show "j < k"
    proof (rule ccontr)
      assume "\<not> j < k"
      have f: "filter (\<lambda>x. fst x \<le> t) xs = take k xs" using sorted_filter_le [OF assms(1)] by (simp add: k_def)
      have "fst (xs ! m) \<le> t" if "m \<le> j" for m
        using sorted_nth_mono [OF assms(1), of m j] that j a by simp
      then have "filter (\<lambda>x. fst x \<le> t) (take (Suc j) xs) = take (Suc j) xs"
        using j by (intro filter_True) (metis (no_types, lifting) in_set_conv_nth length_take less_Suc_eq_le min_less_iff_conj nth_take)
      moreover have "length (filter (\<lambda>x. fst x \<le> t) (take (Suc j) xs)) \<le> length (filter (\<lambda>x. fst x \<le> t) xs)"
        by (metis append_take_drop_id filter_append length_append le_add1)
      ultimately show False using \<open>\<not> j < k\<close> j by (simp add: k_def)
    qed
  qed
  show ?thesis
  proof (cases "Suc i < length xs")
    case True
    with below [of i] below [of "Suc i"] assms(2) show ?thesis by (auto simp: spy_here_def)
  next
    case False
    with below [of i] assms(2) le show ?thesis by (auto simp: spy_here_def)
  qed
qed

lemma spy_loop_none:
  "(\<And>i. i < n \<Longrightarrow> \<not> (active \<noteq> Some (tgts ! i) \<and> spy_here ypos offs i)) \<Longrightarrow> spy_loop n ypos offs tgts active s = s"
proof (induction n arbitrary: s)
  case (Suc n)
  have "spy_loop n ypos offs tgts active s = s" using Suc by simp
  moreover have "\<not> (active \<noteq> Some (tgts ! n) \<and> spy_here ypos offs n)" using Suc.prems [of n] by blast
  ultimately show ?case by (simp only: spy_loop.simps if_False)
qed simp

lemma spy_loop_one:
  assumes "j < n" "spy_here ypos offs j" "\<And>i. i < n \<Longrightarrow> spy_here ypos offs i \<Longrightarrow> i = j"
  shows "spy_loop n ypos offs tgts active s = (if active \<noteq> Some (tgts ! j) then activate (Some (tgts ! j)) s else s)"
  using assms
proof (induction n arbitrary: s)
  case (Suc n)
  show ?case
  proof (cases "j = n")
    case True
    then have "\<not> spy_here ypos offs i" if "i < n" for i using Suc.prems(3) [of i] that by auto
    then have "spy_loop n ypos offs tgts active s' = s'" for s' by (intro spy_loop_none) blast
    with True Suc.prems(2) show ?thesis by simp
  next
    case False
    then have "j < n" "\<not> spy_here ypos offs n" using Suc.prems(1) Suc.prems(3) [of n] by auto
    with Suc.IH [OF this(1) Suc.prems(2)] Suc.prems(3) show ?thesis by simp
  qed
qed simp

text \<open>The page scrolls: every position is one event of scroll.\<close>

definition spy_scrolls :: "page \<Rightarrow> int list \<Rightarrow> spy \<Rightarrow> spy" where
  "spy_scrolls p ys s = foldl (\<lambda>s y. process (p\<lparr>scrollTop := y\<rparr>) s) s ys"

definition spy_right :: "page \<Rightarrow> int \<Rightarrow> spy \<Rightarrow> bool" where
  "spy_right p off s \<longleftrightarrow> spy_fresh p s \<and> spy_offset s = off \<and> activeTarget s = section_at p off"

lemma spy_fresh_scroll [simp]: "spy_fresh (p\<lparr>scrollTop := y\<rparr>) s = spy_fresh p s"
  by (simp add: spy_fresh_def)

lemma spy_fresh_refresh: "marked s = activeTarget s \<Longrightarrow> spy_fresh p (refresh p s)"
  by (simp add: spy_fresh_def refresh_def Let_def)

lemma activate_fields [simp]:
  "spy_fresh p (activate t s) \<longleftrightarrow> offsets s = map fst (sort_key fst (sections p)) \<and>
     targets s = map snd (sort_key fst (sections p)) \<and> scrollHeight s = pageHeight p"
  "spy_offset (activate t s) = spy_offset s" "activeTarget (activate t s) = t"
  by (auto simp: activate_def spy_clear_def spy_fresh_def)

text \<open>The loop ends with the last section above the position, or leaves everything when there is none.\<close>

lemma spy_loop_marks:
  assumes "sorted (map fst found)" and passed_def: "passed = filter (\<lambda>x. fst x \<le> y) found"
  shows "spy_loop (length found) y (map fst found) (map snd found) active s =
    (if passed = [] \<or> active = Some (snd (last passed)) then s else activate (Some (snd (last passed))) s)"
proof (cases "passed = []")
  case True
  then have "\<not> spy_here y (map fst found) i" if "i < length found" for i
    using spy_here_iff [OF assms(1) that refl, of y, folded passed_def] True by simp
  then show ?thesis using True spy_loop_none by auto
next
  case False
  define j where "j = length passed - 1"
  have len: "length passed = Suc j" using False by (simp add: j_def)
  have j: "j < length found" using length_filter_le [of "\<lambda>x. fst x \<le> y" found] len unfolding passed_def by linarith
  have passed: "passed = take (Suc j) found" using sorted_filter_le [OF assms(1), of y] len by (simp add: passed_def)
  have "last passed = found ! j" using passed len j by (simp add: take_Suc_conv_app_nth)
  moreover have "spy_loop (length found) y (map fst found) (map snd found) active s =
      (if active \<noteq> Some (map snd found ! j) then activate (Some (map snd found ! j)) s else s)"
    using j len spy_here_iff [OF assms(1) _ refl, of _ y] by (intro spy_loop_one) (auto simp: passed_def)
  ultimately show ?thesis using j False by auto
qed

lemma none_passed:
  assumes "sorted (map fst found)" "found \<noteq> []"
  shows "filter (\<lambda>x. fst x \<le> (y::int)) found = [] \<longleftrightarrow> y < fst (hd found)"
proof -
  obtain x xs where found: "found = x # xs" using assms(2) by (cases found) auto
  have "fst x \<le> fst z" if "z \<in> set xs" for z using assms(1) that by (auto simp: found)
  then have "filter (\<lambda>x. fst x \<le> y) found = [] \<longleftrightarrow> \<not> fst x \<le> y"
    unfolding found filter_empty_conv by (metis (no_types, lifting) list.set_intros(1) order_trans set_ConsD)
  then show ?thesis by (simp add: found not_le)
qed

lemma process_right:
  assumes "spy_fresh p s" "sections p \<noteq> []"
  shows "spy_right p (spy_offset s) (process p s)"
proof -
  define found where "found = sort_key fst (sections p)"
  define passed where "passed = filter (\<lambda>x. fst x \<le> scrollTop p + spy_offset s) found"
  have srt: "sorted (map fst found)" by (simp add: found_def)
  have ne: "found \<noteq> []" using assms(2) by (metis found_def length_0_conv length_sort)
  have fr: "offsets s = map fst found" "targets s = map snd found" "scrollHeight s = pageHeight p"
    "marked s = activeTarget s" using assms(1) by (auto simp: spy_fresh_def found_def)
  have hd: "passed = [] \<longleftrightarrow> scrollTop p + spy_offset s < fst (hd found)"
    using none_passed [OF srt ne] by (simp add: passed_def)
  consider (bottom) "scrollTop p \<ge> pageHeight p - viewHeight p"
    | (inner) "\<not> scrollTop p \<ge> pageHeight p - viewHeight p" "passed = []" "activeTarget s \<noteq> None"
    | (loop) "\<not> scrollTop p \<ge> pageHeight p - viewHeight p" "passed \<noteq> [] \<or> activeTarget s = None" by blast
  then show ?thesis
  proof cases
    case bottom
    then show ?thesis using assms(1) ne fr
      by (auto simp: spy_right_def process_def Let_def section_at_def last_map simp flip: found_def)
  next
    case inner
    then have "scrollTop p + spy_offset s < hd (offsets s)" using hd ne fr by (simp add: hd_map)
    then have "process p s = spy_clear (s\<lparr>activeTarget := None\<rparr>)"
      using inner ne fr by (simp add: process_def Let_def)
    then show ?thesis using inner fr
      by (simp add: spy_right_def spy_fresh_def spy_clear_def section_at_def Let_def passed_def flip: found_def)
  next
    case loop
    have inner: "\<not> (activeTarget s \<noteq> None \<and> map fst found \<noteq> [] \<and> scrollTop p + spy_offset s < hd (map fst found))"
      using loop(2) hd ne by (auto simp: hd_map)
    have bottom: "\<not> scrollTop p + spy_offset s \<ge> spy_offset s + pageHeight p - viewHeight p" using loop(1) by linarith
    have "process p s = spy_loop (length found) (scrollTop p + spy_offset s) (map fst found) (map snd found) (activeTarget s) s"
      unfolding process_def Let_def fr(1-3) if_not_P [OF inner] if_not_P [OF bottom] by simp
    then have "process p s = (if passed = [] \<or> activeTarget s = Some (snd (last passed)) then s else activate (Some (snd (last passed))) s)"
      using spy_loop_marks [OF srt] by (simp add: passed_def)
    then show ?thesis using loop assms(1) fr ne
      by (auto simp: spy_right_def section_at_def Let_def simp flip: found_def passed_def)
  qed
qed

lemma process_right_scroll:
  "spy_right p off s \<Longrightarrow> sections p \<noteq> [] \<Longrightarrow> spy_right (p\<lparr>scrollTop := y\<rparr>) off (process (p\<lparr>scrollTop := y\<rparr>) s)"
  using process_right [of "p\<lparr>scrollTop := y\<rparr>" s] by (simp add: spy_right_def)

lemma spy_scrolls_snoc: "spy_scrolls p (ys @ [y]) s = process (p\<lparr>scrollTop := y\<rparr>) (spy_scrolls p ys s)"
  by (simp add: spy_scrolls_def)

lemma new_spy_right: "sections p \<noteq> [] \<Longrightarrow> spy_right p off (new_spy off p)"
  using process_right [of p "refresh p \<lparr>spy_offset = off, offsets = [], targets = [], activeTarget = None, scrollHeight = 0, marked = None\<rparr>"]
  by (simp add: new_spy_def spy_fresh_refresh) (simp add: refresh_def Let_def)

lemma spy_scrolls_right:
  assumes "sections p \<noteq> []"
  shows "spy_right (p\<lparr>scrollTop := last (scrollTop p # ys)\<rparr>) off (spy_scrolls p ys (new_spy off p))"
proof (induction ys rule: rev_induct)
  case Nil
  show ?case using new_spy_right [OF assms] by (simp add: spy_scrolls_def)
next
  case (snoc y ys)
  show ?case using process_right_scroll [OF snoc] assms by (simp add: spy_scrolls_snoc)
qed

text \<open>
  C36: while the sections stay where they are, after any scrolling the marked link and the active target are
  those of the last section at or above the position (plus the offset of the options), or of the last section
  of all at the end of the page, or none.
\<close>

theorem scrollspy_marks_section:
  assumes "sections p \<noteq> []"
  shows "activeTarget (spy_scrolls p ys (new_spy off p)) = section_at (p\<lparr>scrollTop := last (scrollTop p # ys)\<rparr>) off \<and>
    marked (spy_scrolls p ys (new_spy off p)) = activeTarget (spy_scrolls p ys (new_spy off p))"
  using spy_scrolls_right [OF assms, of ys off] by (auto simp: spy_right_def spy_fresh_def)

definition example_page :: "int \<Rightarrow> page" where
  "example_page y = \<lparr>scrollTop = y, pageHeight = 2000, viewHeight = 500,
     sections = [(700, ''#b''), (100, ''#a''), (1900, ''#c'')]\<rparr>"

theorem scrollspy_marks_section_witness:
  "activeTarget (spy_scrolls (example_page 0) [800, 1500, 300] (new_spy 10 (example_page 0))) = Some ''#a''"
  using scrollspy_marks_section [of "example_page 0" "[800, 1500, 300]" 10]
  by (simp add: example_page_def section_at_def Let_def)

text \<open>
  process reads the offsets and targets before it refreshes them. When the page has changed since, the
  event marks a link by the old offsets, and the right one only at the next event of scroll.
\<close>

definition changed_page :: page where
  "changed_page = \<lparr>scrollTop = 800, pageHeight = 3000, viewHeight = 500,
     sections = [(1700, ''#b''), (100, ''#a''), (2900, ''#c'')]\<rparr>"

theorem refreshed_offsets_come_late:
  "section_at changed_page 10 = Some ''#a'' \<and>
   activeTarget (process changed_page (new_spy 10 (example_page 0))) = Some ''#b'' \<and>
   activeTarget (process changed_page (process changed_page (new_spy 10 (example_page 0)))) = Some ''#a''"
  by code_simp

section \<open>One open menu\<close>

text \<open>
  The events of the menus: a click on a toggle, any other click with its button and the menu whose input
  it hits, and a key in a menu or on its toggle, with the focused item (or -1) and the number of items.
\<close>

datatype menu_event = ToggleClick nat | PageClick nat "nat option" | MenuKey nat nat bool nat int

definition menu_step :: "(nat \<Rightarrow> bool) \<Rightarrow> (nat \<Rightarrow> bool) \<Rightarrow> menu_event \<Rightarrow> menu list \<Rightarrow> menu list" where
  "menu_step veto_show veto_hide e ms =
     (case e of
        ToggleClick i \<Rightarrow> if i < length ms then menu_toggle veto_show veto_hide i ms else ms
      | PageClick which inside \<Rightarrow> clearMenus veto_hide which inside ms
      | MenuKey i which in_input n index \<Rightarrow>
          if i < length ms \<and> menu_keydown which in_input (menu_disabled (ms ! i)) (opened (ms ! i)) n index = ClickToggle
          then menu_toggle veto_show veto_hide i ms else ms)"

definition menu_run :: "(nat \<Rightarrow> bool) \<Rightarrow> menu_event list \<Rightarrow> menu list \<Rightarrow> menu list" where
  "menu_run veto_show es ms = foldl (\<lambda>ms e. menu_step veto_show (\<lambda>i. False) e ms) ms es"

definition open_menus :: "menu list \<Rightarrow> nat list" where
  "open_menus ms = filter (\<lambda>i. opened (ms ! i)) [0..<length ms]"

lemma length_clear_menus [simp]: "length (clear_menus v h i ms) = length ms"
  by (induction v h i ms rule: clear_menus.induct) simp_all

lemma clear_menus_disabled [simp]: "map menu_disabled (clear_menus v h i ms) = map menu_disabled ms"
  by (induction v h i ms rule: clear_menus.induct) simp_all

lemma clear_menus_keeps_closed: "j < length ms \<Longrightarrow> \<not> opened (ms ! j) \<Longrightarrow> \<not> opened (clear_menus v h i ms ! j)"
  by (induction v h i ms arbitrary: j rule: clear_menus.induct) (auto simp: nth_Cons split: nat.splits)

text \<open>When nothing vetoes and one menu at most is open, it stays open for a click into its input only.\<close>

lemma clear_menus_one:
  "\<forall>k<length ms. opened (ms ! k) \<longrightarrow> a = Some (i + k) \<Longrightarrow> j < length ms \<Longrightarrow>
   opened (clear_menus (\<lambda>i. False) h i ms ! j) \<longleftrightarrow> opened (ms ! j) \<and> h = Some (i + j)"
proof (induction ms arbitrary: h i j)
  case (Cons m ms)
  have rest: "\<forall>k<length ms. opened (ms ! k) \<longrightarrow> a = Some (Suc i + k)" using Cons.prems(1) by force
  show ?case
  proof (cases "opened m")
    case False
    then show ?thesis using Cons.IH [OF rest] Cons.prems(2) by (cases j) auto
  next
    case True
    then have "a = Some i" using Cons.prems(1) by force
    then have "\<not> opened (ms ! k)" if "k < length ms" for k using rest that by auto
    then have "\<not> opened (clear_menus (\<lambda>i. False) h' (Suc i) ms ! k)" "\<not> opened (ms ! k)" if "k < length ms" for k h'
      using that clear_menus_keeps_closed by blast+
    then show ?thesis using True Cons.prems(2) by (cases j) auto
  qed
qed simp

text \<open>The machine that the menus implement: which menu is open. A menu opens alone and a second toggle closes it.\<close>

definition open_toggle :: "(nat \<Rightarrow> bool) \<Rightarrow> (nat \<Rightarrow> bool) \<Rightarrow> nat \<Rightarrow> nat option \<Rightarrow> nat option" where
  "open_toggle veto_show dis i a = (if dis i then a else if a = Some i \<or> veto_show i then None else Some i)"

definition open_step :: "(nat \<Rightarrow> bool) \<Rightarrow> (nat \<Rightarrow> bool) \<Rightarrow> nat \<Rightarrow> nat option \<Rightarrow> menu_event \<Rightarrow> nat option" where
  "open_step veto_show dis n a e =
     (case e of
        ToggleClick i \<Rightarrow> if i < n then open_toggle veto_show dis i a else a
      | PageClick which inside \<Rightarrow> if which = 3 \<or> inside = a then a else None
      | MenuKey i which in_input items index \<Rightarrow>
          if i < n \<and> is_menu_key which \<and> \<not> in_input \<and> (a = Some i \<longleftrightarrow> which = 27) then open_toggle veto_show dis i a else a)"

definition menu_abs :: "(nat \<Rightarrow> bool) \<Rightarrow> nat \<Rightarrow> menu list \<Rightarrow> nat option \<Rightarrow> bool" where
  "menu_abs dis n ms a \<longleftrightarrow> length ms = n \<and> (\<forall>j<n. menu_disabled (ms ! j) = dis j \<and> (opened (ms ! j) \<longleftrightarrow> a = Some j))
     \<and> (\<forall>j. a = Some j \<longrightarrow> j < n)"

lemma clear_menus_abs:
  assumes "menu_abs dis n ms a"
  shows "menu_abs dis n (clear_menus (\<lambda>i. False) h 0 ms) (if h = a then a else None)"
proof -
  have len: "length ms = n" and bound: "\<And>j. a = Some j \<Longrightarrow> j < n"
    and nth: "\<And>j. j < n \<Longrightarrow> menu_disabled (ms ! j) = dis j" "\<And>j. j < n \<Longrightarrow> opened (ms ! j) \<longleftrightarrow> a = Some j"
    using assms by (auto simp: menu_abs_def)
  have "opened (clear_menus (\<lambda>i. False) h 0 ms ! j) \<longleftrightarrow> a = Some j \<and> h = Some j" if "j < n" for j
    using clear_menus_one [of ms a 0 j h] that len nth(2) by simp
  moreover have "menu_disabled (clear_menus (\<lambda>i. False) h 0 ms ! j) = dis j" if "j < n" for j
    using that len nth(1) nth_map [of j ms menu_disabled] nth_map [of j "clear_menus (\<lambda>i. False) h 0 ms" menu_disabled]
    by (simp del: nth_map)
  ultimately show ?thesis using len bound by (auto simp: menu_abs_def)
qed

lemma menu_toggle_abs:
  assumes abs: "menu_abs dis n ms a" and i: "i < n"
  shows "menu_abs dis n (menu_toggle veto_show (\<lambda>i. False) i ms) (open_toggle veto_show dis i a)"
proof -
  have here: "menu_disabled (ms ! i) = dis i" "opened (ms ! i) \<longleftrightarrow> a = Some i" using assms by (auto simp: menu_abs_def)
  have cleared: "menu_abs dis n (clear_menus (\<lambda>i. False) None 0 ms) None"
    using clear_menus_abs [OF abs, of None] by (simp split: if_splits)
  then show ?thesis using abs here i
    by (auto simp: menu_toggle_def open_toggle_def Let_def) (auto simp: menu_abs_def nth_list_update)
qed

lemma menu_step_abs:
  assumes "menu_abs dis n ms a"
  shows "menu_abs dis n (menu_step veto_show (\<lambda>i. False) e ms) (open_step veto_show dis n a e)"
proof (cases e)
  case (ToggleClick i)
  then show ?thesis using assms menu_toggle_abs [OF assms, of i veto_show]
    by (simp add: menu_step_def open_step_def) (simp add: menu_abs_def)
next
  case (PageClick which inside)
  then show ?thesis using assms clear_menus_abs [OF assms, of inside]
    by (auto simp: menu_step_def open_step_def clearMenus_def)
next
  case (MenuKey i which in_input items index)
  have "length ms = n" using assms by (simp add: menu_abs_def)
  moreover have "i < n \<Longrightarrow> menu_disabled (ms ! i) = dis i \<and> opened (ms ! i) = (a = Some i)"
    using assms by (simp add: menu_abs_def)
  moreover have "menu_keydown which in_input d op items index = ClickToggle \<longleftrightarrow>
      is_menu_key which \<and> \<not> in_input \<and> \<not> d \<and> (op \<longleftrightarrow> which = 27)" for d op
    by (auto simp: menu_keydown_def Let_def)
  moreover have "dis i \<Longrightarrow> open_toggle veto_show dis i a = a" by (simp add: open_toggle_def)
  ultimately show ?thesis using MenuKey assms menu_toggle_abs [OF assms, of i veto_show]
    by (auto simp: menu_step_def open_step_def)
qed

lemma menu_run_abs:
  "menu_abs dis n ms a \<Longrightarrow> menu_abs dis n (menu_run veto_show es ms) (foldl (open_step veto_show dis n) a es)"
  by (induction es arbitrary: ms a) (simp_all add: menu_run_def menu_step_abs)

lemma filter_upt_one: "i < n \<Longrightarrow> filter (\<lambda>j. j = i) [0..<n] = [i]"
  by (induction n) (auto simp: less_Suc_eq filter_empty_conv)

lemma open_menus_abs: "menu_abs dis n ms a \<Longrightarrow> open_menus ms = (case a of None \<Rightarrow> [] | Some i \<Rightarrow> [i])"
proof (cases a)
  case None
  assume "menu_abs dis n ms a"
  with None show ?thesis by (auto simp: open_menus_def menu_abs_def filter_empty_conv)
next
  case (Some i)
  assume abs: "menu_abs dis n ms a"
  then have "open_menus ms = filter (\<lambda>j. j = i) [0..<n]"
    unfolding open_menus_def using Some by (intro filter_cong) (auto simp: menu_abs_def)
  also have "\<dots> = [i]" using abs Some filter_upt_one by (simp add: menu_abs_def)
  finally show ?thesis using Some by simp
qed


definition three_menus :: "menu list" where
  "three_menus = replicate 3 \<lparr>opened = False, menu_disabled = False, aria_expanded = False\<rparr>"


text \<open>
  clearMenus overwrites its argument with the event it triggers. After a menu whose hiding is vetoed, the
  click into the input of a later menu is not recognized any more and closes that menu.
\<close>

theorem vetoed_menu_hides_the_click:
  "map opened (clearMenus (\<lambda>i. i = 0) 1 (Some 1) (map (\<lambda>b. \<lparr>opened = b, menu_disabled = False, aria_expanded = b\<rparr>) [True, True]))
     = [True, False] \<and>
   map opened (clearMenus (\<lambda>i. i = 0) 1 (Some 1) (map (\<lambda>b. \<lparr>opened = b, menu_disabled = False, aria_expanded = b\<rparr>) [False, True]))
     = [False, True]"
  by code_simp

end
