(* ===== verification/Bs_Tooltip.thy ===== *)
theory Bs_Tooltip
  imports Bs_Transition Complex_Main
begin

text \<open>
  The tooltip plugin of bootstrap.js: where the tip is placed in its viewport, over the reals, and how hovering,
  focus, clicks, delays and transitions show and hide it. The texts of the tip, the function destroy and the
  delegation to a selector are left out.
\<close>

section \<open>Placement\<close>

text \<open>What getPosition reads of an element; the position of the tip itself is a pair.\<close>

record rect =
  r_top :: real
  r_left :: real
  r_width :: real
  r_height :: real
  r_right :: real
  r_bottom :: real
  r_scroll :: real

record tip_pos =
  t_top :: real
  t_left :: real

definition mentions :: "string \<Rightarrow> string \<Rightarrow> bool" where
  "mentions w p \<longleftrightarrow> index_of_str p w > -1"

definition getCalculatedOffset :: "string \<Rightarrow> rect \<Rightarrow> real \<Rightarrow> real \<Rightarrow> tip_pos" where
  "getCalculatedOffset placement pos w h =
     (if placement = ''bottom'' then \<lparr>t_top = r_top pos + r_height pos, t_left = r_left pos + r_width pos / 2 - w / 2\<rparr>
      else if placement = ''top'' then \<lparr>t_top = r_top pos - h, t_left = r_left pos + r_width pos / 2 - w / 2\<rparr>
      else if placement = ''left'' then \<lparr>t_top = r_top pos + r_height pos / 2 - h / 2, t_left = r_left pos - w\<rparr>
      else \<lparr>t_top = r_top pos + r_height pos / 2 - h / 2, t_left = r_left pos + r_width pos\<rparr>)"

text \<open>The side that an automatic placement takes: the opposite one when the tip would leave the viewport.\<close>

definition auto_side :: "string \<Rightarrow> rect \<Rightarrow> rect \<Rightarrow> real \<Rightarrow> real \<Rightarrow> string" where
  "auto_side placement pos vp w h =
     (if placement = ''bottom'' \<and> r_bottom pos + h > r_bottom vp then ''top''
      else if placement = ''top'' \<and> r_top pos - h < r_top vp then ''bottom''
      else if placement = ''right'' \<and> r_right pos + w > r_width vp then ''left''
      else if placement = ''left'' \<and> r_left pos - w < r_left vp then ''right''
      else placement)"

text \<open>The viewport is None where the option is false; the padding is 0 where it has none.\<close>

definition getViewportAdjustedDelta :: "rect option \<Rightarrow> real \<Rightarrow> string \<Rightarrow> tip_pos \<Rightarrow> real \<Rightarrow> real \<Rightarrow> tip_pos" where
  "getViewportAdjustedDelta viewport padding placement pos w h =
     (case viewport of
        None \<Rightarrow> \<lparr>t_top = 0, t_left = 0\<rparr>
      | Some v \<Rightarrow>
          if mentions ''right'' placement \<or> mentions ''left'' placement then
            (let topEdge = t_top pos - padding - r_scroll v;
                 bottomEdge = t_top pos + padding - r_scroll v + h in
             if topEdge < r_top v then \<lparr>t_top = r_top v - topEdge, t_left = 0\<rparr>
             else if bottomEdge > r_top v + r_height v then \<lparr>t_top = r_top v + r_height v - bottomEdge, t_left = 0\<rparr>
             else \<lparr>t_top = 0, t_left = 0\<rparr>)
          else
            (let leftEdge = t_left pos - padding;
                 rightEdge = t_left pos + padding + w in
             if leftEdge < r_left v then \<lparr>t_top = 0, t_left = r_left v - leftEdge\<rparr>
             else if rightEdge > r_right v then \<lparr>t_top = 0, t_left = r_left v + r_width v - rightEdge\<rparr>
             else \<lparr>t_top = 0, t_left = 0\<rparr>))"

text \<open>
  The sizes that applyPlacement reads: before the class in, after it, and after the tip is moved; and its
  margins, 0 where the browser gives no number.
\<close>

record tip_sizes =
  width0 :: real
  height0 :: real
  width1 :: real
  height1 :: real
  width2 :: real
  height2 :: real
  marginTop :: real
  marginLeft :: real

record placed =
  tip_at :: tip_pos
  arrow_percent :: real
  arrow_vertical :: bool     \<comment> \<open>the percentage is the arrow's left, else its top\<close>

definition replaceArrow :: "real \<Rightarrow> real \<Rightarrow> real" where
  "replaceArrow delta dimension = 50 * (1 - delta / dimension)"

definition shift_tip :: "tip_pos \<Rightarrow> tip_pos \<Rightarrow> tip_pos" where
  "shift_tip delta pos =
     (if t_left delta \<noteq> 0 then pos\<lparr>t_left := t_left pos + t_left delta\<rparr> else pos\<lparr>t_top := t_top pos + t_top delta\<rparr>)"

definition applyPlacement :: "rect option \<Rightarrow> real \<Rightarrow> string \<Rightarrow> tip_sizes \<Rightarrow> tip_pos \<Rightarrow> placed" where
  "applyPlacement viewport padding placement z pos =
     (let pos1 = \<lparr>t_top = t_top pos + marginTop z, t_left = t_left pos + marginLeft z\<rparr>;
          pos2 = (if placement = ''top'' \<and> height1 z \<noteq> height0 z then pos1\<lparr>t_top := t_top pos1 + height0 z - height1 z\<rparr> else pos1);
          delta = getViewportAdjustedDelta viewport padding placement pos2 (width1 z) (height1 z);
          isVertical = (mentions ''top'' placement \<or> mentions ''bottom'' placement);
          arrowDelta = (if isVertical then t_left delta * 2 - width0 z + width1 z else t_top delta * 2 - height0 z + height1 z) in
      \<lparr>tip_at = shift_tip delta pos2,
       arrow_percent = replaceArrow arrowDelta (if isVertical then width2 z else height2 z),
       arrow_vertical = isVertical\<rparr>)"

text \<open>The part of show that computes.\<close>

definition place_tip :: "bool \<Rightarrow> rect \<Rightarrow> rect \<Rightarrow> rect option \<Rightarrow> real \<Rightarrow> string \<Rightarrow> tip_sizes \<Rightarrow> placed" where
  "place_tip autoPlace pos viewportDim viewport padding placement z =
     (let side = (if autoPlace then auto_side placement pos viewportDim (width0 z) (height0 z) else placement) in
      applyPlacement viewport padding side z (getCalculatedOffset side pos (width0 z) (height0 z)))"

definition sides :: "string list" where
  "sides = [''top'', ''bottom'', ''left'', ''right'']"

lemma mentions_sides:
  "mentions ''top'' ''top''" "\<not> mentions ''bottom'' ''top''" "\<not> mentions ''left'' ''top''" "\<not> mentions ''right'' ''top''"
  "mentions ''bottom'' ''bottom''" "\<not> mentions ''left'' ''bottom''" "\<not> mentions ''right'' ''bottom''"
  "\<not> mentions ''top'' ''left''" "\<not> mentions ''bottom'' ''left''" "mentions ''left'' ''left''"
  "\<not> mentions ''top'' ''right''" "\<not> mentions ''bottom'' ''right''" "mentions ''right'' ''right''"
  by code_simp+

lemma side_cases:
  assumes "p \<in> set sides"
  obtains "p = ''top''" | "p = ''bottom''" | "p = ''left''" | "p = ''right''"
  using assms by (auto simp: sides_def)

lemma auto_side_sides: "p \<in> set sides \<Longrightarrow> auto_side p pos vp w h \<in> set sides"
  by (auto simp: auto_side_def sides_def)

text \<open>The point of the tip that the arrow is at, along its side.\<close>

definition arrow_at :: "tip_sizes \<Rightarrow> placed \<Rightarrow> real" where
  "arrow_at z p = (if arrow_vertical p then t_left (tip_at p) + arrow_percent p * width2 z / 100
     else t_top (tip_at p) + arrow_percent p * height2 z / 100)"

definition middle_of :: "rect \<Rightarrow> tip_sizes \<Rightarrow> placed \<Rightarrow> real" where
  "middle_of pos z p = (if arrow_vertical p then r_left pos + r_width pos / 2 + marginLeft z
     else r_top pos + r_height pos / 2 + marginTop z)"

lemma replaceArrow_at: "d \<noteq> 0 \<Longrightarrow> replaceArrow delta d * d / 100 = (d - delta) / 2"
  by (simp add: replaceArrow_def field_simps)

lemma delta_one_way:
  "mentions ''right'' p \<or> mentions ''left'' p \<Longrightarrow> t_left (getViewportAdjustedDelta v padding p pos w h) = 0"
  "\<not> (mentions ''right'' p \<or> mentions ''left'' p) \<Longrightarrow> t_top (getViewportAdjustedDelta v padding p pos w h) = 0"
  by (auto simp: getViewportAdjustedDelta_def Let_def split: option.split)

lemma shift_left: "t_top delta = 0 \<Longrightarrow> shift_tip delta pos = pos\<lparr>t_left := t_left pos + t_left delta\<rparr>"
  and shift_top: "t_left delta = 0 \<Longrightarrow> shift_tip delta pos = pos\<lparr>t_top := t_top pos + t_top delta\<rparr>"
  by (simp_all add: shift_tip_def)

section \<open>Showing and hiding\<close>

text \<open>
  A tip that waits: hoverState is 'in', 'out' or null; of the timers that enter and leave start, at most one is
  pending, for each clears the one before. \<open>tip_in\<close> and \<open>tip_fade\<close> are classes of the tip, \<open>attached\<close> says
  whether it is in the document, \<open>described\<close> whether the element has aria-describedby. The listeners of the
  events show and hide prevent them or not.
\<close>

datatype hover = HoverIn | HoverOut
datatype tip_callback = TipShown | TipHidden
datatype delayed = DelayShow | DelayHide
datatype trigger_kind = Hover | Focus

record tooltip = "(unit, tip_callback) trans" +
  tip_transition :: bool     \<comment> \<open>$.support.transition\<close>
  animation :: bool
  delay_show :: nat
  delay_hide :: nat
  enabled :: bool
  has_content :: bool
  in_document :: bool
  veto_show :: bool
  veto_hide :: bool
  in_click :: bool
  in_hover :: bool
  in_focus :: bool
  hoverState :: "hover option"
  timeout :: "delayed option"
  tip_in :: bool
  tip_fade :: bool
  attached :: bool
  described :: bool

definition isInStateTrue :: "tooltip \<Rightarrow> bool" where
  "isInStateTrue s \<longleftrightarrow> in_click s \<or> in_hover s \<or> in_focus s"

definition hide_complete :: "tooltip \<Rightarrow> tooltip" where
  "hide_complete s = s\<lparr>attached := attached s \<and> hoverState s = Some HoverIn, described := False\<rparr>"

definition tip_hide :: "tooltip \<Rightarrow> tooltip" where
  "tip_hide s =
     (if veto_hide s then s
      else
        (let s1 = s\<lparr>tip_in := False\<rparr>;
             s2 = (if tip_transition s1 \<and> tip_fade s1 then await [()] TipHidden s1 else hide_complete s1) in
         s2\<lparr>hoverState := None\<rparr>))"

text \<open>enter and leave on the object itself, after the flags are set.\<close>

definition tip_leave :: "tooltip \<Rightarrow> tooltip" where
  "tip_leave s =
     (if isInStateTrue s then s
      else
        (let s1 = s\<lparr>timeout := None, hoverState := Some HoverOut\<rparr> in
         if delay_hide s = 0 then tip_hide s1 else s1\<lparr>timeout := Some DelayHide\<rparr>))"

definition show_complete :: "tooltip \<Rightarrow> tooltip" where
  "show_complete s =
     (let prevHoverState = hoverState s; s1 = s\<lparr>hoverState := None\<rparr> in
      if prevHoverState = Some HoverOut then tip_leave s1 else s1)"

definition tip_show :: "tooltip \<Rightarrow> tooltip" where
  "tip_show s =
     (if \<not> (has_content s \<and> enabled s) then s
      else if veto_show s \<or> \<not> in_document s then s
      else
        (let s1 = s\<lparr>tip_in := True, tip_fade := animation s, attached := True, described := True\<rparr> in
         if tip_transition s1 \<and> tip_fade s1 then await [()] TipShown s1 else show_complete s1))"

definition tip_enter :: "tooltip \<Rightarrow> tooltip" where
  "tip_enter s =
     (if tip_in s \<or> hoverState s = Some HoverIn then s\<lparr>hoverState := Some HoverIn\<rparr>
      else
        (let s1 = s\<lparr>timeout := None, hoverState := Some HoverIn\<rparr> in
         if delay_show s = 0 then tip_show s1 else s1\<lparr>timeout := Some DelayShow\<rparr>))"

definition set_in_state :: "trigger_kind \<Rightarrow> bool \<Rightarrow> tooltip \<Rightarrow> tooltip" where
  "set_in_state k b s = (case k of Hover \<Rightarrow> s\<lparr>in_hover := b\<rparr> | Focus \<Rightarrow> s\<lparr>in_focus := b\<rparr>)"

text \<open>toggle, as the listener of clicks and called without an event.\<close>

definition tip_click :: "tooltip \<Rightarrow> tooltip" where
  "tip_click s = (let s1 = s\<lparr>in_click := \<not> in_click s\<rparr> in if isInStateTrue s1 then tip_enter s1 else tip_leave s1)"

definition tip_toggle :: "tooltip \<Rightarrow> tooltip" where
  "tip_toggle s = (if tip_in s then tip_leave s else tip_enter s)"

definition toggleEnabled :: "tooltip \<Rightarrow> tooltip" where
  "toggleEnabled s = s\<lparr>enabled := \<not> enabled s\<rparr>"

definition delay_over :: "tooltip \<Rightarrow> tooltip" where
  "delay_over s =
     (case timeout s of
        None \<Rightarrow> s
      | Some DelayShow \<Rightarrow> (let s1 = s\<lparr>timeout := None\<rparr> in if hoverState s = Some HoverIn then tip_show s1 else s1)
      | Some DelayHide \<Rightarrow> (let s1 = s\<lparr>timeout := None\<rparr> in if hoverState s = Some HoverOut then tip_hide s1 else s1))"

fun tip_run :: "tip_callback \<Rightarrow> tooltip \<Rightarrow> tooltip" where
  "tip_run TipShown s = show_complete s"
| "tip_run TipHidden s = hide_complete s"

datatype tip_trigger = Enter trigger_kind | Leave trigger_kind | ClickTip

fun tip_triggered :: "tip_trigger \<Rightarrow> tooltip \<Rightarrow> tooltip" where
  "tip_triggered (Enter k) s = tip_enter (set_in_state k True s)"
| "tip_triggered (Leave k) s = tip_leave (set_in_state k False s)"
| "tip_triggered ClickTip s = tip_click s"

datatype tip_input = Trigger tip_trigger | DelayOver | TipEnds "unit tevent"
  | CallTipShow | CallTipHide | CallTipToggle | CallToggleEnabled

fun tip_step :: "tip_input \<Rightarrow> tooltip \<Rightarrow> tooltip" where
  "tip_step (Trigger t) s = tip_triggered t s"
| "tip_step DelayOver s = delay_over s"
| "tip_step (TipEnds e) s = tevent_run tip_run e s"
| "tip_step CallTipShow s = tip_show s"
| "tip_step CallTipHide s = tip_hide s"
| "tip_step CallTipToggle s = tip_toggle s"
| "tip_step CallToggleEnabled s = toggleEnabled s"

definition new_tooltip :: "bool \<Rightarrow> bool \<Rightarrow> nat \<Rightarrow> nat \<Rightarrow> tooltip" where
  "new_tooltip tr anim ds dh =
     \<lparr>bound = [], timers = [], called = (\<lambda>_. False), next_called = 0, tip_transition = tr, animation = anim,
      delay_show = ds, delay_hide = dh, enabled = True, has_content = True, in_document = True, veto_show = False,
      veto_hide = False, in_click = False, in_hover = False, in_focus = False, hoverState = None, timeout = None,
      tip_in = False, tip_fade = False, attached = False, described = False\<rparr>"

section \<open>The tip follows its triggers\<close>

text \<open>Triggers that come when no transition runs; delays and transitions end at any time.\<close>

inductive tip_reaches :: "tooltip \<Rightarrow> tooltip \<Rightarrow> bool" for s0 where
  reaches_start: "tip_reaches s0 s0"
| reaches_trigger: "tip_reaches s0 s \<Longrightarrow> runs s = [] \<Longrightarrow> tip_reaches s0 (tip_triggered t s)"
| reaches_delay: "tip_reaches s0 s \<Longrightarrow> tip_reaches s0 (delay_over s)"
| reaches_end: "tip_reaches s0 s \<Longrightarrow> tip_reaches s0 (tevent_run tip_run e s)"

text \<open>The phases of a tip that is enabled, in the document, and prevented by nobody.\<close>

definition tip_waits :: "tooltip \<Rightarrow> bool" where
  "tip_waits s \<longleftrightarrow> attached s = tip_in s \<and> described s = tip_in s \<and>
     (case timeout s of
        None \<Rightarrow> tip_in s = isInStateTrue s \<and> hoverState s \<noteq> Some HoverOut \<and> (hoverState s = Some HoverIn \<longrightarrow> tip_in s)
      | Some DelayShow \<Rightarrow> hoverState s = Some HoverIn \<and> isInStateTrue s \<and> \<not> tip_in s
      | Some DelayHide \<Rightarrow> hoverState s = Some HoverOut \<and> \<not> isInStateTrue s
          \<or> hoverState s = Some HoverIn \<and> isInStateTrue s \<and> tip_in s)"

definition tip_appears :: "tooltip \<Rightarrow> bool" where
  "tip_appears s \<longleftrightarrow> timeout s = None \<and> hoverState s = Some HoverIn \<and> tip_in s \<and> attached s \<and> described s \<and> isInStateTrue s"

definition tip_vanishes :: "tooltip \<Rightarrow> bool" where
  "tip_vanishes s \<longleftrightarrow> timeout s = None \<and> hoverState s = None \<and> \<not> tip_in s \<and> \<not> isInStateTrue s"

definition tip_ok :: "tooltip \<Rightarrow> bool" where
  "tip_ok s \<longleftrightarrow> trans_wf s \<and> enabled s \<and> has_content s \<and> in_document s \<and> \<not> veto_show s \<and> \<not> veto_hide s \<and>
     (runs s = [] \<and> tip_waits s \<or> runs s = [((), Run TipShown)] \<and> tip_appears s \<or> runs s = [((), Run TipHidden)] \<and> tip_vanishes s)"

text \<open>A state in which nothing runs, waiting or about to be decided by a call of show or hide.\<close>

definition tip_free :: "tooltip \<Rightarrow> bool" where
  "tip_free s \<longleftrightarrow> trans_wf s \<and> enabled s \<and> has_content s \<and> in_document s \<and> \<not> veto_show s \<and> \<not> veto_hide s \<and> runs s = []
     \<and> attached s = tip_in s \<and> described s = tip_in s"

lemma runs_same: "bound s' = bound s \<Longrightarrow> runs s' = runs s"
  by (simp add: runs_def)

lemma wf_same: "bound s' = bound s \<Longrightarrow> timers s' = timers s \<Longrightarrow> called s' = called s \<Longrightarrow> next_called s' = next_called s
    \<Longrightarrow> trans_wf s \<Longrightarrow> trans_wf s'"
  by (rule wf_same_trans) (simp_all add: same_trans_def)

lemma await_tip [simp]:
  "tip_transition (await ts c s) = tip_transition s" "animation (await ts c s) = animation s" "enabled (await ts c s) = enabled s"
  "has_content (await ts c s) = has_content s" "in_document (await ts c s) = in_document s" "veto_show (await ts c s) = veto_show s"
  "veto_hide (await ts c s) = veto_hide s" "in_click (await ts c s) = in_click s" "in_hover (await ts c s) = in_hover s"
  "in_focus (await ts c s) = in_focus s" "hoverState (await ts c s) = hoverState s" "timeout (await ts c s) = timeout s"
  "tip_in (await ts c s) = tip_in s" "attached (await ts c s) = attached s" "described (await ts c s) = described s"
  by (simp_all add: await_def emulateTransitionEnd_def bind_one_def Let_def)

lemma tip_hide_ok:
  assumes "tip_free s" "timeout s = None" "hoverState s = Some HoverOut" "\<not> isInStateTrue s"
  shows "tip_ok (tip_hide s)"
proof (cases "tip_transition s \<and> tip_fade s")
  case True
  define s1 where "s1 = s\<lparr>tip_in := False\<rparr>"
  have "trans_wf (await [()] TipHidden s1)"
    by (rule await_wf, rule wf_same [of _ s]) (use assms(1) in \<open>simp_all add: s1_def tip_free_def\<close>)
  then have "trans_wf ((await [()] TipHidden s1)\<lparr>hoverState := None\<rparr>)" by (rule wf_same [rotated 4]) simp_all
  moreover have "tip_hide s = (await [()] TipHidden s1)\<lparr>hoverState := None\<rparr>"
    using assms(1) True by (simp add: tip_hide_def s1_def tip_free_def)
  moreover have "runs ((await [()] TipHidden s1)\<lparr>hoverState := None\<rparr>) = [((), Run TipHidden)]"
    using assms(1) runs_same [of "(await [()] TipHidden s1)\<lparr>hoverState := None\<rparr>" "await [()] TipHidden s1"] runs_same [of s1 s]
    by (simp add: tip_free_def s1_def)
  ultimately show ?thesis using assms
    by (simp add: tip_ok_def tip_free_def tip_vanishes_def isInStateTrue_def s1_def)
next
  case False
  then have h: "tip_hide s = s\<lparr>tip_in := False, attached := False, described := False, hoverState := None\<rparr>"
    using assms(1,3) by (auto simp: tip_hide_def tip_free_def hide_complete_def)
  have "trans_wf (tip_hide s)" by (rule wf_same [of _ s]) (use assms(1) in \<open>simp_all add: h tip_free_def\<close>)
  moreover have "runs (tip_hide s) = []" using runs_same [of "tip_hide s" s] assms(1) by (simp add: h tip_free_def)
  ultimately show ?thesis using assms
    by (simp add: tip_ok_def tip_waits_def h) (simp add: tip_free_def isInStateTrue_def)
qed

lemma tip_show_ok:
  assumes "tip_free s" "timeout s = None" "hoverState s = Some HoverIn" "isInStateTrue s"
  shows "tip_ok (tip_show s)"
proof (cases "tip_transition s \<and> animation s")
  case True
  define s1 where "s1 = s\<lparr>tip_in := True, tip_fade := animation s, attached := True, described := True\<rparr>"
  have "trans_wf (await [()] TipShown s1)"
    by (rule await_wf, rule wf_same [of _ s]) (use assms(1) in \<open>simp_all add: s1_def tip_free_def\<close>)
  moreover have "tip_show s = await [()] TipShown s1"
    using assms(1) True by (simp add: tip_show_def s1_def tip_free_def)
  moreover have "runs (await [()] TipShown s1) = [((), Run TipShown)]"
    using assms(1) runs_same [of s1 s] by (simp add: tip_free_def s1_def)
  ultimately show ?thesis using assms
    by (simp add: tip_ok_def tip_free_def tip_appears_def isInStateTrue_def s1_def)
next
  case False
  then have h: "tip_show s = s\<lparr>tip_in := True, tip_fade := animation s, attached := True, described := True, hoverState := None\<rparr>"
    using assms(1,3) by (auto simp: tip_show_def tip_free_def show_complete_def)
  have "trans_wf (tip_show s)" by (rule wf_same [of _ s]) (use assms(1) in \<open>simp_all add: h tip_free_def\<close>)
  moreover have "runs (tip_show s) = []" using runs_same [of "tip_show s" s] assms(1) by (simp add: h tip_free_def)
  ultimately show ?thesis using assms
    by (simp add: tip_ok_def tip_waits_def h) (simp add: tip_free_def isInStateTrue_def)
qed

text \<open>A change of the flags and timers alone.\<close>

lemma tip_free_same:
  assumes "tip_free s" "same_trans s s'" "enabled s' = enabled s" "has_content s' = has_content s" "in_document s' = in_document s"
    "veto_show s' = veto_show s" "veto_hide s' = veto_hide s" "attached s' = attached s" "tip_in s' = tip_in s" "described s' = described s"
  shows "tip_free s'"
  using assms(1,3-) wf_same_trans [OF assms(2)] runs_same [of s' s] assms(2)
  by (simp add: tip_free_def same_trans_def)

lemma tip_leave_ok:
  assumes "tip_free s" "if isInStateTrue s then tip_waits s else True"
  shows "tip_ok (tip_leave s)"
proof (cases "isInStateTrue s")
  case True
  with assms show ?thesis by (simp add: tip_leave_def tip_ok_def tip_free_def)
next
  case False
  define s1 where "s1 = s\<lparr>timeout := None, hoverState := Some HoverOut\<rparr>"
  have f: "tip_free s1" by (rule tip_free_same [OF assms(1)]) (simp_all add: s1_def same_trans_def)
  show ?thesis
  proof (cases "delay_hide s = 0")
    case True
    with False have "tip_leave s = tip_hide s1" by (simp add: tip_leave_def s1_def)
    moreover have "tip_ok (tip_hide s1)" by (rule tip_hide_ok [OF f]) (use False in \<open>simp_all add: s1_def isInStateTrue_def\<close>)
    ultimately show ?thesis by simp
  next
    case False
    define s2 where "s2 = s1\<lparr>timeout := Some DelayHide\<rparr>"
    have "tip_free s2" by (rule tip_free_same [OF f]) (simp_all add: s2_def same_trans_def)
    moreover have "tip_leave s = s2" using False \<open>\<not> isInStateTrue s\<close> by (simp add: tip_leave_def s1_def s2_def)
    ultimately show ?thesis using \<open>\<not> isInStateTrue s\<close>
      by (simp add: tip_ok_def tip_free_def) (simp add: tip_waits_def s2_def s1_def isInStateTrue_def)
  qed
qed

lemma tip_enter_ok:
  assumes "tip_free s" "isInStateTrue s" "tip_in s \<or> hoverState s = Some HoverIn \<Longrightarrow> tip_waits (s\<lparr>hoverState := Some HoverIn\<rparr>)"
  shows "tip_ok (tip_enter s)"
proof (cases "tip_in s \<or> hoverState s = Some HoverIn")
  case True
  define s1 where "s1 = s\<lparr>hoverState := Some HoverIn\<rparr>"
  have "tip_free s1" by (rule tip_free_same [OF assms(1)]) (simp_all add: s1_def same_trans_def)
  with assms(3) [OF True] True show ?thesis unfolding tip_ok_def tip_free_def by (simp add: tip_enter_def s1_def)
next
  case False
  define s1 where "s1 = s\<lparr>timeout := None, hoverState := Some HoverIn\<rparr>"
  have f: "tip_free s1" by (rule tip_free_same [OF assms(1)]) (simp_all add: s1_def same_trans_def)
  show ?thesis
  proof (cases "delay_show s = 0")
    case True
    with False have "tip_enter s = tip_show s1" by (simp add: tip_enter_def s1_def)
    moreover have "tip_ok (tip_show s1)" by (rule tip_show_ok [OF f]) (use assms(2) in \<open>simp_all add: s1_def isInStateTrue_def\<close>)
    ultimately show ?thesis by simp
  next
    case delay: False
    define s2 where "s2 = s1\<lparr>timeout := Some DelayShow\<rparr>"
    have "tip_free s2" by (rule tip_free_same [OF f]) (simp_all add: s2_def same_trans_def)
    moreover have "tip_enter s = s2" using False delay by (simp add: tip_enter_def s1_def s2_def)
    ultimately show ?thesis using False assms(1,2)
      by (simp add: tip_ok_def tip_free_def) (simp add: tip_waits_def s2_def s1_def isInStateTrue_def)
  qed
qed

lemma tip_ok_free: "tip_ok s \<Longrightarrow> runs s = [] \<Longrightarrow> tip_free s \<and> tip_waits s"
  by (simp add: tip_ok_def tip_free_def tip_waits_def)

lemma set_in_state_free: "tip_free s \<Longrightarrow> tip_free (set_in_state k b s)"
  by (erule tip_free_same) (simp_all add: set_in_state_def same_trans_def split: trigger_kind.split)

text \<open>A state that differs from a waiting one in its flags.\<close>

definition same_tip :: "tooltip \<Rightarrow> tooltip \<Rightarrow> bool" where
  "same_tip s s' \<longleftrightarrow> attached s' = attached s \<and> described s' = described s \<and> tip_in s' = tip_in s \<and> timeout s' = timeout s
     \<and> hoverState s' = hoverState s"

lemma waits_entered:
  assumes "tip_waits s" "same_tip s s'" "isInStateTrue s'" "tip_in s' \<or> hoverState s' = Some HoverIn"
  shows "tip_waits (s'\<lparr>hoverState := Some HoverIn\<rparr>)"
proof -
  have i: "isInStateTrue (s'\<lparr>hoverState := Some HoverIn\<rparr>)" using assms(3) by (simp add: isInStateTrue_def)
  show ?thesis
  proof (cases "timeout s")
    case None
    with assms i show ?thesis by (auto simp: tip_waits_def same_tip_def)
  next
    case (Some d)
    with assms i show ?thesis by (cases d) (auto simp: tip_waits_def same_tip_def)
  qed
qed

lemma waits_same:
  assumes "same_tip s s'" "isInStateTrue s' = isInStateTrue s"
  shows "tip_waits s' = tip_waits s"
proof (cases "timeout s")
  case None
  with assms show ?thesis by (simp add: tip_waits_def same_tip_def)
next
  case (Some d)
  with assms show ?thesis by (cases d) (simp_all add: tip_waits_def same_tip_def)
qed

lemma same_tip_set [simp]: "same_tip s (set_in_state k b s)" "same_tip s (s\<lparr>in_click := b\<rparr>)"
  by (cases k; simp add: same_tip_def set_in_state_def)+

lemma triggered_ok:
  assumes "tip_ok s" "runs s = []"
  shows "tip_ok (tip_triggered t s)"
proof (cases t)
  case (Enter k)
  have f: "tip_free s" "tip_waits s" using tip_ok_free [OF assms] by simp_all
  have i: "isInStateTrue (set_in_state k True s)" by (simp add: set_in_state_def isInStateTrue_def split: trigger_kind.split)
  have "tip_ok (tip_enter (set_in_state k True s))"
    by (rule tip_enter_ok [OF set_in_state_free [OF f(1)] i], rule waits_entered [OF f(2) _ i]) simp_all
  with Enter show ?thesis by simp
next
  case (Leave k)
  have f: "tip_free s" "tip_waits s" using tip_ok_free [OF assms] by simp_all
  have "tip_waits (set_in_state k False s)" if i: "isInStateTrue (set_in_state k False s)"
  proof -
    have "isInStateTrue s" using i by (cases k) (auto simp: set_in_state_def isInStateTrue_def)
    with waits_same [of s "set_in_state k False s"] i f(2) show ?thesis by simp
  qed
  then have "tip_ok (tip_leave (set_in_state k False s))" by (intro tip_leave_ok set_in_state_free f(1)) simp
  with Leave show ?thesis by simp
next
  case ClickTip
  have f: "tip_free s" "tip_waits s" using tip_ok_free [OF assms] by simp_all
  define s1 where "s1 = s\<lparr>in_click := \<not> in_click s\<rparr>"
  have f1: "tip_free s1" by (rule tip_free_same [OF f(1)]) (simp_all add: s1_def same_trans_def)
  have "tip_ok (if isInStateTrue s1 then tip_enter s1 else tip_leave s1)"
  proof (cases "isInStateTrue s1")
    case True
    have "tip_ok (tip_enter s1)"
      by (rule tip_enter_ok [OF f1 True], rule waits_entered [OF f(2) _ True]) (simp_all add: s1_def)
    with True show ?thesis by simp
  next
    case False
    with tip_leave_ok [OF f1] show ?thesis by simp
  qed
  then show ?thesis unfolding ClickTip by (simp only: tip_triggered.simps tip_click_def Let_def s1_def)
qed

lemma delay_ok:
  assumes "tip_ok s"
  shows "tip_ok (delay_over s)"
proof (cases "timeout s")
  case None
  with assms show ?thesis by (simp add: delay_over_def)
next
  case (Some d)
  with assms have r: "runs s = []" by (auto simp: tip_ok_def tip_appears_def tip_vanishes_def)
  have f: "tip_free s" "tip_waits s" using tip_ok_free [OF assms r] by simp_all
  define s1 where "s1 = s\<lparr>timeout := None\<rparr>"
  have f1: "tip_free s1" by (rule tip_free_same [OF f(1)]) (simp_all add: s1_def same_trans_def)
  have t1: "timeout s1 = None" "hoverState s1 = hoverState s" "isInStateTrue s1 = isInStateTrue s" "tip_in s1 = tip_in s"
    by (simp_all add: s1_def isInStateTrue_def)
  show ?thesis
  proof (cases "d = DelayHide \<and> hoverState s = Some HoverIn")
    case True
    with Some have "delay_over s = s1" by (simp add: delay_over_def s1_def)
    moreover have "tip_waits s1" using f(2) True Some t1 by (simp add: tip_waits_def) (simp add: s1_def)
    ultimately show ?thesis using f1 by (simp add: tip_ok_def tip_free_def)
  next
    case False
    show ?thesis
    proof (cases d)
      case DelayShow
      with Some f(2) have h: "hoverState s = Some HoverIn" "isInStateTrue s" by (simp_all add: tip_waits_def)
      then have "delay_over s = tip_show s1" using Some DelayShow by (simp add: delay_over_def s1_def)
      with tip_show_ok [OF f1] t1 h show ?thesis by simp
    next
      case DelayHide
      with Some f(2) False have h: "hoverState s = Some HoverOut" "\<not> isInStateTrue s" by (auto simp: tip_waits_def)
      then have "delay_over s = tip_hide s1" using Some DelayHide by (simp add: delay_over_def s1_def)
      with tip_hide_ok [OF f1] t1 h show ?thesis by simp
    qed
  qed
qed

lemma transition_end_tip:
  "attached (snd (transition_end t s)) = attached s" "described (snd (transition_end t s)) = described s"
  "tip_in (snd (transition_end t s)) = tip_in s" "timeout (snd (transition_end t s)) = timeout s"
  "hoverState (snd (transition_end t s)) = hoverState s" "isInStateTrue (snd (transition_end t s)) = isInStateTrue s"
  "enabled (snd (transition_end t s)) = enabled s" "has_content (snd (transition_end t s)) = has_content s"
  "in_document (snd (transition_end t s)) = in_document s" "veto_show (snd (transition_end t s)) = veto_show s"
  "veto_hide (snd (transition_end t s)) = veto_hide s"
  by (simp_all add: transition_end_def Let_def isInStateTrue_def)

lemma tip_ok_end:
  assumes "tip_ok s"
  shows "tip_ok (fire_end tip_run t s)"
proof -
  define e where "e = snd (transition_end t s)"
  have w: "trans_wf e" unfolding e_def by (rule transition_end_wf) (use assms in \<open>simp add: tip_ok_def\<close>)
  have r: "runs e = []" using assms by (auto simp: e_def tip_ok_def)
  note eq = transition_end_tip [of t s, folded e_def]
  consider (waits) "runs s = []" "tip_waits s" | (appears) "runs s = [((), Run TipShown)]" "tip_appears s"
    | (vanishes) "runs s = [((), Run TipHidden)]" "tip_vanishes s" using assms by (auto simp: tip_ok_def)
  then show ?thesis
  proof cases
    case waits
    then have "fire_end tip_run t s = e" by (simp add: fire_end_runs e_def)
    moreover have "tip_waits e" using waits_same [of s e] waits eq by (simp add: same_tip_def)
    ultimately show ?thesis using w r eq assms by (simp add: tip_ok_def)
  next
    case appears
    then have "fire_end tip_run t s = show_complete e" by (simp add: fire_end_runs e_def)
    moreover have "show_complete e = e\<lparr>hoverState := None\<rparr>"
      using appears(2) eq by (simp add: show_complete_def tip_appears_def)
    moreover have "trans_wf (e\<lparr>hoverState := None\<rparr>)" by (rule wf_same [OF _ _ _ _ w]) simp_all
    moreover have "runs (e\<lparr>hoverState := None\<rparr>) = []" using runs_same [of "e\<lparr>hoverState := None\<rparr>" e] r by simp
    ultimately show ?thesis using appears eq assms
      by (simp add: tip_ok_def tip_waits_def tip_appears_def) (simp add: isInStateTrue_def)
  next
    case vanishes
    then have "fire_end tip_run t s = hide_complete e" by (simp add: fire_end_runs e_def)
    moreover have "hide_complete e = e\<lparr>attached := False, described := False\<rparr>"
      using vanishes(2) eq by (simp add: hide_complete_def tip_vanishes_def)
    moreover have "trans_wf (e\<lparr>attached := False, described := False\<rparr>)" by (rule wf_same [OF _ _ _ _ w]) simp_all
    moreover have "runs (e\<lparr>attached := False, described := False\<rparr>) = []"
      using runs_same [of "e\<lparr>attached := False, described := False\<rparr>" e] r by simp
    ultimately show ?thesis using vanishes eq assms
      by (simp add: tip_ok_def tip_waits_def tip_vanishes_def) (simp add: isInStateTrue_def)
  qed
qed

lemma tip_hide_called:
  "next_called s \<le> next_called (tip_hide s) \<and> (n < next_called s \<longrightarrow> called (tip_hide s) n = called s n)"
  by (simp add: tip_hide_def hide_complete_def Let_def)

lemma tip_leave_called:
  "next_called s \<le> next_called (tip_leave s) \<and> (n < next_called s \<longrightarrow> called (tip_leave s) n = called s n)"
  using tip_hide_called [of "s\<lparr>timeout := None, hoverState := Some HoverOut\<rparr>" n] by (simp add: tip_leave_def Let_def)

interpretation tip: transition_client tip_run tip_ok
proof unfold_locales
  fix s t c n
  show "tip_ok s \<Longrightarrow> trans_wf s" by (simp add: tip_ok_def)
  show "tip_ok s \<Longrightarrow> tip_ok (fire_end tip_run t s)" by (rule tip_ok_end)
  show "tip_ok (s\<lparr>timers := filter (\<lambda>x. fst x \<noteq> n) (timers s)\<rparr>)" if "tip_ok s" "called s n"
  proof -
    define s1 where "s1 = s\<lparr>timers := filter (\<lambda>x. fst x \<noteq> n) (timers s)\<rparr>"
    have "trans_wf s1" unfolding s1_def using that by (intro timer_removed_wf) (simp_all add: tip_ok_def)
    moreover have "runs s1 = runs s" by (rule runs_same) (simp add: s1_def)
    moreover have "tip_waits s1 = tip_waits s" by (rule waits_same) (simp_all add: s1_def same_tip_def isInStateTrue_def)
    moreover have "tip_appears s1 = tip_appears s" "tip_vanishes s1 = tip_vanishes s"
      by (simp_all add: s1_def tip_appears_def tip_vanishes_def isInStateTrue_def)
    ultimately have "tip_ok s1" using that(1) unfolding tip_ok_def by (simp add: s1_def)
    then show ?thesis by (simp add: s1_def)
  qed
  show "next_called s \<le> next_called (tip_run c s) \<and> (n < next_called s \<longrightarrow> called (tip_run c s) n = called s n)"
    using tip_leave_called [of "s\<lparr>hoverState := None\<rparr>" n]
    by (cases c) (simp_all add: show_complete_def hide_complete_def Let_def)
qed

lemma new_tooltip_ok: "tip_ok (new_tooltip tr anim ds dh)"
  by (simp add: tip_ok_def new_tooltip_def trans_wf_def tip_waits_def isInStateTrue_def runs_def)

lemma reaches_ok: "tip_reaches s0 s \<Longrightarrow> tip_ok s0 \<Longrightarrow> tip_ok s"
  by (induction rule: tip_reaches.induct) (simp_all add: triggered_ok delay_ok tip.ok_tevent)

section \<open>Properties\<close>



text \<open>The viewport of the examples: 400 wide; the element is near its right edge.\<close>

definition example_rect :: "real \<Rightarrow> real \<Rightarrow> rect" where
  "example_rect l w = \<lparr>r_top = 0, r_left = l, r_width = w, r_height = 300, r_right = l + w, r_bottom = 300, r_scroll = 0\<rparr>"

definition example_sizes :: tip_sizes where
  "example_sizes = \<lparr>width0 = 100, height0 = 20, width1 = 120, height1 = 20, width2 = 120, height2 = 20, marginTop = 0, marginLeft = 0\<rparr>"



text \<open>
  C31: when triggers come only after the transitions of the last ones have ended, a tip that has come to rest, no
  delay or transition pending, is in the document, visible and referred to exactly when the element is hovered,
  focused or clicked on, whatever the delays are and in whatever order the timers and transitions ended.
\<close>

theorem tip_follows_triggers:
  assumes "tip_reaches (new_tooltip tr anim ds dh) s" "runs s = []" "timeout s = None"
  shows "attached s = isInStateTrue s \<and> tip_in s = isInStateTrue s \<and> described s = isInStateTrue s"
  using tip_ok_free [OF reaches_ok [OF assms(1) new_tooltip_ok] assms(2)] assms(3) by (simp add: tip_waits_def)

theorem tip_follows_triggers_witness:
  "attached (tip_triggered (Enter Focus) (tevent_run tip_run (TimerOf 0) (delay_over (tip_triggered (Enter Hover) (new_tooltip True True 5 0)))))"
    (is "attached ?s")
proof -
  have a: "runs (new_tooltip True True 5 0) = []"
    "runs (tevent_run tip_run (TimerOf 0) (delay_over (tip_triggered (Enter Hover) (new_tooltip True True 5 0)))) = []"
    "runs ?s = []" "timeout ?s = None" "isInStateTrue ?s" by code_simp+
  have "tip_reaches (new_tooltip True True 5 0) ?s"
    by (intro reaches_trigger reaches_end reaches_delay reaches_start a)
  from tip_follows_triggers [OF this a(3,4)] a(5) show ?thesis by simp
qed

text \<open>
  C40: a pointer that leaves and comes back during the transition of show: the callback of the first show clears
  hoverState, the one of hide then takes the tip out of the document. At rest the tip is gone although the
  element is hovered, and no other trigger brings it back, for its class in is still set.
\<close>

definition quick_return :: tooltip where
  "quick_return = fold tip_step [Trigger (Enter Hover), Trigger (Leave Hover), Trigger (Enter Hover), TipEnds (TimerOf 0)]
     (new_tooltip True True 0 0)"


text \<open>
  a pointer that comes back during the transition of hide: the callback of hide leaves the tip in the document
  but removes aria-describedby, which the show before it has set.
\<close>

theorem return_loses_description:
  "(let s = fold tip_step [Trigger (Enter Hover), TipEnds (TimerOf 0), Trigger (Leave Hover), Trigger (Enter Hover), TipEnds (TimerOf 1)]
        (new_tooltip True True 0 0) in
    runs s = [] \<and> timeout s = None \<and> attached s \<and> tip_in s \<and> \<not> described s)"
  by code_simp

end
