(* ===== verification/Bs_Tab.thy ===== *)
theory Bs_Tab
  imports Bs_Transition
begin

text \<open>
  The plugins tab and affix of bootstrap.js. Tabs are numbered; the item of a list and the pane that its link
  shows have the same number. Menus inside the list are left out. An affixed element is told by its state, with
  the measures of the page as a record that every event brings along.
\<close>

section \<open>Tabs\<close>

text \<open>The function next of a transition: the panes that were active and the one that is shown.\<close>

datatype tab_callback = TabNext "nat list" nat

record tabs = "(nat, tab_callback) trans" +
  n_tabs :: nat
  tab_transition :: bool                 \<comment> \<open>$.support.transition\<close>
  li_active :: "nat \<Rightarrow> bool"
  li_expanded :: "nat \<Rightarrow> bool"            \<comment> \<open>aria-expanded of the link\<close>
  pane_active :: "nat \<Rightarrow> bool"
  pane_in :: "nat \<Rightarrow> bool"
  pane_fade :: "nat \<Rightarrow> bool"

text \<open>activate for the list: without a callback there is no transition.\<close>

definition activate_item :: "nat \<Rightarrow> tabs \<Rightarrow> tabs" where
  "activate_item i s =
     (let act = filter (li_active s) [0..<n_tabs s] in
      s\<lparr>li_active := (\<lambda>j. j = i \<or> li_active s j \<and> j \<notin> set act),
        li_expanded := (\<lambda>j. j = i \<or> li_expanded s j \<and> j \<notin> set act)\<rparr>)"

definition tab_next :: "nat list \<Rightarrow> nat \<Rightarrow> bool \<Rightarrow> tabs \<Rightarrow> tabs" where
  "tab_next act i transition s =
     (let s1 = s\<lparr>pane_active := (\<lambda>j. j = i \<or> pane_active s j \<and> j \<notin> set act)\<rparr> in
      if transition then s1\<lparr>pane_in := (pane_in s1)(i := True)\<rparr> else s1\<lparr>pane_fade := (pane_fade s1)(i := False)\<rparr>)"

definition activate_pane :: "nat \<Rightarrow> tabs \<Rightarrow> tabs" where
  "activate_pane i s =
     (let act = filter (pane_active s) [0..<n_tabs s];
          transition = (tab_transition s \<and> (list_ex (pane_fade s) act \<or> list_ex (pane_fade s) [0..<n_tabs s]));
          s1 = (if act \<noteq> [] \<and> transition then await act (TabNext act i) s else tab_next act i transition s) in
      s1\<lparr>pane_in := (\<lambda>j. pane_in s1 j \<and> j \<notin> set act)\<rparr>)"

text \<open>Whether a listener of hide (of the tab before) or of show prevents is an argument.\<close>

definition tab_show :: "bool \<Rightarrow> nat \<Rightarrow> tabs \<Rightarrow> tabs" where
  "tab_show veto i s =
     (if li_active s i then s else if veto then s else activate_pane i (activate_item i s))"

fun tab_run :: "tab_callback \<Rightarrow> tabs \<Rightarrow> tabs" where
  "tab_run (TabNext act i) s = tab_next act i True s"

text \<open>A page whose tab \<open>c\<close> is shown.\<close>

definition new_tabs :: "nat \<Rightarrow> bool \<Rightarrow> bool \<Rightarrow> nat \<Rightarrow> tabs" where
  "new_tabs n tr fade c =
     \<lparr>bound = [], timers = [], called = (\<lambda>_. False), next_called = 0, n_tabs = n, tab_transition = tr,
      li_active = (\<lambda>j. j = c), li_expanded = (\<lambda>j. j = c), pane_active = (\<lambda>j. j = c), pane_in = (\<lambda>j. j = c),
      pane_fade = (\<lambda>_. fade)\<rparr>"

text \<open>Clicks that come when no transition runs, with the tab that was shown last; transitions end at any time.\<close>

inductive tabs_reach :: "tabs \<Rightarrow> nat \<Rightarrow> nat \<Rightarrow> tabs \<Rightarrow> bool" for s0 c0 where
  tabs_start: "tabs_reach s0 c0 c0 s0"
| tabs_click: "tabs_reach s0 c0 c s \<Longrightarrow> runs s = [] \<Longrightarrow> i < n_tabs s \<Longrightarrow> tabs_reach s0 c0 (if veto then c else i) (tab_show veto i s)"
| tabs_end: "tabs_reach s0 c0 c s \<Longrightarrow> tabs_reach s0 c0 c (tevent_run tab_run e s)"

text \<open>At rest the tab and its pane are active alone; during a transition the old pane still is.\<close>

definition tabs_ok :: "nat \<Rightarrow> tabs \<Rightarrow> bool" where
  "tabs_ok c s \<longleftrightarrow> trans_wf s \<and> c < n_tabs s \<and> li_active s = (\<lambda>j. j = c) \<and> li_expanded s = (\<lambda>j. j = c) \<and>
     (runs s = [] \<and> pane_active s = (\<lambda>j. j = c) \<or>
      (\<exists>a<n_tabs s. runs s = [(a, Run (TabNext [a] c))] \<and> pane_active s = (\<lambda>j. j = a)))"

lemma filter_upt_only: "c < n \<Longrightarrow> filter (\<lambda>j. j = c) [0..<n] = [c]"
  by (induction n) (auto simp: less_Suc_eq filter_empty_conv)

lemma tab_next_same: "same_trans s (tab_next act i tr s)"
  by (simp add: tab_next_def Let_def same_trans_def)

lemma await_tabs [simp]:
  "n_tabs (await ts c s) = n_tabs s" "li_active (await ts c s) = li_active s" "li_expanded (await ts c s) = li_expanded s"
  "pane_active (await ts c s) = pane_active s" "tab_transition (await ts c s) = tab_transition s"
  by (simp_all add: await_def emulateTransitionEnd_def bind_one_def Let_def)

lemma tab_next_tabs [simp]:
  "n_tabs (tab_next act i tr s) = n_tabs s" "li_active (tab_next act i tr s) = li_active s"
  "li_expanded (tab_next act i tr s) = li_expanded s"
  "pane_active (tab_next act i tr s) = (\<lambda>j. j = i \<or> pane_active s j \<and> j \<notin> set act)"
  by (simp_all add: tab_next_def Let_def)

lemma runs_of_bound: "bound s' = bound s \<Longrightarrow> runs s' = runs s"
  by (simp add: runs_def)

lemma tab_show_ok:
  assumes "tabs_ok c s" "runs s = []" "i < n_tabs s"
  shows "tabs_ok (if veto then c else i) (tab_show veto i s) \<and> n_tabs (tab_show veto i s) = n_tabs s"
proof (cases "veto \<or> i = c")
  case True
  with assms show ?thesis by (auto simp: tab_show_def tabs_ok_def)
next
  case False
  have s: "trans_wf s" "c < n_tabs s" "li_active s = (\<lambda>j. j = c)" "li_expanded s = (\<lambda>j. j = c)" "pane_active s = (\<lambda>j. j = c)"
    using assms(1,2) by (auto simp: tabs_ok_def)
  define s1 where "s1 = activate_item i s"
  have s1: "s1 = s\<lparr>li_active := (\<lambda>j. j = i), li_expanded := (\<lambda>j. j = i)\<rparr>"
    unfolding s1_def activate_item_def s(3,4) filter_upt_only [OF s(2)] Let_def by (auto simp: fun_eq_iff)
  define tr where "tr = (tab_transition s \<and> (list_ex (pane_fade s) [c] \<or> list_ex (pane_fade s) [0..<n_tabs s]))"
  define s2 where "s2 = (if tr then await [c] (TabNext [c] i) s1 else tab_next [c] i tr s1)"
  define s3 where "s3 = s2\<lparr>pane_in := (\<lambda>j. pane_in s2 j \<and> j \<notin> set [c])\<rparr>"
  have p1: "pane_active s1 = (\<lambda>j. j = c)" "n_tabs s1 = n_tabs s" by (simp_all add: s1 s(5))
  have "activate_pane i s1 = s3"
    unfolding activate_pane_def p1 filter_upt_only [OF s(2)] Let_def s3_def s2_def tr_def by (auto simp: s1)
  then have sh: "tab_show veto i s = s3" using False s(3) by (simp add: tab_show_def flip: s1_def)
  have w1: "trans_wf s1" by (rule wf_same_trans [OF _ s(1)]) (simp add: s1 same_trans_def)
  have r1: "runs s1 = []" using runs_of_bound [of s1 s] assms(2) by (simp add: s1)
  have "tabs_ok i s3 \<and> n_tabs s3 = n_tabs s"
  proof (cases tr)
    case True
    then have s2: "s2 = await [c] (TabNext [c] i) s1" by (simp add: s2_def)
    have "trans_wf s3" by (rule wf_same_trans [OF _ await_wf [OF w1]]) (simp add: s3_def s2 same_trans_def)
    moreover have "runs s3 = [(c, Run (TabNext [c] i))]" using runs_of_bound [of s3 s2] r1 by (simp add: s3_def s2)
    ultimately show ?thesis using assms(3) s(2) by (auto simp: tabs_ok_def s3_def s2 s1 s(5))
  next
    case False
    then have s2: "s2 = tab_next [c] i False s1" by (simp add: s2_def)
    have b: "same_trans s1 s3" using tab_next_same [of s1 "[c]" i False] by (simp add: s3_def s2 same_trans_def)
    have "trans_wf s3" by (rule wf_same_trans [OF b w1])
    moreover have "runs s3 = []" using runs_of_bound [of s3 s1] b r1 by (simp add: same_trans_def)
    ultimately show ?thesis using assms(3) s(2) by (auto simp: tabs_ok_def s3_def s2 s1 s(5))
  qed
  with False sh show ?thesis by simp
qed

lemma transition_end_tabs [simp]:
  "n_tabs (snd (transition_end t s)) = n_tabs s" "li_active (snd (transition_end t s)) = li_active s"
  "li_expanded (snd (transition_end t s)) = li_expanded s" "pane_active (snd (transition_end t s)) = pane_active s"
  by (simp_all add: transition_end_def Let_def)

lemma tabs_ok_end:
  assumes "tabs_ok c s"
  shows "tabs_ok c (fire_end tab_run t s)"
proof -
  define e where "e = snd (transition_end t s)"
  have w: "trans_wf e" unfolding e_def by (rule transition_end_wf) (use assms in \<open>simp add: tabs_ok_def\<close>)
  show ?thesis
  proof (cases "t \<in> fst ` set (runs s)")
    case True
    with assms obtain a where r: "runs s = [(a, Run (TabNext [a] c))]" "pane_active s = (\<lambda>j. j = a)" "t = a" "a < n_tabs s"
      by (auto simp: tabs_ok_def)
    define s' where "s' = tab_next [a] c True e"
    have "fire_end tab_run t s = s'" using r by (simp add: fire_end_runs e_def s'_def)
    moreover have "trans_wf s'" unfolding s'_def by (rule wf_same_trans [OF tab_next_same w])
    moreover have "runs s' = []" using runs_of_bound [of s' e] tab_next_same [of e "[a]" c True] r
      by (simp add: s'_def same_trans_def e_def)
    ultimately show ?thesis using assms r by (auto simp: tabs_ok_def s'_def e_def)
  next
    case False
    then have "filter (\<lambda>h. fst h = t) (runs s) = []" "filter (\<lambda>h. fst h \<noteq> t) (runs s) = runs s"
      by (force simp: filter_empty_conv filter_id_conv)+
    then have "fire_end tab_run t s = e" "runs e = runs s" by (simp_all add: fire_end_runs e_def)
    with assms w show ?thesis by (simp add: tabs_ok_def e_def)
  qed
qed

interpretation tab: transition_client tab_run "tabs_ok c" for c
proof unfold_locales
  fix s t cb n
  show "tabs_ok c s \<Longrightarrow> trans_wf s" by (simp add: tabs_ok_def)
  show "tabs_ok c s \<Longrightarrow> tabs_ok c (fire_end tab_run t s)" by (rule tabs_ok_end)
  show "tabs_ok c (s\<lparr>timers := filter (\<lambda>x. fst x \<noteq> n) (timers s)\<rparr>)" if "tabs_ok c s" "called s n"
    using that timer_removed_wf [of s n] runs_of_bound [of "s\<lparr>timers := filter (\<lambda>x. fst x \<noteq> n) (timers s)\<rparr>" s]
    by (simp add: tabs_ok_def)
  show "next_called s \<le> next_called (tab_run cb s) \<and> (n < next_called s \<longrightarrow> called (tab_run cb s) n = called s n)"
    using tab_next_same [of s] by (cases cb) (simp add: same_trans_def)
qed

lemma tabs_reach_ok: "tabs_reach s0 c0 c s \<Longrightarrow> tabs_ok c0 s0 \<Longrightarrow> tabs_ok c s"
  by (induction rule: tabs_reach.induct) (simp_all only: tab_show_ok tab.ok_tevent simp_thms)

lemma new_tabs_ok: "c < n \<Longrightarrow> tabs_ok c (new_tabs n tr fade c)"
  by (simp add: tabs_ok_def new_tabs_def trans_wf_def runs_def)

section \<open>Affix\<close>

datatype affix_state = AffixTop | AffixBottom | AffixFree   \<comment> \<open>'top', 'bottom' and false\<close>

text \<open>An offset is None where it is undefined; \<open>pinned_at\<close> is what getPinnedOffset would measure.\<close>

record measures =
  m_scrollTop :: int
  m_position :: int           \<comment> \<open>top of the offset of the element\<close>
  m_targetHeight :: int
  m_scrollHeight :: int
  m_height :: int
  offsetTop :: "int option"
  offsetBottom :: "int option"
  pinned_at :: int
  m_visible :: bool

record affix =
  affixed :: "affix_state option"
  unpin :: "int option"
  pinnedOffset :: "int option"
  affix_class :: "affix_state option"
  css_top :: "int option"     \<comment> \<open>the position that offset has set\<close>

text \<open>A comparison with undefined is false; null is read as 0 by the sum with unpin, which is a number at the bottom.\<close>

definition above_bottom :: "measures \<Rightarrow> int \<Rightarrow> bool" where
  "above_bottom m y \<longleftrightarrow> (case offsetBottom m of None \<Rightarrow> False | Some b \<Rightarrow> y \<le> m_scrollHeight m - b)"

definition below_bottom :: "measures \<Rightarrow> int \<Rightarrow> bool" where
  "below_bottom m y \<longleftrightarrow> (case offsetBottom m of None \<Rightarrow> False | Some b \<Rightarrow> y \<ge> m_scrollHeight m - b)"

definition getState :: "measures \<Rightarrow> affix \<Rightarrow> affix_state" where
  "getState m s =
     (if offsetTop m \<noteq> None \<and> affixed s = Some AffixTop then
        (if m_scrollTop m < the (offsetTop m) then AffixTop else AffixFree)
      else if affixed s = Some AffixBottom then
        (if offsetTop m \<noteq> None then
           (if m_scrollTop m + (case unpin s of None \<Rightarrow> 0 | Some u \<Rightarrow> u) \<le> m_position m then AffixFree else AffixBottom)
         else if above_bottom m (m_scrollTop m + m_targetHeight m) then AffixFree else AffixBottom)
      else
        (let initializing = (affixed s = None);
             colliderTop = (if initializing then m_scrollTop m else m_position m);
             colliderHeight = (if initializing then m_targetHeight m else m_height m) in
         if offsetTop m \<noteq> None \<and> m_scrollTop m \<le> the (offsetTop m) then AffixTop
         else if below_bottom m (colliderTop + colliderHeight) then AffixBottom
         else AffixFree))"

definition getPinnedOffset :: "measures \<Rightarrow> affix \<Rightarrow> int \<times> affix" where
  "getPinnedOffset m s =
     (if pinnedOffset s \<noteq> None \<and> pinnedOffset s \<noteq> Some 0 then (the (pinnedOffset s), s)
      else (pinned_at m, s\<lparr>pinnedOffset := Some (pinned_at m), affix_class := Some AffixFree\<rparr>))"

definition checkPosition :: "bool \<Rightarrow> measures \<Rightarrow> affix \<Rightarrow> affix" where
  "checkPosition veto m s =
     (if \<not> m_visible m then s
      else
        (let a = getState m s;
             pin = (\<lambda>s. if a = AffixBottom then s\<lparr>css_top := map_option (\<lambda>b. m_scrollHeight m - m_height m - b) (offsetBottom m)\<rparr> else s) in
         if affixed s = Some a then pin s
         else
           (let s1 = (if unpin s \<noteq> None then s\<lparr>css_top := None\<rparr> else s) in
            if veto then s1
            else
              (let s2 = s1\<lparr>affixed := Some a\<rparr>;
                   s3 = (if a = AffixBottom then (case getPinnedOffset m s2 of (p, s') \<Rightarrow> s'\<lparr>unpin := Some p\<rparr>) else s2\<lparr>unpin := None\<rparr>) in
               pin (s3\<lparr>affix_class := Some a\<rparr>)))))"

definition new_affix :: affix where
  "new_affix = \<lparr>affixed = None, unpin = None, pinnedOffset = None, affix_class = None, css_top = None\<rparr>"

definition scroll_affix :: "measures \<Rightarrow> int list \<Rightarrow> affix \<Rightarrow> affix" where
  "scroll_affix m ys s = foldl (\<lambda>s y. checkPosition False (m\<lparr>m_scrollTop := y\<rparr>) s) s ys"

text \<open>An element with an offset at the top only, which nobody prevents: the last scroll position decides.\<close>

definition affix_sane :: "affix \<Rightarrow> bool" where
  "affix_sane s \<longleftrightarrow> affixed s \<noteq> Some AffixBottom \<and> affix_class s = affixed s"

lemma check_top:
  assumes "affix_sane s" "m_visible m" "offsetTop m = Some t" "offsetBottom m = None"
  shows "affix_sane (checkPosition False m s)"
    "m_scrollTop m \<noteq> t \<Longrightarrow> affixed (checkPosition False m s) = Some (if m_scrollTop m < t then AffixTop else AffixFree)"
proof -
  have "getState m s \<noteq> AffixBottom" using assms by (auto simp: getState_def affix_sane_def below_bottom_def Let_def)
  moreover from this have c: "affixed (checkPosition False m s) = Some (getState m s)"
    using assms(2) by (simp add: checkPosition_def Let_def)
  ultimately show "affix_sane (checkPosition False m s)"
    using assms(1,2) by (auto simp: affix_sane_def checkPosition_def Let_def)
  show "affixed (checkPosition False m s) = Some (if m_scrollTop m < t then AffixTop else AffixFree)" if "m_scrollTop m \<noteq> t"
    unfolding c using assms that by (auto simp: getState_def affix_sane_def below_bottom_def Let_def)
qed

lemma scroll_sane:
  "affix_sane s \<Longrightarrow> m_visible m \<Longrightarrow> offsetTop m = Some t \<Longrightarrow> offsetBottom m = None \<Longrightarrow> affix_sane (scroll_affix m ys s)"
  by (induction ys arbitrary: s) (simp_all add: scroll_affix_def check_top(1))

section \<open>Properties\<close>

text \<open>
  C37: when clicks come only after the transition of the last one has ended, the tab clicked last (whose show was
  not prevented) is active with its link expanded, alone among the tabs, and at rest its pane is, alone among
  the panes.
\<close>

theorem tab_shows_one_pane:
  assumes "tabs_reach (new_tabs n tr fade c0) c0 c s" "c0 < n" "runs s = []"
  shows "li_active s = (\<lambda>j. j = c) \<and> li_expanded s = (\<lambda>j. j = c) \<and> pane_active s = (\<lambda>j. j = c)"
  using tabs_reach_ok [OF assms(1) new_tabs_ok [OF assms(2)]] assms(3) by (simp add: tabs_ok_def)

theorem tab_shows_one_pane_witness:
  "pane_active (tevent_run tab_run (TimerOf 0) (tab_show False 1 (new_tabs 3 True True 0))) 1"
proof -
  let ?s = "tevent_run tab_run (TimerOf 0) (tab_show False 1 (new_tabs 3 True True 0))"
  have a: "runs (new_tabs 3 True True 0) = []" "1 < n_tabs (new_tabs 3 True True 0)" "runs ?s = []" by code_simp+
  have "tabs_reach (new_tabs 3 True True 0) 0 (if False then 0 else 1) ?s"
    by (rule tabs_end, rule tabs_click [OF tabs_start a(1,2)])
  then have r: "tabs_reach (new_tabs 3 True True 0) 0 1 ?s" by simp
  from tab_shows_one_pane [OF r] a(3) show ?thesis by simp
qed

text \<open>
  two clicks on other tabs during one transition wait for the end of the same pane; both their panes are
  activated then, and stay active.
\<close>

theorem quick_tabs_leave_two_panes:
  "(let s = tevent_run tab_run (TimerOf 0) (tab_show False 2 (tab_show False 1 (new_tabs 3 True True 0))) in
    runs s = [] \<and> filter (li_active s) [0..<3] = [2] \<and> filter (pane_active s) [0..<3] = [1, 2] \<and> filter (pane_in s) [0..<3] = [1, 2])"
  by code_simp

text \<open>
  an element with an offset at the top is affixed after the last event of scroll exactly when the page is
  scrolled further than the offset, whatever the positions before, unless the two are equal.
\<close>

theorem affix_follows_scroll:
  assumes "m_visible m" "offsetTop m = Some t" "offsetBottom m = None" "y \<noteq> t"
  shows "affixed (scroll_affix m (ys @ [y]) new_affix) = Some (if y < t then AffixTop else AffixFree) \<and>
    affix_class (scroll_affix m (ys @ [y]) new_affix) = affixed (scroll_affix m (ys @ [y]) new_affix)"
proof -
  have s: "affix_sane (scroll_affix m zs new_affix)" for zs
    by (rule scroll_sane [OF _ assms(1-3)]) (simp add: affix_sane_def new_affix_def)
  have "scroll_affix m (ys @ [y]) new_affix = checkPosition False (m\<lparr>m_scrollTop := y\<rparr>) (scroll_affix m ys new_affix)"
    by (simp add: scroll_affix_def)
  with check_top(2) [OF s [of ys], of "m\<lparr>m_scrollTop := y\<rparr>" t] assms s [of "ys @ [y]"] show ?thesis
    by (simp add: affix_sane_def)
qed

definition example_measures :: measures where
  "example_measures = \<lparr>m_scrollTop = 0, m_position = 100, m_targetHeight = 500, m_scrollHeight = 2000, m_height = 50,
     offsetTop = Some 100, offsetBottom = None, pinned_at = 0, m_visible = True\<rparr>"

theorem affix_follows_scroll_witness:
  "affixed (scroll_affix example_measures ([50, 100] @ [150]) new_affix) = Some AffixFree"
  using affix_follows_scroll [of example_measures 100 150 "[50, 100]"] by (simp add: example_measures_def)

text \<open>
  scrolled exactly to the offset, the element is taken out of its state by every event: 'top' asks for a
  position below the offset to stay, the others for one at most the offset to get there.
\<close>

theorem affix_flickers:
  "map (\<lambda>n. affixed (scroll_affix example_measures (replicate n 100) new_affix)) [1, 2, 3, 4]
    = [Some AffixTop, Some AffixFree, Some AffixTop, Some AffixFree]"
  by code_simp

end
