(* ===== verification/Bs_Button.thy ===== *)
theory Bs_Button
  imports Js_Prelude
begin

text \<open>
  The plugin button of bootstrap.js: the states of a button with their texts, which are set in timeouts, and the
  toggling of buttons alone and in groups.
\<close>

section \<open>States\<close>

text \<open>
  \<open>bdata\<close> is the object that data() gives out: it is the object of the cache itself, so a value stored later is read
  by the timeout too. A timeout keeps the name of the text it will set.
\<close>

record button =
  is_input :: bool
  btext :: string                              \<comment> \<open>val() of an input, html() of other elements\<close>
  bdata :: "string \<rightharpoonup> string"
  boptions :: "string \<rightharpoonup> string"
  isLoading :: bool
  bdisabled :: bool                            \<comment> \<open>the class and the attribute disabled\<close>
  state_timeouts :: "string list"

definition setState :: "string \<Rightarrow> button \<Rightarrow> button" where
  "setState state b =
     (let key = state @ ''Text'';
          b1 = (if bdata b ''resetText'' = None then b\<lparr>bdata := (bdata b)(''resetText'' \<mapsto> btext b)\<rparr> else b) in
      b1\<lparr>state_timeouts := state_timeouts b1 @ [key]\<rparr>)"

text \<open>val(undefined) empties an input, html(undefined) leaves the element as it is.\<close>

definition set_text :: "string option \<Rightarrow> button \<Rightarrow> button" where
  "set_text v b = (case v of Some t \<Rightarrow> b\<lparr>btext := t\<rparr> | None \<Rightarrow> if is_input b then b\<lparr>btext := ''''\<rparr> else b)"

definition state_text :: "string \<Rightarrow> button \<Rightarrow> string option" where
  "state_text key b = (case bdata b key of None \<Rightarrow> boptions b key | Some t \<Rightarrow> Some t)"

definition apply_state :: "string \<Rightarrow> button \<Rightarrow> button" where
  "apply_state key b =
     (let b1 = set_text (state_text key b) b in
      if key = ''loadingText'' then b1\<lparr>isLoading := True, bdisabled := True\<rparr>
      else if isLoading b1 then b1\<lparr>isLoading := False, bdisabled := False\<rparr>
      else b1)"

definition fire_state :: "button \<Rightarrow> button" where
  "fire_state b = (case state_timeouts b of [] \<Rightarrow> b | key # rest \<Rightarrow> apply_state key (b\<lparr>state_timeouts := rest\<rparr>))"

datatype button_event = SetState string | StateTimeout

fun button_step :: "button_event \<Rightarrow> button \<Rightarrow> button" where
  "button_step (SetState state) b = setState state b"
| "button_step StateTimeout b = fire_state b"

definition new_button :: "bool \<Rightarrow> string \<Rightarrow> (string \<rightharpoonup> string) \<Rightarrow> (string \<rightharpoonup> string) \<Rightarrow> button" where
  "new_button inp t dat opts =
     \<lparr>is_input = inp, btext = t, bdata = dat, boptions = opts(''loadingText'' := Some (case opts ''loadingText'' of None \<Rightarrow> ''loading...'' | Some x \<Rightarrow> x)),
      isLoading = False, bdisabled = False, state_timeouts = []\<rparr>"

text \<open>Every timeout comes, in the order they were set.\<close>

definition drain :: "button \<Rightarrow> button" where
  "drain b = fold (\<lambda>_. fire_state) (state_timeouts b) b"

section \<open>Toggling\<close>

datatype button_kind = RadioButton | CheckboxButton | OtherButton

record group_button =
  kind :: button_kind
  is_active :: bool
  checked :: bool

text \<open>In a group: the buttons after the toggle and whether the input is told of a change.\<close>

definition toggle_in_group :: "nat \<Rightarrow> group_button list \<Rightarrow> bool \<times> group_button list" where
  "toggle_in_group i bs =
     (let b = bs ! i;
          changed = (case kind b of
             RadioButton \<Rightarrow> \<not> checked b
           | CheckboxButton \<Rightarrow> checked b = is_active b
           | OtherButton \<Rightarrow> True);
          bs1 = (case kind b of
             RadioButton \<Rightarrow> (map (\<lambda>b. b\<lparr>is_active := False\<rparr>) bs)[i := b\<lparr>is_active := True\<rparr>]
           | CheckboxButton \<Rightarrow> bs[i := b\<lparr>is_active := \<not> is_active b\<rparr>]
           | OtherButton \<Rightarrow> bs) in
      (changed, bs1[i := (bs1 ! i)\<lparr>checked := is_active (bs1 ! i)\<rparr>]))"

text \<open>Alone: the class active and aria-pressed.\<close>

definition toggle_alone :: "bool \<times> bool \<Rightarrow> bool \<times> bool" where
  "toggle_alone s = (case s of (active, pressed) \<Rightarrow> (\<not> active, \<not> active))"

section \<open>The text comes back\<close>

text \<open>
  The text of before is kept as resetText as soon as a state is set, and is the button's until a timeout fires;
  the button is disabled only while it is loading.
\<close>

definition keeps_text :: "string \<Rightarrow> button \<Rightarrow> bool" where
  "keeps_text t b \<longleftrightarrow> (bdata b ''resetText'' = Some t \<or> bdata b ''resetText'' = None \<and> btext b = t \<and> state_timeouts b = [])
     \<and> (bdisabled b \<longleftrightarrow> isLoading b)"

lemma setState_keeps: "keeps_text t b \<Longrightarrow> keeps_text t (setState st b)"
  by (auto simp: keeps_text_def setState_def Let_def)

lemma set_text_sel [simp]:
  "bdata (set_text v b) = bdata b" "isLoading (set_text v b) = isLoading b" "bdisabled (set_text v b) = bdisabled b"
  "state_timeouts (set_text v b) = state_timeouts b" "boptions (set_text v b) = boptions b"
  by (simp_all add: set_text_def split: option.split)

lemma apply_state_sel [simp]:
  "bdata (apply_state k b) = bdata b" "state_timeouts (apply_state k b) = state_timeouts b"
  by (simp_all add: apply_state_def Let_def)

lemma fire_state_keeps: "keeps_text t b \<Longrightarrow> keeps_text t (fire_state b)"
  by (cases "state_timeouts b") (auto simp: keeps_text_def fire_state_def apply_state_def Let_def)

lemma button_step_keeps: "keeps_text t b \<Longrightarrow> keeps_text t (button_step e b)"
  by (cases e) (simp_all add: setState_keeps fire_state_keeps)

lemma button_run_keeps: "keeps_text t b \<Longrightarrow> keeps_text t (fold button_step es b)"
  by (induction es arbitrary: b) (simp_all add: button_step_keeps)

lemma drain_keeps: "keeps_text t b \<Longrightarrow> keeps_text t (drain b)"
  unfolding drain_def by (induction "state_timeouts b" arbitrary: b rule: rev_induct)
    (metis fold_invariant fire_state_keeps)+

lemma drain_step: "state_timeouts b = key # rest \<Longrightarrow> drain b = drain (fire_state b)"
  by (simp add: drain_def fire_state_def)

text \<open>The last timeout decides.\<close>

lemma drain_last:
  "state_timeouts b = ks @ [k] \<Longrightarrow> \<exists>b'. drain b = apply_state k b' \<and> bdata b' = bdata b"
proof (induction ks arbitrary: b)
  case Nil
  then show ?case by (auto simp: drain_def fire_state_def intro!: exI [of _ "b\<lparr>state_timeouts := []\<rparr>"])
next
  case (Cons a ks)
  have "state_timeouts (fire_state b) = ks @ [k]" "bdata (fire_state b) = bdata b"
    using Cons.prems by (simp_all add: fire_state_def)
  with Cons.IH [of "fire_state b"] drain_step [of b a "ks @ [k]"] Cons.prems show ?case by simp
qed

section \<open>Properties\<close>

text \<open>
  whatever states were set before, and whichever of their timeouts have come, the state reset gives a button
  back the text it had at first, and it can be used again.
\<close>

theorem reset_restores_button:
  assumes "dat ''resetText'' = None"
  shows "btext (drain (setState ''reset'' (fold button_step es (new_button inp t dat opts)))) = t \<and>
    \<not> bdisabled (drain (setState ''reset'' (fold button_step es (new_button inp t dat opts))))"
proof -
  define b where "b = setState ''reset'' (fold button_step es (new_button inp t dat opts))"
  have "keeps_text t (new_button inp t dat opts)" using assms by (simp add: keeps_text_def new_button_def)
  then have k: "keeps_text t b" unfolding b_def by (intro setState_keeps button_run_keeps)
  have "state_timeouts b \<noteq> []" by (simp add: b_def setState_def Let_def)
  with k have r: "bdata b ''resetText'' = Some t" by (auto simp: keeps_text_def)
  have "\<exists>ks. state_timeouts b = ks @ [''resetText'']" by (simp add: b_def setState_def Let_def)
  then obtain b' where b': "drain b = apply_state ''resetText'' b'" "bdata b' = bdata b" using drain_last by blast
  have "state_text ''resetText'' b' = Some t" using r b'(2) by (simp add: state_text_def)
  then have "btext (drain b) = t" "\<not> isLoading (drain b)"
    unfolding b'(1) by (simp_all add: apply_state_def set_text_def Let_def)
  with drain_keeps [OF k] show ?thesis by (simp add: keeps_text_def flip: b_def)
qed

theorem reset_restores_button_witness:
  "btext (drain (setState ''reset'' (fold button_step [SetState ''loading'', StateTimeout, SetState ''done'']
     (new_button False ''Save'' Map.empty Map.empty)))) = ''Save''"
  using reset_restores_button [of Map.empty "[SetState ''loading'', StateTimeout, SetState ''done'']" False "''Save''" Map.empty]
  by simp

text \<open>After the toggle of a radio button it alone is active in its group; every toggled input is checked as it is active.\<close>

lemma toggle_in_group_active:
  assumes "i < length bs"
  shows "kind (bs ! i) = RadioButton \<Longrightarrow> j < length bs \<Longrightarrow> is_active (snd (toggle_in_group i bs) ! j) \<longleftrightarrow> j = i"
    "checked (snd (toggle_in_group i bs) ! i) = is_active (snd (toggle_in_group i bs) ! i)"
  using assms by (auto simp: toggle_in_group_def Let_def nth_list_update split: button_kind.split)

end
