(* ===== verification/Spec2Isabelle.thy ===== *)
theory Spec2Isabelle
  imports Core_Util Data_Store Fx_Queue Deferred Class_Names Attributes Serialize Ajax Event_Dispatch Fx_Order
    Selector_Match Selector_Filters Doc_Order Traversing Bs_Carousel Bs_Modal Bs_Collapse Bs_Menus
    Bs_Tooltip Bs_Tab Bs_Button
begin

text \<open>
  The browser side of the token service: the script library that the pages of its hosts load,
  jQuery 2.1.4 as the identity provider serves it
  (src/src/IdentityServer4.SupportIDP/wwwroot/lib/jquery/jquery.js, called jquery.js in the theories). It is
  the largest body of JavaScript in the repository that is loaded as source; the other hosts carry the
  same library in other versions. On it rest the plugins of Bootstrap 3.3.5
  (src/src/IdentityServer4.SupportIDP/wwwroot/lib/bootstrap/js/bootstrap.js).

  How the program is put together. Everything rests on the core utilities and on a private data store in
  which a node finds its data through a number. Callback lists (with the flags once, memory, unique,
  stopOnFalse) carry the deferreds; deferreds carry when, the ready state of the document, the promises of
  the queues and the requests of ajax. The queues of an element and its event handlers live in its private
  data. The attribute, property and value methods go through one function, access.

  \<^item> Js_Prelude: JavaScript values, the string functions of the language, objects as lists of own
    properties, and the facts about them that the other theories share.
  \<^item> Core_Util: type tests, extend on a heap of objects (with fuel for the nesting; a heap without cycles
    through plain objects needs no more than its depth), each, map, grep, merge, makeArray, inArray,
    camelCase, proxy and the methods of a matched set that rearrange it. Deep copies share nothing with
    their sources.
  \<^item> Data_Store: the class Data, data, removeData and the data attributes. The locale owner_store states
    what a store indexed by owner and name promises; the store of the library interprets it.
  \<^item> Callbacks and Callbacks_Fire: callback lists with re-entrant callbacks: a callback is a behaviour that
    calls the operations of any list. The engine runs with fuel; the theorems on one list say how much is
    enough. The locale one_shot is the contract of a list that fires once and remembers.
  \<^item> Fx_Queue: queues, their hooks, promise and delay, as a machine on a stack of tasks, which refines
    plain lists.
  \<^item> Deferred: deferreds, then, when and the ready state on the callback engine.
  \<^item> Class_Names: addClass, removeClass, toggleClass and hasClass against lists of names.
  \<^item> Attributes: attr, removeAttr, prop, val and access, with the hooks for booleans, types and selects.
  \<^item> Serialize: param, buildParams and serializeArray against a reader of the form encoding.
  \<^item> Ajax_Types: the registry of prefilters and transports, ajaxExtend, the choice and the conversion of
    responses, headers and URLs. The conversion loop need not end; it is a partial function, and its
    termination is a theorem with the condition under which it holds.
  \<^item> Ajax: one request from its settings to its completion, with arbitrary hooks and transports.
  \<^item> Event_Store and Event_Dispatch: the registration of event handlers, the queue of handlers for an event,
    dispatch and trigger. remove calls itself; the depth of the calls is bounded by fuel and two are enough
    for well-formed names.

  \<^item> Fx_Tween: easings (over the reals), tweens, genFx, speed and the filter that expands and renames animated
    properties.
  \<^item> Fx_Timers, Fx_Play and Fx_Order: animation objects with their deferred, tick and stop, the list of
    timers with its interval, and animate, stop, finish and delay over the queues of Fx_Queue, as a machine
    on a stack of tasks whose callbacks are arbitrary lists of such calls. The locale fx_invariant gives an
    invariant of the tasks to every run; Fx_Order proves that queued animations play in order.
  \<^item> Selector_Match: the selector engine from tokens to matchers, the combinators with the caches that they
    leave in the nodes, and the run over candidates, against a selector read without caches.
  \<^item> Selector_Filters: the filters for tags, classes, attributes and children by position, the pseudos about
    an element, the positional pseudos and the caches of limited size.
  \<^item> Doc_Order: trees of nodes with their pointers, the two comparisons by document order, contains and
    uniqueSort. A node is named by its way down from the root, and the lexicographic order of the ways is the
    order of a walk through the tree.
  \<^item> Traversing: parents, siblings, children and their relatives, closest, has and index: what they find and
    in which order.
  \<^item> Bs_Transition: the end of a CSS transition, its emulation by a timer, and callbacks bound to it once. A
    callback that is awaited runs exactly once in whatever order the end event and the timer come. The
    locale transition_client is the contract of what such a callback may change; the carousel and the modal
    interpret it.
  \<^item> Bs_Carousel: the carousel with its interval, its transitions and the calls of to that wait for a slide,
    as a machine on calls, events and timers. Exactly one item is active.
  \<^item> Bs_Modal: the modal with its backdrop, the handlers on the document and the padding of the body. It
    refines the machine of its six phases as long as show and hide are called in settled phases only; two
    theorems show what happens otherwise.
  \<^item> Bs_Collapse: the panels of an accordion, the instances of the plugin in their data, clicks and calls in
    any order. The invariant gives every panel one of four states, of which one panel at most is open or
    opening, when the panels are closed at first and no hide is prevented.
  \<^item> Bs_Menus: scrollspy, whose loop is shown to find the last section at or above the position, and
    dropdown with its keyboard, which refines the machine of the one open menu.
  \<^item> Bs_Tooltip: the placement of a tip, over the reals (the tip stays in its viewport and its arrow points to
    the middle of the element), and the machine of hovering, focus, clicks, delays and transitions. A tip at
    rest follows its triggers when they come between transitions; two theorems show what happens otherwise.
  \<^item> Bs_Tab: the tabs with the transition of their panes, and affix with its hysteresis.
  \<^item> Bs_Button: the states of a button with the text that comes back, and toggling in groups.

  What the groups of lemmas show: each component has an invariant or a reference definition. The properties
  are stated after the lemmas of their theory, under the heading Properties. Numbers are the integers and
  the NaN that the code computes with, and reals in the tweens, without their rounding; strings are lists of
  8-bit characters.

  Not modelled: of the selector engine, the native engine of the browser with its feature tests, the tokenizer
  and the set matchers that positional pseudos make of longer selectors; of the animations, show and hide and
  the conversion of units, which measure in the browser; of the rest of jquery.js, the building and moving of
  DOM nodes, the methods find, add and is, the transports of requests, styles and offsets; of bootstrap.js,
  alert and popover, the removal of tooltips, and the code that makes plugins from options and data attributes;
  jquery-validation; the stylesheets; and the services themselves, which are written in C# and run on the
  server. Exceptions that listeners throw are modelled in the callback engine only; a listener of a plugin's
  event prevents it or, where the theory says so, makes the calls that it is given.
\<close>

end
